(* ===== verification/Go_Prelude.thy ===== *)
theory Go_Prelude
  imports Main "HOL-Library.Word" "HOL-Library.AList"
begin

text \<open>
  The prelude of the development: Go's machine integers, the outcome of a Go call
  (a value, a panic, or no return at all), the counting loop over \<open>uint64\<close>, Go maps as
  association lists, and the generic facts the component theories share.
\<close>

section \<open>Automation collections\<close>

named_theorems raft_defs \<open>state-passing primitives of a Raft node, unfolded by the component proofs\<close>
named_theorems word_step \<open>facts on the successor of a 64-bit index\<close>

section \<open>Machine integers\<close>

type_synonym uint64 = "64 word"
type_synonym uint32 = "32 word"
type_synonym bytes = string

text \<open>Go's \<open>int64\<close> as an \<open>int\<close> in two's complement range; \<open>i64\<close> is the wrap-around.\<close>

definition i64 :: "int \<Rightarrow> int" where
  "i64 x = (x + 2 ^ 63) mod 2 ^ 64 - 2 ^ 63"

abbreviation max_int64 :: int where
  "max_int64 \<equiv> 2 ^ 63 - 1"

lemma i64_id [simp]: "- (2 ^ 63) \<le> x \<Longrightarrow> x < 2 ^ 63 \<Longrightarrow> i64 x = x"
  by (simp add: i64_def)

lemma i64_int: "n < 2 ^ 63 \<Longrightarrow> i64 (int n) = int n"
  by (rule i64_id) auto

section \<open>Outcomes of a call\<close>

text \<open>
  A Go call returns a value, panics, or never returns (a loop that does not end, a send or a
  receive that blocks for ever). Errors the code returns are ordinary values (\<open>Inl\<close>).
\<close>

datatype 'a outcome = Ret 'a | Panic string | Diverge

fun obind :: "'a outcome \<Rightarrow> ('a \<Rightarrow> 'b outcome) \<Rightarrow> 'b outcome" where
  "obind (Ret x) f = f x"
| "obind (Panic m) f = Panic m"
| "obind Diverge f = Diverge"

fun returns :: "'a outcome \<Rightarrow> bool" where
  "returns (Ret x) = True"
| "returns _ = False"

section \<open>The counting loop\<close>

text \<open>
  \<open>for i := lo; i <= hi; i++ { body }\<close> over \<open>uint64\<close>. When \<open>hi\<close> is the largest
  value, \<open>i++\<close> wraps to 0, the condition never fails and the loop does not end.
\<close>

function for_upto :: "uint64 \<Rightarrow> uint64 \<Rightarrow> (uint64 \<Rightarrow> 's \<Rightarrow> 's outcome) \<Rightarrow> 's \<Rightarrow> 's outcome" where
  "for_upto i hi body s =
     (if i \<le> hi
      then obind (body i s) (\<lambda>s'. if i = - 1 then Diverge else for_upto (i + 1) hi body s')
      else Ret s)"
  by pat_completeness auto

lemma unat_max_uint64 [simp]: "unat (- 1 :: uint64) = 18446744073709551615"
  by (simp add: unsigned_minus_1_eq_mask mask_eq_exp_minus_1)

lemma word_succ_unat [word_step]: "i \<noteq> - 1 \<Longrightarrow> unat (i + 1 :: uint64) = Suc (unat i)"
  by (metis unatSuc add.commute add_eq_0_iff)

termination for_upto
proof (relation "measure (\<lambda>(i :: uint64, hi :: uint64, body, s). 2 ^ 64 - unat i)", goal_cases)
  case 1
  show ?case by simp
next
  case (2 i hi body s x)
  have "unat i < 2 ^ 64" using unsigned_less [of i] by simp
  with 2 show ?case by (simp add: word_succ_unat diff_less_mono2)
qed

declare for_upto.simps [simp del]

lemma word_succ_le [word_step]: "i \<noteq> - 1 \<Longrightarrow> (i + 1 \<le> (j :: uint64)) = (i < j)"
  by (simp add: word_le_nat_alt word_less_nat_alt word_succ_unat Suc_le_eq)

lemma word_less_succ [word_step]: "i \<noteq> - 1 \<Longrightarrow> ((j :: uint64) < i + 1) = (j \<le> i)"
  by (simp add: word_le_nat_alt word_less_nat_alt word_succ_unat less_Suc_eq_le)

lemma word_less_not_max [word_step]: "(i :: uint64) < j \<Longrightarrow> i \<noteq> - 1"
  by auto

lemma word_interval_pop [word_step]: "(a :: uint64) < b \<Longrightarrow> {a..b} - {a} = {a + 1..b}"
  by (auto simp: word_succ_le word_less_not_max)

lemma word_interval_snoc [word_step]: "(a :: uint64) \<le> b \<Longrightarrow> b \<noteq> - 1 \<Longrightarrow> {a..b + 1} = insert (b + 1) {a..b}"
  by (auto simp: word_less_succ word_succ_le order.order_iff_strict [of _ "b + 1"] dest: order.strict_implies_order)

lemma for_upto_done: "hi < i \<Longrightarrow> for_upto i hi body s = Ret s"
  by (subst for_upto.simps) (auto dest: leD)

lemma for_upto_step:
  "i \<le> hi \<Longrightarrow> i \<noteq> - 1 \<Longrightarrow> body i s = Ret s' \<Longrightarrow>
   for_upto i hi body s = for_upto (i + 1) hi body s'"
  by (subst for_upto.simps) simp

section \<open>Outcomes: shared facts\<close>

lemma obind_Ret_iff [simp]: "obind m f = Ret y \<longleftrightarrow> (\<exists>x. m = Ret x \<and> f x = Ret y)"
  by (cases m) auto

lemma obind_pair_Ret_iff: "obind m (case_prod f) = Ret z \<longleftrightarrow> (\<exists>x y. m = Ret (x, y) \<and> f x y = Ret z)"
  by (cases m) auto

lemma obind_Ret_right [simp]: "obind m Ret = m"
  by (cases m) auto

lemma obind_assoc: "obind (obind m f) g = obind m (\<lambda>x. obind (f x) g)"
  by (cases m) auto

lemma returns_iff: "returns m \<longleftrightarrow> (\<exists>x. m = Ret x)"
  by (cases m) auto

section \<open>Loop rules\<close>

text \<open>
  The loop rule: a property indexed by the next index, kept by every turn, holds after the
  last turn, and the loop returns.
\<close>

lemma for_upto_rule:
  assumes "hi \<noteq> - 1" and "P i s" and "i \<le> hi + 1"
    and step: "\<And>j t. P j t \<Longrightarrow> i \<le> j \<Longrightarrow> j \<le> hi \<Longrightarrow> \<exists>t'. body j t = Ret t' \<and> P (j + 1) t'"
  shows "\<exists>s'. for_upto i hi body s = Ret s' \<and> P (hi + 1) s'"
  using assms
proof (induction i hi body s rule: for_upto.induct)
  case (1 i hi body s)
  show ?case
  proof (cases "i \<le> hi")
    case True
    with 1 obtain s' where s': "body i s = Ret s'" "P (i + 1) s'" by blast
    have i: "i \<noteq> - 1" using True \<open>hi \<noteq> - 1\<close> word_order.extremum_uniqueI by auto
    have "\<exists>t. for_upto (i + 1) hi body s' = Ret t \<and> P (hi + 1) t"
    proof (rule "1.IH" [OF True i \<open>hi \<noteq> - 1\<close> s'(2)])
      show "i + 1 \<le> hi + 1" using True i \<open>hi \<noteq> - 1\<close> by (simp add: word_step)
      show "\<And>j t. P j t \<Longrightarrow> i + 1 \<le> j \<Longrightarrow> j \<le> hi \<Longrightarrow> \<exists>t'. body j t = Ret t' \<and> P (j + 1) t'"
        using "1.prems"(4) i by (meson order.strict_implies_order word_succ_le)
    qed
    with True i s' show ?thesis by (simp add: for_upto_step)
  next
    case False
    with "1.prems" have "i = hi + 1" by (simp add: word_step order.order_iff_strict)
    with False "1.prems" show ?thesis by (simp add: for_upto_done)
  qed
qed

text \<open>A reflexive and transitive relation kept by every turn holds between start and end.\<close>

lemma for_upto_preserves:
  assumes "for_upto i hi body s = Ret s'"
    and trans: "\<And>a b c. P a b \<Longrightarrow> P b c \<Longrightarrow> P a c" and refl: "\<And>a. P a a"
    and step: "\<And>j t t'. body j t = Ret t' \<Longrightarrow> P t t'"
  shows "P s s'"
  using assms(1) step
proof (induction i hi body s rule: for_upto.induct)
  case (1 i hi body s)
  show ?case
  proof (cases "i \<le> hi")
    case True
    with "1.prems"(1) obtain t where t: "body i s = Ret t" "i \<noteq> - 1" "for_upto (i + 1) hi body t = Ret s'"
      by (subst (asm) for_upto.simps) (auto split: if_splits)
    have "P t s'" using "1.IH" [OF True t(2,3)] "1.prems"(2) by blast
    with "1.prems"(2) [OF t(1)] show ?thesis by (rule trans)
  next
    case False
    with "1.prems"(1) have "s' = s" by (simp add: for_upto_done)
    then show ?thesis by (simp add: refl)
  qed
qed

text \<open>A loop whose bound is the largest value never returns.\<close>

lemma for_upto_max: "for_upto i (- 1) body s \<noteq> Ret s'"
proof (induction i "- 1 :: uint64" body s rule: for_upto.induct)
  case (1 i body s)
  show ?case
  proof
    assume "for_upto i (- 1) body s = Ret s'"
    then obtain t where "body i s = Ret t" "i \<noteq> - 1" "for_upto (i + 1) (- 1) body t = Ret s'"
      by (subst (asm) for_upto.simps) (auto split: if_splits)
    with 1 show False by simp
  qed
qed

lemma word_atLeastLessThan_succ [word_step]:
  "(a :: uint64) \<le> b \<Longrightarrow> b \<noteq> - 1 \<Longrightarrow> {a..<b + 1} = insert b {a..<b}"
  by (auto simp: word_less_succ)

lemma word_atLeastLessThan_closed [word_step]: "(b :: uint64) \<noteq> - 1 \<Longrightarrow> {a..<b + 1} = {a..b}"
  by (auto simp: word_less_succ)

end
