(* ===== verification/Raft_Log.thy ===== *)
theory Raft_Log
  imports Go_Prelude
begin

text \<open>
  The data of the Raft package: log entries (\<open>raft/log.go\<close>), the RPC messages
  (\<open>raft/commands.go\<close>), the errors of \<open>raft/raft.go\<close>, and the helpers of
  \<open>raft/util.go\<close> on indexes, peers and back-off. It ends with the interface
  \<open>LogStore\<close> as a record of operations and the locale of the laws a node relies on.
\<close>

section \<open>Errors\<close>

datatype raft_error =
    ErrLeader
  | ErrNotLeader
  | ErrLeadershipLost
  | ErrRaftShutdown
  | ErrEnqueueTimeout
  | ErrKnownPeer
  | ErrUnknownPeer
  | ErrNothingNewToSnapshot
  | ErrLogNotFound
  | ErrKeyNotFound
  | ErrNotFound
  | ErrOther string

section \<open>Log entries\<close>

text \<open>\<open>LogType\<close> is a \<open>uint8\<close> numbered by \<open>iota\<close>; other bytes are types nobody knows.\<close>

type_synonym LogType = "8 word"

abbreviation LogCommand :: LogType where "LogCommand \<equiv> 0"
abbreviation LogNoop :: LogType where "LogNoop \<equiv> 1"
abbreviation LogAddPeer :: LogType where "LogAddPeer \<equiv> 2"
abbreviation LogRemovePeer :: LogType where "LogRemovePeer \<equiv> 3"
abbreviation LogBarrier :: LogType where "LogBarrier \<equiv> 4"

record Log =
  log_Index :: uint64
  log_Term :: uint64
  log_Type :: LogType
  log_Data :: bytes
  log_peer :: string

section \<open>RPC messages\<close>

record AppendEntriesRequest =
  ae_Term :: uint64
  ae_Leader :: bytes
  ae_PrevLogEntry :: uint64
  ae_PrevLogTerm :: uint64
  ae_Entries :: "Log list"
  ae_LeaderCommitIndex :: uint64

record AppendEntriesResponse =
  aer_Term :: uint64
  aer_LastLog :: uint64
  aer_Success :: bool
  aer_NoRetryBackoff :: bool

record RequestVoteRequest =
  rv_Term :: uint64
  rv_Candidate :: bytes
  rv_LastLogIndex :: uint64
  rv_LastLogTerm :: uint64

record RequestVoteResponse =
  rvr_Term :: uint64
  rvr_Peers :: bytes
  rvr_Granted :: bool

record InstallSnapshotRequest =
  is_Term :: uint64
  is_Leader :: bytes
  is_LastLogIndex :: uint64
  is_LastLogTerm :: uint64
  is_Peers :: bytes
  is_Size :: int

record InstallSnapshotResponse =
  isr_Term :: uint64
  isr_Success :: bool

section \<open>Helpers on indexes and peers\<close>

definition min_u64 :: "uint64 \<Rightarrow> uint64 \<Rightarrow> uint64" where
  "min_u64 a b = (if a \<le> b then a else b)"

definition max_u64 :: "uint64 \<Rightarrow> uint64 \<Rightarrow> uint64" where
  "max_u64 a b = (if a \<ge> b then a else b)"

fun ExcludePeer :: "string list \<Rightarrow> string \<Rightarrow> string list" where
  "ExcludePeer [] peer = []"
| "ExcludePeer (p # ps) peer = (if p \<noteq> peer then p # ExcludePeer ps peer else ExcludePeer ps peer)"

fun PeerContained :: "string list \<Rightarrow> string \<Rightarrow> bool" where
  "PeerContained [] peer = False"
| "PeerContained (p # ps) peer = (if p = peer then True else PeerContained ps peer)"

definition AddUniquePeer :: "string list \<Rightarrow> string \<Rightarrow> string list" where
  "AddUniquePeer peers peer = (if PeerContained peers peer then peers else peers @ [peer])"

text \<open>
  \<open>backoff\<close>: the base duration (an \<open>int64\<close> count of nanoseconds) is doubled while the
  power is above 2.
\<close>

function backoff_loop :: "int \<Rightarrow> uint64 \<Rightarrow> int" where
  "backoff_loop base pow =
     (if pow > 2 then backoff_loop (i64 (base * 2)) (pow - 1) else base)"
  by pat_completeness auto

definition backoff :: "int \<Rightarrow> uint64 \<Rightarrow> uint64 \<Rightarrow> int" where
  "backoff base round limit = backoff_loop base (min_u64 round limit)"

termination backoff_loop
proof (relation "measure (\<lambda>(b :: int, p :: uint64). unat p)", goal_cases)
  case 1
  show ?case by simp
next
  case (2 base pow)
  then have "pow \<noteq> 0" by auto
  then show ?case by (simp add: unat_minus_one unat_gt_0)
qed

declare backoff_loop.simps [simp del]

section \<open>Peer sets on the wire\<close>

text \<open>
  \<open>encodePeers\<close> and \<open>decodePeers\<close> send each address through the transport's
  \<open>EncodePeer\<close>/\<open>DecodePeer\<close> and the resulting list through the \<open>gob\<close> codec. The
  codec and the transport are given by the record \<open>wire\<close>; \<open>None\<close> is a decoding error.
\<close>

record wire =
  EncodePeer :: "string \<Rightarrow> bytes"
  DecodePeer :: "bytes \<Rightarrow> string"
  gob_encode :: "bytes list \<Rightarrow> bytes"
  gob_decode :: "bytes \<Rightarrow> bytes list option"

definition encodePeers :: "wire \<Rightarrow> string list \<Rightarrow> bytes" where
  "encodePeers W peers = gob_encode W (map (EncodePeer W) peers)"

definition decodePeers :: "wire \<Rightarrow> bytes \<Rightarrow> string list outcome" where
  "decodePeers W buf =
     (case gob_decode W buf of
        None \<Rightarrow> Panic ''failed to decode peers''
      | Some encPeers \<Rightarrow> Ret (map (DecodePeer W) encPeers))"

text \<open>What the code relies on: the codec and the address encoding are inverted by decoding.\<close>

definition wire_ok :: "wire \<Rightarrow> bool" where
  "wire_ok W \<longleftrightarrow> (\<forall>xs. gob_decode W (gob_encode W xs) = Some xs) \<and>
                 (\<forall>p. DecodePeer W (EncodePeer W p) = p)"

section \<open>The interface LogStore\<close>

record 'ls LogStore =
  FirstIndex :: "'ls \<Rightarrow> raft_error + uint64"
  LastIndex :: "'ls \<Rightarrow> raft_error + uint64"
  GetLog :: "'ls \<Rightarrow> uint64 \<Rightarrow> raft_error + Log"
  StoreLogs :: "'ls \<Rightarrow> Log list \<Rightarrow> 'ls \<times> raft_error option"
  DeleteRange :: "'ls \<Rightarrow> uint64 \<Rightarrow> uint64 \<Rightarrow> ('ls \<times> raft_error option) outcome"

text \<open>
  The unexported field \<open>peer\<close> is not stored: an entry read back has the zero value there.
\<close>

definition stored :: "Log \<Rightarrow> Log" where
  "stored l = l\<lparr>log_peer := []\<rparr>"

definition logs_map :: "Log list \<Rightarrow> uint64 \<rightharpoonup> Log" where
  "logs_map ls = map_of (rev (map (\<lambda>l. (log_Index l, stored l)) ls))"

text \<open>
  The laws of a log store, over the entries it holds: what a read returns, what a
  successful write or deletion does to the entries, and the first and the last index.
  An atomic log store also keeps its entries when a write fails.
\<close>

locale log_store =
  fixes L :: "'ls LogStore"
    and entries :: "'ls \<Rightarrow> uint64 \<rightharpoonup> Log"
    and ls_inv :: "'ls \<Rightarrow> bool"
  assumes GetLog: "ls_inv s \<Longrightarrow>
      GetLog L s i = (case entries s i of None \<Rightarrow> Inl ErrLogNotFound | Some l \<Rightarrow> Inr l)"
    and entry_index: "ls_inv s \<Longrightarrow> entries s i = Some l \<Longrightarrow> log_Index l = i"
    and StoreLogs: "ls_inv s \<Longrightarrow> StoreLogs L s ls = (s', None) \<Longrightarrow>
      ls_inv s' \<and> entries s' = entries s ++ logs_map ls"
    and DeleteRange: "ls_inv s \<Longrightarrow> DeleteRange L s lo hi = Ret (s', None) \<Longrightarrow>
      ls_inv s' \<and> entries s' = entries s |` (- {lo..hi})"
    and DeleteRange_returns: "ls_inv s \<Longrightarrow> hi \<noteq> - 1 \<Longrightarrow> returns (DeleteRange L s lo hi)"
    and FirstIndex: "ls_inv s \<Longrightarrow>
      FirstIndex L s = Inr (if entries s = Map.empty then 0 else Min (dom (entries s)))"
    and LastIndex: "ls_inv s \<Longrightarrow>
      LastIndex L s = Inr (if entries s = Map.empty then 0 else Max (dom (entries s)))"
begin

lemma get_after_delete:
  assumes "ls_inv s" and "DeleteRange L s lo hi = Ret (s', None)"
  shows "GetLog L s' i = (if lo \<le> i \<and> i \<le> hi then Inl ErrLogNotFound else GetLog L s i)"
  using assms DeleteRange [OF assms] by (auto simp: GetLog restrict_map_def)

lemma get_after_store:
  assumes "ls_inv s" and "StoreLogs L s ls = (s', None)" and "distinct (map log_Index ls)"
    and "l \<in> set ls"
  shows "GetLog L s' (log_Index l) = Inr (stored l)"
proof -
  have "logs_map ls (log_Index l) = Some (stored l)"
    using assms(3,4)
    by (auto simp: logs_map_def comp_def simp flip: rev_map intro!: map_of_is_SomeI)
  then show ?thesis using StoreLogs [OF assms(1,2)] by (simp add: GetLog)
qed

lemma get_after_store_other:
  assumes "ls_inv s" and "StoreLogs L s ls = (s', None)" and "i \<notin> log_Index ` set ls"
  shows "GetLog L s' i = GetLog L s i"
proof -
  have "logs_map ls i = None"
    using assms(3) by (auto simp: logs_map_def map_of_eq_None_iff)
  then show ?thesis using StoreLogs [OF assms(1,2)] assms(1) by (simp add: GetLog map_add_def)
qed

end

locale atomic_log_store = log_store +
  assumes StoreLogs_fail: "ls_inv s \<Longrightarrow> StoreLogs L s ls = (s', Some e) \<Longrightarrow>
      ls_inv s' \<and> entries s' = entries s"
    and DeleteRange_fail: "ls_inv s \<Longrightarrow> DeleteRange L s lo hi = Ret (s', Some e) \<Longrightarrow>
      ls_inv s' \<and> entries s' = entries s"

section \<open>Facts on the helpers\<close>

lemma ExcludePeer_filter: "ExcludePeer ps p = filter (\<lambda>q. q \<noteq> p) ps"
  by (induction ps) auto

lemma PeerContained_iff [simp]: "PeerContained ps p \<longleftrightarrow> p \<in> set ps"
  by (induction ps) auto

lemma set_ExcludePeer [simp]: "set (ExcludePeer ps p) = set ps - {p}"
  by (auto simp: ExcludePeer_filter)

lemma distinct_ExcludePeer: "distinct ps \<Longrightarrow> distinct (ExcludePeer ps p)"
  by (simp add: ExcludePeer_filter)

lemma min_u64_min [simp]: "min_u64 a b = min a b"
  by (simp add: min_u64_def min_def)

lemma max_u64_max [simp]: "max_u64 a b = max a b"
  by (auto simp: max_u64_def max_def)

lemma decode_encode_peers [simp]: "wire_ok W \<Longrightarrow> decodePeers W (encodePeers W ps) = Ret ps"
  by (simp add: wire_ok_def decodePeers_def encodePeers_def comp_def)

end
