(* ===== verification/Raft_Inflight.thy ===== *)
theory Raft_Inflight
  imports Raft_Log
begin

text \<open>
  The leader's in-flight log entries (\<open>raft/inflight.go\<close>) and the futures they carry
  (\<open>raft/future.go\<close>): the majority quorum of an entry, the map of tracked operations, the
  commit of an index with its chain of notifications, the commit of a range, and the
  cancellation when the leader steps down.
\<close>

section \<open>Futures\<close>

record majorityQuorum =
  mq_count :: int
  mq_votesNeeded :: int

text \<open>
  A \<open>logFuture\<close>: the channel \<open>errCh\<close> is a number, or \<open>None\<close> while \<open>init\<close> has not
  been called (the leader's no-op entry never calls it); \<open>policy\<close> is nil until dispatch.
\<close>

record logFuture =
  fut_errCh :: "nat option"
  fut_log :: Log
  fut_policy :: "majorityQuorum option"

text \<open>
  The answers sent so far, oldest first: the channel and the error (\<open>None\<close> is nil). A
  channel that has been answered is not answered again (the flag \<open>responded\<close>).
\<close>

type_synonym answers = "(nat \<times> raft_error option) list"

definition respond :: "nat option \<Rightarrow> raft_error option \<Rightarrow> answers \<Rightarrow> answers" where
  "respond ch err as =
     (case ch of
        None \<Rightarrow> as
      | Some c \<Rightarrow> if c \<in> fst ` set as then as else as @ [(c, err)])"

section \<open>Majority quorums\<close>

definition newMajorityQuorum :: "int \<Rightarrow> majorityQuorum" where
  "newMajorityQuorum clusterSize = \<lparr>mq_count = 0, mq_votesNeeded = clusterSize div 2 + 1\<rparr>"

definition mq_Commit :: "majorityQuorum \<Rightarrow> majorityQuorum \<times> bool" where
  "mq_Commit m = (let m' = m\<lparr>mq_count := mq_count m + 1\<rparr> in (m', mq_count m' \<ge> mq_votesNeeded m'))"

definition mq_IsCommitted :: "majorityQuorum \<Rightarrow> bool" where
  "mq_IsCommitted m \<longleftrightarrow> mq_count m \<ge> mq_votesNeeded m"

section \<open>In-flight entries\<close>

text \<open>A \<open>chan struct{}\<close> of capacity 1: whether a token waits in it, and whether it is closed.\<close>

record signal =
  sig_pending :: bool
  sig_closed :: bool

definition asyncNotifyCh :: "signal \<Rightarrow> signal outcome" where
  "asyncNotifyCh ch = (if sig_closed ch then Panic ''send on closed channel''
                       else Ret (ch\<lparr>sig_pending := True\<rparr>))"

definition close_signal :: "signal \<Rightarrow> signal outcome" where
  "close_signal ch = (if sig_closed ch then Panic ''close of closed channel''
                      else Ret (ch\<lparr>sig_closed := True\<rparr>))"

record inflight =
  committed :: "logFuture list"
  commitCh :: signal
  minCommit :: uint64
  maxCommit :: uint64
  operations :: "(uint64 \<times> logFuture) list"
  inf_stopCh :: signal

definition newInflight :: "signal \<Rightarrow> inflight" where
  "newInflight ch = \<lparr>committed = [], commitCh = ch, minCommit = 0, maxCommit = 0,
     operations = [], inf_stopCh = \<lparr>sig_pending = False, sig_closed = False\<rparr>\<rparr>"

text \<open>One turn of the loop at label \<open>NOTIFY\<close>, up to the update of the indexes.\<close>

definition notify_one :: "inflight \<Rightarrow> uint64 \<Rightarrow> logFuture \<Rightarrow> inflight" where
  "notify_one i index op =
     (let i1 = i\<lparr>committed := committed i @ [op], operations := AList.delete index (operations i)\<rparr>
      in if index = maxCommit i1 then i1\<lparr>minCommit := 0, maxCommit := 0\<rparr>
         else i1\<lparr>minCommit := minCommit i1 + 1\<rparr>)"

definition notify_commitCh :: "inflight \<Rightarrow> inflight outcome" where
  "notify_commitCh i = obind (asyncNotifyCh (commitCh i)) (\<lambda>ch. Ret (i\<lparr>commitCh := ch\<rparr>))"

function notify :: "inflight \<Rightarrow> uint64 \<Rightarrow> logFuture \<Rightarrow> inflight outcome" where
  "notify i index op =
     (let i' = notify_one i index op in
      if minCommit i' \<noteq> 0 then
        (case map_of (operations i') (minCommit i') of
           None \<Rightarrow> Panic ''nil pointer dereference''
         | Some op' \<Rightarrow>
             (case fut_policy op' of
                None \<Rightarrow> Panic ''nil pointer dereference''
              | Some q \<Rightarrow> if mq_IsCommitted q then notify i' (minCommit i') op'
                          else notify_commitCh i'))
      else notify_commitCh i')"
  by pat_completeness auto

definition commit :: "inflight \<Rightarrow> uint64 \<Rightarrow> inflight outcome" where
  "commit i index =
     (case map_of (operations i) index of
        None \<Rightarrow> Ret i
      | Some op \<Rightarrow>
          (case fut_policy op of
             None \<Rightarrow> Panic ''nil pointer dereference''
           | Some q \<Rightarrow>
               (let (q', done) = mq_Commit q;
                    op' = op\<lparr>fut_policy := Some q'\<rparr>;
                    i' = i\<lparr>operations := AList.update index op' (operations i)\<rparr>
                in if \<not> done then Ret i'
                   else if index \<noteq> minCommit i' then Ret i'
                   else notify i' index op')))"

definition start :: "inflight \<Rightarrow> logFuture \<Rightarrow> inflight outcome" where
  "start i l =
     (let idx = log_Index (fut_log l);
          i1 = i\<lparr>operations := AList.update idx l (operations i)\<rparr>;
          i2 = (if idx > maxCommit i1 then i1\<lparr>maxCommit := idx\<rparr> else i1);
          i3 = (if minCommit i2 = 0 then i2\<lparr>minCommit := idx\<rparr> else i2)
      in commit i3 idx)"

fun StartAll :: "inflight \<Rightarrow> logFuture list \<Rightarrow> inflight outcome" where
  "StartAll i [] = Ret i"
| "StartAll i (l # ls) = obind (start i l) (\<lambda>i'. StartAll i' ls)"

definition CommitRange :: "inflight \<Rightarrow> uint64 \<Rightarrow> uint64 \<Rightarrow> inflight outcome" where
  "CommitRange i minIndex maxIndex =
     for_upto (max_u64 (minCommit i) minIndex) maxIndex (\<lambda>idx i. commit i idx) i"

definition Committed :: "inflight \<Rightarrow> logFuture list \<times> inflight" where
  "Committed i = (committed i, i\<lparr>committed := []\<rparr>)"

fun respond_all :: "logFuture list \<Rightarrow> raft_error option \<Rightarrow> answers \<Rightarrow> answers" where
  "respond_all [] err as = as"
| "respond_all (f # fs) err as = respond_all fs err (respond (fut_errCh f) err as)"

definition Cancel :: "inflight \<Rightarrow> raft_error \<Rightarrow> answers \<Rightarrow> (inflight \<times> answers) outcome" where
  "Cancel i err as =
     obind (close_signal (inf_stopCh i)) (\<lambda>stop.
     (let as1 = respond_all (map snd (operations i)) (Some err) as;
          as2 = respond_all (committed i) (Some err) as1;
          i1 = i\<lparr>inf_stopCh := stop, operations := [], committed := []\<rparr>
      in obind (close_signal (commitCh i1)) (\<lambda>ch.
           Ret (i1\<lparr>commitCh := ch, minCommit := 0, maxCommit := 0\<rparr>, as2))))"

lemma length_delete_less: "k \<in> fst ` set xs \<Longrightarrow> length (AList.delete k xs) < length xs"
  by (induction xs) (auto simp: le_imp_less_Suc AList.length_delete_le)

lemma operations_notify_one [simp]: "operations (notify_one i index op) = AList.delete index (operations i)"
  by (simp add: notify_one_def Let_def)

termination notify
proof (relation "measure (\<lambda>(i, index, op). length (AList.delete index (operations i)))", goal_cases)
  case 1
  show ?case by simp
next
  case (2 i index op i' op' q)
  then have "minCommit i' \<in> fst ` set (operations i')"
    by (metis domI dom_map_of_conv_image_fst)
  with 2 show ?case by (simp add: length_delete_less)
qed

declare notify.simps [simp del]

section \<open>The invariant of the tracked range\<close>

text \<open>
  The tracked operations are exactly the indexes from \<open>minCommit\<close> to \<open>maxCommit\<close>, none
  when both are 0; every operation carries its own index and a policy, and the commit channel
  is open while anything is tracked.
\<close>

definition inflight_inv :: "inflight \<Rightarrow> bool" where
  "inflight_inv i \<longleftrightarrow>
     dom (map_of (operations i)) = (if minCommit i = 0 then {} else {minCommit i..maxCommit i}) \<and>
     minCommit i \<le> maxCommit i \<and> (minCommit i = 0 \<longrightarrow> maxCommit i = 0) \<and>
     distinct (map fst (operations i)) \<and>
     (\<forall>k f. map_of (operations i) k = Some f \<longrightarrow> log_Index (fut_log f) = k \<and> fut_policy f \<noteq> None) \<and>
     (operations i \<noteq> [] \<longrightarrow> \<not> sig_closed (commitCh i))"

lemma inflight_invD:
  assumes "inflight_inv i"
  shows "dom (map_of (operations i)) = (if minCommit i = 0 then {} else {minCommit i..maxCommit i})"
    and "minCommit i \<le> maxCommit i"
    and "minCommit i = 0 \<Longrightarrow> maxCommit i = 0"
    and "distinct (map fst (operations i))"
    and "map_of (operations i) k = Some f \<Longrightarrow> log_Index (fut_log f) = k \<and> fut_policy f \<noteq> None"
    and "operations i \<noteq> [] \<Longrightarrow> \<not> sig_closed (commitCh i)"
  using assms unfolding inflight_inv_def by blast+

lemma newInflight_inv: "inflight_inv (newInflight ch)"
  by (simp add: inflight_inv_def newInflight_def)

lemma Committed_inv: "inflight_inv i \<Longrightarrow> inflight_inv (snd (Committed i))"
  by (simp add: inflight_inv_def Committed_def)

lemma map_of_delete_simp [simp]: "map_of (AList.delete k xs) = (map_of xs)(k := None)"
  by (rule AList.delete_conv')

lemma map_of_update_simp [simp]: "map_of (AList.update k v xs) = (map_of xs)(k \<mapsto> v)"
  by (rule AList.update_conv')

lemma commit_untracked: "map_of (operations i) index = None \<Longrightarrow> commit i index = Ret i"
  by (simp add: commit_def)

lemma inflight_inv_update:
  assumes "inflight_inv i" and "map_of (operations i) k = Some f" and "fut_log f' = fut_log f"
    and "fut_policy f' \<noteq> None"
  shows "inflight_inv (i\<lparr>operations := AList.update k f' (operations i)\<rparr>)"
proof -
  have "k \<in> dom (map_of (operations i))" using assms(2) by auto
  then have "dom ((map_of (operations i))(k \<mapsto> f')) = dom (map_of (operations i))"
    by (simp add: insert_absorb)
  with assms show ?thesis
    unfolding inflight_inv_def by (auto simp: AList.distinct_update)
qed

section \<open>Entries leave in order, each with its quorum\<close>

fun consecutive_from :: "uint64 \<Rightarrow> logFuture list \<Rightarrow> bool" where
  "consecutive_from a [] = True"
| "consecutive_from a (f # fs) = (log_Index (fut_log f) = a \<and> consecutive_from (a + 1) fs)"

definition has_quorum :: "logFuture \<Rightarrow> bool" where
  "has_quorum f = (case fut_policy f of None \<Rightarrow> False | Some q \<Rightarrow> mq_IsCommitted q)"

definition head_waiting :: "inflight \<Rightarrow> bool" where
  "head_waiting i = (case map_of (operations i) (minCommit i) of None \<Rightarrow> True | Some f \<Rightarrow> \<not> has_quorum f)"

text \<open>
  The abstract view: the entries in flight are the indexes from \<open>b\<close> (included) to \<open>e\<close>
  (excluded). A step delivers when it moves \<open>b\<close> over a run of consecutive entries, each
  with its quorum, and appends exactly that run to \<open>committed\<close>.
\<close>

definition window :: "inflight \<Rightarrow> uint64 \<Rightarrow> uint64 \<Rightarrow> bool" where
  "window i b e \<longleftrightarrow> inflight_inv i \<and>
     (if minCommit i = 0 then b = e else b = minCommit i \<and> e = maxCommit i + 1)"

definition delivers :: "inflight \<Rightarrow> uint64 \<Rightarrow> inflight \<Rightarrow> uint64 \<Rightarrow> uint64 \<Rightarrow> bool" where
  "delivers i b i' b' e' \<longleftrightarrow> window i' b' e' \<and> head_waiting i' \<and>
     (\<exists>new. committed i' = committed i @ new \<and> consecutive_from b new \<and>
            b' = b + of_nat (length new) \<and> (\<forall>f \<in> set new. has_quorum f))"

lemma tracked_min:
  assumes "inflight_inv i" and "minCommit i \<noteq> 0"
  obtains f where "map_of (operations i) (minCommit i) = Some f"
proof -
  have "minCommit i \<in> dom (map_of (operations i))"
    using inflight_invD(1,2) [OF assms(1)] assms(2) by simp
  with that show ?thesis by blast
qed

lemma notify_one_inv:
  assumes inv: "inflight_inv i" and "minCommit i \<noteq> 0"
  shows "inflight_inv (notify_one i (minCommit i) op)"
proof -
  note D = inflight_invD [OF inv]
  obtain f where "map_of (operations i) (minCommit i) = Some f" using assms by (rule tracked_min)
  then have ops: "operations i \<noteq> []" by (cases "operations i") simp_all
  have d: "dom (map_of (AList.delete (minCommit i) (operations i))) = {minCommit i..maxCommit i} - {minCommit i}"
    using D(1) assms(2) by simp
  show ?thesis
  proof (cases "minCommit i = maxCommit i")
    case True
    then have "{minCommit i..maxCommit i} - {minCommit i} = {}" by auto
    with d have "dom (map_of (AList.delete (minCommit i) (operations i))) = {}" by (simp only:)
    then have "AList.delete (minCommit i) (operations i) = []"
      by (simp only: dom_eq_empty_conv map_of_eq_empty_iff)
    with True show ?thesis
      by (simp add: inflight_inv_def notify_one_def Let_def)
  next
    case False
    then have lt: "minCommit i < maxCommit i" using D(2) by simp
    then have "minCommit i + 1 \<noteq> 0" by (metis word_less_not_max add_eq_0_iff add.commute)
    moreover have "minCommit i + 1 \<le> maxCommit i" using lt by (simp add: word_succ_le word_less_not_max)
    moreover have "{minCommit i..maxCommit i} - {minCommit i} = {minCommit i + 1..maxCommit i}"
      using lt by (rule word_interval_pop)
    ultimately show ?thesis
      using False d D(4,5,6) ops
      by (auto simp: inflight_inv_def notify_one_def Let_def AList.distinct_delete)
  qed
qed

lemma committed_notify_one [simp]: "committed (notify_one i index op) = committed i @ [op]"
  and commitCh_notify_one [simp]: "commitCh (notify_one i index op) = commitCh i"
  by (simp_all add: notify_one_def Let_def)

lemma window_notify_one:
  assumes "window i b e" and "minCommit i \<noteq> 0"
  shows "window (notify_one i (minCommit i) op) (b + 1) e"
proof -
  have inv: "inflight_inv i" and b: "b = minCommit i" and e: "e = maxCommit i + 1"
    using assms by (auto simp: window_def)
  have "minCommit i + 1 \<noteq> 0" if "minCommit i \<noteq> maxCommit i"
    using that inflight_invD(2) [OF inv]
    by (metis order.not_eq_order_implies_strict word_less_not_max add_eq_0_iff add.commute)
  then show ?thesis
    using notify_one_inv [OF inv assms(2), of op] b e
    by (simp add: window_def notify_one_def Let_def)
qed

lemma notify_commitCh_open:
  "\<not> sig_closed (commitCh i) \<Longrightarrow>
   notify_commitCh i = Ret (i\<lparr>commitCh := (commitCh i)\<lparr>sig_pending := True\<rparr>\<rparr>)"
  by (simp add: notify_commitCh_def asyncNotifyCh_def)

lemma window_commitCh [simp]:
  "window (i\<lparr>commitCh := (commitCh i)\<lparr>sig_pending := x\<rparr>\<rparr>) b e = window i b e"
  by (simp add: window_def inflight_inv_def)

lemma head_waiting_commitCh [simp]: "head_waiting (i\<lparr>commitCh := x\<rparr>) = head_waiting i"
  by (simp add: head_waiting_def)

lemma delivers_one:
  assumes "window i' (b + 1) e" and "head_waiting i'" and "committed i' = committed i @ [op]"
    and "log_Index (fut_log op) = b" and "has_quorum op"
  shows "delivers i b i' (b + 1) e"
  using assms unfolding delivers_def by (intro conjI exI [of _ "[op]"]) auto

lemma consecutive_from_append:
  "consecutive_from b (xs @ ys) = (consecutive_from b xs \<and> consecutive_from (b + of_nat (length xs)) ys)"
  by (induction xs arbitrary: b) (auto simp: add.assoc)

lemma delivers_trans:
  assumes "delivers i b i' b' e'" and "delivers i' b' i'' b'' e''"
  shows "delivers i b i'' b'' e''"
proof -
  from assms obtain xs ys where
    "committed i' = committed i @ xs" "consecutive_from b xs" "b' = b + of_nat (length xs)"
    "\<forall>f \<in> set xs. has_quorum f"
    "committed i'' = committed i' @ ys" "consecutive_from b' ys" "b'' = b' + of_nat (length ys)"
    "\<forall>f \<in> set ys. has_quorum f"
    unfolding delivers_def by blast
  then show ?thesis
    using assms(2) unfolding delivers_def
    by (intro conjI exI [of _ "xs @ ys"]) (auto simp: consecutive_from_append add.assoc)
qed

lemma delivers_more:
  assumes "committed i1 = committed i @ [op]" and "log_Index (fut_log op) = b" and "has_quorum op"
    and "delivers i1 (b + 1) i' b' e"
  shows "delivers i b i' b' e"
proof -
  from assms(4) obtain new where
    "committed i' = committed i1 @ new" "consecutive_from (b + 1) new"
    "b' = b + 1 + of_nat (length new)" "\<forall>f \<in> set new. has_quorum f"
    unfolding delivers_def by blast
  with assms show ?thesis
    unfolding delivers_def by (intro conjI exI [of _ "op # new"]) (auto simp: add.assoc)
qed

lemma notify_delivers:
  assumes "window i b e" and "index = minCommit i" and "minCommit i \<noteq> 0"
    and "log_Index (fut_log op) = minCommit i" and "has_quorum op" and "\<not> sig_closed (commitCh i)"
  shows "\<exists>i' b'. notify i index op = Ret i' \<and> delivers i b i' b' e \<and> sig_pending (commitCh i')"
  using assms
proof (induction i index op arbitrary: b rule: notify.induct)
  case (1 i index op)
  let ?i1 = "notify_one i index op"
  have b: "b = minCommit i" using "1.prems" by (simp add: window_def)
  have w1: "window ?i1 (b + 1) e" using "1.prems" by (simp add: window_notify_one)
  then have inv1: "inflight_inv ?i1" by (simp add: window_def)
  let ?i2 = "?i1\<lparr>commitCh := (commitCh i)\<lparr>sig_pending := True\<rparr>\<rparr>"
  have stop: "delivers i b ?i2 (b + 1) e" if "head_waiting ?i1"
    using that w1 "1.prems" b window_commitCh [of True ?i1] by (intro delivers_one) auto
  show ?case
  proof (cases "minCommit ?i1 = 0")
    case True
    have "head_waiting ?i1"
      using inflight_invD(1) [OF inv1] True by (auto simp: head_waiting_def split: option.split)
    with stop True "1.prems"(6) show ?thesis
      by (subst notify.simps) (auto simp: Let_def notify_commitCh_open)
  next
    case False
    obtain op' where op': "map_of (operations ?i1) (minCommit ?i1) = Some op'"
      using inv1 False by (rule tracked_min)
    from inflight_invD(5) [OF inv1 op'] obtain q where
      q: "fut_policy op' = Some q" and ix: "log_Index (fut_log op') = minCommit ?i1" by auto
    show ?thesis
    proof (cases "mq_IsCommitted q")
      case True
      have "\<exists>i' b'. notify ?i1 (minCommit ?i1) op' = Ret i' \<and> delivers ?i1 (b + 1) i' b' e \<and>
              sig_pending (commitCh i')"
      proof (rule "1.IH" [OF refl False op' q True w1 refl False ix])
        show "has_quorum op'" using True q by (simp add: has_quorum_def)
        show "\<not> sig_closed (commitCh ?i1)" using "1.prems"(6) by simp
      qed
      moreover have "delivers i b i' b' e" if "delivers ?i1 (b + 1) i' b' e" for i' b'
        by (rule delivers_more [OF _ _ _ that]) (use "1.prems"(4,5) b in simp_all)
      ultimately show ?thesis
        using False op' q True by (subst notify.simps) (auto simp: Let_def)
    next
      case nq: False
      then have "head_waiting ?i1" using op' q by (simp add: head_waiting_def has_quorum_def)
      with stop op' q nq False "1.prems"(6) show ?thesis
        by (subst notify.simps) (auto simp: Let_def notify_commitCh_open)
    qed
  qed
qed

lemma commit_delivers:
  assumes w: "window i b e" and h: "head_waiting i"
  shows "\<exists>i' b'. commit i index = Ret i' \<and> delivers i b i' b' e"
proof (cases "map_of (operations i) index")
  case None
  with w h show ?thesis
    by (intro exI [of _ i] exI [of _ b]) (auto simp: commit_untracked delivers_def)
next
  case (Some op)
  have inv: "inflight_inv i" using w by (simp add: window_def)
  from inflight_invD(5) [OF inv Some] obtain q where
    q: "fut_policy op = Some q" and ix: "log_Index (fut_log op) = index" by auto
  let ?op = "op\<lparr>fut_policy := Some (q\<lparr>mq_count := mq_count q + 1\<rparr>)\<rparr>"
  let ?i = "i\<lparr>operations := AList.update index ?op (operations i)\<rparr>"
  have w': "window ?i b e"
    using w inflight_inv_update [OF inv Some, of ?op] by (simp add: window_def)
  have nz: "minCommit i \<noteq> 0" and op: "\<not> sig_closed (commitCh i)"
    using Some inflight_invD(1,6) [OF inv] by (cases "operations i"; auto split: if_splits)+
  show ?thesis
  proof (cases "has_quorum ?op \<and> index = minCommit i")
    case True
    then have "\<exists>i' b'. notify ?i index ?op = Ret i' \<and> delivers ?i b i' b' e \<and> sig_pending (commitCh i')"
      using w' nz op ix by (intro notify_delivers) auto
    moreover have "commit i index = notify ?i index ?op"
      using True Some q by (simp add: commit_def mq_Commit_def Let_def has_quorum_def mq_IsCommitted_def)
    ultimately show ?thesis by (auto simp: delivers_def)
  next
    case False
    then have "commit i index = Ret ?i"
      using Some q by (auto simp: commit_def mq_Commit_def Let_def has_quorum_def mq_IsCommitted_def)
    moreover have "head_waiting ?i"
      using False h by (auto simp: head_waiting_def)
    ultimately show ?thesis
      using w' by (intro exI [of _ ?i] exI [of _ b]) (auto simp: delivers_def)
  qed
qed

lemma delivers_window: "delivers i b i' b' e' \<Longrightarrow> window i' b' e' \<and> head_waiting i'"
  by (simp add: delivers_def)

lemma delivers_refl: "window i b e \<Longrightarrow> head_waiting i \<Longrightarrow> delivers i b i b e"
  unfolding delivers_def by (intro conjI exI [of _ "[]"]) auto

lemma CommitRange_delivers:
  assumes w: "window i b e" and h: "head_waiting i" and "maxIndex \<noteq> - 1"
  shows "\<exists>i' b'. CommitRange i minIndex maxIndex = Ret i' \<and> delivers i b i' b' e"
proof (cases "max (minCommit i) minIndex \<le> maxIndex + 1")
  case True
  have "\<exists>i'. for_upto (max (minCommit i) minIndex) maxIndex (\<lambda>idx i. commit i idx) i = Ret i' \<and>
             (\<exists>b'. delivers i b i' b' e)"
  proof (rule for_upto_rule [where P = "\<lambda>_ t. \<exists>b'. delivers i b t b' e", OF assms(3) _ True])
    show "\<exists>b'. delivers i b i b' e" using delivers_refl [OF w h] by blast
    show "\<exists>t'. commit t j = Ret t' \<and> (\<exists>b'. delivers i b t' b' e)"
      if "\<exists>b'. delivers i b t b' e" for j t
      using that commit_delivers delivers_trans delivers_window by meson
  qed
  then show ?thesis by (auto simp: CommitRange_def)
next
  case False
  moreover have "maxIndex < maxIndex + 1" using assms(3) by (simp add: word_less_succ)
  ultimately have "maxIndex < max (minCommit i) minIndex" by (simp only: not_le)
  then show ?thesis
    using delivers_refl [OF w h] by (auto simp: CommitRange_def for_upto_done)
qed

lemma start_delivers:
  assumes w: "window i b e" and h: "head_waiting i" and ix: "log_Index (fut_log l) = e"
    and "e \<noteq> 0" and pol: "fut_policy l \<noteq> None" and nq: "\<not> has_quorum l"
    and op: "\<not> sig_closed (commitCh i)"
  shows "\<exists>i' b'. start i l = Ret i' \<and> delivers i b i' b' (e + 1)"
proof -
  note D = inflight_invD [of i]
  have inv: "inflight_inv i" using w by (simp add: window_def)
  define i3 where "i3 = i\<lparr>operations := AList.update e l (operations i), maxCommit := e,
      minCommit := (if minCommit i = 0 then e else minCommit i)\<rparr>"
  have lt: "maxCommit i < e"
  proof (cases "minCommit i = 0")
    case True
    then show ?thesis using D(3) [OF inv] \<open>e \<noteq> 0\<close> by (simp add: word_neq_0_conv)
  next
    case False
    with w have "e = maxCommit i + 1" by (simp add: window_def)
    with \<open>e \<noteq> 0\<close> have "maxCommit i \<noteq> - 1" by auto
    then show ?thesis using \<open>e = maxCommit i + 1\<close> by (simp add: word_less_succ)
  qed
  have "start i l = commit i3 e"
    using ix lt by (simp add: start_def i3_def Let_def)
  moreover have "window i3 b (e + 1)"
  proof -
    have "dom (map_of (operations i3)) = {minCommit i3..e}"
      using w D(1) [OF inv] D(2) [OF inv] lt word_interval_snoc [of "minCommit i" "maxCommit i"]
      by (auto simp: i3_def window_def word_less_not_max)
    then show ?thesis
      using w D(2,4,5) [OF inv] \<open>e \<noteq> 0\<close> ix pol op lt
      by (auto simp: window_def inflight_inv_def i3_def AList.distinct_update split: if_splits)
  qed
  moreover have "head_waiting i3"
    using h nq lt D(2) [OF inv] by (auto simp: head_waiting_def i3_def)
  ultimately obtain i' b' where "start i l = Ret i'" "delivers i3 b i' b' (e + 1)"
    using commit_delivers by metis
  then show ?thesis by (auto simp: delivers_def i3_def)
qed

text \<open>
  A batch of futures as \<open>dispatchLogs\<close> prepares it: consecutive indexes, each with a policy
  that has not been reached.
\<close>

fun fresh_batch :: "uint64 \<Rightarrow> logFuture list \<Rightarrow> bool" where
  "fresh_batch e [] = True"
| "fresh_batch e (l # ls) =
     (e \<noteq> 0 \<and> log_Index (fut_log l) = e \<and> fut_policy l \<noteq> None \<and> \<not> has_quorum l \<and> fresh_batch (e + 1) ls)"

lemma notify_closed: "notify i index op = Ret i' \<Longrightarrow> sig_closed (commitCh i') = sig_closed (commitCh i)"
proof (induction i index op rule: notify.induct)
  case (1 i index op)
  from "1.prems" show ?case
    by (subst (asm) notify.simps)
       (auto simp: Let_def notify_commitCh_def asyncNotifyCh_def "1.IH" [OF refl]
             split: if_splits option.splits)
qed

lemma commit_closed: "commit i index = Ret i' \<Longrightarrow> sig_closed (commitCh i') = sig_closed (commitCh i)"
  by (auto simp: commit_def Let_def split: option.splits prod.splits if_splits dest: notify_closed)

lemma start_closed: "start i l = Ret i' \<Longrightarrow> sig_closed (commitCh i') = sig_closed (commitCh i)"
  unfolding start_def Let_def by (drule commit_closed) (simp split: if_splits)

lemma StartAll_delivers:
  "window i b e \<Longrightarrow> head_waiting i \<Longrightarrow> fresh_batch e ls \<Longrightarrow> \<not> sig_closed (commitCh i) \<Longrightarrow>
   \<exists>i' b'. StartAll i ls = Ret i' \<and> delivers i b i' b' (e + of_nat (length ls)) \<and>
           \<not> sig_closed (commitCh i')"
proof (induction ls arbitrary: i b e)
  case Nil
  then show ?case using delivers_refl by auto
next
  case (Cons l ls)
  then obtain i1 b1 where i1: "start i l = Ret i1" "delivers i b i1 b1 (e + 1)"
    using start_delivers [of i b e l] by auto
  then have "\<exists>i' b'. StartAll i1 ls = Ret i' \<and> delivers i1 b1 i' b' (e + 1 + of_nat (length ls)) \<and>
      \<not> sig_closed (commitCh i')"
    using Cons.prems delivers_window [OF i1(2)] start_closed [OF i1(1)] by (intro Cons.IH) auto
  with i1 show ?case
    by (auto simp: add.assoc intro: delivers_trans)
qed

section \<open>Cancellation\<close>

lemma respond_mono: "set as \<subseteq> set (respond c err as)"
  by (auto simp: respond_def split: option.splits)

lemma respond_answered: "c \<in> fst ` set (respond (Some c) err as)"
  by (auto simp: respond_def)

lemma respond_distinct: "distinct (map fst as) \<Longrightarrow> distinct (map fst (respond c err as))"
  by (auto simp: respond_def split: option.splits)

lemma respond_all_mono: "set as \<subseteq> set (respond_all fs err as)"
proof (induction fs arbitrary: as)
  case (Cons f fs)
  have "set as \<subseteq> set (respond (fut_errCh f) err as)" by (rule respond_mono)
  also have "\<dots> \<subseteq> set (respond_all (f # fs) err as)" using Cons by simp
  finally show ?case .
qed simp

lemma respond_all_distinct: "distinct (map fst as) \<Longrightarrow> distinct (map fst (respond_all fs err as))"
  by (induction fs arbitrary: as) (auto intro: respond_distinct)

text \<open>Exactly the channels that had no answer get one, and it is this one.\<close>

lemma respond_all_exact:
  "set (respond_all fs err as) = set as \<union> {(c, err) | c. (\<exists>f \<in> set fs. fut_errCh f = Some c) \<and> c \<notin> fst ` set as}"
proof (induction fs arbitrary: as)
  case (Cons f fs)
  have "set (respond (fut_errCh f) err as) = set as \<union> {(c, err) | c. fut_errCh f = Some c \<and> c \<notin> fst ` set as}"
    by (auto simp: respond_def split: option.splits)
  then show ?case using Cons [of "respond (fut_errCh f) err as"] by auto
qed simp

lemma respond_all_answered:
  "f \<in> set fs \<Longrightarrow> fut_errCh f = Some c \<Longrightarrow> c \<in> fst ` set (respond_all fs err as)"
proof (induction fs arbitrary: as)
  case (Cons g fs)
  show ?case
  proof (cases "f = g")
    case True
    have "c \<in> fst ` set (respond (fut_errCh g) err as)" using True Cons.prems respond_answered by simp
    then show ?thesis using respond_all_mono [of "respond (fut_errCh g) err as" fs err] by auto
  next
    case False
    with Cons show ?thesis by simp
  qed
qed simp

lemma respond_all_new:
  "(c, e) \<in> set (respond_all fs err as) \<Longrightarrow> (c, e) \<in> set as \<or> e = err"
  by (induction fs arbitrary: as) (auto simp: respond_def split: option.splits if_splits, fastforce+)

lemma majorities_meet:
  assumes "finite C" and "A \<subseteq> C" and "B \<subseteq> C"
    and "int (card C) div 2 + 1 \<le> int (card A)" and "int (card C) div 2 + 1 \<le> int (card B)"
  shows "A \<inter> B \<noteq> {}"
proof
  assume "A \<inter> B = {}"
  then have "card (A \<union> B) = card A + card B"
    using assms finite_subset by (intro card_Un_disjoint) auto
  moreover have "card (A \<union> B) \<le> card C" using assms by (intro card_mono) auto
  ultimately show False using assms(4,5) by linarith
qed

section \<open>Properties\<close>

text \<open>
  C4: Committing one index never panics and commits in log order: from a well-formed set of
  in-flight entries \<open>[b, e)\<close>, \<open>commit\<close> returns, and what it appends to the committed
  list is a run of consecutive entries starting at \<open>b\<close>, each of which has reached its
  quorum, while the first entry left has not.
\<close>

theorem commit_in_order:
  assumes "window i b e" and "head_waiting i"
  shows "\<exists>i' b'. commit i index = Ret i' \<and> delivers i b i' b' e"
  using assms by (rule commit_delivers)

definition demo_future :: "uint64 \<Rightarrow> nat \<Rightarrow> logFuture" where
  "demo_future idx ch = \<lparr>fut_errCh = Some ch,
     fut_log = \<lparr>log_Index = idx, log_Term = 1, log_Type = LogCommand, log_Data = [], log_peer = []\<rparr>,
     fut_policy = Some (newMajorityQuorum 3)\<rparr>"

definition demo_inflight :: inflight where
  "demo_inflight = (newInflight \<lparr>sig_pending = False, sig_closed = False\<rparr>)
     \<lparr>minCommit := 5, maxCommit := 6, operations := [(5, demo_future 5 0), (6, demo_future 6 1)]\<rparr>"

lemma demo_window: "window demo_inflight 5 7" and demo_head: "head_waiting demo_inflight"
proof -
  have "{5..6 :: uint64} = {5, 6}" using word_interval_snoc [of 5 5] by auto
  then show "window demo_inflight 5 7"
    by (auto simp: window_def inflight_inv_def demo_inflight_def newInflight_def demo_future_def)
  show "head_waiting demo_inflight"
    by (simp add: head_waiting_def demo_inflight_def newInflight_def demo_future_def has_quorum_def
        mq_IsCommitted_def newMajorityQuorum_def)
qed

theorem commit_in_order_witness:
  "\<exists>i' b'. commit demo_inflight 5 = Ret i' \<and> delivers demo_inflight 5 i' b' 7"
  using demo_window demo_head by (rule commit_in_order)

text \<open>
  Committing a range of indexes, as a follower's acknowledgement does, returns for every
  range that does not end at the largest \<open>uint64\<close>, and delivers consecutive entries with
  their quorums, in log order.
\<close>

theorem CommitRange_in_order:
  assumes "window i b e" and "head_waiting i" and "maxIndex \<noteq> - 1"
  shows "\<exists>i' b'. CommitRange i minIndex maxIndex = Ret i' \<and> delivers i b i' b' e"
  using assms by (rule CommitRange_delivers)

theorem CommitRange_in_order_witness:
  "\<exists>i' b'. CommitRange demo_inflight 1 6 = Ret i' \<and> delivers demo_inflight 5 i' b' 7"
proof -
  have "(6 :: uint64) \<noteq> - 1" by simp
  with demo_window demo_head show ?thesis by (rule CommitRange_in_order)
qed

text \<open>
  Starting a batch of consecutive entries extends the in-flight window by the batch and
  never panics: entries whose quorum is already reached (a cluster of one) are delivered at
  once, in order, and every entry of the batch is either delivered or still tracked.
\<close>

theorem StartAll_extends_window:
  assumes "window i b e" and "head_waiting i" and "fresh_batch e ls" and "\<not> sig_closed (commitCh i)"
  shows "\<exists>i' b'. StartAll i ls = Ret i' \<and> delivers i b i' b' (e + of_nat (length ls)) \<and>
                 \<not> sig_closed (commitCh i')"
  using assms by (rule StartAll_delivers)

theorem StartAll_extends_window_witness:
  "\<exists>i' b'. StartAll demo_inflight [demo_future 7 2, demo_future 8 3] = Ret i' \<and>
           delivers demo_inflight 5 i' b' (7 + of_nat (length [demo_future 7 2, demo_future 8 3])) \<and>
           \<not> sig_closed (commitCh i')"
proof (rule StartAll_extends_window [OF demo_window demo_head])
  show "fresh_batch 7 [demo_future 7 2, demo_future 8 3]"
    by (simp add: demo_future_def has_quorum_def newMajorityQuorum_def mq_IsCommitted_def)
  show "\<not> sig_closed (commitCh demo_inflight)"
    by (simp add: demo_inflight_def newInflight_def)
qed

text \<open>
  C21: When the leader steps down, \<open>Cancel\<close> answers every entry that is still in flight or
  committed but not yet processed, answers no channel twice, gives the cancellation error to
  those it answers, and leaves a state in which later commits from replication routines do
  nothing (in particular they do not send on the closed channel).
\<close>

theorem Cancel_answers_all:
  assumes "\<not> sig_closed (inf_stopCh i)" and "\<not> sig_closed (commitCh i)" and "distinct (map fst as)"
  shows "\<exists>i' as'. Cancel i err as = Ret (i', as') \<and>
     (\<forall>f c. f \<in> snd ` set (operations i) \<union> set (committed i) \<longrightarrow> fut_errCh f = Some c \<longrightarrow>
        c \<in> fst ` set as') \<and>
     distinct (map fst as') \<and> (\<forall>c e. (c, e) \<in> set as' \<longrightarrow> (c, e) \<in> set as \<or> e = Some err) \<and>
     window i' b b \<and> committed i' = [] \<and> (\<forall>index. commit i' index = Ret i')"
proof -
  let ?as1 = "respond_all (map snd (operations i)) (Some err) as"
  let ?as2 = "respond_all (committed i) (Some err) ?as1"
  let ?i = "i\<lparr>inf_stopCh := (inf_stopCh i)\<lparr>sig_closed := True\<rparr>, operations := [], committed := [],
      commitCh := (commitCh i)\<lparr>sig_closed := True\<rparr>, minCommit := 0, maxCommit := 0\<rparr>"
  have "Cancel i err as = Ret (?i, ?as2)"
    using assms by (simp add: Cancel_def close_signal_def Let_def)
  moreover have "c \<in> fst ` set ?as2"
    if "f \<in> snd ` set (operations i) \<union> set (committed i)" and "fut_errCh f = Some c" for f c
    using that respond_all_answered [of f "map snd (operations i)" c "Some err" as]
      respond_all_answered [of f "committed i" c] respond_all_mono [of ?as1 "committed i" "Some err"]
    by auto
  moreover have "distinct (map fst ?as2)"
    using assms(3) by (intro respond_all_distinct)
  moreover have "(c, e) \<in> set as \<or> e = Some err" if "(c, e) \<in> set ?as2" for c e
    using that by (auto dest!: respond_all_new)
  moreover have "window ?i b b" by (simp add: window_def inflight_inv_def)
  moreover have "commit ?i index = Ret ?i" for index by (simp add: commit_untracked)
  ultimately show ?thesis by (intro exI [of _ ?i] exI [of _ ?as2]) auto
qed

theorem Cancel_answers_all_witness:
  "\<exists>i' as'. Cancel demo_inflight ErrLeadershipLost [] = Ret (i', as') \<and>
     (\<forall>f c. f \<in> snd ` set (operations demo_inflight) \<union> set (committed demo_inflight) \<longrightarrow>
        fut_errCh f = Some c \<longrightarrow> c \<in> fst ` set as') \<and>
     distinct (map fst as') \<and>
     (\<forall>c e. (c, e) \<in> set as' \<longrightarrow> (c, e) \<in> set [] \<or> e = Some ErrLeadershipLost) \<and>
     window i' 7 7 \<and> committed i' = [] \<and> (\<forall>index. commit i' index = Ret i')"
  by (rule Cancel_answers_all) (simp_all add: demo_inflight_def newInflight_def)

text \<open>
  Two quorums of the same cluster always share a member: any two sets of members that
  each satisfy the policy of \<open>newMajorityQuorum\<close> for the cluster's size intersect.
\<close>

theorem newMajorityQuorum_intersects:
  assumes "finite C" and "A \<subseteq> C" and "B \<subseteq> C"
    and "mq_IsCommitted (newMajorityQuorum (int (card C)) \<lparr>mq_count := int (card A)\<rparr>)"
    and "mq_IsCommitted (newMajorityQuorum (int (card C)) \<lparr>mq_count := int (card B)\<rparr>)"
  shows "A \<inter> B \<noteq> {}"
  using majorities_meet [OF assms(1-3)] assms(4,5)
  by (simp add: mq_IsCommitted_def newMajorityQuorum_def)

theorem newMajorityQuorum_intersects_witness: "{1, 2 :: nat} \<inter> {2, 3} \<noteq> {}"
  by (rule newMajorityQuorum_intersects [of "{1, 2, 3}"])
     (simp_all add: mq_IsCommitted_def newMajorityQuorum_def)

end
