(* ===== verification/Go_Strings.thy ===== *)
theory Go_Strings
  imports Go_Prelude "HOL-Library.Char_ord" "HOL-Library.List_Lexorder"
begin

text \<open>
  What the sources use of Go's \<open>strings\<close> and \<open>strconv\<close> packages: decimal numbers,
  splitting and trimming. Strings are lists of bytes; letters and white space are the ASCII ones.
\<close>

section \<open>Decimal numbers\<close>

definition digit_char :: "nat \<Rightarrow> char" where
  "digit_char d = char_of (48 + d)"

fun digits10 :: "nat \<Rightarrow> string" where
  "digits10 n = (if n < 10 then [digit_char n] else digits10 (n div 10) @ [digit_char (n mod 10)])"

declare digits10.simps [simp del]

definition digit_val :: "char \<Rightarrow> nat" where
  "digit_val c = of_char c - 48"

fun dec_val :: "string \<Rightarrow> nat" where
  "dec_val [] = 0"
| "dec_val (c # cs) = digit_val c * 10 ^ length cs + dec_val cs"

definition is_digits :: "string \<Rightarrow> bool" where
  "is_digits s \<longleftrightarrow> (\<forall>c \<in> set s. CHR ''0'' \<le> c \<and> c \<le> CHR ''9'')"

lemma digit_iff: "CHR ''0'' \<le> c \<and> c \<le> CHR ''9'' \<longleftrightarrow> 48 \<le> (of_char c :: nat) \<and> (of_char c :: nat) \<le> 57"
  by (simp add: less_eq_char_def)

lemma of_char_digit [simp]: "d < 10 \<Longrightarrow> of_char (digit_char d) = 48 + d"
  by (simp add: digit_char_def)

lemma digit_val_digit_char [simp]: "d < 10 \<Longrightarrow> digit_val (digit_char d) = d"
  by (simp add: digit_val_def)

lemma digit_val_zero [simp]: "digit_val (CHR ''0'') = 0"
  by (simp add: digit_val_def)

lemma radix_less:
  fixes x y p :: nat
  assumes "x < p" and "y < p"
  shows "a * p + x < b * p + y \<longleftrightarrow> a < b \<or> a = b \<and> x < y"
proof -
  have less: "a * p + x < b * p + y" if "a < b" "x < p" for a b x y
  proof -
    have "a * p + x < Suc a * p" using that by simp
    also have "\<dots> \<le> b * p" using that by (intro mult_right_mono) auto
    finally show ?thesis by simp
  qed
  show ?thesis using assms less [of a b x y] less [of b a y x] by (cases a b rule: linorder_cases) auto
qed

lemma is_digits_append [simp]: "is_digits (xs @ ys) \<longleftrightarrow> is_digits xs \<and> is_digits ys"
  by (auto simp: is_digits_def)

lemma is_digits_Cons [simp]:
  "is_digits (c # cs) \<longleftrightarrow> 48 \<le> (of_char c :: nat) \<and> (of_char c :: nat) \<le> 57 \<and> is_digits cs"
  by (auto simp: is_digits_def digit_iff)

lemma is_digits_Nil [simp]: "is_digits []"
  by (simp add: is_digits_def)

lemma dec_val_append [simp]: "dec_val (xs @ ys) = dec_val xs * 10 ^ length ys + dec_val ys"
  by (induction xs) (auto simp: algebra_simps power_add)

lemma is_digits_digits10: "is_digits (digits10 n)"
  by (induction n rule: digits10.induct) (subst digits10.simps, auto)

lemma dec_val_digits10 [simp]: "dec_val (digits10 n) = n"
  by (induction n rule: digits10.induct) (subst digits10.simps, auto)

lemma digits10_not_Nil [simp]: "digits10 n \<noteq> []"
  by (subst digits10.simps) simp

lemma length_digits10: "n < 10 ^ Suc k \<Longrightarrow> length (digits10 n) \<le> Suc k"
proof (induction n arbitrary: k rule: digits10.induct)
  case (1 n)
  show ?case
  proof (cases "n < 10")
    case True
    then show ?thesis by (subst digits10.simps) simp
  next
    case False
    with "1.prems" obtain j where k: "k = Suc j" by (cases k) auto
    with "1.prems" have "n div 10 < 10 ^ Suc j" by (simp add: less_mult_imp_div_less)
    with False k "1.IH" [of j] show ?thesis by (subst digits10.simps) simp
  qed
qed

lemma unat_uint64_bound: "unat (u :: uint64) < 2 ^ 64"
  using unsigned_less [of u] by simp

lemma dec_val_zeros [simp]: "dec_val (replicate n (CHR ''0'')) = 0"
  by (induction n) auto

lemma is_digits_zeros [simp]: "is_digits (replicate n (CHR ''0''))"
  by (induction n) auto

lemma dec_val_bound: "is_digits s \<Longrightarrow> dec_val s < 10 ^ length s"
proof (induction s)
  case (Cons c cs)
  then have "digit_val c * 10 ^ length cs + dec_val cs < 10 * 10 ^ length cs + 0"
    by (subst radix_less) (auto simp: digit_val_def)
  then show ?case by simp
qed simp

lemma dec_val_less_iff:
  "length xs = length ys \<Longrightarrow> is_digits xs \<Longrightarrow> is_digits ys \<Longrightarrow> xs < ys \<longleftrightarrow> dec_val xs < dec_val ys"
proof (induction xs ys rule: list_induct2)
  case (Cons x xs y ys)
  have "dec_val xs < 10 ^ length ys" and "dec_val ys < 10 ^ length ys"
    using Cons.prems Cons.hyps dec_val_bound [of xs] dec_val_bound [of ys] by simp_all
  moreover have "x < y \<longleftrightarrow> digit_val x < digit_val y"
    using Cons.prems by (auto simp: digit_val_def less_char_def)
  moreover have "x = y \<longleftrightarrow> digit_val x = digit_val y"
  proof -
    have "(of_char x :: nat) = of_char y \<longleftrightarrow> x = y" by (rule of_char_eq_iff)
    with Cons.prems show ?thesis by (auto simp: digit_val_def eq_diff_iff)
  qed
  ultimately show ?case using Cons by (simp add: radix_less)
qed simp

text \<open>\<open>strconv.Itoa\<close>, and \<open>strconv.Atoi\<close> with \<open>None\<close> for its syntax and range errors.\<close>

definition Itoa :: "int \<Rightarrow> string" where
  "Itoa n = (if n < 0 then CHR ''-'' # digits10 (nat (- n)) else digits10 (nat n))"

fun unsigned_part :: "string \<Rightarrow> bool \<times> string" where
  "unsigned_part (c # cs) = (if c = CHR ''-'' then (True, cs) else if c = CHR ''+'' then (False, cs) else (False, c # cs))"
| "unsigned_part [] = (False, [])"

definition Atoi :: "string \<Rightarrow> int option" where
  "Atoi s =
     (let (neg, ds) = unsigned_part s; n = (if neg then - int (dec_val ds) else int (dec_val ds))
      in if ds = [] \<or> \<not> is_digits ds \<or> n < - (2 ^ 63) \<or> 2 ^ 63 \<le> n then None else Some n)"

lemma unsigned_part_digits10: "unsigned_part (digits10 n) = (False, digits10 n)"
proof (cases "digits10 n")
  case (Cons c cs)
  then have "48 \<le> (of_char c :: nat)" using is_digits_digits10 [of n] by simp
  then have "c \<noteq> CHR ''-''" "c \<noteq> CHR ''+''" by auto
  with Cons show ?thesis by simp
qed simp

lemma Atoi_Itoa: "- (2 ^ 63) \<le> n \<Longrightarrow> n < 2 ^ 63 \<Longrightarrow> Atoi (Itoa n) = Some n"
  by (auto simp: Atoi_def Itoa_def unsigned_part_digits10 is_digits_digits10)

section \<open>Splitting and trimming\<close>

fun split_by :: "('a \<Rightarrow> bool) \<Rightarrow> 'a list \<Rightarrow> 'a list list" where
  "split_by p [] = [[]]"
| "split_by p (x # xs) =
     (if p x then [] # split_by p xs else (x # hd (split_by p xs)) # tl (split_by p xs))"

definition strings_Split :: "string \<Rightarrow> char \<Rightarrow> string list" where
  "strings_Split s c = split_by (\<lambda>x. x = c) s"

definition FieldsFunc :: "string \<Rightarrow> (char \<Rightarrow> bool) \<Rightarrow> string list" where
  "FieldsFunc s p = filter (\<lambda>f. f \<noteq> []) (split_by p s)"

definition is_space :: "char \<Rightarrow> bool" where
  "is_space c \<longleftrightarrow> (of_char c :: nat) \<in> {9, 10, 11, 12, 13, 32}"

definition strings_Fields :: "string \<Rightarrow> string list" where
  "strings_Fields s = FieldsFunc s is_space"

definition TrimSpace :: "string \<Rightarrow> string" where
  "TrimSpace s = rev (dropWhile is_space (rev (dropWhile is_space s)))"

definition lower_char :: "char \<Rightarrow> char" where
  "lower_char c = (if CHR ''A'' \<le> c \<and> c \<le> CHR ''Z'' then char_of (of_char c + 32 :: nat) else c)"

definition ToLower :: "string \<Rightarrow> string" where
  "ToLower = map lower_char"

definition HasPrefix :: "string \<Rightarrow> string \<Rightarrow> bool" where
  "HasPrefix s p \<longleftrightarrow> take (length p) s = p"

text \<open>\<open>strings.Index(s, c)\<close> for one character; \<open>None\<close> stands for \<open>-1\<close>.\<close>

fun index_char :: "'a \<Rightarrow> 'a list \<Rightarrow> nat option" where
  "index_char c [] = None"
| "index_char c (x # xs) = (if x = c then Some 0 else map_option Suc (index_char c xs))"

lemma split_by_not_Nil [simp]: "split_by p xs \<noteq> []"
  by (cases xs) auto

lemma split_by_none: "\<forall>x \<in> set xs. \<not> p x \<Longrightarrow> split_by p xs = [xs]"
  by (induction xs) auto

lemma split_by_append: "p c \<Longrightarrow> split_by p (xs @ c # ys) = split_by p xs @ split_by p ys"
  by (induction xs) auto

lemma index_char_Some: "index_char c xs = Some i \<Longrightarrow> i < length xs \<and> xs ! i = c"
  by (induction xs arbitrary: i) (auto split: if_splits)

lemma index_char_None: "index_char c xs = None \<longleftrightarrow> c \<notin> set xs"
  by (induction xs) auto

lemma index_char_nth: "distinct xs \<Longrightarrow> i < length xs \<Longrightarrow> index_char (xs ! i) xs = Some i"
  by (induction xs arbitrary: i) (auto simp: nth_Cons split: nat.splits)

end
