(* ===== verification/Bunt_Db.thy ===== *)
theory Bunt_Db
  imports Raft_Log Go_Strings "HOL-Library.AList"
begin

text \<open>
  What the durable store of a node uses of the embedded database \<open>buntdb\<close>
  (\<open>vendor/github.com/tidwall/buntdb/buntdb.go\<close>): its items in key order, and write transactions, which change the items in
  place, remember what they overwrite and roll back when the append-only file cannot be written. The store sets no expiry and
  has no indexes besides the keys, so these parts of an item play no role. What a failed write leaves in the file is not
  modelled.
\<close>

section \<open>Items\<close>

type_synonym items = "(string \<times> string) list"

record bunt =
  db_items :: items
  db_aof :: "bool list"

text \<open>
  \<open>db_items\<close> is the tree \<open>keys\<close>; \<open>db_aof\<close> holds the results of the coming writes of the file (an empty
  list: they succeed).
\<close>

text \<open>\<open>ReplaceOrInsert\<close> of the tree.\<close>

fun tx_Set :: "string \<Rightarrow> string \<Rightarrow> items \<Rightarrow> items" where
  "tx_Set k v [] = [(k, v)]"
| "tx_Set k v ((k', v') # xs) =
     (if k < k' then (k, v) # (k', v') # xs
      else if k = k' then (k, v) # xs else (k', v') # tx_Set k v xs)"

definition insertIntoDatabase :: "string \<Rightarrow> string \<Rightarrow> items \<Rightarrow> string option \<times> items" where
  "insertIntoDatabase k v xs = (map_of xs k, tx_Set k v xs)"

definition deleteFromDatabase :: "string \<Rightarrow> items \<Rightarrow> string option \<times> items" where
  "deleteFromDatabase k xs = (map_of xs k, filter (\<lambda>(k', _). k' \<noteq> k) xs)"

section \<open>Transactions\<close>

text \<open>A write transaction: the items it works on, the items to restore on rollback (\<open>nil\<close>: the key was not there), the items to write to the file.\<close>

record Tx =
  tx_keys :: items
  tx_rollbackItems :: "(string \<times> string option) list"
  tx_commitItems :: "(string \<times> string option) list"

definition db_Begin :: "bunt \<Rightarrow> Tx" where
  "db_Begin b = \<lparr>tx_keys = db_items b, tx_rollbackItems = [], tx_commitItems = []\<rparr>"

definition Tx_Set :: "string \<Rightarrow> string \<Rightarrow> Tx \<Rightarrow> Tx" where
  "Tx_Set k v tx =
     (let (prev, xs) = insertIntoDatabase k v (tx_keys tx)
      in tx\<lparr>tx_keys := xs,
            tx_rollbackItems := (case prev of
                None \<Rightarrow> AList.update k None (tx_rollbackItems tx)
              | Some p \<Rightarrow> if map_of (tx_rollbackItems tx) k = None then AList.update k (Some p) (tx_rollbackItems tx) else tx_rollbackItems tx),
            tx_commitItems := AList.update k (Some v) (tx_commitItems tx)\<rparr>)"

definition tx_Get :: "string \<Rightarrow> items \<Rightarrow> raft_error + string" where
  "tx_Get k xs = (case map_of xs k of None \<Rightarrow> Inl ErrNotFound | Some v \<Rightarrow> Inr v)"

definition Tx_Delete :: "string \<Rightarrow> Tx \<Rightarrow> Tx \<times> raft_error option" where
  "Tx_Delete k tx =
     (case deleteFromDatabase k (tx_keys tx) of
        (None, _) \<Rightarrow> (tx, Some ErrNotFound)
      | (Some item, xs) \<Rightarrow>
          (tx\<lparr>tx_keys := xs,
              tx_rollbackItems := (if map_of (tx_rollbackItems tx) k = None then AList.update k (Some item) (tx_rollbackItems tx) else tx_rollbackItems tx),
              tx_commitItems := AList.update k None (tx_commitItems tx)\<rparr>, None))"

definition rollback_item :: "string \<times> string option \<Rightarrow> items \<Rightarrow> items" where
  "rollback_item ki xs =
     (case ki of (key, item) \<Rightarrow> let xs1 = snd (deleteFromDatabase key xs) in
       case item of None \<Rightarrow> xs1 | Some v \<Rightarrow> snd (insertIntoDatabase key v xs1))"

definition rollbackInner :: "Tx \<Rightarrow> items" where
  "rollbackInner tx = fold rollback_item (tx_rollbackItems tx) (tx_keys tx)"

definition db_Commit :: "bunt \<Rightarrow> Tx \<Rightarrow> bunt \<times> raft_error option" where
  "db_Commit b tx =
     (if tx_commitItems tx \<noteq> []
      then (case db_aof b of
          [] \<Rightarrow> (b\<lparr>db_items := tx_keys tx\<rparr>, None)
        | ok # rest \<Rightarrow> if ok then (b\<lparr>db_items := tx_keys tx, db_aof := rest\<rparr>, None)
                      else (b\<lparr>db_items := rollbackInner tx, db_aof := rest\<rparr>, Some (ErrOther ''write error'')))
      else (b\<lparr>db_items := tx_keys tx\<rparr>, None))"

section \<open>The items stay sorted\<close>

definition sorted_items :: "items \<Rightarrow> bool" where
  "sorted_items xs \<longleftrightarrow> sorted_wrt (<) (map fst xs)"

lemma sorted_items_Cons [simp]:
  "sorted_items ((k, v) # xs) \<longleftrightarrow> (\<forall>k' \<in> fst ` set xs. k < k') \<and> sorted_items xs"
  by (auto simp: sorted_items_def)

lemma sorted_items_Nil [simp]: "sorted_items []"
  by (simp add: sorted_items_def)

lemma keys_tx_Set [simp]: "fst ` set (tx_Set k v xs) = insert k (fst ` set xs)"
  by (induction k v xs rule: tx_Set.induct) auto

lemma sorted_tx_Set: "sorted_items xs \<Longrightarrow> sorted_items (tx_Set k v xs)"
  by (induction k v xs rule: tx_Set.induct) auto

lemma map_of_tx_Set: "sorted_items xs \<Longrightarrow> map_of (tx_Set k v xs) = (map_of xs)(k \<mapsto> v)"
proof (induction k v xs rule: tx_Set.induct)
  case (2 k v k' v' xs)
  then show ?case by (auto simp: fun_eq_iff)
qed simp

lemma sorted_tx_Delete: "sorted_items xs \<Longrightarrow> sorted_items (filter P xs)"
  by (induction xs) auto

lemma map_of_filter_key: "map_of (filter (\<lambda>(k', _). k' \<noteq> k) xs) = (map_of xs)(k := None)"
  by (induction xs) (auto simp: fun_eq_iff)

lemma set_map_of: "sorted_items xs \<Longrightarrow> (k, v) \<in> set xs \<longleftrightarrow> map_of xs k = Some v"
  by (induction xs) (auto split: if_splits dest: map_of_SomeD, force+)

lemma find_sorted:
  assumes "sorted_items xs" and "find P xs = Some x"
  shows "x \<in> set xs \<and> P x \<and> (\<forall>y \<in> set xs. P y \<longrightarrow> fst x \<le> fst y)"
  using assms by (induction xs) (auto split: if_splits, fastforce+)

lemma find_append:
  "find P (xs @ ys) = (case find P xs of None \<Rightarrow> find P ys | Some x \<Rightarrow> Some x)"
  by (induction xs) auto

lemma find_rev_sorted:
  assumes "sorted_items xs" and "find P (rev xs) = Some x"
  shows "x \<in> set xs \<and> P x \<and> (\<forall>y \<in> set xs. P y \<longrightarrow> fst y \<le> fst x)"
  using assms
proof (induction xs)
  case (Cons y xs)
  obtain k v where y: "y = (k, v)" by force
  show ?case
  proof (cases "find P (rev xs)")
    case None
    then have "\<forall>z \<in> set xs. \<not> P z" by (auto simp: find_None_iff)
    with Cons.prems None show ?thesis
      by (auto simp: find_append split: option.splits if_splits)
  next
    case (Some z)
    with Cons.prems y have "z = x" "x \<in> set xs \<and> P x \<and> (\<forall>y \<in> set xs. P y \<longrightarrow> fst y \<le> fst x)"
      using Cons.IH by (auto simp: find_append)
    with Cons.prems y show ?thesis by (auto intro: order.strict_implies_order)
  qed
qed simp

text \<open>Two ordered lists of items with the same lookups are the same.\<close>

lemma sorted_items_eq:
  assumes "sorted_items xs" and "sorted_items ys" and "map_of xs = map_of ys"
  shows "xs = ys"
proof (rule map_sorted_distinct_set_unique [where f = fst])
  have "set xs = set ys" using set_map_of [OF assms(1)] set_map_of [OF assms(2)] assms(3) by auto
  then show "set xs = set ys" .
  show "inj_on fst (set xs \<union> set ys)"
    using set_map_of [OF assms(1)] set_map_of [OF assms(2)] assms(3) by (auto simp: inj_on_def)
qed (use assms(1,2) in \<open>auto simp: sorted_items_def strict_sorted_iff\<close>)

section \<open>Rolling back\<close>

text \<open>What a key holds after a rollback: what was noted, or what it holds now.\<close>

definition restored :: "Tx \<Rightarrow> string \<Rightarrow> string option" where
  "restored tx k = (case map_of (tx_rollbackItems tx) k of None \<Rightarrow> map_of (tx_keys tx) k | Some item \<Rightarrow> item)"

text \<open>A transaction that started on the items \<open>xs\<close> and has noted all that it changed.\<close>

definition undoable :: "items \<Rightarrow> Tx \<Rightarrow> bool" where
  "undoable xs tx \<longleftrightarrow> sorted_items xs \<and> sorted_items (tx_keys tx) \<and> distinct (map fst (tx_rollbackItems tx)) \<and>
     (\<forall>k. restored tx k = map_of xs k)"

lemma undoable_Begin: "sorted_items (db_items b) \<Longrightarrow> undoable (db_items b) (db_Begin b)"
  by (simp add: undoable_def restored_def db_Begin_def)

text \<open>A key that the transaction has deleted must not be set again: \<open>Set\<close> would note it as new.\<close>

lemma undoable_Set:
  assumes u: "undoable xs tx" and fresh: "map_of (tx_keys tx) k = None \<Longrightarrow> map_of xs k = None"
  shows "undoable xs (Tx_Set k v tx)"
proof -
  let ?tx = "Tx_Set k v tx"
  have s: "sorted_items xs" "sorted_items (tx_keys tx)" "distinct (map fst (tx_rollbackItems tx))" and
    r: "restored tx j = map_of xs j" for j using u by (simp_all add: undoable_def)
  have fresh': "map_of (tx_keys tx) k = None \<Longrightarrow> restored tx k = None" using fresh r by simp
  have "restored ?tx j = map_of xs j" for j
    unfolding r [of j, symmetric] using s(2) fresh'
    by (cases "map_of (tx_keys tx) k"; cases "map_of (tx_rollbackItems tx) k"; cases "j = k")
       (simp_all add: restored_def Tx_Set_def insertIntoDatabase_def map_of_tx_Set update_conv' del: map_of_eq_None_iff cong: option.case_cong)
  moreover have "sorted_items (tx_keys ?tx)" using s(2) by (simp add: Tx_Set_def insertIntoDatabase_def sorted_tx_Set)
  moreover have "distinct (map fst (tx_rollbackItems ?tx))"
    using s(3) by (simp add: Tx_Set_def insertIntoDatabase_def distinct_update split: option.split)
  ultimately show ?thesis using s(1) by (simp add: undoable_def)
qed

lemma undoable_Delete:
  assumes u: "undoable xs tx"
  shows "undoable xs (fst (Tx_Delete k tx))"
proof (cases "map_of (tx_keys tx) k")
  case None
  then show ?thesis using u by (simp add: Tx_Delete_def deleteFromDatabase_def)
next
  case (Some item)
  let ?tx = "fst (Tx_Delete k tx)"
  have s: "sorted_items xs" "sorted_items (tx_keys tx)" "distinct (map fst (tx_rollbackItems tx))" and
    r: "restored tx j = map_of xs j" for j using u by (simp_all add: undoable_def)
  have tx: "tx_keys ?tx = filter (\<lambda>(k', _). k' \<noteq> k) (tx_keys tx)"
    "tx_rollbackItems ?tx = (if map_of (tx_rollbackItems tx) k = None then AList.update k (Some item) (tx_rollbackItems tx) else tx_rollbackItems tx)"
    using Some by (simp_all add: Tx_Delete_def deleteFromDatabase_def)
  have "restored ?tx j = map_of xs j" for j
    unfolding r [of j, symmetric]
    by (cases "map_of (tx_rollbackItems tx) k"; cases "j = k")
       (simp_all add: restored_def tx Some map_of_filter_key update_conv' del: map_of_eq_None_iff cong: option.case_cong)
  moreover have "sorted_items (tx_keys ?tx)" using s(2) Some by (simp add: Tx_Delete_def deleteFromDatabase_def sorted_tx_Delete)
  moreover have "distinct (map fst (tx_rollbackItems ?tx))"
    using s(3) Some by (simp add: Tx_Delete_def deleteFromDatabase_def distinct_update)
  ultimately show ?thesis using s(1) by (simp add: undoable_def)
qed

lemma rollback_item_effect:
  assumes "sorted_items xs"
  shows "sorted_items (rollback_item (k, item) xs) \<and> map_of (rollback_item (k, item) xs) = (map_of xs)(k := item)"
  using assms
  by (cases item) (simp_all add: rollback_item_def deleteFromDatabase_def insertIntoDatabase_def sorted_tx_Delete sorted_tx_Set map_of_tx_Set
      map_of_filter_key Let_def)

lemma rollback_fold:
  assumes "sorted_items xs" and "distinct (map fst rs)"
  shows "sorted_items (fold rollback_item rs xs) \<and>
    map_of (fold rollback_item rs xs) j = (case map_of rs j of None \<Rightarrow> map_of xs j | Some item \<Rightarrow> item)"
  using assms
proof (induction rs arbitrary: xs)
  case (Cons r rs)
  obtain k item where r: "r = (k, item)" by (cases r)
  note e = rollback_item_effect [OF Cons.prems(1), of k item]
  have "map_of rs k = None" using Cons.prems(2) by (simp add: r map_of_eq_None_iff)
  with Cons.IH [of "rollback_item r xs"] e Cons.prems(2) show ?case by (cases "j = k") (simp_all add: r cong: option.case_cong)
qed simp

lemma rollbackInner_restores:
  assumes "undoable xs tx"
  shows "rollbackInner tx = xs"
proof -
  have s: "sorted_items xs" "sorted_items (tx_keys tx)" "distinct (map fst (tx_rollbackItems tx))" and
    r: "restored tx k = map_of xs k" for k using assms by (simp_all add: undoable_def)
  note f = rollback_fold [OF s(2,3)]
  have "map_of (rollbackInner tx) = map_of xs"
    using f r by (intro ext) (simp add: rollbackInner_def restored_def)
  then show ?thesis using f s(1) by (intro sorted_items_eq) (simp_all add: rollbackInner_def)
qed

lemma db_Commit_ok: "db_Commit b tx = (b', None) \<Longrightarrow> db_items b' = tx_keys tx"
  by (auto simp: db_Commit_def split: if_splits list.splits)

lemma db_Commit_fail: "undoable (db_items b) tx \<Longrightarrow> db_Commit b tx = (b', Some e) \<Longrightarrow> db_items b' = db_items b"
  by (auto simp: db_Commit_def rollbackInner_restores split: if_splits list.splits)

text \<open>
  The limit on \<open>Set\<close> is needed: after a transaction has deleted a key and set it again, a rollback loses the item that
  was there. No operation of the store does so.
\<close>

lemma delete_then_set_is_not_undone:
  "rollbackInner (Tx_Set ''k'' ''new'' (fst (Tx_Delete ''k'' (db_Begin \<lparr>db_items = [(''k'', ''old'')], db_aof = []\<rparr>)))) = []"
  by code_simp

end
