(* ===== verification/Raft_Store.thy ===== *)
theory Raft_Store
  imports Bunt_Db "HOL-Library.Sublist"
begin

text \<open>
  The durable store of a node (\<open>raft/store.go\<close>, type \<open>BuntStore\<close>), which is both its
  \<open>LogStore\<close> and its \<open>StableStore\<close>, and the ring buffer \<open>LogCache\<close> that can wrap a log
  store (\<open>raft/log_cache.go\<close>). It starts with the codecs of the stored bytes, states the
  interface \<open>StableStore\<close> as a locale, and interprets the interfaces on the store.
\<close>

unbundle bit_operations_syntax

section \<open>Decimal numbers\<close>

definition FormatUint :: "uint64 \<Rightarrow> string" where
  "FormatUint u = digits10 (unat u)"

text \<open>
  \<open>strconv.ParseUint(s, 10, 64)\<close>: the value and the error. A syntax error gives 0, an
  overflow the largest value.
\<close>

fun ParseUint_loop :: "uint64 \<Rightarrow> string \<Rightarrow> uint64 \<times> raft_error option" where
  "ParseUint_loop n [] = (n, None)"
| "ParseUint_loop n (c # cs) =
     (if \<not> (CHR ''0'' \<le> c \<and> c \<le> CHR ''9'') then (0, Some (ErrOther ''invalid syntax''))
      else if n \<ge> 1844674407370955162 then (- 1, Some (ErrOther ''value out of range''))
      else let n1 = n * 10; n2 = n1 + of_nat (of_char c - 48) in
           if n2 < n1 then (- 1, Some (ErrOther ''value out of range''))
           else ParseUint_loop n2 cs)"

definition ParseUint :: "string \<Rightarrow> uint64 \<times> raft_error option" where
  "ParseUint s = (if s = [] then (0, Some (ErrOther ''invalid syntax'')) else ParseUint_loop 0 s)"

definition stringToUint64 :: "string \<Rightarrow> uint64" where
  "stringToUint64 s = fst (ParseUint s)"

definition uint64ToString :: "uint64 \<Rightarrow> string" where
  "uint64ToString u = (let s = replicate 20 (CHR ''0'') @ FormatUint u in drop (length s - 20) s)"

section \<open>The bytes of a log entry\<close>

fun put_le :: "nat \<Rightarrow> uint64 \<Rightarrow> bytes" where
  "put_le 0 v = []"
| "put_le (Suc n) v = char_of (unat v) # put_le n (drop_bit 8 v)"

fun get_le :: "bytes \<Rightarrow> uint64" where
  "get_le [] = 0"
| "get_le (c # cs) = of_nat (of_char c) OR push_bit 8 (get_le cs)"

definition encodeLog :: "Log \<Rightarrow> bytes" where
  "encodeLog l = put_le 8 (log_Index l) @ put_le 8 (log_Term l) @
                 [char_of (unat (log_Type l))] @ log_Data l"

definition decodeLog :: "bytes \<Rightarrow> raft_error + Log" where
  "decodeLog buf =
     (if length buf < 17 then Inl (ErrOther ''invalid buffer'')
      else Inr \<lparr>log_Index = get_le (take 8 buf), log_Term = get_le (take 8 (drop 8 buf)),
                log_Type = of_nat (of_char (buf ! 16)), log_Data = drop 17 buf, log_peer = []\<rparr>)"

section \<open>BuntStore\<close>

definition dbLogs :: string where "dbLogs = ''l:''"
definition dbConf :: string where "dbConf = ''c:''"

definition index_of :: "(string \<times> string) option \<Rightarrow> uint64" where
  "index_of kv = (case kv of None \<Rightarrow> 0
     | Some (k, _) \<Rightarrow> let num = drop (length dbLogs) k in
                       if num = [] then 0 else stringToUint64 num)"

definition BuntStore_FirstIndex :: "bunt \<Rightarrow> raft_error + uint64" where
  "BuntStore_FirstIndex b = Inr (index_of (find (\<lambda>(k, _). prefix dbLogs k) (db_items b)))"

definition BuntStore_LastIndex :: "bunt \<Rightarrow> raft_error + uint64" where
  "BuntStore_LastIndex b = Inr (index_of (find (\<lambda>(k, _). prefix dbLogs k) (rev (db_items b))))"

definition BuntStore_GetLog :: "bunt \<Rightarrow> uint64 \<Rightarrow> raft_error + Log" where
  "BuntStore_GetLog b idx =
     (case tx_Get (dbLogs @ uint64ToString idx) (db_items b) of
        Inl err \<Rightarrow> if err = ErrNotFound then Inl ErrLogNotFound else Inl err
      | Inr val \<Rightarrow> decodeLog val)"

fun store_loop :: "Log list \<Rightarrow> Tx \<Rightarrow> Tx" where
  "store_loop [] tx = tx"
| "store_loop (l # ls) tx = store_loop ls (Tx_Set (dbLogs @ uint64ToString (log_Index l)) (encodeLog l) tx)"

definition BuntStore_StoreLogs :: "bunt \<Rightarrow> Log list \<Rightarrow> bunt \<times> raft_error option" where
  "BuntStore_StoreLogs b logs = db_Commit b (store_loop logs (db_Begin b))"

definition BuntStore_StoreLog :: "bunt \<Rightarrow> Log \<Rightarrow> bunt \<times> raft_error option" where
  "BuntStore_StoreLog b l = BuntStore_StoreLogs b [l]"

text \<open>The body of the loop: a key that is not there is skipped, and \<open>ErrNotFound\<close> is the only error of \<open>Delete\<close>.\<close>

definition delete_body :: "uint64 \<Rightarrow> Tx \<Rightarrow> Tx outcome" where
  "delete_body i tx = (case Tx_Delete (dbLogs @ uint64ToString i) tx of (tx', _) \<Rightarrow> Ret tx')"

definition BuntStore_DeleteRange :: "bunt \<Rightarrow> uint64 \<Rightarrow> uint64 \<Rightarrow> (bunt \<times> raft_error option) outcome" where
  "BuntStore_DeleteRange b lo hi = obind (for_upto lo hi delete_body (db_Begin b)) (\<lambda>tx. Ret (db_Commit b tx))"

definition BuntStore_Set :: "bunt \<Rightarrow> bytes \<Rightarrow> bytes \<Rightarrow> bunt \<times> raft_error option" where
  "BuntStore_Set b k v = db_Commit b (Tx_Set (dbConf @ k) v (db_Begin b))"

definition BuntStore_Get :: "bunt \<Rightarrow> bytes \<Rightarrow> raft_error + bytes" where
  "BuntStore_Get b k =
     (case tx_Get (dbConf @ k) (db_items b) of
        Inl err \<Rightarrow> if err = ErrNotFound then Inl ErrKeyNotFound else Inl err
      | Inr val \<Rightarrow> Inr val)"

definition BuntStore_SetUint64 :: "bunt \<Rightarrow> bytes \<Rightarrow> uint64 \<Rightarrow> bunt \<times> raft_error option" where
  "BuntStore_SetUint64 b k v = BuntStore_Set b k (FormatUint v)"

definition BuntStore_GetUint64 :: "bunt \<Rightarrow> bytes \<Rightarrow> raft_error + uint64" where
  "BuntStore_GetUint64 b k =
     (case BuntStore_Get b k of
        Inl err \<Rightarrow> Inl err
      | Inr val \<Rightarrow> (case ParseUint val of (n, None) \<Rightarrow> Inr n | (n, Some e) \<Rightarrow> Inl e))"

definition bunt_log_store :: "bunt LogStore" where
  "bunt_log_store = \<lparr>FirstIndex = BuntStore_FirstIndex, LastIndex = BuntStore_LastIndex,
     GetLog = BuntStore_GetLog, StoreLogs = BuntStore_StoreLogs, DeleteRange = BuntStore_DeleteRange\<rparr>"

section \<open>The interface StableStore\<close>

record 'ss StableStore =
  ss_Set :: "'ss \<Rightarrow> bytes \<Rightarrow> bytes \<Rightarrow> 'ss \<times> raft_error option"
  ss_Get :: "'ss \<Rightarrow> bytes \<Rightarrow> raft_error + bytes"
  ss_SetUint64 :: "'ss \<Rightarrow> bytes \<Rightarrow> uint64 \<Rightarrow> 'ss \<times> raft_error option"
  ss_GetUint64 :: "'ss \<Rightarrow> bytes \<Rightarrow> raft_error + uint64"

text \<open>
  The laws of a stable store, over the bytes it holds: a write that succeeds changes exactly
  the written key, one that fails changes nothing, a number is read back as written.
\<close>

locale stable_store =
  fixes S :: "'ss StableStore"
    and kv :: "'ss \<Rightarrow> bytes \<rightharpoonup> bytes"
    and ss_inv :: "'ss \<Rightarrow> bool"
    and u64_bytes :: "uint64 \<Rightarrow> bytes"
  assumes Get: "ss_inv s \<Longrightarrow> ss_Get S s k = (case kv s k of None \<Rightarrow> Inl ErrKeyNotFound | Some v \<Rightarrow> Inr v)"
    and Set_ok: "ss_inv s \<Longrightarrow> ss_Set S s k v = (s', None) \<Longrightarrow> ss_inv s' \<and> kv s' = (kv s)(k \<mapsto> v)"
    and Set_fail: "ss_inv s \<Longrightarrow> ss_Set S s k v = (s', Some e) \<Longrightarrow> ss_inv s' \<and> kv s' = kv s"
    and SetUint64: "ss_SetUint64 S s k n = ss_Set S s k (u64_bytes n)"
    and GetUint64: "ss_inv s \<Longrightarrow> kv s k = Some (u64_bytes n) \<Longrightarrow> ss_GetUint64 S s k = Inr n"
    and GetUint64_cong: "ss_inv s \<Longrightarrow> ss_inv s' \<Longrightarrow> kv s' k = kv s k \<Longrightarrow>
      ss_GetUint64 S s' k = ss_GetUint64 S s k"
    and GetUint64_none: "ss_inv s \<Longrightarrow> kv s k = None \<Longrightarrow> ss_GetUint64 S s k = Inl ErrKeyNotFound"
begin

lemma get_u64_after_set:
  assumes "ss_inv s" and "ss_SetUint64 S s k n = (s', None)"
  shows "ss_GetUint64 S s' k = Inr n"
  using Set_ok [OF assms(1), of k "u64_bytes n" s'] assms(2) by (simp add: SetUint64 GetUint64)

lemma set_effect:
  assumes "ss_inv s" and "ss_Set S s k v = (s', err)"
  shows "ss_inv s' \<and> (\<forall>k'. k' \<noteq> k \<longrightarrow>
           ss_Get S s' k' = ss_Get S s k' \<and> ss_GetUint64 S s' k' = ss_GetUint64 S s k') \<and>
         (err \<noteq> None \<longrightarrow> ss_Get S s' k = ss_Get S s k \<and> ss_GetUint64 S s' k = ss_GetUint64 S s k)"
proof (cases err)
  case None
  with Set_ok [OF assms(1)] assms(2) have s': "ss_inv s'" "kv s' = (kv s)(k \<mapsto> v)" by auto
  then show ?thesis using None assms(1) by (auto simp: Get intro: GetUint64_cong)
next
  case (Some e)
  with Set_fail [OF assms(1)] assms(2) have s': "ss_inv s'" "kv s' = kv s" by auto
  then show ?thesis using assms(1) by (auto simp: Get intro: GetUint64_cong)
qed

lemma get_after_set:
  assumes "ss_inv s" and "ss_Set S s k v = (s', None)"
  shows "ss_Get S s' k' = (if k' = k then Inr v else ss_Get S s k')"
  using Set_ok [OF assms] assms(1) by (simp add: Get)

end

definition bunt_stable_store :: "bunt StableStore" where
  "bunt_stable_store = \<lparr>ss_Set = BuntStore_Set, ss_Get = BuntStore_Get,
     ss_SetUint64 = BuntStore_SetUint64, ss_GetUint64 = BuntStore_GetUint64\<rparr>"

section \<open>Decimal numbers: facts\<close>

lemma length_FormatUint: "length (FormatUint u) \<le> 20"
proof -
  have "unat u < 10 ^ Suc 19" using unat_uint64_bound [of u] by simp
  then show ?thesis using length_digits10 [of "unat u" 19] by (simp add: FormatUint_def)
qed

lemma uint64ToString_alt:
  "uint64ToString u = replicate (20 - length (FormatUint u)) (CHR ''0'') @ FormatUint u"
  using length_FormatUint [of u] by (simp add: uint64ToString_def Let_def)

lemma length_uint64ToString [simp]: "length (uint64ToString u) = 20"
  using length_FormatUint [of u] by (simp add: uint64ToString_alt)

lemma dec_val_uint64ToString [simp]: "dec_val (uint64ToString u) = unat u"
  by (simp add: uint64ToString_alt FormatUint_def)

lemma is_digits_uint64ToString [simp]: "is_digits (uint64ToString u)"
  by (simp add: uint64ToString_alt FormatUint_def is_digits_digits10)

lemma ParseUint_loop_value:
  "is_digits s \<Longrightarrow> unat n * 10 ^ length s + dec_val s < 2 ^ 64 \<Longrightarrow>
   ParseUint_loop n s = (of_nat (unat n * 10 ^ length s + dec_val s), None)"
proof (induction s arbitrary: n)
  case (Cons c cs)
  let ?d = "digit_val c"
  have d: "CHR ''0'' \<le> c \<and> c \<le> CHR ''9''" using Cons.prems by (simp add: digit_iff)
  have eq: "unat n * 10 ^ length (c # cs) + dec_val (c # cs) = (unat n * 10 + ?d) * 10 ^ length cs + dec_val cs"
    by (simp add: algebra_simps)
  have "(unat n * 10 + ?d) * 1 \<le> (unat n * 10 + ?d) * 10 ^ length cs"
    by (intro mult_left_mono) auto
  also have "\<dots> \<le> (unat n * 10 + ?d) * 10 ^ length cs + dec_val cs" by simp
  also have "\<dots> < 2 ^ 64" using Cons.prems(2) eq by simp
  finally have b: "unat n * 10 + ?d < 2 ^ 64" by simp
  have n10: "unat (n * 10) = unat n * 10"
    using b by (simp add: unat_word_ariths)
  have n2: "unat (n * 10 + of_nat ?d) = unat n * 10 + ?d"
    using b n10 by (simp add: unat_word_ariths unat_of_nat)
  have "\<not> 1844674407370955162 \<le> n" using b by (simp add: word_le_nat_alt)
  moreover have "\<not> n * 10 + of_nat ?d < n * 10" using n10 n2 by (simp add: word_less_nat_alt)
  ultimately have "ParseUint_loop n (c # cs) = ParseUint_loop (n * 10 + of_nat ?d) cs"
    using d by (simp add: Let_def digit_val_def)
  also have "\<dots> = (of_nat ((unat n * 10 + ?d) * 10 ^ length cs + dec_val cs), None)"
    using Cons.prems eq n2 by (subst Cons.IH) auto
  finally show ?case by (simp only: eq)
qed simp

lemma ParseUint_FormatUint [simp]: "ParseUint (FormatUint u) = (u, None)"
  using ParseUint_loop_value [of "FormatUint u" 0] unat_uint64_bound [of u]
  by (simp add: ParseUint_def FormatUint_def is_digits_digits10)

lemma stringToUint64_inverse [simp]: "stringToUint64 (uint64ToString u) = u"
proof -
  have "uint64ToString u \<noteq> []" using length_uint64ToString [of u] by (metis list.size(3) zero_neq_numeral)
  then show ?thesis
    using ParseUint_loop_value [of "uint64ToString u" 0] unat_uint64_bound [of u]
    by (simp add: stringToUint64_def ParseUint_def)
qed

lemma uint64ToString_less_iff: "uint64ToString u < uint64ToString v \<longleftrightarrow> u < v"
  by (simp add: dec_val_less_iff word_less_nat_alt)

lemma uint64ToString_inj [simp]: "uint64ToString u = uint64ToString v \<longleftrightarrow> u = v"
  by (metis stringToUint64_inverse)

section \<open>Bytes of a log entry: facts\<close>

lemma length_put_le [simp]: "length (put_le n v) = n"
  by (induction n arbitrary: v) auto

lemma low_byte: "(word_of_nat (unat v mod 256) :: uint64) = take_bit 8 v"
  by (simp add: word_unat_eq_iff unat_of_nat unat_mod unsigned_take_bit_eq take_bit_eq_mod)

lemma get_put_le: "get_le (put_le n v) = take_bit (8 * n) v"
proof (induction n arbitrary: v)
  case (Suc n)
  have "get_le (put_le (Suc n) v) = take_bit 8 v OR push_bit 8 (take_bit (8 * n) (drop_bit 8 v))"
    using Suc by (simp add: low_byte)
  also have "\<dots> = take_bit (8 * Suc n) v"
    by (rule bit_eqI) (auto simp: bit_simps)
  finally show ?case .
qed simp

lemma get_put_le_8 [simp]: "get_le (put_le 8 v) = v"
  by (simp add: get_put_le take_bit_word_eq_self)

lemma decode_encode_Log [simp]: "decodeLog (encodeLog l) = Inr (stored l)"
proof -
  have "take 8 (encodeLog l) = put_le 8 (log_Index l)"
    and "take 8 (drop 8 (encodeLog l)) = put_le 8 (log_Term l)"
    and "encodeLog l ! 16 = char_of (unat (log_Type l))"
    and "drop 17 (encodeLog l) = log_Data l" and "\<not> length (encodeLog l) < 17"
    by (simp_all add: encodeLog_def nth_append)
  moreover have "(of_nat (of_char (char_of (unat t) :: char)) :: 8 word) = t" for t
  proof -
    have "unat t < 256" using unsigned_less [of t, where 'a = nat] by simp
    then show ?thesis by simp
  qed
  ultimately show ?thesis by (simp add: decodeLog_def stored_def)
qed

section \<open>BuntStore implements the interfaces\<close>

definition bunt_inv :: "bunt \<Rightarrow> bool" where
  "bunt_inv b \<longleftrightarrow> sorted_items (db_items b) \<and>
     (\<forall>(k, v) \<in> set (db_items b). prefix dbLogs k \<longrightarrow>
        (\<exists>l. k = dbLogs @ uint64ToString (log_Index l) \<and> v = encodeLog l))"

definition bunt_entries :: "bunt \<Rightarrow> uint64 \<rightharpoonup> Log" where
  "bunt_entries b i =
     (case map_of (db_items b) (dbLogs @ uint64ToString i) of
        None \<Rightarrow> None
      | Some v \<Rightarrow> (case decodeLog v of Inl _ \<Rightarrow> None | Inr l \<Rightarrow> Some l))"

lemma bunt_invD:
  assumes "bunt_inv b" and "map_of (db_items b) (dbLogs @ uint64ToString i) = Some v"
  shows "\<exists>l. log_Index l = i \<and> v = encodeLog l"
proof -
  have "(dbLogs @ uint64ToString i, v) \<in> set (db_items b)" using assms(2) by (rule map_of_SomeD)
  with assms(1) show ?thesis unfolding bunt_inv_def by fastforce
qed

lemma bunt_GetLog:
  assumes "bunt_inv b"
  shows "BuntStore_GetLog b i = (case bunt_entries b i of None \<Rightarrow> Inl ErrLogNotFound | Some l \<Rightarrow> Inr l)"
  using bunt_invD [OF assms, of i]
  by (auto simp: BuntStore_GetLog_def tx_Get_def bunt_entries_def split: option.splits)

lemma bunt_entry_index: "bunt_inv b \<Longrightarrow> bunt_entries b i = Some l \<Longrightarrow> log_Index l = i"
  using bunt_invD [of b i] by (auto simp: bunt_entries_def stored_def split: option.splits sum.splits)

lemma bunt_inv_items: "db_items b' = db_items b \<Longrightarrow> bunt_inv b' = bunt_inv b"
  and bunt_entries_items: "db_items b' = db_items b \<Longrightarrow> bunt_entries b' = bunt_entries b"
  by (auto simp: bunt_inv_def bunt_entries_def fun_eq_iff)

definition items_db :: "items \<Rightarrow> bunt" where
  "items_db xs = \<lparr>db_items = xs, db_aof = []\<rparr>"

lemma items_of_items_db [simp]: "db_items (items_db xs) = xs"
  by (simp add: items_db_def)

lemma bunt_inv_tx_Set_log:
  assumes "bunt_inv (items_db xs)"
  shows "bunt_inv (items_db (tx_Set (dbLogs @ uint64ToString (log_Index l)) (encodeLog l) xs))"
    and "bunt_entries (items_db (tx_Set (dbLogs @ uint64ToString (log_Index l)) (encodeLog l) xs)) =
         (bunt_entries (items_db xs))(log_Index l \<mapsto> stored l)"
proof -
  let ?ys = "tx_Set (dbLogs @ uint64ToString (log_Index l)) (encodeLog l) xs"
  have s: "sorted_items xs" using assms by (simp add: bunt_inv_def)
  have "\<exists>l'. k = dbLogs @ uint64ToString (log_Index l') \<and> v = encodeLog l'"
    if "(k, v) \<in> set ?ys" "prefix dbLogs k" for k v
  proof (cases "k = dbLogs @ uint64ToString (log_Index l)")
    case True
    with that s have "v = encodeLog l" by (simp add: set_map_of sorted_tx_Set map_of_tx_Set)
    with True show ?thesis by blast
  next
    case False
    with that s have "(k, v) \<in> set xs" by (simp add: set_map_of sorted_tx_Set map_of_tx_Set)
    with assms that(2) show ?thesis unfolding bunt_inv_def by fastforce
  qed
  then show "bunt_inv (items_db ?ys)" using s by (auto simp: bunt_inv_def sorted_tx_Set)
  show "bunt_entries (items_db ?ys) = (bunt_entries (items_db xs))(log_Index l \<mapsto> stored l)"
    using s by (auto simp: bunt_entries_def fun_eq_iff map_of_tx_Set)
qed

text \<open>The items after a successful \<open>StoreLogs\<close>; an unsuccessful one is rolled back.\<close>

fun stored_items :: "Log list \<Rightarrow> items \<Rightarrow> items" where
  "stored_items [] xs = xs"
| "stored_items (l # ls) xs = stored_items ls (tx_Set (dbLogs @ uint64ToString (log_Index l)) (encodeLog l) xs)"

lemma tx_keys_Set [simp]: "tx_keys (Tx_Set k v tx) = tx_Set k v (tx_keys tx)"
  by (simp add: Tx_Set_def insertIntoDatabase_def)

lemma tx_keys_Begin [simp]: "tx_keys (db_Begin b) = db_items b"
  by (simp add: db_Begin_def)

lemma store_loop_keys: "tx_keys (store_loop ls tx) = stored_items ls (tx_keys tx)"
  by (induction ls arbitrary: tx) simp_all

lemma store_loop_undoable:
  assumes "undoable xs tx" and "\<And>k. map_of (tx_keys tx) k = None \<Longrightarrow> map_of xs k = None"
  shows "undoable xs (store_loop ls tx)"
  using assms
proof (induction ls arbitrary: tx)
  case (Cons l ls)
  let ?tx = "Tx_Set (dbLogs @ uint64ToString (log_Index l)) (encodeLog l) tx"
  have s: "sorted_items (tx_keys tx)" using Cons.prems(1) by (simp add: undoable_def)
  have "undoable xs ?tx" using Cons.prems by (intro undoable_Set)
  moreover have "map_of xs k = None" if "map_of (tx_keys ?tx) k = None" for k
    using that s Cons.prems(2) [of k] by (simp add: map_of_tx_Set split: if_splits)
  ultimately show ?case using Cons.IH [of ?tx] by simp
qed simp

lemma StoreLogs_ok: "BuntStore_StoreLogs b ls = (b', None) \<Longrightarrow> db_items b' = stored_items ls (db_items b)"
  using db_Commit_ok [of b "store_loop ls (db_Begin b)" b'] by (simp add: BuntStore_StoreLogs_def store_loop_keys)

lemma StoreLogs_fail:
  assumes "sorted_items (db_items b)" and "BuntStore_StoreLogs b ls = (b', Some e)"
  shows "db_items b' = db_items b"
proof (rule db_Commit_fail)
  show "undoable (db_items b) (store_loop ls (db_Begin b))"
    by (rule store_loop_undoable [OF undoable_Begin [OF assms(1)]]) simp
  show "db_Commit b (store_loop ls (db_Begin b)) = (b', Some e)" using assms(2) by (simp only: BuntStore_StoreLogs_def)
qed

lemma Set_ok: "BuntStore_Set b k v = (b', None) \<Longrightarrow> db_items b' = tx_Set (dbConf @ k) v (db_items b)"
  using db_Commit_ok [of b _ b'] by (simp add: BuntStore_Set_def)

lemma Set_fail:
  assumes "sorted_items (db_items b)" and "BuntStore_Set b k v = (b', Some e)"
  shows "db_items b' = db_items b"
proof (rule db_Commit_fail)
  show "undoable (db_items b) (Tx_Set (dbConf @ k) v (db_Begin b))"
    by (rule undoable_Set [OF undoable_Begin [OF assms(1)]]) simp
  show "db_Commit b (Tx_Set (dbConf @ k) v (db_Begin b)) = (b', Some e)" using assms(2) by (simp only: BuntStore_Set_def)
qed

text \<open>The results when the file can be written, and when it cannot.\<close>

lemma Tx_Set_writes [simp]: "tx_commitItems (Tx_Set k v tx) \<noteq> []"
proof -
  have "AList.update k w xs \<noteq> []" for w and xs :: "(string \<times> string option) list" by (cases xs) auto
  then show ?thesis by (simp add: Tx_Set_def insertIntoDatabase_def)
qed

lemma store_loop_writes: "tx_commitItems tx \<noteq> [] \<Longrightarrow> tx_commitItems (store_loop ls tx) \<noteq> []"
  by (induction ls arbitrary: tx) simp_all

lemma store_loop_commits: "tx_commitItems (store_loop (l # ls) tx) \<noteq> []"
  using store_loop_writes [of "Tx_Set (dbLogs @ uint64ToString (log_Index l)) (encodeLog l) tx" ls] by simp

lemma StoreLogs_succeeds:
  "db_aof b = [] \<Longrightarrow> BuntStore_StoreLogs b ls = (b\<lparr>db_items := stored_items ls (db_items b)\<rparr>, None)"
  by (simp add: BuntStore_StoreLogs_def db_Commit_def store_loop_keys)

lemma StoreLogs_write_error:
  assumes "db_aof b = False # rest" and "sorted_items (db_items b)"
  shows "BuntStore_StoreLogs b (l # ls) = (b\<lparr>db_aof := rest\<rparr>, Some (ErrOther ''write error''))"
proof -
  have "rollbackInner (store_loop (l # ls) (db_Begin b)) = db_items b"
    by (rule rollbackInner_restores, rule store_loop_undoable [OF undoable_Begin [OF assms(2)]]) simp
  then show ?thesis using assms(1) store_loop_commits [of l ls "db_Begin b"]
    by (simp add: BuntStore_StoreLogs_def db_Commit_def del: store_loop.simps)
qed

lemma Set_succeeds: "db_aof b = [] \<Longrightarrow> BuntStore_Set b k v = (b\<lparr>db_items := tx_Set (dbConf @ k) v (db_items b)\<rparr>, None)"
  by (simp add: BuntStore_Set_def db_Commit_def)

lemma stored_items_log:
  "bunt_inv (items_db xs) \<Longrightarrow>
   bunt_inv (items_db (stored_items ls xs)) \<and>
   bunt_entries (items_db (stored_items ls xs)) = bunt_entries (items_db xs) ++ logs_map ls"
proof (induction ls arbitrary: xs)
  case (Cons l ls)
  note IH = Cons.IH [OF bunt_inv_tx_Set_log(1) [OF Cons.prems, of l]]
  have "logs_map (l # ls) = [log_Index l \<mapsto> stored l] ++ logs_map ls"
    by (simp add: logs_map_def map_of_append)
  moreover have "bunt_entries (items_db (stored_items (l # ls) xs)) =
      (bunt_entries (items_db xs))(log_Index l \<mapsto> stored l) ++ logs_map ls"
    using IH bunt_inv_tx_Set_log(2) [OF Cons.prems, of l] by (simp only: stored_items.simps)
  ultimately show ?case using IH by simp
qed (simp add: logs_map_def)

lemma bunt_StoreLogs:
  assumes "bunt_inv b" and "BuntStore_StoreLogs b ls = (b', None)"
  shows "bunt_inv b' \<and> bunt_entries b' = bunt_entries b ++ logs_map ls"
proof -
  have i: "db_items b' = stored_items ls (db_items b)"
    using assms(2) by (rule StoreLogs_ok)
  have "bunt_inv (items_db (db_items b))" using assms(1) bunt_inv_items [of "items_db (db_items b)" b] by simp
  from stored_items_log [OF this, of ls] show ?thesis
    using bunt_inv_items [of b' "items_db (stored_items ls (db_items b))"] i
      bunt_entries_items [of b' "items_db (stored_items ls (db_items b))"]
      bunt_entries_items [of b "items_db (db_items b)"]
    by simp
qed

lemma delete_body_log:
  assumes "bunt_inv (items_db (tx_keys tx))"
  shows "\<exists>tx'. delete_body i tx = Ret tx' \<and> bunt_inv (items_db (tx_keys tx')) \<and>
    bunt_entries (items_db (tx_keys tx')) = (bunt_entries (items_db (tx_keys tx)))(i := None) \<and>
    (undoable xs tx \<longrightarrow> undoable xs tx')"
proof -
  let ?k = "dbLogs @ uint64ToString i" and ?xs = "tx_keys tx"
  let ?ys = "filter (\<lambda>(k', _). k' \<noteq> ?k) ?xs"
  have "bunt_entries (items_db ?xs) i = None" if "map_of ?xs ?k = None"
    using that by (simp add: bunt_entries_def)
  then have skip: "bunt_entries (items_db ?xs) = (bunt_entries (items_db ?xs))(i := None)" if "map_of ?xs ?k = None"
    using that by (simp add: fun_eq_iff)
  have del: "bunt_inv (items_db ?ys) \<and> bunt_entries (items_db ?ys) = (bunt_entries (items_db ?xs))(i := None)"
    using assms by (auto simp: bunt_inv_def sorted_tx_Delete bunt_entries_def fun_eq_iff map_of_filter_key)
  have k: "tx_keys (fst (Tx_Delete ?k tx)) = (if map_of ?xs ?k = None then ?xs else ?ys)"
    by (auto simp: Tx_Delete_def deleteFromDatabase_def split: option.splits)
  have "delete_body i tx = Ret (fst (Tx_Delete ?k tx))" by (simp add: delete_body_def case_prod_unfold)
  then show ?thesis using k del skip assms undoable_Delete [of xs tx ?k] by (intro exI [of _ "fst (Tx_Delete ?k tx)"]) simp
qed

lemma delete_loop_log:
  assumes "bunt_inv (items_db (tx_keys tx))" and "undoable xs tx" and "hi \<noteq> - 1"
  shows "\<exists>tx'. for_upto lo hi delete_body tx = Ret tx' \<and> bunt_inv (items_db (tx_keys tx')) \<and> undoable xs tx' \<and>
           bunt_entries (items_db (tx_keys tx')) = bunt_entries (items_db (tx_keys tx)) |` (- {lo..hi})"
proof (cases "lo \<le> hi + 1")
  case True
  let ?P = "\<lambda>j t. bunt_inv (items_db (tx_keys t)) \<and> undoable xs t \<and>
      bunt_entries (items_db (tx_keys t)) = bunt_entries (items_db (tx_keys tx)) |` (- {lo..<j})"
  have "\<exists>t'. for_upto lo hi delete_body tx = Ret t' \<and> ?P (hi + 1) t'"
  proof (rule for_upto_rule [OF assms(3) _ True])
    show "?P lo tx" using assms(1,2) by (auto simp: restrict_map_def fun_eq_iff)
    show "\<exists>t'. delete_body j t = Ret t' \<and> ?P (j + 1) t'" if "?P j t" "lo \<le> j" "j \<le> hi" for j t
    proof -
      have "j \<noteq> - 1" using that(3) assms(3) word_order.extremum_uniqueI by auto
      with that(2) have "- {lo..<j + 1} = - {lo..<j} - {j}" by (auto simp: word_atLeastLessThan_succ)
      then have r: "(m |` (- {lo..<j}))(j := None) = m |` (- {lo..<j + 1})" for m :: "uint64 \<rightharpoonup> Log"
        by (auto simp: restrict_map_def fun_eq_iff)
      from delete_body_log [OF conjunct1 [OF that(1)], of j xs] that(1) r show ?thesis by auto
    qed
  qed
  then show ?thesis using assms(3) by (simp add: word_atLeastLessThan_closed)
next
  case False
  moreover have "hi < hi + 1" using assms(3) by (simp add: word_less_succ)
  ultimately have "hi < lo" by (simp only: not_le)
  then show ?thesis using assms(1,2) by (auto simp: for_upto_done restrict_map_def fun_eq_iff)
qed

lemma DeleteRange_tx:
  assumes "bunt_inv b" and "hi \<noteq> - 1"
  shows "\<exists>tx. BuntStore_DeleteRange b lo hi = Ret (db_Commit b tx) \<and> undoable (db_items b) tx \<and> bunt_inv (items_db (tx_keys tx)) \<and>
    bunt_entries (items_db (tx_keys tx)) = bunt_entries b |` (- {lo..hi})"
proof -
  have i: "bunt_inv (items_db (tx_keys (db_Begin b)))" and e: "bunt_entries (items_db (db_items b)) = bunt_entries b"
    using assms(1) bunt_inv_items [of "items_db (db_items b)" b] bunt_entries_items [of "items_db (db_items b)" b] by simp_all
  have "undoable (db_items b) (db_Begin b)" using assms(1) by (intro undoable_Begin) (simp add: bunt_inv_def)
  from delete_loop_log [OF i this assms(2), of lo] e show ?thesis by (auto simp: BuntStore_DeleteRange_def)
qed

lemma DeleteRange_fail:
  assumes "bunt_inv b" and "BuntStore_DeleteRange b lo hi = Ret (b', Some e)"
  shows "db_items b' = db_items b"
proof -
  have "hi \<noteq> - 1" using assms(2) by (auto simp: BuntStore_DeleteRange_def for_upto_max)
  from DeleteRange_tx [OF assms(1) this, of lo] assms(2) show ?thesis by (auto intro: db_Commit_fail dest: sym)
qed

lemma bunt_DeleteRange_spec:
  assumes "bunt_inv b" and "hi \<noteq> - 1"
  shows "\<exists>b' err. BuntStore_DeleteRange b lo hi = Ret (b', err) \<and> bunt_inv b' \<and>
           bunt_entries b' = (if err = None then bunt_entries b |` (- {lo..hi}) else bunt_entries b)"
proof -
  from DeleteRange_tx [OF assms, of lo] obtain tx where tx: "BuntStore_DeleteRange b lo hi = Ret (db_Commit b tx)"
    "undoable (db_items b) tx" "bunt_inv (items_db (tx_keys tx))"
    "bunt_entries (items_db (tx_keys tx)) = bunt_entries b |` (- {lo..hi})" by blast
  obtain b' err where c: "db_Commit b tx = (b', err)" by force
  show ?thesis
  proof (cases err)
    case None
    with c have "db_items b' = tx_keys tx" using db_Commit_ok by blast
    with c tx None show ?thesis
      using bunt_inv_items [of b' "items_db (tx_keys tx)"] bunt_entries_items [of b' "items_db (tx_keys tx)"] by simp
  next
    case (Some e)
    with c tx(2) have "db_items b' = db_items b" using db_Commit_fail by blast
    with c tx Some assms(1) show ?thesis using bunt_inv_items [of b' b] bunt_entries_items [of b' b] by simp
  qed
qed

lemma dom_bunt_entries:
  assumes "bunt_inv b"
  shows "i \<in> dom (bunt_entries b) \<longleftrightarrow> (\<exists>v. (dbLogs @ uint64ToString i, v) \<in> set (db_items b))"
proof -
  have s: "sorted_items (db_items b)" using assms by (simp add: bunt_inv_def)
  show ?thesis
    using bunt_invD [OF assms, of i] set_map_of [OF s]
    by (auto simp: bunt_entries_def split: option.splits)
qed

lemma bunt_log_key:
  assumes "bunt_inv b" and "(k, v) \<in> set (db_items b)" and "prefix dbLogs k"
  obtains i where "k = dbLogs @ uint64ToString i" and "i \<in> dom (bunt_entries b)"
    and "index_of (Some (k, v)) = i"
proof -
  have "\<exists>l :: Log. k = dbLogs @ uint64ToString (log_Index l)"
    using assms(1,3) bspec [OF conjunct2 [OF assms(1) [unfolded bunt_inv_def]] assms(2)]
    by (simp only: split) blast
  then obtain l :: Log where k: "k = dbLogs @ uint64ToString (log_Index l)" by blast
  have "uint64ToString (log_Index l) \<noteq> []"
    using length_uint64ToString [of "log_Index l"] by (metis list.size(3) zero_neq_numeral)
  then have "index_of (Some (k, v)) = log_Index l"
    using k by (simp add: index_of_def dbLogs_def Let_def)
  moreover have "log_Index l \<in> dom (bunt_entries b)"
    using assms k by (auto simp: dom_bunt_entries)
  ultimately show ?thesis using that k by blast
qed

lemma log_key_le_iff: "dbLogs @ uint64ToString i \<le> dbLogs @ uint64ToString j \<longleftrightarrow> i \<le> j"
  by (simp add: dbLogs_def uint64ToString_less_iff order.order_iff_strict)

lemma bunt_FirstIndex:
  assumes "bunt_inv b"
  shows "BuntStore_FirstIndex b =
    Inr (if bunt_entries b = Map.empty then 0 else Min (dom (bunt_entries b)))"
proof (cases "find (\<lambda>(k, _). prefix dbLogs k) (db_items b)")
  case None
  then have "dom (bunt_entries b) = {}"
    using dom_bunt_entries [OF assms] by (fastforce simp: find_None_iff)
  with None show ?thesis by (simp add: BuntStore_FirstIndex_def index_of_def)
next
  case (Some kv)
  obtain k v where kv: "kv = (k, v)" by force
  have s: "sorted_items (db_items b)" using assms by (simp add: bunt_inv_def)
  from find_sorted [OF s Some] kv have k: "(k, v) \<in> set (db_items b)" "prefix dbLogs k"
    and least: "\<And>k' v'. (k', v') \<in> set (db_items b) \<Longrightarrow> prefix dbLogs k' \<Longrightarrow> k \<le> k'" by auto
  from assms k obtain i where i: "k = dbLogs @ uint64ToString i" "i \<in> dom (bunt_entries b)"
    "index_of (Some (k, v)) = i" by (rule bunt_log_key)
  have "i \<le> j" if "j \<in> dom (bunt_entries b)" for j
  proof -
    from that obtain v' where "(dbLogs @ uint64ToString j, v') \<in> set (db_items b)"
      using dom_bunt_entries [OF assms] by blast
    from least [OF this] show ?thesis using i(1) by (simp add: log_key_le_iff)
  qed
  then have "Min (dom (bunt_entries b)) = i" using i(2) by (intro Min_eqI) auto
  moreover have "bunt_entries b \<noteq> Map.empty" using i(2) by auto
  ultimately show ?thesis using Some kv i(3) by (simp add: BuntStore_FirstIndex_def)
qed

lemma bunt_LastIndex:
  assumes "bunt_inv b"
  shows "BuntStore_LastIndex b =
    Inr (if bunt_entries b = Map.empty then 0 else Max (dom (bunt_entries b)))"
proof (cases "find (\<lambda>(k, _). prefix dbLogs k) (rev (db_items b))")
  case None
  then have "dom (bunt_entries b) = {}"
    using dom_bunt_entries [OF assms] by (fastforce simp: find_None_iff)
  with None show ?thesis by (simp add: BuntStore_LastIndex_def index_of_def)
next
  case (Some kv)
  obtain k v where kv: "kv = (k, v)" by force
  have s: "sorted_items (db_items b)" using assms by (simp add: bunt_inv_def)
  from find_rev_sorted [OF s Some] kv have k: "(k, v) \<in> set (db_items b)" "prefix dbLogs k"
    and greatest: "\<And>k' v'. (k', v') \<in> set (db_items b) \<Longrightarrow> prefix dbLogs k' \<Longrightarrow> k' \<le> k" by auto
  from assms k obtain i where i: "k = dbLogs @ uint64ToString i" "i \<in> dom (bunt_entries b)"
    "index_of (Some (k, v)) = i" by (rule bunt_log_key)
  have "j \<le> i" if "j \<in> dom (bunt_entries b)" for j
  proof -
    from that obtain v' where "(dbLogs @ uint64ToString j, v') \<in> set (db_items b)"
      using dom_bunt_entries [OF assms] by blast
    from greatest [OF this] show ?thesis using i(1) by (simp add: log_key_le_iff)
  qed
  then have "Max (dom (bunt_entries b)) = i" using i(2) by (intro Max_eqI) auto
  moreover have "bunt_entries b \<noteq> Map.empty" using i(2) by auto
  ultimately show ?thesis using Some kv i(3) by (simp add: BuntStore_LastIndex_def)
qed

interpretation bunt_logs: atomic_log_store bunt_log_store bunt_entries bunt_inv
proof unfold_locales
  fix s s' :: bunt and i lo hi :: uint64 and l :: Log and ls e
  assume inv: "bunt_inv s"
  show "GetLog bunt_log_store s i = (case bunt_entries s i of None \<Rightarrow> Inl ErrLogNotFound | Some l \<Rightarrow> Inr l)"
    using bunt_GetLog [OF inv] by (simp add: bunt_log_store_def)
  show "log_Index l = i" if "bunt_entries s i = Some l" using inv that by (rule bunt_entry_index)
  show "bunt_inv s' \<and> bunt_entries s' = bunt_entries s ++ logs_map ls"
    if "StoreLogs bunt_log_store s ls = (s', None)"
    using bunt_StoreLogs [OF inv] that by (simp add: bunt_log_store_def)
  show "bunt_inv s' \<and> bunt_entries s' = bunt_entries s" if "StoreLogs bunt_log_store s ls = (s', Some e)"
    using that inv StoreLogs_fail [of s ls s' e] bunt_inv_items [of s' s] bunt_entries_items [of s' s]
    by (simp add: bunt_log_store_def bunt_inv_def)
  show "FirstIndex bunt_log_store s = Inr (if bunt_entries s = Map.empty then 0 else Min (dom (bunt_entries s)))"
    using bunt_FirstIndex [OF inv] by (simp add: bunt_log_store_def)
  show "LastIndex bunt_log_store s = Inr (if bunt_entries s = Map.empty then 0 else Max (dom (bunt_entries s)))"
    using bunt_LastIndex [OF inv] by (simp add: bunt_log_store_def)
  show "returns (DeleteRange bunt_log_store s lo hi)" if "hi \<noteq> - 1"
    using bunt_DeleteRange_spec [OF inv that, of lo] by (auto simp: bunt_log_store_def returns_iff)
  have hi: "hi \<noteq> - 1" if "DeleteRange bunt_log_store s lo hi = Ret x" for x
    using that by (auto simp: bunt_log_store_def BuntStore_DeleteRange_def for_upto_max)
  show "bunt_inv s' \<and> bunt_entries s' = bunt_entries s |` (- {lo..hi})"
    if "DeleteRange bunt_log_store s lo hi = Ret (s', None)"
    using bunt_DeleteRange_spec [OF inv hi [OF that], of lo] that by (auto simp: bunt_log_store_def)
  show "bunt_inv s' \<and> bunt_entries s' = bunt_entries s"
    if "DeleteRange bunt_log_store s lo hi = Ret (s', Some e)"
    using bunt_DeleteRange_spec [OF inv hi [OF that], of lo] that by (auto simp: bunt_log_store_def)
qed

definition bunt_kv :: "bunt \<Rightarrow> bytes \<rightharpoonup> bytes" where
  "bunt_kv b k = map_of (db_items b) (dbConf @ k)"

lemma bunt_inv_Set:
  assumes "bunt_inv b" and "db_items b' = tx_Set (dbConf @ k) v (db_items b)"
  shows "bunt_inv b'"
proof -
  have s: "sorted_items (db_items b)" using assms(1) by (simp add: bunt_inv_def)
  have "(k', v') \<in> set (db_items b)" if "(k', v') \<in> set (db_items b')" "prefix dbLogs k'" for k' v'
    using that s assms(2)
    by (auto simp: set_map_of sorted_tx_Set map_of_tx_Set dbLogs_def dbConf_def split: if_splits)
  then show ?thesis
    using assms s by (fastforce simp: bunt_inv_def sorted_tx_Set)
qed

interpretation bunt_stable: stable_store bunt_stable_store bunt_kv bunt_inv FormatUint
proof unfold_locales
  fix s s' :: bunt and k v :: bytes and n :: uint64 and e
  show "ss_SetUint64 bunt_stable_store s k n = ss_Set bunt_stable_store s k (FormatUint n)"
    by (simp add: bunt_stable_store_def BuntStore_SetUint64_def)
  assume inv: "bunt_inv s"
  then have srt: "sorted_items (db_items s)" by (simp add: bunt_inv_def)
  show "ss_Get bunt_stable_store s k = (case bunt_kv s k of None \<Rightarrow> Inl ErrKeyNotFound | Some v \<Rightarrow> Inr v)"
    by (simp add: bunt_stable_store_def BuntStore_Get_def tx_Get_def bunt_kv_def split: option.split)
  show "bunt_inv s' \<and> bunt_kv s' = (bunt_kv s)(k \<mapsto> v)" if "ss_Set bunt_stable_store s k v = (s', None)"
  proof -
    have "db_items s' = tx_Set (dbConf @ k) v (db_items s)"
      using that Set_ok by (simp add: bunt_stable_store_def)
    with inv srt show ?thesis
      using bunt_inv_Set by (auto simp: bunt_kv_def map_of_tx_Set fun_eq_iff)
  qed
  show "bunt_inv s' \<and> bunt_kv s' = bunt_kv s" if "ss_Set bunt_stable_store s k v = (s', Some e)"
    using that inv Set_fail [OF srt, of k v s' e] bunt_inv_items [of s' s]
    by (simp add: bunt_stable_store_def bunt_kv_def fun_eq_iff)
  show "ss_GetUint64 bunt_stable_store s k = Inr n" if "bunt_kv s k = Some (FormatUint n)"
    using that by (simp add: bunt_stable_store_def BuntStore_GetUint64_def BuntStore_Get_def tx_Get_def bunt_kv_def)
  show "ss_GetUint64 bunt_stable_store s' k = ss_GetUint64 bunt_stable_store s k"
    if "bunt_kv s' k = bunt_kv s k"
    using that by (simp add: bunt_stable_store_def BuntStore_GetUint64_def BuntStore_Get_def tx_Get_def bunt_kv_def)
  show "ss_GetUint64 bunt_stable_store s k = Inl ErrKeyNotFound" if "bunt_kv s k = None"
    using that by (simp add: bunt_stable_store_def BuntStore_GetUint64_def BuntStore_Get_def tx_Get_def bunt_kv_def)
qed

section \<open>The two halves of the store do not interfere\<close>

text \<open>
  The node passes one \<open>BuntStore\<close> as its log store and as its stable store. The keys carry
  different prefixes, so each half keeps the other.
\<close>

lemma tx_Set_conf_entries:
  "sorted_items (db_items b) \<Longrightarrow> db_items b' = tx_Set (dbConf @ k) v (db_items b) \<Longrightarrow>
   bunt_entries b' = bunt_entries b"
  by (auto simp: bunt_entries_def fun_eq_iff map_of_tx_Set dbLogs_def dbConf_def)

lemma stored_items_conf: "sorted_items xs \<Longrightarrow> map_of (stored_items ls xs) (dbConf @ k) = map_of xs (dbConf @ k)"
  by (induction ls arbitrary: xs) (simp_all add: sorted_tx_Set map_of_tx_Set dbLogs_def dbConf_def)

lemma BuntStore_StoreLogs_kv:
  assumes "bunt_inv b" and "BuntStore_StoreLogs b ls = (b', err)"
  shows "bunt_kv b' = bunt_kv b"
proof (cases err)
  case None
  with assms(2) have "db_items b' = stored_items ls (db_items b)" using StoreLogs_ok by blast
  then show ?thesis using assms(1) by (simp add: bunt_kv_def fun_eq_iff stored_items_conf bunt_inv_def)
next
  case (Some e)
  with assms(2) have "db_items b' = db_items b"
    using assms(1) StoreLogs_fail by (simp add: bunt_inv_def)
  then show ?thesis by (simp add: bunt_kv_def fun_eq_iff)
qed

lemma BuntStore_Set_entries:
  assumes "bunt_inv b" and "BuntStore_Set b k v = (b', err)"
  shows "bunt_entries b' = bunt_entries b"
proof (cases err)
  case None
  with assms(2) have "db_items b' = tx_Set (dbConf @ k) v (db_items b)"
    using Set_ok by blast
  then show ?thesis using assms(1) tx_Set_conf_entries by (simp add: bunt_inv_def)
next
  case (Some e)
  with assms(2) have "db_items b' = db_items b"
    using assms(1) Set_fail by (simp add: bunt_inv_def)
  then show ?thesis by (rule bunt_entries_items)
qed

section \<open>LogCache\<close>

record 'ls LogCache =
  lc_store :: 'ls
  lc_cache :: "Log option list"

definition NewLogCache :: "int \<Rightarrow> 'ls \<Rightarrow> raft_error + 'ls LogCache" where
  "NewLogCache capacity store =
     (if capacity \<le> 0 then Inl (ErrOther ''capacity must be positive'')
      else Inr \<lparr>lc_store = store, lc_cache = replicate (nat capacity) None\<rparr>)"

definition cache_slot :: "'ls LogCache \<Rightarrow> uint64 \<Rightarrow> nat" where
  "cache_slot c idx = unat (idx mod of_nat (length (lc_cache c)))"

definition LogCache_GetLog :: "'ls LogStore \<Rightarrow> 'ls LogCache \<Rightarrow> uint64 \<Rightarrow> raft_error + Log" where
  "LogCache_GetLog L c idx =
     (case lc_cache c ! cache_slot c idx of
        Some l \<Rightarrow> if log_Index l = idx then Inr l else GetLog L (lc_store c) idx
      | None \<Rightarrow> GetLog L (lc_store c) idx)"

fun cache_logs :: "'ls LogCache \<Rightarrow> Log list \<Rightarrow> 'ls LogCache" where
  "cache_logs c [] = c"
| "cache_logs c (l # ls) =
     cache_logs (c\<lparr>lc_cache := (lc_cache c)[cache_slot c (log_Index l) := Some l]\<rparr>) ls"

definition LogCache_StoreLogs :: "'ls LogStore \<Rightarrow> 'ls LogCache \<Rightarrow> Log list \<Rightarrow> 'ls LogCache \<times> raft_error option" where
  "LogCache_StoreLogs L c logs =
     (let c1 = cache_logs c logs; (s', err) = StoreLogs L (lc_store c1) logs
      in (c1\<lparr>lc_store := s'\<rparr>, err))"

definition LogCache_StoreLog :: "'ls LogStore \<Rightarrow> 'ls LogCache \<Rightarrow> Log \<Rightarrow> 'ls LogCache \<times> raft_error option" where
  "LogCache_StoreLog L c l = LogCache_StoreLogs L c [l]"

definition LogCache_FirstIndex :: "'ls LogStore \<Rightarrow> 'ls LogCache \<Rightarrow> raft_error + uint64" where
  "LogCache_FirstIndex L c = FirstIndex L (lc_store c)"

definition LogCache_LastIndex :: "'ls LogStore \<Rightarrow> 'ls LogCache \<Rightarrow> raft_error + uint64" where
  "LogCache_LastIndex L c = LastIndex L (lc_store c)"

definition LogCache_DeleteRange ::
  "'ls LogStore \<Rightarrow> 'ls LogCache \<Rightarrow> uint64 \<Rightarrow> uint64 \<Rightarrow> ('ls LogCache \<times> raft_error option) outcome" where
  "LogCache_DeleteRange L c lo hi =
     (let c1 = c\<lparr>lc_cache := replicate (length (lc_cache c)) None\<rparr>
      in obind (DeleteRange L (lc_store c1) lo hi) (\<lambda>(s', err). Ret (c1\<lparr>lc_store := s'\<rparr>, err)))"

definition stored_result :: "raft_error + Log \<Rightarrow> raft_error + Log" where
  "stored_result = map_sum id stored"

text \<open>A coherent cache: every cached entry sits in its slot and is what the store holds.\<close>

definition cache_ok :: "'ls LogStore \<Rightarrow> 'ls LogCache \<Rightarrow> bool" where
  "cache_ok L c \<longleftrightarrow> 0 < length (lc_cache c) \<and> length (lc_cache c) < 2 ^ 64 \<and>
     (\<forall>k l. k < length (lc_cache c) \<longrightarrow> lc_cache c ! k = Some l \<longrightarrow>
        cache_slot c (log_Index l) = k \<and> GetLog L (lc_store c) (log_Index l) = Inr (stored l))"

lemma length_cache_logs [simp]: "length (lc_cache (cache_logs c ls)) = length (lc_cache c)"
  by (induction c ls rule: cache_logs.induct) auto

lemma lc_store_cache_logs [simp]: "lc_store (cache_logs c ls) = lc_store c"
  by (induction c ls rule: cache_logs.induct) auto

lemma cache_slot_cong: "length (lc_cache c') = length (lc_cache c) \<Longrightarrow> cache_slot c' i = cache_slot c i"
  by (simp add: cache_slot_def)

lemma cache_slot_bound:
  assumes "0 < length (lc_cache c)" and "length (lc_cache c) < 2 ^ 64"
  shows "cache_slot c i < length (lc_cache c)"
proof -
  have "unat (of_nat (length (lc_cache c)) :: uint64) = length (lc_cache c)"
    using assms(2) by (simp add: unat_of_nat)
  with assms(1) show ?thesis by (simp add: cache_slot_def unat_mod)
qed

lemma logs_map_Cons: "logs_map (l # ls) = [log_Index l \<mapsto> stored l] ++ logs_map ls"
  by (simp add: logs_map_def map_add_def fun_eq_iff split: option.split)

lemma logs_map_None_iff: "logs_map ls i = None \<longleftrightarrow> i \<notin> log_Index ` set ls"
  by (simp add: logs_map_def map_of_eq_None_iff image_image)

lemma cache_okD:
  assumes "cache_ok L c"
  shows "0 < length (lc_cache c)" and "length (lc_cache c) < 2 ^ 64"
    and "k < length (lc_cache c) \<Longrightarrow> lc_cache c ! k = Some l \<Longrightarrow>
         cache_slot c (log_Index l) = k \<and> GetLog L (lc_store c) (log_Index l) = Inr (stored l)"
  using assms unfolding cache_ok_def by blast+

text \<open>A slot holds the last entry written to it; an old entry survives only if its index was not written.\<close>

lemma cache_logs_slot:
  assumes "0 < length (lc_cache c)" and "length (lc_cache c) < 2 ^ 64" and "k < length (lc_cache c)"
    and "lc_cache (cache_logs c ls) ! k = Some l"
    and "\<And>l. lc_cache c ! k = Some l \<Longrightarrow> cache_slot c (log_Index l) = k"
  shows "cache_slot c (log_Index l) = k \<and>
    (logs_map ls (log_Index l) = Some (stored l) \<or>
     logs_map ls (log_Index l) = None \<and> lc_cache c ! k = Some l)"
  using assms
proof (induction ls arbitrary: c)
  case Nil
  then show ?case by (simp add: logs_map_def)
next
  case (Cons m ls)
  define c1 where "c1 = c\<lparr>lc_cache := (lc_cache c)[cache_slot c (log_Index m) := Some m]\<rparr>"
  have len: "length (lc_cache c1) = length (lc_cache c)" by (simp add: c1_def)
  have slot: "cache_slot c1 i = cache_slot c i" for i using len by (rule cache_slot_cong)
  have bound: "cache_slot c (log_Index m) < length (lc_cache c)"
    using Cons.prems(1,2) by (rule cache_slot_bound)
  have at: "lc_cache c1 ! k = (if k = cache_slot c (log_Index m) then Some m else lc_cache c ! k)"
    using bound Cons.prems(3) by (auto simp: c1_def nth_list_update)
  have IH: "cache_slot c1 (log_Index l) = k \<and>
    (logs_map ls (log_Index l) = Some (stored l) \<or>
     logs_map ls (log_Index l) = None \<and> lc_cache c1 ! k = Some l)"
    using Cons.prems at len by (intro Cons.IH) (auto simp: slot c1_def [symmetric] split: if_splits)
  then show ?case
    using at by (auto simp: slot logs_map_Cons map_add_def split: if_splits)
qed

context log_store
begin

lemma LogCache_GetLog_transparent:
  assumes "cache_ok L c"
  shows "stored_result (LogCache_GetLog L c i) = stored_result (GetLog L (lc_store c) i)"
proof -
  note D = cache_okD [OF assms]
  have k: "cache_slot c i < length (lc_cache c)" using D(1,2) by (rule cache_slot_bound)
  show ?thesis
  proof (cases "\<exists>l. lc_cache c ! cache_slot c i = Some l \<and> log_Index l = i")
    case True
    then obtain l where l: "lc_cache c ! cache_slot c i = Some l" "log_Index l = i" by blast
    with D(3) [OF k l(1)] show ?thesis
      by (simp add: LogCache_GetLog_def stored_result_def stored_def)
  next
    case False
    then show ?thesis by (simp add: LogCache_GetLog_def split: option.split)
  qed
qed

lemma NewLogCache_ok:
  "NewLogCache n s = Inr c \<Longrightarrow> n < 2 ^ 63 \<Longrightarrow> cache_ok L c \<and> lc_store c = s"
  by (auto simp: NewLogCache_def cache_ok_def split: if_splits)

lemma GetLog_stored_after:
  assumes "ls_inv s" and "StoreLogs L s ls = (s', None)"
  shows "GetLog L s' i = (case logs_map ls i of None \<Rightarrow> GetLog L s i | Some l \<Rightarrow> Inr l)"
  using StoreLogs [OF assms] assms(1) by (simp add: GetLog map_add_def split: option.split)

lemma LogCache_StoreLogs_ok:
  assumes "cache_ok L c" and "ls_inv (lc_store c)" and "LogCache_StoreLogs L c ls = (c', None)"
  shows "cache_ok L c'"
proof -
  obtain s' where s': "StoreLogs L (lc_store c) ls = (s', None)" "c' = (cache_logs c ls)\<lparr>lc_store := s'\<rparr>"
    using assms(3) by (auto simp: LogCache_StoreLogs_def Let_def split: prod.splits)
  have len: "length (lc_cache c') = length (lc_cache c)" using s'(2) by simp
  have "cache_slot c (log_Index l) = k \<and> GetLog L s' (log_Index l) = Inr (stored l)"
    if k: "k < length (lc_cache c)" and l: "lc_cache c' ! k = Some l" for k l
  proof -
    note D = cache_okD [OF assms(1)]
    have c: "cache_slot c (log_Index l) = k" and
      "logs_map ls (log_Index l) = Some (stored l) \<or>
       logs_map ls (log_Index l) = None \<and> lc_cache c ! k = Some l"
      using cache_logs_slot [OF D(1,2) k, of ls l] D(3) [OF k] l s'(2) by simp_all
    then show ?thesis
      using D(3) [OF k, of l] by (auto simp only: GetLog_stored_after [OF assms(2) s'(1)] option.case)
  qed
  moreover have "lc_store c' = s'" using s'(2) by simp
  ultimately show ?thesis
    using cache_okD(1,2) [OF assms(1)] unfolding cache_ok_def len cache_slot_cong [OF len] by simp
qed

lemma LogCache_DeleteRange_ok:
  assumes "cache_ok L c" and "LogCache_DeleteRange L c lo hi = Ret (c', err)"
  shows "cache_ok L c'"
  using assms by (auto simp: LogCache_DeleteRange_def cache_ok_def Let_def)

end

section \<open>Properties\<close>

text \<open>
  C24: An entry survives the trip through the store's bytes: decoding what \<open>encodeLog\<close> wrote
  gives back every exported field (the private field \<open>peer\<close> is not written).
\<close>

theorem decode_encode_log: "decodeLog (encodeLog l) = Inr (stored l)"
  by (rule decode_encode_Log)

text \<open>
  The keys of the log entries are ordered as their indexes and read back to them: the
  twenty digits \<open>uint64ToString\<close> writes compare as the numbers do, and \<open>stringToUint64\<close>
  inverts them. \<open>FirstIndex\<close> and \<open>LastIndex\<close> depend on it, since they only read the ends of
  the key order.
\<close>

theorem log_keys_ordered:
  "(uint64ToString i < uint64ToString j \<longleftrightarrow> i < j) \<and> stringToUint64 (uint64ToString i) = i"
  by (simp add: uint64ToString_less_iff)

text \<open>
  C6: A successful \<open>StoreLogs\<close> of entries with distinct indexes makes each of them readable
  by \<open>GetLog\<close>, leaves every other index as it was, and leaves the stable half of the store
  alone.
\<close>

theorem BuntStore_get_after_store:
  assumes "bunt_inv b" and "BuntStore_StoreLogs b ls = (b', None)" and "distinct (map log_Index ls)"
  shows "(\<forall>l \<in> set ls. BuntStore_GetLog b' (log_Index l) = Inr (stored l)) \<and>
         (\<forall>i. i \<notin> log_Index ` set ls \<longrightarrow> BuntStore_GetLog b' i = BuntStore_GetLog b i) \<and>
         (\<forall>k. BuntStore_Get b' k = BuntStore_Get b k)"
proof -
  have st: "StoreLogs bunt_log_store b ls = (b', None)" using assms(2) by (simp add: bunt_log_store_def)
  have "bunt_inv b'" using bunt_logs.StoreLogs [OF assms(1) st] by blast
  then have "BuntStore_Get b' k = BuntStore_Get b k" for k
    using bunt_stable.Get [OF assms(1), of k] bunt_stable.Get [of b' k]
      BuntStore_StoreLogs_kv [OF assms(1,2)] by (simp add: bunt_stable_store_def)
  then show ?thesis
    using bunt_logs.get_after_store [OF assms(1) st assms(3)]
      bunt_logs.get_after_store_other [OF assms(1) st] by (simp add: bunt_log_store_def)
qed

definition demo_log :: "uint64 \<Rightarrow> uint64 \<Rightarrow> Log" where
  "demo_log i t = \<lparr>log_Index = i, log_Term = t, log_Type = LogCommand, log_Data = ''x'', log_peer = []\<rparr>"

definition demo_bunt :: bunt where
  "demo_bunt = \<lparr>db_items = [], db_aof = []\<rparr>"

lemma demo_bunt_inv: "bunt_inv demo_bunt"
  by (simp add: demo_bunt_def bunt_inv_def)

theorem BuntStore_get_after_store_witness:
  "\<exists>b'. BuntStore_StoreLogs demo_bunt [demo_log 9 1, demo_log 10 1] = (b', None) \<and>
        BuntStore_GetLog b' 10 = Inr (demo_log 10 1)"
proof -
  obtain b' where b': "BuntStore_StoreLogs demo_bunt [demo_log 9 1, demo_log 10 1] = (b', None)"
    by (simp add: StoreLogs_succeeds demo_bunt_def)
  have "distinct (map log_Index [demo_log 9 1, demo_log 10 1])" by (simp add: demo_log_def)
  from BuntStore_get_after_store [OF demo_bunt_inv b' this]
  have "BuntStore_GetLog b' (log_Index (demo_log 10 1)) = Inr (stored (demo_log 10 1))" by simp
  with b' show ?thesis by (simp add: demo_log_def stored_def)
qed

text \<open>
  C23: The store is atomic: an operation that reports an error, a \<open>StoreLogs\<close>, a
  \<open>DeleteRange\<close> or a \<open>Set\<close> whose write to the file fails, changes no entry and no key.
\<close>

theorem BuntStore_error_changes_nothing:
  assumes "bunt_inv b"
    and "BuntStore_StoreLogs b ls = (b', Some e) \<or> BuntStore_DeleteRange b lo hi = Ret (b', Some e) \<or>
         BuntStore_Set b k v = (b', Some e)"
  shows "BuntStore_GetLog b' i = BuntStore_GetLog b i \<and> BuntStore_Get b' k' = BuntStore_Get b k' \<and>
         BuntStore_FirstIndex b' = BuntStore_FirstIndex b \<and> BuntStore_LastIndex b' = BuntStore_LastIndex b"
proof -
  have "sorted_items (db_items b)" using assms(1) by (simp add: bunt_inv_def)
  then have "db_items b' = db_items b"
    using assms(2) StoreLogs_fail Set_fail DeleteRange_fail [OF assms(1)] by blast
  then show ?thesis
    by (simp add: BuntStore_GetLog_def BuntStore_Get_def BuntStore_FirstIndex_def BuntStore_LastIndex_def)
qed

theorem BuntStore_error_changes_nothing_witness:
  "\<exists>b'. BuntStore_StoreLogs \<lparr>db_items = [], db_aof = [False]\<rparr> [demo_log 9 1] =
        (b', Some (ErrOther ''write error'')) \<and> BuntStore_LastIndex b' = Inr 0"
proof -
  let ?b = "\<lparr>db_items = [], db_aof = [False]\<rparr>"
  obtain b' where b': "BuntStore_StoreLogs ?b [demo_log 9 1] = (b', Some (ErrOther ''write error''))"
    by (simp add: StoreLogs_write_error)
  have "bunt_inv ?b" by (simp add: bunt_inv_def)
  from BuntStore_error_changes_nothing [OF this disjI1 [OF b']]
  have "BuntStore_LastIndex b' = BuntStore_LastIndex ?b" by blast
  with b' show ?thesis by (simp add: BuntStore_LastIndex_def index_of_def)
qed

text \<open>
  C22: \<open>DeleteRange\<close> returns, unless its upper bound is the largest \<open>uint64\<close>; when it
  succeeds the entries of the range are gone, the others are kept, and \<open>FirstIndex\<close> is the
  smallest index left (0 when there is none).
\<close>

theorem BuntStore_DeleteRange_correct:
  assumes "bunt_inv b" and "hi \<noteq> - 1"
  shows "\<exists>b' err. BuntStore_DeleteRange b lo hi = Ret (b', err) \<and> (err = None \<longrightarrow>
    (\<forall>i. BuntStore_GetLog b' i = (if lo \<le> i \<and> i \<le> hi then Inl ErrLogNotFound else BuntStore_GetLog b i)) \<and>
    BuntStore_FirstIndex b' =
      Inr (if dom (bunt_entries b) - {lo..hi} = {} then 0 else Min (dom (bunt_entries b) - {lo..hi})))"
proof -
  obtain b' err where d: "BuntStore_DeleteRange b lo hi = Ret (b', err)"
    using bunt_logs.DeleteRange_returns [OF assms, of lo] by (auto simp: bunt_log_store_def returns_iff)
  moreover have "(\<forall>i. BuntStore_GetLog b' i = (if lo \<le> i \<and> i \<le> hi then Inl ErrLogNotFound else BuntStore_GetLog b i)) \<and>
    BuntStore_FirstIndex b' =
      Inr (if dom (bunt_entries b) - {lo..hi} = {} then 0 else Min (dom (bunt_entries b) - {lo..hi}))"
    if "err = None"
  proof
    have dr: "DeleteRange bunt_log_store b lo hi = Ret (b', None)" using d that by (simp add: bunt_log_store_def)
    then show "\<forall>i. BuntStore_GetLog b' i = (if lo \<le> i \<and> i \<le> hi then Inl ErrLogNotFound else BuntStore_GetLog b i)"
      using bunt_logs.get_after_delete [OF assms(1) dr] by (simp add: bunt_log_store_def)
    have "dom (bunt_entries b') = dom (bunt_entries b) - {lo..hi}" "bunt_inv b'"
      using bunt_logs.DeleteRange [OF assms(1) dr] by auto
    then show "BuntStore_FirstIndex b' =
      Inr (if dom (bunt_entries b) - {lo..hi} = {} then 0 else Min (dom (bunt_entries b) - {lo..hi}))"
      using bunt_FirstIndex [of b'] by (simp flip: dom_eq_empty_conv)
  qed
  ultimately show ?thesis by blast
qed

theorem BuntStore_DeleteRange_correct_witness:
  "\<exists>b' err. BuntStore_DeleteRange demo_bunt 2 5 = Ret (b', err)"
  using BuntStore_DeleteRange_correct [OF demo_bunt_inv, of 5 2] by auto

text \<open>
  The numbers a node keeps in its stable store (the current term and the term of its last
  vote) are read back as written, and writing one key leaves the other keys and every log
  entry as they were.
\<close>

theorem BuntStore_uint64_roundtrip:
  assumes "bunt_inv b" and "BuntStore_SetUint64 b k n = (b', None)"
  shows "BuntStore_GetUint64 b' k = Inr n \<and>
         (\<forall>k'. k' \<noteq> k \<longrightarrow> BuntStore_Get b' k' = BuntStore_Get b k') \<and>
         (\<forall>i. BuntStore_GetLog b' i = BuntStore_GetLog b i)"
proof -
  have st: "ss_Set bunt_stable_store b k (FormatUint n) = (b', None)"
    using assms(2) by (simp add: bunt_stable_store_def BuntStore_SetUint64_def)
  then have "ss_SetUint64 bunt_stable_store b k n = (b', None)" by (simp add: bunt_stable.SetUint64)
  from bunt_stable.get_u64_after_set [OF assms(1) this]
  have "BuntStore_GetUint64 b' k = Inr n" by (simp add: bunt_stable_store_def)
  moreover have "BuntStore_Get b' k' = BuntStore_Get b k'" if "k' \<noteq> k" for k'
    using bunt_stable.get_after_set [OF assms(1) st, of k'] that by (simp add: bunt_stable_store_def)
  moreover have "bunt_inv b'" using bunt_stable.Set_ok [OF assms(1) st] by blast
  then have "BuntStore_GetLog b' i = BuntStore_GetLog b i" for i
    using BuntStore_Set_entries [OF assms(1), of k "FormatUint n" b' None] st
    by (simp add: bunt_GetLog assms(1) bunt_stable_store_def)
  ultimately show ?thesis by blast
qed

theorem BuntStore_uint64_roundtrip_witness:
  "\<exists>b'. BuntStore_SetUint64 demo_bunt ''CurrentTerm'' 7 = (b', None) \<and>
        BuntStore_GetUint64 b' ''CurrentTerm'' = Inr 7"
proof -
  obtain b' where b': "BuntStore_SetUint64 demo_bunt ''CurrentTerm'' 7 = (b', None)"
    by (simp add: BuntStore_SetUint64_def Set_succeeds demo_bunt_def)
  with BuntStore_uint64_roundtrip [OF demo_bunt_inv b'] show ?thesis by blast
qed

text \<open>
  C25: The cache is transparent: from a coherent cache, \<open>GetLog\<close> answers as the store does
  (the private field \<open>peer\<close> aside), and a successful \<open>StoreLogs\<close> and every
  \<open>DeleteRange\<close>, successful or not, leave the cache coherent.
\<close>

theorem LogCache_transparent:
  assumes "cache_ok bunt_log_store c" and "bunt_inv (lc_store c)"
  shows "stored_result (LogCache_GetLog bunt_log_store c i) = stored_result (BuntStore_GetLog (lc_store c) i) \<and>
    (\<forall>ls c'. LogCache_StoreLogs bunt_log_store c ls = (c', None) \<longrightarrow> cache_ok bunt_log_store c') \<and>
    (\<forall>lo hi c' err. LogCache_DeleteRange bunt_log_store c lo hi = Ret (c', err) \<longrightarrow>
       cache_ok bunt_log_store c')"
  using bunt_logs.LogCache_GetLog_transparent [OF assms(1), of i]
    bunt_logs.LogCache_StoreLogs_ok [OF assms] bunt_logs.LogCache_DeleteRange_ok [OF assms(1)]
  by (simp add: bunt_log_store_def)

definition demo_cache :: "bunt LogCache" where
  "demo_cache = \<lparr>lc_store = demo_bunt, lc_cache = [None, None]\<rparr>"

theorem LogCache_transparent_witness:
  "stored_result (LogCache_GetLog bunt_log_store demo_cache 3) = Inl ErrLogNotFound"
proof -
  have "NewLogCache 2 demo_bunt = Inr demo_cache"
    by (simp add: NewLogCache_def demo_cache_def numeral_2_eq_2)
  then have "cache_ok bunt_log_store demo_cache" using bunt_logs.NewLogCache_ok by fastforce
  moreover have "bunt_inv (lc_store demo_cache)" by (simp add: demo_cache_def demo_bunt_inv)
  ultimately have "stored_result (LogCache_GetLog bunt_log_store demo_cache 3) =
      stored_result (BuntStore_GetLog (lc_store demo_cache) 3)"
    by (rule LogCache_transparent [THEN conjunct1])
  then show ?thesis
    by (simp add: demo_cache_def demo_bunt_def BuntStore_GetLog_def tx_Get_def stored_result_def)
qed

text \<open>
  A failed \<open>StoreLogs\<close> is not transparent: the entries enter the ring buffer before
  the store is called, so after a write that failed the cache answers with an entry that the
  store does not hold.
\<close>

theorem LogCache_failed_store_visible:
  "\<exists>c c' e. cache_ok bunt_log_store c \<and> bunt_inv (lc_store c) \<and>
     LogCache_StoreLogs bunt_log_store c [demo_log 3 1] = (c', Some e) \<and>
     LogCache_GetLog bunt_log_store c' 3 = Inr (demo_log 3 1) \<and>
     BuntStore_GetLog (lc_store c') 3 = Inl ErrLogNotFound"
proof -
  define c where "c = \<lparr>lc_store = \<lparr>db_items = [], db_aof = [False]\<rparr>, lc_cache = [None, None]\<rparr>"
  define c' where "c' = \<lparr>lc_store = \<lparr>db_items = [] :: items, db_aof = []\<rparr>, lc_cache = [None, Some (demo_log 3 1)]\<rparr>"
  have slot: "unat (3 mod 2 :: uint64) = Suc 0" by simp
  have "NewLogCache 2 (lc_store c) = Inr c" by (simp add: NewLogCache_def c_def numeral_2_eq_2)
  then have "cache_ok bunt_log_store c" using bunt_logs.NewLogCache_ok by fastforce
  moreover have "bunt_inv (lc_store c)" by (simp add: c_def bunt_inv_def)
  moreover have "LogCache_StoreLogs bunt_log_store c [demo_log 3 1] = (c', Some (ErrOther ''write error''))"
    by (simp add: LogCache_StoreLogs_def c_def c'_def bunt_log_store_def StoreLogs_write_error
        cache_slot_def demo_log_def slot)
  moreover have "LogCache_GetLog bunt_log_store c' 3 = Inr (demo_log 3 1)"
    by (simp add: LogCache_GetLog_def c'_def cache_slot_def demo_log_def slot)
  moreover have "BuntStore_GetLog (lc_store c') 3 = Inl ErrLogNotFound"
    by (simp add: c'_def BuntStore_GetLog_def tx_Get_def)
  ultimately show ?thesis by blast
qed

end
