(* ===== verification/Raft_Node.thy ===== *)
theory Raft_Node
  imports Raft_Inflight Raft_Store
begin

text \<open>
  The state of a Raft node and the code of its main goroutine that works on it
  (\<open>raft/raft.go\<close>, \<open>raft/state.go\<close>, \<open>raft/config.go\<close>): the accessors, the
  persistent term and vote, the application of committed entries, peer set changes, and the
  handlers of the \<open>AppendEntries\<close> and \<open>RequestVote\<close> calls.
\<close>

section \<open>Configuration\<close>

record Config =
  HeartbeatTimeout :: int
  ElectionTimeout :: int
  CommitTimeout :: int
  MaxAppendEntries :: int
  ShutdownOnRemove :: bool
  DisableBootstrapAfterElect :: bool
  TrailingLogs :: uint64
  SnapshotInterval :: int
  SnapshotThreshold :: uint64
  EnableSingleNode :: bool
  LeaderLeaseTimeout :: int
  StartAsLeader :: bool

abbreviation Millisecond :: int where "Millisecond \<equiv> 1000000"
abbreviation Second :: int where "Second \<equiv> 1000 * Millisecond"

definition DefaultConfig :: Config where
  "DefaultConfig = \<lparr>HeartbeatTimeout = 1000 * Millisecond, ElectionTimeout = 1000 * Millisecond,
     CommitTimeout = 50 * Millisecond, MaxAppendEntries = 64, ShutdownOnRemove = True,
     DisableBootstrapAfterElect = True, TrailingLogs = 10240, SnapshotInterval = 120 * Second,
     SnapshotThreshold = 8192, EnableSingleNode = False, LeaderLeaseTimeout = 500 * Millisecond,
     StartAsLeader = False\<rparr>"

definition ValidateConfig :: "Config \<Rightarrow> raft_error option" where
  "ValidateConfig c =
     (if HeartbeatTimeout c < 5 * Millisecond then Some (ErrOther ''Heartbeat timeout is too low'')
      else if ElectionTimeout c < 5 * Millisecond then Some (ErrOther ''Election timeout is too low'')
      else if CommitTimeout c < Millisecond then Some (ErrOther ''Commit timeout is too low'')
      else if MaxAppendEntries c \<le> 0 then Some (ErrOther ''MaxAppendEntries must be positive'')
      else if MaxAppendEntries c > 1024 then Some (ErrOther ''MaxAppendEntries is too large'')
      else if SnapshotInterval c < 5 * Millisecond then Some (ErrOther ''Snapshot interval is too low'')
      else if LeaderLeaseTimeout c < 5 * Millisecond then Some (ErrOther ''Leader lease timeout is too low'')
      else if LeaderLeaseTimeout c > HeartbeatTimeout c
        then Some (ErrOther ''Leader lease timeout cannot be larger than heartbeat timeout'')
      else if ElectionTimeout c < HeartbeatTimeout c
        then Some (ErrOther ''Election timeout must be equal or greater than Heartbeat Timeout'')
      else None)"

section \<open>The interfaces a node is built on\<close>

record 'ps PeerStore =
  ps_Peers :: "'ps \<Rightarrow> raft_error + string list"
  ps_SetPeers :: "'ps \<Rightarrow> string list \<Rightarrow> 'ps \<times> raft_error option"

record SnapshotMeta =
  sm_ID :: string
  sm_Index :: uint64
  sm_Term :: uint64
  sm_Peers :: bytes
  sm_Size :: int

text \<open>
  A snapshot store: \<open>Create\<close> opens a sink under a fresh identifier; the sink is written,
  then closed (which publishes the snapshot) or cancelled.
\<close>

record 'sn SnapshotStore =
  sn_Create :: "'sn \<Rightarrow> uint64 \<Rightarrow> uint64 \<Rightarrow> bytes \<Rightarrow> 'sn \<times> (raft_error + string)"
  sn_Write :: "'sn \<Rightarrow> string \<Rightarrow> bytes \<Rightarrow> 'sn \<times> raft_error option"
  sn_Close :: "'sn \<Rightarrow> string \<Rightarrow> 'sn \<times> raft_error option"
  sn_Cancel :: "'sn \<Rightarrow> string \<Rightarrow> 'sn"
  sn_List :: "'sn \<Rightarrow> raft_error + SnapshotMeta list"
  sn_Open :: "'sn \<Rightarrow> string \<Rightarrow> raft_error + (SnapshotMeta \<times> bytes)"

record ('ls, 'ss, 'sn, 'ps) env =
  e_logs :: "'ls LogStore"
  e_stable :: "'ss StableStore"
  e_snaps :: "'sn SnapshotStore"
  e_peers :: "'ps PeerStore"
  e_trans :: wire

section \<open>The state of a node\<close>

datatype RaftState = Follower | Candidate | Leader | Shutdown

datatype observation =
    LeaderObservation string
  | StateObservation RaftState
  | VoteObservation RequestVoteRequest

text \<open>
  A \<open>verifyFuture\<close> is shared by pointer: the node keeps them by the number of their answer
  channel; \<open>vf_notifyCh\<close> says whether the channel field is non-nil.
\<close>

record verifyFuture =
  vf_notifyCh :: bool
  vf_quorumSize :: int
  vf_votes :: int

text \<open>
  The state of the replication to one peer. The stop channel has capacity 1 and may be closed;
  the shared pointers to the in-flight tracker and to the step-down channel are kept once, in
  the leader state.
\<close>

record followerReplication =
  fr_peer :: string
  fr_stopCh :: "uint64 option"
  fr_stopClosed :: bool
  fr_triggerCh :: signal
  fr_currentTerm :: uint64
  fr_matchIndex :: uint64
  fr_nextIndex :: uint64
  fr_lastContact :: int
  fr_failures :: uint64
  fr_notifyCh :: signal
  fr_notify :: "nat list"
  fr_allowPipeline :: bool

record leaderState =
  ls_inflight :: inflight
  ls_replState :: "(string \<times> followerReplication) list"
  ls_notify :: "nat list"
  ls_stepDown :: signal

type_synonym commitTuple = "Log \<times> logFuture option"

text \<open>
  \<open>r_sched\<close> resolves the choice of a \<open>select\<close> with several ready cases (an empty list: the
  first case); \<open>r_stopping\<close> holds the replications whose stop channel has been closed while
  their goroutine still runs; \<open>r_answers\<close> are the answers sent to futures. The buffered
  channels to the state machine and of verifications are queues: a full buffer only delays the
  sender.
\<close>

record ('ls, 'ss, 'sn, 'ps) Raft =
  r_currentTerm :: uint64
  r_commitIndex :: uint64
  r_lastApplied :: uint64
  r_lastSnapshotIndex :: uint64
  r_lastSnapshotTerm :: uint64
  r_lastLogIndex :: uint64
  r_lastLogTerm :: uint64
  r_state :: RaftState
  r_conf :: Config
  r_fsmCommitCh :: "commitTuple list"
  r_lastContact :: int
  r_leader :: string
  r_leaderState :: "leaderState option"
  r_localAddr :: string
  r_logs :: 'ls
  r_peers :: "string list"
  r_peerStore :: 'ps
  r_shutdown :: bool
  r_snapshots :: 'sn
  r_stable :: 'ss
  r_verifies :: "(nat \<times> verifyFuture) list"
  r_verifyCh :: "nat list"
  r_answers :: answers
  r_observed :: "observation list"
  r_stopping :: "followerReplication list"
  r_sched :: "bool list"

definition keyCurrentTerm :: bytes where "keyCurrentTerm = ''CurrentTerm''"
definition keyLastVoteTerm :: bytes where "keyLastVoteTerm = ''LastVoteTerm''"
definition keyLastVoteCand :: bytes where "keyLastVoteCand = ''LastVoteCand''"

section \<open>Accessors\<close>

definition getLastIndex :: "('ls, 'ss, 'sn, 'ps) Raft \<Rightarrow> uint64" where
  "getLastIndex r = max_u64 (r_lastLogIndex r) (r_lastSnapshotIndex r)"

definition getLastEntry :: "('ls, 'ss, 'sn, 'ps) Raft \<Rightarrow> uint64 \<times> uint64" where
  "getLastEntry r =
     (if r_lastLogIndex r \<ge> r_lastSnapshotIndex r then (r_lastLogIndex r, r_lastLogTerm r)
      else (r_lastSnapshotIndex r, r_lastSnapshotTerm r))"

definition setLastLog :: "uint64 \<Rightarrow> uint64 \<Rightarrow> ('ls, 'ss, 'sn, 'ps) Raft \<Rightarrow> ('ls, 'ss, 'sn, 'ps) Raft" where
  "setLastLog index term r = r\<lparr>r_lastLogIndex := index, r_lastLogTerm := term\<rparr>"

definition setLastSnapshot :: "uint64 \<Rightarrow> uint64 \<Rightarrow> ('ls, 'ss, 'sn, 'ps) Raft \<Rightarrow> ('ls, 'ss, 'sn, 'ps) Raft" where
  "setLastSnapshot index term r = r\<lparr>r_lastSnapshotIndex := index, r_lastSnapshotTerm := term\<rparr>"

definition observe :: "observation \<Rightarrow> ('ls, 'ss, 'sn, 'ps) Raft \<Rightarrow> ('ls, 'ss, 'sn, 'ps) Raft" where
  "observe ob r = r\<lparr>r_observed := r_observed r @ [ob]\<rparr>"

definition setLeader :: "string \<Rightarrow> ('ls, 'ss, 'sn, 'ps) Raft \<Rightarrow> ('ls, 'ss, 'sn, 'ps) Raft" where
  "setLeader leader r =
     (let oldLeader = r_leader r; r1 = r\<lparr>r_leader := leader\<rparr>
      in if oldLeader \<noteq> leader then observe (LeaderObservation leader) r1 else r1)"

definition setState :: "RaftState \<Rightarrow> ('ls, 'ss, 'sn, 'ps) Raft \<Rightarrow> ('ls, 'ss, 'sn, 'ps) Raft" where
  "setState st r =
     (let r1 = setLeader [] r; oldState = r_state r1; r2 = r1\<lparr>r_state := st\<rparr>
      in if oldState \<noteq> st then observe (StateObservation st) r2 else r2)"

definition setCurrentTerm ::
  "('ls, 'ss, 'sn, 'ps) env \<Rightarrow> uint64 \<Rightarrow> ('ls, 'ss, 'sn, 'ps) Raft \<Rightarrow> ('ls, 'ss, 'sn, 'ps) Raft outcome" where
  "setCurrentTerm E t r =
     (case ss_SetUint64 (e_stable E) (r_stable r) keyCurrentTerm t of
        (s', Some err) \<Rightarrow> Panic ''failed to save current term''
      | (s', None) \<Rightarrow> Ret (r\<lparr>r_stable := s', r_currentTerm := t\<rparr>))"

definition setLastContact :: "int \<Rightarrow> ('ls, 'ss, 'sn, 'ps) Raft \<Rightarrow> ('ls, 'ss, 'sn, 'ps) Raft" where
  "setLastContact now r = r\<lparr>r_lastContact := now\<rparr>"

definition answer :: "nat option \<Rightarrow> raft_error option \<Rightarrow> ('ls, 'ss, 'sn, 'ps) Raft \<Rightarrow> ('ls, 'ss, 'sn, 'ps) Raft" where
  "answer ch err r = r\<lparr>r_answers := respond ch err (r_answers r)\<rparr>"

definition quorumSize :: "('ls, 'ss, 'sn, 'ps) Raft \<Rightarrow> int" where
  "quorumSize r = (int (length (r_peers r)) + 1) div 2 + 1"

definition coin :: "('ls, 'ss, 'sn, 'ps) Raft \<Rightarrow> bool \<times> ('ls, 'ss, 'sn, 'ps) Raft" where
  "coin r = (case r_sched r of [] \<Rightarrow> (True, r) | b # bs \<Rightarrow> (b, r\<lparr>r_sched := bs\<rparr>))"

definition Raft_Shutdown :: "('ls, 'ss, 'sn, 'ps) Raft \<Rightarrow> ('ls, 'ss, 'sn, 'ps) Raft" where
  "Raft_Shutdown r = (if \<not> r_shutdown r then setState Shutdown (r\<lparr>r_shutdown := True\<rparr>) else r)"

section \<open>Replication bookkeeping used by the main goroutine\<close>

abbreviation idle_signal :: signal where
  "idle_signal \<equiv> \<lparr>sig_pending = False, sig_closed = False\<rparr>"

definition new_replication :: "string \<Rightarrow> int \<Rightarrow> ('ls, 'ss, 'sn, 'ps) Raft \<Rightarrow> followerReplication" where
  "new_replication peer now r = \<lparr>fr_peer = peer, fr_stopCh = None, fr_stopClosed = False,
     fr_triggerCh = idle_signal, fr_currentTerm = r_currentTerm r, fr_matchIndex = 0,
     fr_nextIndex = getLastIndex r + 1, fr_lastContact = now, fr_failures = 0,
     fr_notifyCh = idle_signal, fr_notify = [], fr_allowPipeline = False\<rparr>"

text \<open>The goroutine is started and its trigger channel notified.\<close>

definition startReplication ::
  "string \<Rightarrow> int \<Rightarrow> ('ls, 'ss, 'sn, 'ps) Raft \<Rightarrow> ('ls, 'ss, 'sn, 'ps) Raft outcome" where
  "startReplication peer now r =
     (case r_leaderState r of
        None \<Rightarrow> Panic ''assignment to entry in nil map''
      | Some ls \<Rightarrow>
          obind (asyncNotifyCh idle_signal) (\<lambda>trigger.
            Ret (r\<lparr>r_leaderState := Some (ls\<lparr>ls_replState :=
              AList.update peer ((new_replication peer now r)\<lparr>fr_triggerCh := trigger\<rparr>) (ls_replState ls)\<rparr>)\<rparr>)))"

fun startReplications ::
  "string list \<Rightarrow> int \<Rightarrow> ('ls, 'ss, 'sn, 'ps) Raft \<Rightarrow> ('ls, 'ss, 'sn, 'ps) Raft outcome" where
  "startReplications [] now r = Ret r"
| "startReplications (p # ps) now r = obind (startReplication p now r) (startReplications ps now)"

definition replicated :: "('ls, 'ss, 'sn, 'ps) Raft \<Rightarrow> (string \<times> followerReplication) list" where
  "replicated r = (case r_leaderState r of None \<Rightarrow> [] | Some ls \<Rightarrow> ls_replState ls)"

text \<open>The loop over the peers that starts the missing replications.\<close>

fun start_missing ::
  "string list \<Rightarrow> int \<Rightarrow> ('ls, 'ss, 'sn, 'ps) Raft \<Rightarrow> ('ls, 'ss, 'sn, 'ps) Raft outcome" where
  "start_missing [] now r = Ret r"
| "start_missing (p # ps) now r =
     (if map_of (replicated r) p = None
      then obind (startReplication p now r) (start_missing ps now)
      else start_missing ps now r)"

text \<open>\<open>repl.stopCh <- l.Index; close(repl.stopCh)\<close>\<close>

definition stop_replication :: "uint64 \<Rightarrow> followerReplication \<Rightarrow> followerReplication outcome" where
  "stop_replication index repl =
     (if fr_stopClosed repl then Panic ''send on closed channel''
      else if fr_stopCh repl \<noteq> None then Diverge
      else Ret (repl\<lparr>fr_stopCh := Some index, fr_stopClosed := True\<rparr>))"

fun stop_removed ::
  "uint64 \<Rightarrow> (string \<times> followerReplication) list \<Rightarrow> ('ls, 'ss, 'sn, 'ps) Raft \<Rightarrow> ('ls, 'ss, 'sn, 'ps) Raft outcome" where
  "stop_removed index [] r = Ret r"
| "stop_removed index ((name, repl) # rs) r =
     (if \<not> PeerContained (r_peers r) (fr_peer repl)
      then obind (stop_replication index repl) (\<lambda>repl'.
             stop_removed index rs (r\<lparr>r_stopping := r_stopping r @ [repl'],
               r_leaderState := map_option (\<lambda>ls. ls\<lparr>ls_replState :=
                 AList.delete (fr_peer repl) (ls_replState ls)\<rparr>) (r_leaderState r)\<rparr>))
      else stop_removed index rs r)"

section \<open>Applying committed entries\<close>

definition fsm_send :: "Log \<Rightarrow> logFuture option \<Rightarrow> ('ls, 'ss, 'sn, 'ps) Raft \<Rightarrow> ('ls, 'ss, 'sn, 'ps) Raft" where
  "fsm_send l future r =
     (let (send, r1) = (if r_shutdown r then coin r else (True, r))
      in if send then r1\<lparr>r_fsmCommitCh := r_fsmCommitCh r1 @ [(l, future)]\<rparr>
         else case future of None \<Rightarrow> r1 | Some f \<Rightarrow> answer (fut_errCh f) (Some ErrRaftShutdown) r1)"

definition set_peer_list ::
  "('ls, 'ss, 'sn, 'ps) env \<Rightarrow> string list \<Rightarrow> string list \<Rightarrow> ('ls, 'ss, 'sn, 'ps) Raft \<Rightarrow>
   ('ls, 'ss, 'sn, 'ps) Raft" where
  "set_peer_list E ps stored_ps r =
     r\<lparr>r_peers := ps, r_peerStore := fst (ps_SetPeers (e_peers E) (r_peerStore r) stored_ps)\<rparr>"

definition removeSelf :: "Log \<Rightarrow> string list \<Rightarrow> ('ls, 'ss, 'sn, 'ps) Raft \<Rightarrow> bool" where
  "removeSelf l peers r \<longleftrightarrow> \<not> PeerContained peers (r_localAddr r) \<and> log_Type l = LogRemovePeer"

text \<open>The new peer set; our own removal only takes effect after the commit.\<close>

definition change_peers ::
  "('ls, 'ss, 'sn, 'ps) env \<Rightarrow> Log \<Rightarrow> bool \<Rightarrow> string list \<Rightarrow> ('ls, 'ss, 'sn, 'ps) Raft \<Rightarrow>
   ('ls, 'ss, 'sn, 'ps) Raft" where
  "change_peers E l precommit peers r =
     (if removeSelf l peers r
      then (if \<not> precommit then set_peer_list E [] [r_localAddr r] r else r)
      else set_peer_list E (ExcludePeer peers (r_localAddr r)) peers r)"

definition leave_cluster :: "('ls, 'ss, 'sn, 'ps) Raft \<Rightarrow> ('ls, 'ss, 'sn, 'ps) Raft" where
  "leave_cluster r = (if ShutdownOnRemove (r_conf r) then Raft_Shutdown r else setState Follower r)"

definition process_peers ::
  "('ls, 'ss, 'sn, 'ps) env \<Rightarrow> int \<Rightarrow> Log \<Rightarrow> bool \<Rightarrow> string list \<Rightarrow> ('ls, 'ss, 'sn, 'ps) Raft \<Rightarrow>
   (('ls, 'ss, 'sn, 'ps) Raft \<times> bool) outcome" where
  "process_peers E now l precommit peers r =
     (let r1 = change_peers E l precommit peers r
      in obind (if r_state r1 = Leader then start_missing (r_peers r1) now r1 else Ret r1) (\<lambda>r2.
         obind (if r_state r2 = Leader \<and> \<not> precommit then stop_removed (log_Index l) (replicated r2) r2 else Ret r2) (\<lambda>r3.
         Ret (if removeSelf l peers r \<and> \<not> precommit then leave_cluster r3 else r3, removeSelf l peers r))))"

definition processLog ::
  "('ls, 'ss, 'sn, 'ps) env \<Rightarrow> int \<Rightarrow> Log \<Rightarrow> logFuture option \<Rightarrow> bool \<Rightarrow> ('ls, 'ss, 'sn, 'ps) Raft \<Rightarrow>
   (('ls, 'ss, 'sn, 'ps) Raft \<times> bool) outcome" where
  "processLog E now l future precommit r =
     (if log_Type l = LogBarrier \<or> log_Type l = LogCommand then Ret (fsm_send l future r, False)
      else obind
        (if log_Type l = LogAddPeer \<or> log_Type l = LogRemovePeer
         then obind (decodePeers (e_trans E) (log_Data l)) (\<lambda>peers. process_peers E now l precommit peers r)
         else Ret (r, False))
        (\<lambda>(r1, stepDown). Ret
          (case future of
             Some f \<Rightarrow> if \<not> precommit then answer (fut_errCh f) None r1 else r1
           | None \<Rightarrow> r1, stepDown)))"

definition process_index ::
  "('ls, 'ss, 'sn, 'ps) env \<Rightarrow> int \<Rightarrow> logFuture option \<Rightarrow> uint64 \<Rightarrow> ('ls, 'ss, 'sn, 'ps) Raft \<Rightarrow>
   ('ls, 'ss, 'sn, 'ps) Raft outcome" where
  "process_index E now future idx r =
     (let from_store = (case GetLog (e_logs E) (r_logs r) idx of
                          Inl err \<Rightarrow> Panic ''failed to get log''
                        | Inr l \<Rightarrow> processLog E now l None False r)
      in obind
        (case future of
           Some f \<Rightarrow> if log_Index (fut_log f) = idx then processLog E now (fut_log f) (Some f) False r
                     else from_store
         | None \<Rightarrow> from_store)
        (\<lambda>(r1, _). Ret (r1\<lparr>r_lastApplied := idx\<rparr>)))"

definition processLogs ::
  "('ls, 'ss, 'sn, 'ps) env \<Rightarrow> int \<Rightarrow> uint64 \<Rightarrow> logFuture option \<Rightarrow> ('ls, 'ss, 'sn, 'ps) Raft \<Rightarrow>
   ('ls, 'ss, 'sn, 'ps) Raft outcome" where
  "processLogs E now index future r =
     (if index \<le> r_lastApplied r then Ret r
      else for_upto (r_lastApplied r + 1) index (process_index E now future) r)"

section \<open>AppendEntries\<close>

text \<open>The check of the entry before the new ones.\<close>

definition prev_log_matches ::
  "('ls, 'ss, 'sn, 'ps) env \<Rightarrow> AppendEntriesRequest \<Rightarrow> ('ls, 'ss, 'sn, 'ps) Raft \<Rightarrow> bool" where
  "prev_log_matches E a r =
     (if ae_PrevLogEntry a > 0 then
        (let (lastIdx, lastTerm) = getLastEntry r
         in if ae_PrevLogEntry a = lastIdx then ae_PrevLogTerm a = lastTerm
            else (case GetLog (e_logs E) (r_logs r) (ae_PrevLogEntry a) of
                    Inl err \<Rightarrow> False
                  | Inr prevLog \<Rightarrow> ae_PrevLogTerm a = log_Term prevLog))
      else True)"

text \<open>The new entries: clear the suffix from the first of them on, store them. The flag says to go on.\<close>

definition append_new ::
  "('ls, 'ss, 'sn, 'ps) env \<Rightarrow> AppendEntriesRequest \<Rightarrow> ('ls, 'ss, 'sn, 'ps) Raft \<Rightarrow>
   (('ls, 'ss, 'sn, 'ps) Raft \<times> bool) outcome" where
  "append_new E a r =
     (if ae_Entries a = [] then Ret (r, True)
      else let first = hd (ae_Entries a); last = List.last (ae_Entries a) in
      obind (if log_Index first \<le> r_lastLogIndex r
             then DeleteRange (e_logs E) (r_logs r) (log_Index first) (r_lastLogIndex r)
             else Ret (r_logs r, None))
        (\<lambda>(ls, err). case err of
           Some _ \<Rightarrow> Ret (r\<lparr>r_logs := ls\<rparr>, False)
         | None \<Rightarrow>
             (case StoreLogs (e_logs E) ls (ae_Entries a) of
                (ls', Some _) \<Rightarrow> Ret (r\<lparr>r_logs := ls'\<rparr>, False)
              | (ls', None) \<Rightarrow>
                  Ret (setLastLog (log_Index last) (log_Term last) (r\<lparr>r_logs := ls'\<rparr>), True))))"

definition update_commit ::
  "('ls, 'ss, 'sn, 'ps) env \<Rightarrow> int \<Rightarrow> AppendEntriesRequest \<Rightarrow> ('ls, 'ss, 'sn, 'ps) Raft \<Rightarrow>
   ('ls, 'ss, 'sn, 'ps) Raft outcome" where
  "update_commit E now a r =
     (if ae_LeaderCommitIndex a > 0 \<and> ae_LeaderCommitIndex a > r_commitIndex r
      then let idx = min_u64 (ae_LeaderCommitIndex a) (getLastIndex r)
           in processLogs E now idx None (r\<lparr>r_commitIndex := idx\<rparr>)
      else Ret r)"

definition appendEntries ::
  "('ls, 'ss, 'sn, 'ps) env \<Rightarrow> int \<Rightarrow> AppendEntriesRequest \<Rightarrow> ('ls, 'ss, 'sn, 'ps) Raft \<Rightarrow>
   (('ls, 'ss, 'sn, 'ps) Raft \<times> AppendEntriesResponse) outcome" where
  "appendEntries E now a r =
     (let resp = \<lparr>aer_Term = r_currentTerm r, aer_LastLog = getLastIndex r, aer_Success = False,
                  aer_NoRetryBackoff = False\<rparr>
      in if ae_Term a < r_currentTerm r then Ret (r, resp)
      else obind
        (if ae_Term a > r_currentTerm r \<or> r_state r \<noteq> Follower
         then obind (setCurrentTerm E (ae_Term a) (setState Follower r)) (\<lambda>r1. Ret (r1, resp\<lparr>aer_Term := ae_Term a\<rparr>))
         else Ret (r, resp))
        (\<lambda>(r1, resp1).
           let r2 = setLeader (DecodePeer (e_trans E) (ae_Leader a)) r1
           in if \<not> prev_log_matches E a r2 then Ret (r2, resp1\<lparr>aer_NoRetryBackoff := True\<rparr>)
           else obind (append_new E a r2) (\<lambda>(r3, ok).
             if \<not> ok then Ret (r3, resp1)
             else obind (update_commit E now a r3) (\<lambda>r4.
               Ret (setLastContact now r4, resp1\<lparr>aer_Success := True\<rparr>)))))"

section \<open>RequestVote\<close>

text \<open>The code compares the text of the error with \<open>not found\<close>.\<close>

definition is_not_found :: "raft_error \<Rightarrow> bool" where
  "is_not_found err \<longleftrightarrow> err \<in> {ErrKeyNotFound, ErrNotFound, ErrOther ''not found''}"

fun read_failed :: "raft_error + 'a \<Rightarrow> bool" where
  "read_failed (Inl err) = (\<not> is_not_found err)"
| "read_failed (Inr _) = False"

definition persistVote ::
  "('ls, 'ss, 'sn, 'ps) env \<Rightarrow> uint64 \<Rightarrow> bytes \<Rightarrow> ('ls, 'ss, 'sn, 'ps) Raft \<Rightarrow>
   ('ls, 'ss, 'sn, 'ps) Raft \<times> raft_error option" where
  "persistVote E term candidate r =
     (case ss_SetUint64 (e_stable E) (r_stable r) keyLastVoteTerm term of
        (s1, Some err) \<Rightarrow> (r\<lparr>r_stable := s1\<rparr>, Some err)
      | (s1, None) \<Rightarrow>
          (case ss_Set (e_stable E) s1 keyLastVoteCand candidate of
             (s2, Some err) \<Rightarrow> (r\<lparr>r_stable := s2\<rparr>, Some err)
           | (s2, None) \<Rightarrow> (r\<lparr>r_stable := s2\<rparr>, None)))"

text \<open>The part after the term has been brought up to date.\<close>

definition decide_vote ::
  "('ls, 'ss, 'sn, 'ps) env \<Rightarrow> int \<Rightarrow> RequestVoteRequest \<Rightarrow> ('ls, 'ss, 'sn, 'ps) Raft \<Rightarrow>
   ('ls, 'ss, 'sn, 'ps) Raft \<times> bool" where
  "decide_vote E now req r =
     (let lastVoteTerm = ss_GetUint64 (e_stable E) (r_stable r) keyLastVoteTerm;
          lastVoteCand = ss_Get (e_stable E) (r_stable r) keyLastVoteCand
      in if read_failed lastVoteTerm then (r, False)
      else if read_failed lastVoteCand then (r, False)
      else let t = (case lastVoteTerm of Inl _ \<Rightarrow> 0 | Inr t \<Rightarrow> t);
               c = (case lastVoteCand of Inl _ \<Rightarrow> None | Inr c \<Rightarrow> Some c)
      in if t = rv_Term req \<and> c \<noteq> None then (r, c = Some (rv_Candidate req))
      else let (lastIdx, lastTerm) = getLastEntry r
      in if lastTerm > rv_LastLogTerm req then (r, False)
      else if lastTerm = rv_LastLogTerm req \<and> lastIdx > rv_LastLogIndex req then (r, False)
      else (case persistVote E (rv_Term req) (rv_Candidate req) r of
              (r1, Some err) \<Rightarrow> (r1, False)
            | (r1, None) \<Rightarrow> (setLastContact now r1, True)))"

definition requestVote ::
  "('ls, 'ss, 'sn, 'ps) env \<Rightarrow> int \<Rightarrow> RequestVoteRequest \<Rightarrow> ('ls, 'ss, 'sn, 'ps) Raft \<Rightarrow>
   (('ls, 'ss, 'sn, 'ps) Raft \<times> RequestVoteResponse) outcome" where
  "requestVote E now req r0 =
     (let r = observe (VoteObservation req) r0;
          resp = \<lparr>rvr_Term = r_currentTerm r, rvr_Peers = encodePeers (e_trans E) (r_peers r), rvr_Granted = False\<rparr>;
          candidate = DecodePeer (e_trans E) (rv_Candidate req)
      in if r_leader r \<noteq> [] \<and> r_leader r \<noteq> candidate then Ret (r, resp)
      else if rv_Term req < r_currentTerm r then Ret (r, resp)
      else obind
        (if rv_Term req > r_currentTerm r
         then obind (setCurrentTerm E (rv_Term req) (setState Follower r)) (\<lambda>r1. Ret (r1, resp\<lparr>rvr_Term := rv_Term req\<rparr>))
         else Ret (r, resp))
        (\<lambda>(r1, resp1). let (r2, granted) = decide_vote E now req r1 in Ret (r2, resp1\<lparr>rvr_Granted := granted\<rparr>)))"

section \<open>Standing for election\<close>

text \<open>
  \<open>electSelf\<close> returns the request that goes to every peer, and whether the vote channel,
  holding the node's own vote, is returned (it is nil when the vote could not be persisted).
\<close>

definition electSelf ::
  "('ls, 'ss, 'sn, 'ps) env \<Rightarrow> ('ls, 'ss, 'sn, 'ps) Raft \<Rightarrow>
   (('ls, 'ss, 'sn, 'ps) Raft \<times> RequestVoteRequest \<times> bool) outcome" where
  "electSelf E r =
     obind (setCurrentTerm E (r_currentTerm r + 1) r) (\<lambda>r1.
       let (lastIdx, lastTerm) = getLastEntry r1;
           req = \<lparr>rv_Term = r_currentTerm r1, rv_Candidate = EncodePeer (e_trans E) (r_localAddr r1),
                  rv_LastLogIndex = lastIdx, rv_LastLogTerm = lastTerm\<rparr>;
           (r2, err) = persistVote E (rv_Term req) (rv_Candidate req) r1
       in Ret (r2, req, err = None))"

text \<open>What a goroutine that asked a peer puts into the vote channel: the answer, or a refusal when the call failed.\<close>

definition askPeer ::
  "('ls, 'ss, 'sn, 'ps) env \<Rightarrow> RequestVoteRequest \<Rightarrow> raft_error + RequestVoteResponse \<Rightarrow> RequestVoteResponse outcome" where
  "askPeer E req result =
     (case result of
        Inl err \<Rightarrow> Ret \<lparr>rvr_Term = rv_Term req, rvr_Peers = [], rvr_Granted = False\<rparr>
      | Inr resp \<Rightarrow> obind (decodePeers (e_trans E) (rvr_Peers resp)) (\<lambda>_. Ret resp))"

section \<open>The durable term and vote\<close>

definition durable_term :: "('ls, 'ss, 'sn, 'ps) env \<Rightarrow> 'ss \<Rightarrow> uint64" where
  "durable_term E s = (case ss_GetUint64 (e_stable E) s keyCurrentTerm of Inl _ \<Rightarrow> 0 | Inr t \<Rightarrow> t)"

definition vote_term :: "('ls, 'ss, 'sn, 'ps) env \<Rightarrow> 'ss \<Rightarrow> uint64" where
  "vote_term E s = (case ss_GetUint64 (e_stable E) s keyLastVoteTerm of Inl _ \<Rightarrow> 0 | Inr t \<Rightarrow> t)"

definition vote_cand :: "('ls, 'ss, 'sn, 'ps) env \<Rightarrow> 'ss \<Rightarrow> bytes option" where
  "vote_cand E s = (case ss_Get (e_stable E) s keyLastVoteCand of Inl _ \<Rightarrow> None | Inr c \<Rightarrow> Some c)"

lemma keys_distinct [simp]:
  "keyCurrentTerm \<noteq> keyLastVoteTerm" "keyCurrentTerm \<noteq> keyLastVoteCand" "keyLastVoteTerm \<noteq> keyLastVoteCand"
  "keyLastVoteTerm \<noteq> keyCurrentTerm" "keyLastVoteCand \<noteq> keyCurrentTerm" "keyLastVoteCand \<noteq> keyLastVoteTerm"
  by (simp_all add: keyCurrentTerm_def keyLastVoteTerm_def keyLastVoteCand_def)

text \<open>
  A well-formed node for elections: its stable store is well-formed, the term it works with is
  the one on disk, and it has not voted in a later term.
\<close>

definition vote_inv :: "('ls, 'ss, 'sn, 'ps) env \<Rightarrow> ('ss \<Rightarrow> bool) \<Rightarrow> ('ls, 'ss, 'sn, 'ps) Raft \<Rightarrow> bool" where
  "vote_inv E ok r \<longleftrightarrow> ok (r_stable r) \<and> durable_term E (r_stable r) = r_currentTerm r \<and>
     vote_term E (r_stable r) \<le> r_currentTerm r"

text \<open>
  The effect of every step that is neither a vote nor a candidacy: the recorded vote stays, the
  term does not go back, and a node that is candidate or leader afterwards was so before, in
  the same term.
\<close>

definition keeps_vote ::
  "('ls, 'ss, 'sn, 'ps) env \<Rightarrow> ('ls, 'ss, 'sn, 'ps) Raft \<Rightarrow> ('ls, 'ss, 'sn, 'ps) Raft \<Rightarrow> bool" where
  "keeps_vote E r r' \<longleftrightarrow>
     vote_term E (r_stable r') = vote_term E (r_stable r) \<and>
     vote_cand E (r_stable r') = vote_cand E (r_stable r) \<and>
     r_currentTerm r \<le> r_currentTerm r' \<and> r_localAddr r' = r_localAddr r \<and>
     (r_state r' = Candidate \<or> r_state r' = Leader \<longrightarrow>
        r_state r' = r_state r \<and> r_currentTerm r' = r_currentTerm r)"

text \<open>A step that leaves term, role, address and stable store alone.\<close>

definition same_role :: "('ls, 'ss, 'sn, 'ps) Raft \<Rightarrow> ('ls, 'ss, 'sn, 'ps) Raft \<Rightarrow> bool" where
  "same_role r r' \<longleftrightarrow> r_stable r' = r_stable r \<and> r_currentTerm r' = r_currentTerm r \<and>
     r_localAddr r' = r_localAddr r \<and>
     (r_state r' = r_state r \<or> r_state r' = Follower \<or> r_state r' = Shutdown)"

lemma same_role_refl [simp, intro]: "same_role r r"
  by (simp add: same_role_def)

lemma same_role_trans: "same_role a b \<Longrightarrow> same_role b c \<Longrightarrow> same_role a c"
  by (auto simp: same_role_def)

lemma same_role_keeps_vote: "same_role r r' \<Longrightarrow> keeps_vote E r r'"
  by (auto simp: same_role_def keeps_vote_def)

lemma same_role_vote_inv: "same_role r r' \<Longrightarrow> vote_inv E ok r' = vote_inv E ok r"
  by (simp add: same_role_def vote_inv_def)

lemma keeps_vote_trans: "keeps_vote E a b \<Longrightarrow> keeps_vote E b c \<Longrightarrow> keeps_vote E a c"
  by (auto simp: keeps_vote_def)

lemma role_simps [simp]:
  "r_stable (setLeader x r) = r_stable r" "r_currentTerm (setLeader x r) = r_currentTerm r"
  "r_localAddr (setLeader x r) = r_localAddr r" "r_state (setLeader x r) = r_state r"
  "r_stable (setState st r) = r_stable r" "r_currentTerm (setState st r) = r_currentTerm r"
  "r_localAddr (setState st r) = r_localAddr r" "r_state (setState st r) = st"
  "r_stable (observe ob r) = r_stable r" "r_currentTerm (observe ob r) = r_currentTerm r"
  "r_localAddr (observe ob r) = r_localAddr r" "r_state (observe ob r) = r_state r"
  "r_peers (setState st r) = r_peers r" "r_peers (setLeader x r) = r_peers r" "r_peers (observe ob r) = r_peers r"
  "r_leader (setLeader x r) = x" "r_leader (observe ob r) = r_leader r" "r_leader (setState st r) = []"
  by (simp_all add: setLeader_def setState_def observe_def Let_def)

lemma log_simps [simp]:
  "r_logs (setLeader x r) = r_logs r" "r_logs (setState st r) = r_logs r" "r_logs (observe ob r) = r_logs r"
  "getLastEntry (setLeader x r) = getLastEntry r" "getLastEntry (setState st r) = getLastEntry r"
  "getLastEntry (observe ob r) = getLastEntry r" "getLastIndex (setLeader x r) = getLastIndex r"
  "getLastIndex (setState st r) = getLastIndex r"
  "r_lastLogIndex (setLeader x r) = r_lastLogIndex r" "r_lastLogIndex (setState st r) = r_lastLogIndex r"
  "r_commitIndex (setLeader x r) = r_commitIndex r" "r_commitIndex (setState st r) = r_commitIndex r"
  "r_lastApplied (setLeader x r) = r_lastApplied r" "r_lastApplied (setState st r) = r_lastApplied r"
  "r_lastSnapshotIndex (setLeader x r) = r_lastSnapshotIndex r"
  "r_lastSnapshotIndex (setState st r) = r_lastSnapshotIndex r"
  "r_lastLogTerm (setLeader x r) = r_lastLogTerm r" "r_lastLogTerm (setState st r) = r_lastLogTerm r"
  "r_lastSnapshotTerm (setLeader x r) = r_lastSnapshotTerm r" "r_lastSnapshotTerm (setState st r) = r_lastSnapshotTerm r"
  "r_shutdown (setLeader x r) = r_shutdown r" "r_shutdown (setState st r) = r_shutdown r"
  "r_fsmCommitCh (setLeader x r) = r_fsmCommitCh r" "r_fsmCommitCh (setState st r) = r_fsmCommitCh r"
  "r_leaderState (setLeader x r) = r_leaderState r" "r_leaderState (setState st r) = r_leaderState r"
  by (simp_all add: setLeader_def setState_def observe_def Let_def getLastEntry_def getLastIndex_def)

section \<open>Applying entries and storing them does not touch the role of a node\<close>

text \<open>What applying a committed entry leaves alone besides: the log, its bounds and the commit index.\<close>

definition same_log :: "('ls, 'ss, 'sn, 'ps) Raft \<Rightarrow> ('ls, 'ss, 'sn, 'ps) Raft \<Rightarrow> bool" where
  "same_log r r' \<longleftrightarrow> r_logs r' = r_logs r \<and> r_lastLogIndex r' = r_lastLogIndex r \<and>
     r_lastLogTerm r' = r_lastLogTerm r \<and> r_lastSnapshotIndex r' = r_lastSnapshotIndex r \<and>
     r_lastSnapshotTerm r' = r_lastSnapshotTerm r \<and> r_commitIndex r' = r_commitIndex r \<and>
     (r_shutdown r \<longrightarrow> r_shutdown r')"

definition apply_frame :: "('ls, 'ss, 'sn, 'ps) Raft \<Rightarrow> ('ls, 'ss, 'sn, 'ps) Raft \<Rightarrow> bool" where
  "apply_frame r r' \<longleftrightarrow> same_role r r' \<and> same_log r r'"

lemma apply_frame_refl [simp, intro]: "apply_frame r r"
  by (simp add: apply_frame_def same_log_def)

lemma apply_frame_trans: "apply_frame a b \<Longrightarrow> apply_frame b c \<Longrightarrow> apply_frame a c"
  by (auto simp: apply_frame_def same_role_def same_log_def)

lemma state_log_simps [simp]:
  "same_log r (setState st r') = same_log r r'" "same_log r (setLeader l r') = same_log r r'"
  "same_log r (answer ch err r') = same_log r r'"
  by (simp_all add: same_log_def setState_def setLeader_def observe_def answer_def Let_def)

lemma startReplication_frame: "startReplication p now r = Ret r' \<Longrightarrow> apply_frame r r'"
  by (auto simp: startReplication_def apply_frame_def same_role_def same_log_def split: option.splits)

lemma startReplications_frame: "startReplications ps now r = Ret r' \<Longrightarrow> apply_frame r r'"
  by (induction ps arbitrary: r) (auto dest: startReplication_frame intro: apply_frame_trans)

lemma start_missing_frame: "start_missing ps now r = Ret r' \<Longrightarrow> apply_frame r r'"
  by (induction ps arbitrary: r) (auto dest: startReplication_frame intro: apply_frame_trans split: if_splits)

lemma stop_removed_frame: "stop_removed index rs r = Ret r' \<Longrightarrow> apply_frame r r'"
proof (induction index rs r rule: stop_removed.induct)
  case (2 index name repl rs r)
  show ?case
  proof (cases "PeerContained (r_peers r) (fr_peer repl)")
    case False
    with "2.prems" obtain repl' where "stop_removed index rs (r\<lparr>r_stopping := r_stopping r @ [repl'],
        r_leaderState := map_option (\<lambda>ls. ls\<lparr>ls_replState :=
          AList.delete (fr_peer repl) (ls_replState ls)\<rparr>) (r_leaderState r)\<rparr>) = Ret r'"
      by auto
    from "2.IH"(1) [OF False this] show ?thesis by (simp add: apply_frame_def same_role_def same_log_def)
  qed (use 2 in simp)
qed simp

lemma coin_frame: "coin r = (b, r') \<Longrightarrow> apply_frame r r'"
  by (auto simp: coin_def apply_frame_def same_role_def same_log_def split: list.splits)

lemma fsm_send_frame: "apply_frame r (fsm_send l future r)"
proof -
  obtain b r1 where c: "(if r_shutdown r then coin r else (True, r)) = (b, r1)" by force
  then have "apply_frame r r1" by (auto dest: coin_frame split: if_splits)
  then show ?thesis using c
    by (auto simp: fsm_send_def answer_def apply_frame_def same_role_def same_log_def split: option.split)
qed

lemma Raft_Shutdown_frame: "apply_frame r (Raft_Shutdown r)"
  by (auto simp: Raft_Shutdown_def apply_frame_def same_role_def same_log_def)

lemma change_peers_frame: "apply_frame r (change_peers E l precommit peers r)"
  by (simp add: change_peers_def set_peer_list_def apply_frame_def same_role_def same_log_def)

lemma leave_cluster_frame: "apply_frame r (leave_cluster r)"
  using Raft_Shutdown_frame [of r] by (simp add: leave_cluster_def apply_frame_def same_role_def same_log_def)

lemma cond_frame:
  "(if c then m else Ret r) = Ret r' \<Longrightarrow> (m = Ret r' \<Longrightarrow> apply_frame r r') \<Longrightarrow> apply_frame r r'"
  by (auto split: if_splits)

lemma process_peers_frame:
  assumes "process_peers E now l precommit peers r = Ret (r', sd)"
  shows "apply_frame r r'"
proof -
  let ?r1 = "change_peers E l precommit peers r"
  from assms obtain r2 r3 where
    r2: "(if r_state ?r1 = Leader then start_missing (r_peers ?r1) now ?r1 else Ret ?r1) = Ret r2" and
    r3: "(if r_state r2 = Leader \<and> \<not> precommit then stop_removed (log_Index l) (replicated r2) r2 else Ret r2) = Ret r3" and
    r': "r' = (if removeSelf l peers r \<and> \<not> precommit then leave_cluster r3 else r3)"
    by (auto simp only: process_peers_def Let_def obind_Ret_iff outcome.inject prod.inject)
  have "apply_frame ?r1 r2" using r2 by (rule cond_frame) (rule start_missing_frame)
  moreover have "apply_frame r2 r3" using r3 by (rule cond_frame) (rule stop_removed_frame)
  moreover have "apply_frame r3 r'" using r' by (simp add: leave_cluster_frame)
  ultimately show ?thesis using change_peers_frame [of r E l precommit peers] by (blast intro: apply_frame_trans)
qed

lemma answer_frame [simp]: "apply_frame r (answer ch err r)"
  by (simp add: answer_def apply_frame_def same_role_def same_log_def)

lemma processLog_frame:
  assumes "processLog E now l future precommit r = Ret (r', sd)"
  shows "apply_frame r r'"
proof (cases "log_Type l = LogBarrier \<or> log_Type l = LogCommand")
  case True
  with assms have "r' = fsm_send l future r" by (auto simp: processLog_def)
  then show ?thesis by (simp add: fsm_send_frame)
next
  case False
  then obtain r1 where
    r1: "(if log_Type l = LogAddPeer \<or> log_Type l = LogRemovePeer
          then obind (decodePeers (e_trans E) (log_Data l)) (\<lambda>peers. process_peers E now l precommit peers r)
          else Ret (r, False)) = Ret (r1, sd)" and
    r': "r' = (case future of Some f \<Rightarrow> if \<not> precommit then answer (fut_errCh f) None r1 else r1 | None \<Rightarrow> r1)"
    using assms unfolding processLog_def
    by (simp only: if_False obind_pair_Ret_iff outcome.inject prod.inject) blast
  have "apply_frame r r1"
  proof (cases "log_Type l = LogAddPeer \<or> log_Type l = LogRemovePeer")
    case True
    with r1 obtain ps where "process_peers E now l precommit ps r = Ret (r1, sd)" by (auto simp only: if_True obind_Ret_iff)
    then show ?thesis by (rule process_peers_frame)
  qed (use r1 in auto)
  moreover have "apply_frame r1 r'" using r' by (simp split: option.split)
  ultimately show ?thesis by (rule apply_frame_trans)
qed

lemma apply_frame_lastApplied [simp]: "apply_frame r (r'\<lparr>r_lastApplied := x\<rparr>) = apply_frame r r'"
  by (simp add: apply_frame_def same_role_def same_log_def)

lemma process_index_frame:
  assumes "process_index E now future idx r = Ret r'"
  shows "apply_frame r r'"
proof -
  from assms obtain l fut r1 sd where "processLog E now l fut False r = Ret (r1, sd)" "r' = r1\<lparr>r_lastApplied := idx\<rparr>"
    unfolding process_index_def Let_def by (auto split: option.splits if_splits sum.splits)
  then show ?thesis by (auto dest: processLog_frame)
qed

lemma processLogs_frame:
  assumes "processLogs E now index future r = Ret r'"
  shows "apply_frame r r'"
proof (cases "index \<le> r_lastApplied r")
  case False
  with assms have "for_upto (r_lastApplied r + 1) index (process_index E now future) r = Ret r'"
    by (simp add: processLogs_def)
  then show ?thesis
    by (rule for_upto_preserves [where P = apply_frame]) (blast intro: apply_frame_trans process_index_frame)+
qed (use assms in \<open>simp add: processLogs_def\<close>)

lemma update_commit_effect:
  assumes "update_commit E now a r = Ret r'"
  shows "same_role r r' \<and> same_log (r\<lparr>r_commitIndex := r_commitIndex r'\<rparr>) r' \<and>
    r_commitIndex r' = (if ae_LeaderCommitIndex a > r_commitIndex r
      then min (ae_LeaderCommitIndex a) (getLastIndex r) else r_commitIndex r)"
proof (cases "ae_LeaderCommitIndex a > r_commitIndex r")
  case True
  let ?idx = "min (ae_LeaderCommitIndex a) (getLastIndex r)"
  from True have "ae_LeaderCommitIndex a > 0" using word_gt_0 by fastforce
  with True assms have "processLogs E now ?idx None (r\<lparr>r_commitIndex := ?idx\<rparr>) = Ret r'"
    by (simp add: update_commit_def Let_def)
  from processLogs_frame [OF this] True show ?thesis
    by (simp add: apply_frame_def same_role_def same_log_def)
next
  case False
  with assms show ?thesis by (auto simp: update_commit_def same_log_def)
qed

lemma update_commit_role: "update_commit E now a r = Ret r' \<Longrightarrow> same_role r r'"
  using update_commit_effect by blast

lemma frame_role: "apply_frame r r' \<Longrightarrow> same_role r r'"
  by (simp add: apply_frame_def)

text \<open>The shape of the result of \<open>append_new\<close>.\<close>

lemma append_new_cases:
  assumes "append_new E a r = Ret (r', ok)"
  obtains (nothing) "ae_Entries a = []" "r' = r" "ok"
    | (failed) ls where "r' = r\<lparr>r_logs := ls\<rparr>" "\<not> ok"
    | (stored) ls1 ls2 where "ae_Entries a \<noteq> []"
        "(if log_Index (hd (ae_Entries a)) \<le> r_lastLogIndex r
          then DeleteRange (e_logs E) (r_logs r) (log_Index (hd (ae_Entries a))) (r_lastLogIndex r)
          else Ret (r_logs r, None)) = Ret (ls1, None)"
        "StoreLogs (e_logs E) ls1 (ae_Entries a) = (ls2, None)"
        "r' = setLastLog (log_Index (last (ae_Entries a))) (log_Term (last (ae_Entries a))) (r\<lparr>r_logs := ls2\<rparr>)"
        "ok"
proof (cases "ae_Entries a = []")
  case True
  with assms have "r' = r" "ok" by (auto simp: append_new_def)
  with True show thesis by (rule nothing)
next
  case False
  with assms obtain ls1 err1 where d: "(if log_Index (hd (ae_Entries a)) \<le> r_lastLogIndex r
      then DeleteRange (e_logs E) (r_logs r) (log_Index (hd (ae_Entries a))) (r_lastLogIndex r)
      else Ret (r_logs r, None)) = Ret (ls1, err1)"
    and rest: "(case err1 of
           Some _ \<Rightarrow> Ret (r\<lparr>r_logs := ls1\<rparr>, False)
         | None \<Rightarrow>
             (case StoreLogs (e_logs E) ls1 (ae_Entries a) of
                (ls', Some _) \<Rightarrow> Ret (r\<lparr>r_logs := ls'\<rparr>, False)
              | (ls', None) \<Rightarrow> Ret (setLastLog (log_Index (last (ae_Entries a)))
                  (log_Term (last (ae_Entries a))) (r\<lparr>r_logs := ls'\<rparr>), True))) = Ret (r', ok)"
    unfolding append_new_def Let_def by (simp only: if_False obind_pair_Ret_iff) blast
  obtain ls2 err2 where s: "StoreLogs (e_logs E) ls1 (ae_Entries a) = (ls2, err2)" by force
  show thesis
  proof (cases err1)
    case None
    with rest s d False failed stored show thesis by (cases err2) auto
  next
    case (Some e)
    with rest failed show thesis by auto
  qed
qed

lemma append_new_role: "append_new E a r = Ret (r', ok) \<Longrightarrow> same_role r r'"
  by (erule append_new_cases) (auto simp: same_role_def setLastLog_def)

lemma setLastContact_role [simp]: "same_role r (setLastContact now r)"
  by (simp add: setLastContact_def same_role_def)

section \<open>The environment of a node\<close>

text \<open>
  What the handlers rely on: a log store and a stable store that keep their laws.
\<close>

locale raft_env =
  log_store "e_logs E" entries ls_inv + stable_store "e_stable E" kv ss_inv u64_bytes
  for E :: "('ls, 'ss, 'sn, 'ps) env" and entries :: "'ls \<Rightarrow> uint64 \<rightharpoonup> Log" and ls_inv :: "'ls \<Rightarrow> bool"
    and kv :: "'ss \<Rightarrow> bytes \<rightharpoonup> bytes" and ss_inv :: "'ss \<Rightarrow> bool" and u64_bytes :: "uint64 \<Rightarrow> bytes"
begin

lemma setCurrentTerm_effect:
  assumes "ss_inv (r_stable r)" and "setCurrentTerm E t r = Ret r'"
  shows "ss_inv (r_stable r') \<and> durable_term E (r_stable r') = t \<and> r_currentTerm r' = t \<and>
    vote_term E (r_stable r') = vote_term E (r_stable r) \<and> vote_cand E (r_stable r') = vote_cand E (r_stable r) \<and>
    r' = r\<lparr>r_stable := r_stable r', r_currentTerm := t\<rparr>"
proof -
  obtain s' where s: "ss_SetUint64 (e_stable E) (r_stable r) keyCurrentTerm t = (s', None)"
    and r': "r' = r\<lparr>r_stable := s', r_currentTerm := t\<rparr>"
    using assms(2) by (auto simp: setCurrentTerm_def split: prod.splits option.splits)
  have st: "ss_Set (e_stable E) (r_stable r) keyCurrentTerm (u64_bytes t) = (s', None)"
    using s by (simp add: SetUint64)
  note eff = set_effect [OF assms(1) st]
  have "ss_GetUint64 (e_stable E) s' keyCurrentTerm = Inr t" using assms(1) s by (rule get_u64_after_set)
  with eff r' show ?thesis by (simp add: durable_term_def vote_term_def vote_cand_def)
qed

lemma persistVote_effect:
  assumes "ss_inv (r_stable r)" and "persistVote E t c r = (r', err)"
  shows "ss_inv (r_stable r') \<and> durable_term E (r_stable r') = durable_term E (r_stable r) \<and>
    r' = r\<lparr>r_stable := r_stable r'\<rparr> \<and>
    (vote_term E (r_stable r') = t \<and> (vote_cand E (r_stable r') = vote_cand E (r_stable r) \<or> vote_cand E (r_stable r') = Some c) \<or>
     vote_term E (r_stable r') = vote_term E (r_stable r) \<and> vote_cand E (r_stable r') = vote_cand E (r_stable r)) \<and>
    (err = None \<longrightarrow> vote_term E (r_stable r') = t \<and> vote_cand E (r_stable r') = Some c)"
proof -
  obtain s1 e1 where s1: "ss_SetUint64 (e_stable E) (r_stable r) keyLastVoteTerm t = (s1, e1)" by force
  then have st1: "ss_Set (e_stable E) (r_stable r) keyLastVoteTerm (u64_bytes t) = (s1, e1)" by (simp add: SetUint64)
  note eff1 = set_effect [OF assms(1) st1]
  show ?thesis
  proof (cases e1)
    case (Some e)
    with assms(2) s1 have "r' = r\<lparr>r_stable := s1\<rparr>" "err = Some e" by (auto simp: persistVote_def)
    with eff1 Some show ?thesis by (simp add: durable_term_def vote_term_def vote_cand_def)
  next
    case None
    have t1: "ss_GetUint64 (e_stable E) s1 keyLastVoteTerm = Inr t"
      using get_u64_after_set [OF assms(1)] s1 None by simp
    obtain s2 e2 where s2: "ss_Set (e_stable E) s1 keyLastVoteCand c = (s2, e2)" by force
    have i1: "ss_inv s1" using eff1 by blast
    note eff2 = set_effect [OF i1 s2]
    have r': "r' = r\<lparr>r_stable := s2\<rparr>" "err = e2"
      using assms(2) s1 s2 None by (auto simp: persistVote_def split: option.splits)
    have "ss_Get (e_stable E) s2 keyLastVoteCand = Inr c" if "e2 = None"
      using get_after_set [OF i1, of keyLastVoteCand c s2 keyLastVoteCand] s2 that by simp
    with eff1 eff2 t1 r' None show ?thesis
      by (cases e2) (simp_all add: durable_term_def vote_term_def vote_cand_def)
  qed
qed

lemma keeps_vote_term:
  assumes "ss_inv (r_stable r)" and "setCurrentTerm E t (setState Follower r) = Ret r'" and "r_currentTerm r \<le> t"
  shows "keeps_vote E r r' \<and> ss_inv (r_stable r') \<and> durable_term E (r_stable r') = r_currentTerm r'"
proof -
  have "ss_inv (r_stable (setState Follower r))" using assms(1) by simp
  from setCurrentTerm_effect [OF this assms(2)] have
    e: "ss_inv (r_stable r')" "durable_term E (r_stable r') = t" "r_currentTerm r' = t"
       "vote_term E (r_stable r') = vote_term E (r_stable r)" "vote_cand E (r_stable r') = vote_cand E (r_stable r)"
    and eq: "r' = (setState Follower r)\<lparr>r_stable := r_stable r', r_currentTerm := t\<rparr>"
    by simp_all
  have "r_state r' = Follower" "r_localAddr r' = r_localAddr r"
    by (subst eq, simp)+
  with e assms(3) show ?thesis by (simp add: keeps_vote_def)
qed

end

section \<open>The handler of AppendEntries\<close>

text \<open>The term and role a handled request leaves the node in, and the leader it names.\<close>

definition entered ::
  "('ls, 'ss, 'sn, 'ps) env \<Rightarrow> AppendEntriesRequest \<Rightarrow> ('ls, 'ss, 'sn, 'ps) Raft \<Rightarrow> ('ls, 'ss, 'sn, 'ps) Raft \<Rightarrow> bool" where
  "entered E a r r2 \<longleftrightarrow> (\<exists>r1. (if ae_Term a > r_currentTerm r \<or> r_state r \<noteq> Follower
      then setCurrentTerm E (ae_Term a) (setState Follower r) else Ret r) = Ret r1 \<and>
      r2 = setLeader (DecodePeer (e_trans E) (ae_Leader a)) r1)"

lemma appendEntries_cases:
  assumes "appendEntries E now a r = Ret (r', resp)"
  obtains (stale) "ae_Term a < r_currentTerm r" "r' = r" "\<not> aer_Success resp" "aer_Term resp = r_currentTerm r"
    | (mismatch) "r_currentTerm r \<le> ae_Term a" "entered E a r r'" "\<not> prev_log_matches E a r'" "\<not> aer_Success resp"
    | (failed) r2 where "r_currentTerm r \<le> ae_Term a" "entered E a r r2" "append_new E a r2 = Ret (r', False)"
        "\<not> aer_Success resp"
    | (success) r2 r3 r4 where "r_currentTerm r \<le> ae_Term a" "entered E a r r2" "prev_log_matches E a r2"
        "append_new E a r2 = Ret (r3, True)" "update_commit E now a r3 = Ret r4" "r' = setLastContact now r4"
        "aer_Success resp"
proof (cases "ae_Term a < r_currentTerm r")
  case True
  with assms have "r' = r" "\<not> aer_Success resp" "aer_Term resp = r_currentTerm r"
    by (auto simp: appendEntries_def Let_def)
  with True show thesis by (rule stale)
next
  case False
  then have le: "r_currentTerm r \<le> ae_Term a" by simp
  define resp0 where "resp0 = \<lparr>aer_Term = r_currentTerm r, aer_LastLog = getLastIndex r, aer_Success = False,
    aer_NoRetryBackoff = False\<rparr>"
  define enter where "enter = (if ae_Term a > r_currentTerm r \<or> r_state r \<noteq> Follower
    then obind (setCurrentTerm E (ae_Term a) (setState Follower r)) (\<lambda>r1. Ret (r1, resp0\<lparr>aer_Term := ae_Term a\<rparr>))
    else Ret (r, resp0))"
  from assms False obtain r1 resp1 where e: "enter = Ret (r1, resp1)" and rest:
    "(let r2 = setLeader (DecodePeer (e_trans E) (ae_Leader a)) r1
      in if \<not> prev_log_matches E a r2 then Ret (r2, resp1\<lparr>aer_NoRetryBackoff := True\<rparr>)
      else obind (append_new E a r2) (\<lambda>(r3, ok).
        if \<not> ok then Ret (r3, resp1)
        else obind (update_commit E now a r3) (\<lambda>r4.
          Ret (setLastContact now r4, resp1\<lparr>aer_Success := True\<rparr>)))) = Ret (r', resp)"
    unfolding appendEntries_def enter_def [symmetric] resp0_def [symmetric] Let_def
    by (simp only: if_False obind_pair_Ret_iff) blast
  define r2 where "r2 = setLeader (DecodePeer (e_trans E) (ae_Leader a)) r1"
  have ent: "entered E a r r2" and s1: "\<not> aer_Success resp1"
    using e by (auto simp: enter_def entered_def r2_def resp0_def split: if_splits)
  show thesis
  proof (cases "prev_log_matches E a r2")
    case True
    with rest obtain r3 ok where a3: "append_new E a r2 = Ret (r3, ok)"
      and rest3: "(if \<not> ok then Ret (r3, resp1) else obind (update_commit E now a r3) (\<lambda>r4.
          Ret (setLastContact now r4, resp1\<lparr>aer_Success := True\<rparr>))) = Ret (r', resp)"
      unfolding Let_def r2_def [symmetric] by (simp only: if_False not_not obind_pair_Ret_iff simp_thms) blast
    show thesis
    proof (cases ok)
      case True
      with rest3 obtain r4 where "update_commit E now a r3 = Ret r4" "r' = setLastContact now r4"
        "resp = resp1\<lparr>aer_Success := True\<rparr>" by auto
      with success [OF le ent \<open>prev_log_matches E a r2\<close>] a3 True show thesis by auto
    next
      case False
      with rest3 a3 have "append_new E a r2 = Ret (r', False)" "\<not> aer_Success resp" using s1 by auto
      with failed [OF le ent] show thesis by blast
    qed
  next
    case False
    with rest have "r' = r2" "\<not> aer_Success resp" using s1 by (auto simp: Let_def r2_def)
    with mismatch [OF le] ent False show thesis by blast
  qed
qed

context raft_env
begin

lemma entered_effect:
  assumes "ss_inv (r_stable r)" and "durable_term E (r_stable r) = r_currentTerm r"
    and "r_currentTerm r \<le> ae_Term a" and "entered E a r r2"
  shows "keeps_vote E r r2 \<and> ss_inv (r_stable r2) \<and> durable_term E (r_stable r2) = r_currentTerm r2 \<and>
    r_currentTerm r2 = ae_Term a \<and> r_state r2 = Follower \<and> r_logs r2 = r_logs r \<and>
    r_lastLogIndex r2 = r_lastLogIndex r \<and> r_lastApplied r2 = r_lastApplied r \<and> r_commitIndex r2 = r_commitIndex r \<and>
    r_lastSnapshotIndex r2 = r_lastSnapshotIndex r \<and> getLastEntry r2 = getLastEntry r \<and>
    r_leader r2 = DecodePeer (e_trans E) (ae_Leader a)"
proof (cases "ae_Term a > r_currentTerm r \<or> r_state r \<noteq> Follower")
  case True
  with assms(4) obtain r1 where r1: "setCurrentTerm E (ae_Term a) (setState Follower r) = Ret r1"
    and r2: "r2 = setLeader (DecodePeer (e_trans E) (ae_Leader a)) r1" by (auto simp: entered_def)
  have k: "keeps_vote E r r1 \<and> ss_inv (r_stable r1) \<and> durable_term E (r_stable r1) = r_currentTerm r1"
    using assms(1) r1 assms(3) by (rule keeps_vote_term)
  obtain s where eq: "r1 = (setState Follower r)\<lparr>r_stable := s, r_currentTerm := ae_Term a\<rparr>"
    using r1 by (auto simp: setCurrentTerm_def split: prod.splits option.splits)
  have "getLastEntry (q\<lparr>r_stable := s, r_currentTerm := x\<rparr>) = getLastEntry q" for q :: "('ls, 'ss, 'sn, 'ps) Raft" and x
    by (simp add: getLastEntry_def)
  with k show ?thesis by (simp add: r2 keeps_vote_def eq)
next
  case False
  with assms show ?thesis by (auto simp: entered_def keeps_vote_def)
qed

lemma appendEntries_keeps_vote:
  assumes "vote_inv E ss_inv r" and "appendEntries E now a r = Ret (r', resp)"
  shows "keeps_vote E r r' \<and> vote_inv E ss_inv r'"
proof -
  have inv: "ss_inv (r_stable r)" "durable_term E (r_stable r) = r_currentTerm r"
    "vote_term E (r_stable r) \<le> r_currentTerm r" using assms(1) by (auto simp: vote_inv_def)
  have *: "keeps_vote E r r' \<and> vote_inv E ss_inv r'"
    if "r_currentTerm r \<le> ae_Term a" "entered E a r r2" "same_role r2 r'" for r2
  proof -
    note e = entered_effect [OF inv(1,2) that(1,2)]
    then have "vote_inv E ss_inv r2" using inv(3) by (auto simp: vote_inv_def keeps_vote_def)
    then have "vote_inv E ss_inv r'" using same_role_vote_inv [OF that(3)] by blast
    moreover have "keeps_vote E r r'" using e same_role_keeps_vote [OF that(3)] keeps_vote_trans by blast
    ultimately show ?thesis by blast
  qed
  from assms(2) show ?thesis
  proof (cases rule: appendEntries_cases)
    case stale
    with assms(1) show ?thesis by (simp add: keeps_vote_def)
  next
    case mismatch
    show ?thesis using mismatch(1,2) by (rule *) simp
  next
    case (failed r2)
    show ?thesis using failed(1,2) append_new_role [OF failed(3)] by (rule *)
  next
    case (success r2 r3 r4)
    have "same_role r2 r'"
      unfolding success(6) using append_new_role [OF success(4)] update_commit_role [OF success(5)] setLastContact_role
      by (blast intro: same_role_trans)
    with success(1,2) show ?thesis by (rule *)
  qed
qed

end

section \<open>The handler of RequestVote and the node's own candidacy\<close>

text \<open>
  How the recorded vote may change: it stays, or it moves to a later term, or it fills a term
  for which no candidate had been recorded.
\<close>

definition vote_advances :: "('ls, 'ss, 'sn, 'ps) env \<Rightarrow> 'ss \<Rightarrow> 'ss \<Rightarrow> bool" where
  "vote_advances E s s' \<longleftrightarrow>
     vote_term E s' = vote_term E s \<and> vote_cand E s' = vote_cand E s \<or>
     vote_term E s < vote_term E s' \<or>
     vote_term E s = vote_term E s' \<and> vote_cand E s = None"

text \<open>The candidate's log is at least as up to date as the voter's.\<close>

definition up_to_date :: "RequestVoteRequest \<Rightarrow> ('ls, 'ss, 'sn, 'ps) Raft \<Rightarrow> bool" where
  "up_to_date req r \<longleftrightarrow> snd (getLastEntry r) < rv_LastLogTerm req \<or>
     snd (getLastEntry r) = rv_LastLogTerm req \<and> fst (getLastEntry r) \<le> rv_LastLogIndex req"

lemma up_to_date_iff:
  "up_to_date req r \<longleftrightarrow> \<not> rv_LastLogTerm req < snd (getLastEntry r) \<and>
     \<not> (snd (getLastEntry r) = rv_LastLogTerm req \<and> rv_LastLogIndex req < fst (getLastEntry r))"
  unfolding up_to_date_def by (metis not_less order.order_iff_strict order.irrefl)

lemma vote_advances_refl [simp]: "vote_advances E s s"
  by (simp add: vote_advances_def)

lemma requestVote_cases:
  assumes "requestVote E now req r = Ret (r', resp)"
  obtains (rejected) "r' = observe (VoteObservation req) r" "\<not> rvr_Granted resp"
    | (decided) r1 where "r_currentTerm r \<le> rv_Term req"
        "(if rv_Term req > r_currentTerm r
          then setCurrentTerm E (rv_Term req) (setState Follower (observe (VoteObservation req) r))
          else Ret (observe (VoteObservation req) r)) = Ret r1"
        "decide_vote E now req r1 = (r', rvr_Granted resp)"
        "r_leader r = [] \<or> r_leader r = DecodePeer (e_trans E) (rv_Candidate req)"
proof -
  let ?r = "observe (VoteObservation req) r"
  define resp0 where "resp0 = \<lparr>rvr_Term = r_currentTerm r, rvr_Peers = encodePeers (e_trans E) (r_peers r), rvr_Granted = False\<rparr>"
  consider "r_leader r \<noteq> [] \<and> r_leader r \<noteq> DecodePeer (e_trans E) (rv_Candidate req) \<or> rv_Term req < r_currentTerm r"
    | "r_leader r = [] \<or> r_leader r = DecodePeer (e_trans E) (rv_Candidate req)" "r_currentTerm r \<le> rv_Term req"
    by force
  then show thesis
  proof cases
    case 1
    with assms have "r' = ?r" "\<not> rvr_Granted resp" by (auto simp: requestVote_def Let_def split: if_splits)
    then show thesis by (rule rejected)
  next
    case 2
    define enter where "enter = (if rv_Term req > r_currentTerm r
      then obind (setCurrentTerm E (rv_Term req) (setState Follower ?r)) (\<lambda>r1. Ret (r1, resp0\<lparr>rvr_Term := rv_Term req\<rparr>))
      else Ret (?r, resp0))"
    have c: "(r_leader r \<noteq> [] \<and> r_leader r \<noteq> DecodePeer (e_trans E) (rv_Candidate req)) = False"
      "(rv_Term req < r_currentTerm r) = False" using 2 by auto
    from assms obtain r1 resp1 where e: "enter = Ret (r1, resp1)"
      and rest: "(case decide_vote E now req r1 of (r2, granted) \<Rightarrow> Ret (r2, resp1\<lparr>rvr_Granted := granted\<rparr>)) = Ret (r', resp)"
      unfolding requestVote_def Let_def role_simps c if_False enter_def [symmetric] resp0_def [symmetric] obind_pair_Ret_iff
      by blast
    have "decide_vote E now req r1 = (r', rvr_Granted resp)" using rest by (auto split: prod.splits)
    moreover have "(if rv_Term req > r_currentTerm r then setCurrentTerm E (rv_Term req) (setState Follower ?r) else Ret ?r) = Ret r1"
      using e by (auto simp: enter_def split: if_splits)
    ultimately show thesis using decided [OF 2(2) _ _ 2(1)] by blast
  qed
qed

context raft_env
begin

lemma decide_vote_effect:
  assumes "vote_inv E ss_inv r" and "r_currentTerm r = rv_Term req" and "decide_vote E now req r = (r', granted)"
  shows "vote_inv E ss_inv r' \<and> vote_advances E (r_stable r) (r_stable r') \<and>
    r_currentTerm r' = r_currentTerm r \<and> r_state r' = r_state r \<and> r_localAddr r' = r_localAddr r \<and> r_peers r' = r_peers r \<and>
    (granted \<longrightarrow> vote_term E (r_stable r') = rv_Term req \<and> vote_cand E (r_stable r') = Some (rv_Candidate req)) \<and>
    (granted \<longrightarrow> vote_term E (r_stable r) = rv_Term req \<and> vote_cand E (r_stable r) = Some (rv_Candidate req) \<or>
       up_to_date req r)"
proof -
  have inv: "ss_inv (r_stable r)" "durable_term E (r_stable r) = r_currentTerm r"
    "vote_term E (r_stable r) \<le> r_currentTerm r" using assms(1) by (auto simp: vote_inv_def)
  let ?same = "r' = r \<and> \<not> granted"
  consider ?same
    | "r' = r" "vote_term E (r_stable r) = rv_Term req" "vote_cand E (r_stable r) = Some (rv_Candidate req)"
    | r1 err where "vote_term E (r_stable r) \<noteq> rv_Term req \<or> vote_cand E (r_stable r) = None"
        "persistVote E (rv_Term req) (rv_Candidate req) r = (r1, err)" "up_to_date req r"
        "r' = (if err = None then setLastContact now r1 else r1)" "granted = (err = None)"
    using assms(3) unfolding decide_vote_def vote_term_def [symmetric] vote_cand_def [symmetric] Let_def
    by (auto simp: up_to_date_iff split: if_splits prod.splits option.splits)
  then show ?thesis
  proof cases
    case 1
    with assms(1) show ?thesis by simp
  next
    case 2
    with assms(1) show ?thesis by simp
  next
    case (3 r1 err)
    note p = persistVote_effect [OF inv(1) 3(2)]
    obtain s1 where r1: "r1 = r\<lparr>r_stable := s1\<rparr>" using p by metis
    have st: "r_stable r' = s1" "r_currentTerm r' = r_currentTerm r" "r_state r' = r_state r" "r_localAddr r' = r_localAddr r"
      "r_peers r' = r_peers r"
      using r1 3(4) by (simp_all add: setLastContact_def)
    from p r1 have s1: "ss_inv s1" "durable_term E s1 = durable_term E (r_stable r)"
      "vote_term E s1 = rv_Term req \<or> vote_term E s1 = vote_term E (r_stable r) \<and> vote_cand E s1 = vote_cand E (r_stable r)"
      "err = None \<Longrightarrow> vote_term E s1 = rv_Term req \<and> vote_cand E s1 = Some (rv_Candidate req)"
      by auto
    have "vote_inv E ss_inv r'" using s1 inv st assms(2) by (auto simp: vote_inv_def)
    moreover have "vote_advances E (r_stable r) s1"
      using s1(3) 3(1) inv(3) assms(2) by (auto simp: vote_advances_def)
    ultimately show ?thesis using s1(4) 3(3,5) by (simp only: st simp_thms) blast
  qed
qed

lemma requestVote_effect:
  assumes "vote_inv E ss_inv r" and "requestVote E now req r = Ret (r', resp)"
  shows "vote_inv E ss_inv r' \<and> vote_advances E (r_stable r) (r_stable r') \<and>
    r_currentTerm r \<le> r_currentTerm r' \<and> r_localAddr r' = r_localAddr r \<and> r_peers r' = r_peers r \<and>
    (r_state r' = Candidate \<or> r_state r' = Leader \<longrightarrow> r_state r' = r_state r \<and> r_currentTerm r' = r_currentTerm r) \<and>
    (rvr_Granted resp \<longrightarrow> r_currentTerm r' = rv_Term req \<and> vote_term E (r_stable r') = rv_Term req \<and>
       vote_cand E (r_stable r') = Some (rv_Candidate req)) \<and>
    (rvr_Granted resp \<longrightarrow> vote_term E (r_stable r) = rv_Term req \<and> vote_cand E (r_stable r) = Some (rv_Candidate req) \<or>
       up_to_date req r)"
  using assms(2)
proof (cases rule: requestVote_cases)
  case rejected
  with assms(1) show ?thesis by (simp add: vote_inv_def)
next
  case (decided r1)
  let ?o = "observe (VoteObservation req) r"
  have inv: "ss_inv (r_stable ?o)" "vote_term E (r_stable ?o) \<le> rv_Term req"
    using assms(1) decided(1) by (auto simp: vote_inv_def)
  have r1: "vote_inv E ss_inv r1 \<and> r_currentTerm r1 = rv_Term req \<and> keeps_vote E ?o r1 \<and> r_peers r1 = r_peers r \<and>
    getLastEntry r1 = getLastEntry r"
  proof (cases "rv_Term req > r_currentTerm r")
    case True
    with decided(2) have s: "setCurrentTerm E (rv_Term req) (setState Follower ?o) = Ret r1" by simp
    have k: "keeps_vote E ?o r1 \<and> ss_inv (r_stable r1) \<and> durable_term E (r_stable r1) = r_currentTerm r1"
      using inv(1) s by (rule keeps_vote_term) (use decided(1) in simp)
    moreover have "r_currentTerm r1 = rv_Term req" "r_peers r1 = r_peers r" "getLastEntry r1 = getLastEntry r"
      using s by (auto simp: setCurrentTerm_def getLastEntry_def observe_def split: prod.splits option.splits)
    ultimately show ?thesis using inv(2) by (auto simp: vote_inv_def keeps_vote_def)
  next
    case False
    with decided(1,2) assms(1) show ?thesis by (auto simp: vote_inv_def keeps_vote_def)
  qed
  then have "vote_inv E ss_inv r1" "r_currentTerm r1 = rv_Term req" by auto
  from decide_vote_effect [OF this decided(3)] r1 decided(1) show ?thesis
    by (auto simp: keeps_vote_def vote_advances_def up_to_date_def)
qed

lemma electSelf_effect:
  assumes "vote_inv E ss_inv r" and "r_currentTerm r \<noteq> - 1" and "electSelf E r = Ret (r', req, voted)"
  shows "vote_inv E ss_inv r' \<and> r_currentTerm r' = r_currentTerm r + 1 \<and> r_localAddr r' = r_localAddr r \<and>
    r_state r' = r_state r \<and> r_peers r' = r_peers r \<and>
    rv_Term req = r_currentTerm r' \<and> rv_Candidate req = EncodePeer (e_trans E) (r_localAddr r) \<and>
    vote_advances E (r_stable r) (r_stable r') \<and>
    (voted \<longrightarrow> vote_term E (r_stable r') = rv_Term req \<and> vote_cand E (r_stable r') = Some (rv_Candidate req))"
proof -
  have inv: "ss_inv (r_stable r)" "vote_term E (r_stable r) \<le> r_currentTerm r" using assms(1) by (auto simp: vote_inv_def)
  from assms(3) obtain r1 err where r1: "setCurrentTerm E (r_currentTerm r + 1) r = Ret r1"
    and req: "rv_Term req = r_currentTerm r1" "rv_Candidate req = EncodePeer (e_trans E) (r_localAddr r1)"
    and p: "persistVote E (rv_Term req) (rv_Candidate req) r1 = (r', err)" and v: "voted = (err = None)"
    by (auto simp: electSelf_def Let_def case_prod_unfold prod_eq_iff)
  note t = setCurrentTerm_effect [OF inv(1) r1]
  then have i1: "ss_inv (r_stable r1)" by blast
  note e = persistVote_effect [OF i1 p]
  obtain s' where r': "r' = r1\<lparr>r_stable := s'\<rparr>" using e by metis
  have f: "r_currentTerm r1 = r_currentTerm r + 1" "r_localAddr r1 = r_localAddr r" "r_state r1 = r_state r" "r_peers r1 = r_peers r"
    using r1 by (auto simp: setCurrentTerm_def split: prod.splits option.splits)
  have lt: "vote_term E (r_stable r) < r_currentTerm r + 1" using inv(2) assms(2) by (simp add: word_less_succ)
  from e r' have s': "ss_inv s'" "durable_term E s' = durable_term E (r_stable r1)"
    "vote_term E s' = rv_Term req \<or> vote_term E s' = vote_term E (r_stable r1) \<and> vote_cand E s' = vote_cand E (r_stable r1)"
    "err = None \<Longrightarrow> vote_term E s' = rv_Term req \<and> vote_cand E s' = Some (rv_Candidate req)" by auto
  have "vote_inv E ss_inv r'" using s' t lt f r' req by (auto simp: vote_inv_def)
  moreover have "vote_advances E (r_stable r) s'" using s'(3) t lt f req by (auto simp: vote_advances_def)
  ultimately show ?thesis using s'(4) f r' req v by simp
qed

end

section \<open>Committed entries reach the state machine in order\<close>

definition is_command :: "Log \<Rightarrow> bool" where
  "is_command l \<longleftrightarrow> log_Type l = LogBarrier \<or> log_Type l = LogCommand"

text \<open>What the state machine must receive for the indexes from \<open>lo\<close> to below \<open>hi\<close>.\<close>

definition fsm_feed :: "(uint64 \<rightharpoonup> Log) \<Rightarrow> uint64 \<Rightarrow> uint64 \<Rightarrow> commitTuple list" where
  "fsm_feed m lo hi = map (\<lambda>l. (l, None)) (filter is_command (List.map_filter (\<lambda>n. m (of_nat n)) [unat lo..<unat hi]))"

lemma fsm_feed_empty [simp]: "fsm_feed m lo lo = []"
  by (simp add: fsm_feed_def List.map_filter_def)

lemma fsm_feed_step:
  assumes "lo \<le> j" and "j \<noteq> - 1" and "m j = Some l"
  shows "fsm_feed m lo (j + 1) = fsm_feed m lo j @ (if is_command l then [(l, None)] else [])"
  using assms by (simp add: fsm_feed_def List.map_filter_def word_succ_unat word_le_nat_alt)

text \<open>A peer entry that can be decoded.\<close>

definition peers_readable :: "wire \<Rightarrow> Log \<Rightarrow> bool" where
  "peers_readable W l \<longleftrightarrow> (log_Type l = LogAddPeer \<or> log_Type l = LogRemovePeer \<longrightarrow> returns (decodePeers W (log_Data l)))"

lemma fsm_channel_simps [simp]:
  "r_fsmCommitCh (change_peers E l pre ps r) = r_fsmCommitCh r"
  "r_fsmCommitCh (leave_cluster r) = r_fsmCommitCh r"
  "r_shutdown (change_peers E l pre ps r) = r_shutdown r"
  "r_state (change_peers E l pre ps r) = r_state r"
  by (simp_all add: change_peers_def set_peer_list_def leave_cluster_def Raft_Shutdown_def)

lemma processLog_follower:
  assumes "r_state r \<noteq> Leader" and "peers_readable (e_trans E) l"
  shows "\<exists>r' sd. processLog E now l None False r = Ret (r', sd) \<and>
    (\<not> r_shutdown r \<longrightarrow> r_fsmCommitCh r' = r_fsmCommitCh r @ (if is_command l then [(l, None)] else []))"
proof (cases "is_command l")
  case True
  then show ?thesis by (auto simp: processLog_def is_command_def fsm_send_def)
next
  case False
  show ?thesis
  proof (cases "log_Type l = LogAddPeer \<or> log_Type l = LogRemovePeer")
    case True
    with assms(2) obtain ps where ps: "decodePeers (e_trans E) (log_Data l) = Ret ps"
      by (auto simp: peers_readable_def returns_iff)
    have "process_peers E now l False ps r =
      Ret (if removeSelf l ps r then leave_cluster (change_peers E l False ps r) else change_peers E l False ps r,
           removeSelf l ps r)"
      using assms(1) by (simp add: process_peers_def Let_def)
    with ps True False show ?thesis by (simp add: processLog_def is_command_def)
  qed (use False in \<open>auto simp: processLog_def is_command_def\<close>)
qed

lemma not_leader_frame: "apply_frame r r' \<Longrightarrow> r_state r \<noteq> Leader \<Longrightarrow> r_state r' \<noteq> Leader"
  by (auto simp: apply_frame_def same_role_def)

context raft_env
begin

lemma process_index_follower:
  assumes "ls_inv (r_logs r)" and "entries (r_logs r) idx = Some l" and "r_state r \<noteq> Leader"
    and "peers_readable (e_trans E) l"
  shows "\<exists>r'. process_index E now None idx r = Ret r' \<and> r_lastApplied r' = idx \<and>
    (\<not> r_shutdown r \<longrightarrow> r_fsmCommitCh r' = r_fsmCommitCh r @ (if is_command l then [(l, None)] else []))"
proof -
  have "GetLog (e_logs E) (r_logs r) idx = Inr l" using assms(1,2) by (simp add: GetLog)
  with processLog_follower [OF assms(3,4), of now] show ?thesis by (auto simp: process_index_def Let_def)
qed

lemma processLogs_follower:
  assumes "ls_inv (r_logs r)" and "r_state r \<noteq> Leader" and "index \<noteq> - 1" and "r_lastApplied r < index"
    and present: "\<And>i. r_lastApplied r < i \<Longrightarrow> i \<le> index \<Longrightarrow>
        \<exists>l. entries (r_logs r) i = Some l \<and> peers_readable (e_trans E) l"
  shows "\<exists>r'. processLogs E now index None r = Ret r' \<and> r_lastApplied r' = index \<and> apply_frame r r' \<and>
    (\<not> r_shutdown r' \<longrightarrow>
       r_fsmCommitCh r' = r_fsmCommitCh r @ fsm_feed (entries (r_logs r)) (r_lastApplied r + 1) (index + 1))"
proof -
  let ?lo = "r_lastApplied r + 1"
  define P where "P = (\<lambda>j t. apply_frame r t \<and> (?lo < j \<longrightarrow> r_lastApplied t = j - 1) \<and> ?lo \<le> j \<and>
    (\<not> r_shutdown t \<longrightarrow> r_fsmCommitCh t = r_fsmCommitCh r @ fsm_feed (entries (r_logs r)) ?lo j))"
  have la: "r_lastApplied r \<noteq> - 1" using assms(4) by auto
  have step: "\<exists>t'. process_index E now None j t = Ret t' \<and> P (j + 1) t'"
    if Pj: "P j t" and lo: "?lo \<le> j" and hi: "j \<le> index" for j t
  proof -
    have fr: "apply_frame r t" and feed: "\<not> r_shutdown t \<Longrightarrow>
        r_fsmCommitCh t = r_fsmCommitCh r @ fsm_feed (entries (r_logs r)) ?lo j"
      using Pj by (auto simp: P_def)
    then have logs: "r_logs t = r_logs r" by (simp add: apply_frame_def same_log_def)
    have j: "j \<noteq> - 1" using hi assms(3) word_order.extremum_uniqueI by auto
    obtain l where l: "entries (r_logs r) j = Some l" "peers_readable (e_trans E) l"
      using present [of j] lo hi la by (auto simp: word_succ_le)
    obtain t' where t': "process_index E now None j t = Ret t'" "r_lastApplied t' = j"
      "\<not> r_shutdown t \<longrightarrow> r_fsmCommitCh t' = r_fsmCommitCh t @ (if is_command l then [(l, None)] else [])"
      using process_index_follower [of t j l now] logs l assms(1,2) not_leader_frame [OF fr] by auto
    have f': "apply_frame t t'" using t'(1) by (rule process_index_frame)
    then have "\<not> r_shutdown t' \<Longrightarrow> \<not> r_shutdown t" by (auto simp: apply_frame_def same_log_def)
    with t' feed f' fr lo j l(1) show ?thesis
      by (auto simp: P_def fsm_feed_step word_succ_le word_less_succ intro: apply_frame_trans order.strict_implies_order)
  qed
  have "?lo \<le> index + 1" using assms(3,4) la by (simp add: word_succ_le word_less_succ order.strict_implies_order)
  moreover have "P ?lo r" by (simp add: P_def)
  ultimately obtain r' where r': "for_upto ?lo index (process_index E now None) r = Ret r'" "P (index + 1) r'"
    using for_upto_rule [OF assms(3), of P ?lo r "process_index E now None"] step by blast
  moreover have "?lo < index + 1" using assms(3,4) la by (simp add: word_succ_le word_less_succ)
  ultimately show ?thesis using assms(4) by (auto simp: processLogs_def P_def)
qed

end

section \<open>What a successful AppendEntries leaves in the log\<close>

text \<open>The entries of a request follow its previous entry without a gap.\<close>

fun follows :: "uint64 \<Rightarrow> Log list \<Rightarrow> bool" where
  "follows prev [] = True"
| "follows prev (l # ls) = (prev \<noteq> - 1 \<and> log_Index l = prev + 1 \<and> follows (prev + 1) ls)"

lemma follows_bound: "follows prev ls \<Longrightarrow> l \<in> set ls \<Longrightarrow> prev < log_Index l"
proof (induction ls arbitrary: prev)
  case (Cons k ls)
  show ?case
  proof (cases "l = k")
    case True
    with Cons.prems(1) show ?thesis by (simp add: word_less_succ)
  next
    case False
    with Cons have "prev + 1 < log_Index l" by auto
    then have "prev + 1 \<le> log_Index l" by (rule order.strict_implies_order)
    with Cons.prems(1) show ?thesis by (simp add: word_succ_le)
  qed
qed simp

lemma follows_distinct: "follows prev ls \<Longrightarrow> distinct (map log_Index ls)"
  by (induction ls arbitrary: prev) (auto dest: follows_bound)

context raft_env
begin

lemma append_new_log:
  assumes inv: "ls_inv (r_logs r)" and fol: "follows (ae_PrevLogEntry a) (ae_Entries a)"
    and st: "append_new E a r = Ret (r', True)"
  shows "ls_inv (r_logs r') \<and>
    (\<forall>l \<in> set (ae_Entries a). GetLog (e_logs E) (r_logs r') (log_Index l) = Inr (stored l)) \<and>
    (\<forall>i \<le> ae_PrevLogEntry a. GetLog (e_logs E) (r_logs r') i = GetLog (e_logs E) (r_logs r) i) \<and>
    (ae_Entries a \<noteq> [] \<longrightarrow> r_lastLogIndex r' = log_Index (last (ae_Entries a)) \<and>
       r_lastLogTerm r' = log_Term (last (ae_Entries a)) \<and>
       (\<forall>i. i \<notin> log_Index ` set (ae_Entries a) \<longrightarrow> ae_PrevLogEntry a < i \<longrightarrow> i \<le> r_lastLogIndex r \<longrightarrow>
          GetLog (e_logs E) (r_logs r') i = Inl ErrLogNotFound))"
  using st
proof (cases rule: append_new_cases)
  case nothing
  with inv show ?thesis by simp
next
  case (stored ls1 ls2)
  from stored(1) fol obtain es where es: "ae_Entries a = hd (ae_Entries a) # es" and p: "ae_PrevLogEntry a \<noteq> - 1"
    and h: "log_Index (hd (ae_Entries a)) = ae_PrevLogEntry a + 1"
    by (cases "ae_Entries a") auto
  have d: "ls_inv ls1 \<and> (\<forall>i. GetLog (e_logs E) ls1 i =
      (if ae_PrevLogEntry a + 1 \<le> i \<and> i \<le> r_lastLogIndex r then Inl ErrLogNotFound else GetLog (e_logs E) (r_logs r) i))"
  proof (cases "ae_PrevLogEntry a + 1 \<le> r_lastLogIndex r")
    case True
    with stored(2) h have "DeleteRange (e_logs E) (r_logs r) (ae_PrevLogEntry a + 1) (r_lastLogIndex r) = Ret (ls1, None)" by simp
    with DeleteRange [OF inv this] get_after_delete [OF inv this] show ?thesis by simp
  next
    case False
    with stored(2) h have "ls1 = r_logs r" by simp
    with False inv show ?thesis by auto
  qed
  then have i1: "ls_inv ls1" and g1: "\<And>i. GetLog (e_logs E) ls1 i = (if ae_PrevLogEntry a + 1 \<le> i \<and> i \<le> r_lastLogIndex r
      then Inl ErrLogNotFound else GetLog (e_logs E) (r_logs r) i)" by auto
  have r': "r_logs r' = ls2" "r_lastLogIndex r' = log_Index (last (ae_Entries a))" "r_lastLogTerm r' = log_Term (last (ae_Entries a))"
    using stored(4) by (simp_all add: setLastLog_def)
  have new: "GetLog (e_logs E) ls2 (log_Index l) = Inr (Raft_Log.stored l)" if "l \<in> set (ae_Entries a)" for l
    using get_after_store [OF i1 stored(3) follows_distinct [OF fol] that] .
  have old: "GetLog (e_logs E) ls2 i = GetLog (e_logs E) ls1 i" if "i \<notin> log_Index ` set (ae_Entries a)" for i
    using get_after_store_other [OF i1 stored(3) that] .
  have low: "i \<notin> log_Index ` set (ae_Entries a) \<and> \<not> ae_PrevLogEntry a + 1 \<le> i" if "i \<le> ae_PrevLogEntry a" for i
    using follows_bound [OF fol] that p by (fastforce simp: word_succ_le)
  have "\<forall>i \<le> ae_PrevLogEntry a. GetLog (e_logs E) ls2 i = GetLog (e_logs E) (r_logs r) i"
    using old g1 low by simp
  moreover have "ls_inv ls2" using StoreLogs [OF i1 stored(3)] by blast
  moreover have "GetLog (e_logs E) ls2 i = Inl ErrLogNotFound"
    if "i \<notin> log_Index ` set (ae_Entries a)" "ae_PrevLogEntry a < i" "i \<le> r_lastLogIndex r" for i
    using that old [OF that(1)] g1 [of i] p by (simp add: word_succ_le)
  ultimately show ?thesis using new r' by simp
qed simp

lemma appendEntries_log:
  assumes vi: "vote_inv E ss_inv r" and inv: "ls_inv (r_logs r)"
    and fol: "follows (ae_PrevLogEntry a) (ae_Entries a)"
    and ae: "appendEntries E now a r = Ret (r', resp)" and ok: "aer_Success resp"
  shows "r_currentTerm r' = ae_Term a \<and> r_state r' \<noteq> Leader \<and> r_state r' \<noteq> Candidate \<and> prev_log_matches E a r \<and>
    ls_inv (r_logs r') \<and>
    (\<forall>l \<in> set (ae_Entries a). GetLog (e_logs E) (r_logs r') (log_Index l) = Inr (stored l)) \<and>
    (\<forall>i \<le> ae_PrevLogEntry a. GetLog (e_logs E) (r_logs r') i = GetLog (e_logs E) (r_logs r) i) \<and>
    (ae_Entries a \<noteq> [] \<longrightarrow> r_lastLogIndex r' = log_Index (last (ae_Entries a)) \<and>
       (\<forall>i. i \<notin> log_Index ` set (ae_Entries a) \<longrightarrow> ae_PrevLogEntry a < i \<longrightarrow> i \<le> r_lastLogIndex r \<longrightarrow>
          GetLog (e_logs E) (r_logs r') i = Inl ErrLogNotFound)) \<and>
    r_commitIndex r' = (if ae_LeaderCommitIndex a > r_commitIndex r
      then min (ae_LeaderCommitIndex a) (getLastIndex r') else r_commitIndex r)"
  using ae
proof (cases rule: appendEntries_cases)
  case (success r2 r3 r4)
  have st: "ss_inv (r_stable r)" "durable_term E (r_stable r) = r_currentTerm r" using vi by (auto simp: vote_inv_def)
  note e = entered_effect [OF st success(1,2)]
  then have logs2: "r_logs r2 = r_logs r" and last2: "r_lastLogIndex r2 = r_lastLogIndex r"
    and entry2: "getLastEntry r2 = getLastEntry r" by blast+
  have prev: "prev_log_matches E a r" using success(3) by (simp only: prev_log_matches_def logs2 entry2)
  have log3: "ls_inv (r_logs r3) \<and>
    (\<forall>l \<in> set (ae_Entries a). GetLog (e_logs E) (r_logs r3) (log_Index l) = Inr (stored l)) \<and>
    (\<forall>i \<le> ae_PrevLogEntry a. GetLog (e_logs E) (r_logs r3) i = GetLog (e_logs E) (r_logs r) i) \<and>
    (ae_Entries a \<noteq> [] \<longrightarrow> r_lastLogIndex r3 = log_Index (last (ae_Entries a)) \<and>
       r_lastLogTerm r3 = log_Term (last (ae_Entries a)) \<and>
       (\<forall>i. i \<notin> log_Index ` set (ae_Entries a) \<longrightarrow> ae_PrevLogEntry a < i \<longrightarrow> i \<le> r_lastLogIndex r \<longrightarrow>
          GetLog (e_logs E) (r_logs r3) i = Inl ErrLogNotFound))"
    using append_new_log [OF _ fol success(4)] inv unfolding logs2 last2 by blast
  have role3: "same_role r2 r3" and c3: "r_commitIndex r3 = r_commitIndex r2"
    using append_new_role [OF success(4)] success(4)
    by (auto elim!: append_new_cases simp: setLastLog_def)
  note u = update_commit_effect [OF success(5)]
  have frame: "r_logs r' = r_logs r3" "r_lastLogIndex r' = r_lastLogIndex r3" "getLastIndex r' = getLastIndex r3"
    "r_commitIndex r' = r_commitIndex r4" "r_state r' = r_state r4" "r_currentTerm r' = r_currentTerm r4"
    using u success(6) by (simp_all add: same_log_def setLastContact_def getLastIndex_def)
  have "r_currentTerm r' = ae_Term a" "r_state r' \<noteq> Leader" "r_state r' \<noteq> Candidate"
    using e role3 u frame by (auto simp: same_role_def)
  moreover have "r_commitIndex r' = (if ae_LeaderCommitIndex a > r_commitIndex r
      then min (ae_LeaderCommitIndex a) (getLastIndex r') else r_commitIndex r)"
    using u c3 e frame by simp
  ultimately show ?thesis using log3 prev unfolding frame(1,2) by blast
qed (use ok in simp_all)

end

section \<open>The environment on BuntStore\<close>

definition bunt_env :: "'sn SnapshotStore \<Rightarrow> 'ps PeerStore \<Rightarrow> wire \<Rightarrow> (bunt, bunt, 'sn, 'ps) env" where
  "bunt_env Sn P W = \<lparr>e_logs = bunt_log_store, e_stable = bunt_stable_store, e_snaps = Sn, e_peers = P, e_trans = W\<rparr>"

lemma bunt_env_simps [simp]:
  "e_logs (bunt_env Sn P W) = bunt_log_store" "e_stable (bunt_env Sn P W) = bunt_stable_store"
  "e_snaps (bunt_env Sn P W) = Sn" "e_peers (bunt_env Sn P W) = P" "e_trans (bunt_env Sn P W) = W"
  by (simp_all add: bunt_env_def)

interpretation bunt_node: raft_env "bunt_env Sn P W" bunt_entries bunt_inv bunt_kv bunt_inv FormatUint
  for Sn P W
  unfolding raft_env_def bunt_env_simps
  using bunt_logs.log_store_axioms bunt_stable.stable_store_axioms by blast

section \<open>Properties\<close>

text \<open>
  C2: A vote is granted at most once per term and never to a candidate behind the voter. When
  \<open>requestVote\<close> grants, the node is in the requested term and the vote is on disk; the
  recorded vote only moves forward (it is never overwritten within its term); and, unless it
  repeats a vote already recorded for this candidate, the candidate's last entry is at least as
  up to date as the voter's. The term never goes back, and no vote turns the node into a
  candidate or a leader.
\<close>

theorem requestVote_sound:
  assumes "vote_inv (bunt_env Sn P W) bunt_inv r" and "requestVote (bunt_env Sn P W) now req r = Ret (r', resp)"
  shows "vote_inv (bunt_env Sn P W) bunt_inv r' \<and> vote_advances (bunt_env Sn P W) (r_stable r) (r_stable r') \<and>
    r_currentTerm r \<le> r_currentTerm r' \<and>
    (r_state r' = Candidate \<or> r_state r' = Leader \<longrightarrow> r_state r' = r_state r \<and> r_currentTerm r' = r_currentTerm r) \<and>
    (rvr_Granted resp \<longrightarrow> r_currentTerm r' = rv_Term req \<and>
       vote_term (bunt_env Sn P W) (r_stable r') = rv_Term req \<and>
       vote_cand (bunt_env Sn P W) (r_stable r') = Some (rv_Candidate req) \<and>
       (vote_term (bunt_env Sn P W) (r_stable r) = rv_Term req \<and>
        vote_cand (bunt_env Sn P W) (r_stable r) = Some (rv_Candidate req) \<or> up_to_date req r))"
  using bunt_node.requestVote_effect [OF assms] by blast

definition demo_wire :: wire where
  "demo_wire = \<lparr>EncodePeer = id, DecodePeer = id, gob_encode = concat, gob_decode = (\<lambda>b. Some [b])\<rparr>"

definition demo_peerStore :: "string list PeerStore" where
  "demo_peerStore = \<lparr>ps_Peers = Inr, ps_SetPeers = (\<lambda>s p. (p, None))\<rparr>"

definition demo_snapshots :: "unit SnapshotStore" where
  "demo_snapshots = \<lparr>sn_Create = (\<lambda>s i t p. (s, Inl (ErrOther ''none''))), sn_Write = (\<lambda>s i b. (s, None)),
     sn_Close = (\<lambda>s i. (s, None)), sn_Cancel = (\<lambda>s i. s), sn_List = (\<lambda>s. Inr []),
     sn_Open = (\<lambda>s i. Inl (ErrOther ''none''))\<rparr>"

abbreviation demo_env :: "(bunt, bunt, unit, string list) env" where
  "demo_env \<equiv> bunt_env demo_snapshots demo_peerStore demo_wire"

definition demo_node :: "bunt \<Rightarrow> uint64 \<Rightarrow> uint64 \<Rightarrow> (bunt, bunt, unit, string list) Raft" where
  "demo_node logs lastIndex lastTerm = \<lparr>r_currentTerm = 0, r_commitIndex = 0, r_lastApplied = 0, r_lastSnapshotIndex = 0,
     r_lastSnapshotTerm = 0, r_lastLogIndex = lastIndex, r_lastLogTerm = lastTerm, r_state = Follower,
     r_conf = DefaultConfig, r_fsmCommitCh = [], r_lastContact = 0, r_leader = [], r_leaderState = None,
     r_localAddr = ''a'', r_logs = logs, r_peers = [''b'', ''c''], r_peerStore = [''a'', ''b'', ''c''],
     r_shutdown = False, r_snapshots = (), r_stable = demo_bunt, r_verifies = [], r_verifyCh = [],
     r_answers = [], r_observed = [], r_stopping = [], r_sched = []\<rparr>"

lemma demo_stable_reads:
  "ss_GetUint64 bunt_stable_store demo_bunt k = Inl ErrKeyNotFound"
  "ss_Get bunt_stable_store demo_bunt k = Inl ErrKeyNotFound"
  by (simp_all add: bunt_stable_store_def BuntStore_GetUint64_def BuntStore_Get_def tx_Get_def demo_bunt_def)

lemma demo_node_vote_inv: "vote_inv demo_env bunt_inv (demo_node b i t)"
  by (simp add: vote_inv_def demo_node_def demo_bunt_inv durable_term_def vote_term_def demo_stable_reads)

definition demo_vote :: RequestVoteRequest where
  "demo_vote = \<lparr>rv_Term = 1, rv_Candidate = ''b'', rv_LastLogIndex = 0, rv_LastLogTerm = 0\<rparr>"

lemma demo_setCurrentTerm:
  "r_stable r = demo_bunt \<Longrightarrow> setCurrentTerm demo_env t r = Ret (r\<lparr>r_stable :=
     \<lparr>db_items = [(dbConf @ keyCurrentTerm, FormatUint t)], db_aof = []\<rparr>, r_currentTerm := t\<rparr>)"
  by (simp add: setCurrentTerm_def bunt_stable_store_def BuntStore_SetUint64_def Set_succeeds demo_bunt_def)

lemma demo_vote_granted:
  "\<exists>r' resp. requestVote demo_env 0 demo_vote (demo_node demo_bunt 0 0) = Ret (r', resp) \<and> rvr_Granted resp"
proof -
  let ?s = "\<lparr>db_items = [(dbConf @ keyCurrentTerm, FormatUint 1)], db_aof = []\<rparr>"
  have reads: "ss_GetUint64 bunt_stable_store ?s keyLastVoteTerm = Inl ErrKeyNotFound"
    "ss_Get bunt_stable_store ?s keyLastVoteCand = Inl ErrKeyNotFound"
    by (simp_all add: bunt_stable_store_def BuntStore_GetUint64_def BuntStore_Get_def tx_Get_def)
  have writes: "\<exists>b. ss_SetUint64 bunt_stable_store ?s keyLastVoteTerm 1 = (b, None) \<and> db_aof b = []"
    by (simp add: bunt_stable_store_def BuntStore_SetUint64_def Set_succeeds)
  have w2: "\<And>b. db_aof b = [] \<Longrightarrow> \<exists>b'. ss_Set bunt_stable_store b keyLastVoteCand ''b'' = (b', None)"
    by (simp add: bunt_stable_store_def Set_succeeds)
  from writes w2 obtain b b' where b: "ss_SetUint64 bunt_stable_store ?s keyLastVoteTerm 1 = (b, None)"
    "ss_Set bunt_stable_store b keyLastVoteCand ''b'' = (b', None)" by blast
  show ?thesis
    using reads b unfolding requestVote_def Let_def bunt_env_simps
    by (simp add: demo_setCurrentTerm Let_def demo_vote_def decide_vote_def is_not_found_def persistVote_def
        demo_node_def setState_def setLeader_def observe_def getLastEntry_def)
qed

theorem requestVote_sound_witness:
  "\<exists>r' resp. requestVote demo_env 0 demo_vote (demo_node demo_bunt 0 0) = Ret (r', resp) \<and> rvr_Granted resp \<and>
     vote_term demo_env (r_stable r') = 1 \<and> vote_cand demo_env (r_stable r') = Some ''b''"
proof -
  obtain r' resp where r: "requestVote demo_env 0 demo_vote (demo_node demo_bunt 0 0) = Ret (r', resp)" "rvr_Granted resp"
    using demo_vote_granted by blast
  from requestVote_sound [OF demo_node_vote_inv r(1)] r show ?thesis by (auto simp: demo_vote_def)
qed

text \<open>
  C3: The log-matching step of a follower. After a successful \<open>appendEntries\<close> whose entries
  follow their previous entry without a gap, the node is a follower in the leader's term, the
  previous entry had the leader's term, every entry of the request is in the log, everything up
  to the previous entry is untouched, whatever the old log held beyond is gone, and the commit
  index is the leader's, cut at the last index the node holds.
\<close>

theorem appendEntries_matches_leader:
  assumes "vote_inv (bunt_env Sn P W) bunt_inv r" and "bunt_inv (r_logs r)"
    and "follows (ae_PrevLogEntry a) (ae_Entries a)"
    and "appendEntries (bunt_env Sn P W) now a r = Ret (r', resp)" and "aer_Success resp"
  shows "r_currentTerm r' = ae_Term a \<and> r_state r' \<noteq> Leader \<and> r_state r' \<noteq> Candidate \<and>
    prev_log_matches (bunt_env Sn P W) a r \<and>
    (\<forall>l \<in> set (ae_Entries a). BuntStore_GetLog (r_logs r') (log_Index l) = Inr (stored l)) \<and>
    (\<forall>i \<le> ae_PrevLogEntry a. BuntStore_GetLog (r_logs r') i = BuntStore_GetLog (r_logs r) i) \<and>
    (ae_Entries a \<noteq> [] \<longrightarrow> r_lastLogIndex r' = log_Index (last (ae_Entries a)) \<and>
       (\<forall>i. i \<notin> log_Index ` set (ae_Entries a) \<longrightarrow> ae_PrevLogEntry a < i \<longrightarrow> i \<le> r_lastLogIndex r \<longrightarrow>
          BuntStore_GetLog (r_logs r') i = Inl ErrLogNotFound)) \<and>
    r_commitIndex r' = (if ae_LeaderCommitIndex a > r_commitIndex r
      then min (ae_LeaderCommitIndex a) (getLastIndex r') else r_commitIndex r)"
  using bunt_node.appendEntries_log [OF assms] unfolding bunt_env_simps bunt_log_store_def LogStore.simps by blast

definition demo_append :: "uint64 \<Rightarrow> uint64 \<Rightarrow> Log list \<Rightarrow> AppendEntriesRequest" where
  "demo_append prev prevTerm es = \<lparr>ae_Term = 1, ae_Leader = ''b'', ae_PrevLogEntry = prev, ae_PrevLogTerm = prevTerm,
     ae_Entries = es, ae_LeaderCommitIndex = 0\<rparr>"

text \<open>A request that gets through every check succeeds.\<close>

lemma appendEntries_succeeds:
  assumes "ae_Term a > r_currentTerm r" and "setCurrentTerm E (ae_Term a) (setState Follower r) = Ret r1"
    and "prev_log_matches E a (setLeader (DecodePeer (e_trans E) (ae_Leader a)) r1)"
    and "append_new E a (setLeader (DecodePeer (e_trans E) (ae_Leader a)) r1) = Ret (r3, True)"
    and "update_commit E now a r3 = Ret r4"
  shows "\<exists>resp. appendEntries E now a r = Ret (setLastContact now r4, resp) \<and> aer_Success resp \<and> aer_Term resp = ae_Term a"
  using assms by (auto simp: appendEntries_def Let_def)

lemma demo_append_succeeds:
  assumes "(if 1 \<le> i then DeleteRange bunt_log_store logs 1 i else Ret (logs, None)) = Ret (b1, None)" and "db_aof b1 = []"
  shows "\<exists>r' resp. appendEntries demo_env 0 (demo_append 0 0 [demo_log 1 1]) (demo_node logs i t) = Ret (r', resp) \<and>
     aer_Success resp \<and> aer_Term resp = 1"
proof -
  let ?a = "demo_append 0 0 [demo_log 1 1]" and ?n = "demo_node logs i t"
  have "r_stable (setState Follower ?n) = demo_bunt" by (simp add: demo_node_def)
  from demo_setCurrentTerm [OF this] obtain r1 where r1: "setCurrentTerm demo_env (ae_Term ?a) (setState Follower ?n) = Ret r1"
    and f: "r_lastLogIndex r1 = i" "r_logs r1 = logs" by (simp add: demo_node_def)
  let ?r2 = "setLeader (DecodePeer (e_trans demo_env) (ae_Leader ?a)) r1"
  have st: "StoreLogs bunt_log_store b1 [demo_log 1 1] = (b1\<lparr>db_items := stored_items [demo_log 1 1] (db_items b1)\<rparr>, None)"
    using assms(2) by (simp add: bunt_log_store_def StoreLogs_succeeds)
  have "append_new demo_env ?a ?r2 =
    Ret (setLastLog 1 1 (?r2\<lparr>r_logs := b1\<lparr>db_items := stored_items [demo_log 1 1] (db_items b1)\<rparr>\<rparr>), True)" (is "_ = Ret (?r3, True)")
    using assms(1) f st by (cases "1 \<le> i") (simp_all add: append_new_def demo_append_def demo_log_def Let_def)
  moreover have "prev_log_matches demo_env ?a ?r2" by (simp add: prev_log_matches_def demo_append_def)
  moreover have "update_commit demo_env 0 ?a ?r3 = Ret ?r3" by (simp add: update_commit_def demo_append_def)
  moreover have "ae_Term ?a > r_currentTerm ?n" "ae_Term ?a = 1" by (simp_all add: demo_append_def demo_node_def)
  ultimately show ?thesis using appendEntries_succeeds r1 by metis
qed

theorem appendEntries_matches_leader_witness:
  "\<exists>r' resp. appendEntries demo_env 0 (demo_append 0 0 [demo_log 1 1]) (demo_node demo_bunt 0 0) = Ret (r', resp) \<and>
     aer_Success resp \<and> BuntStore_GetLog (r_logs r') 1 = Inr (demo_log 1 1) \<and> r_lastLogIndex r' = 1"
proof -
  obtain r' resp where r: "appendEntries demo_env 0 (demo_append 0 0 [demo_log 1 1]) (demo_node demo_bunt 0 0) = Ret (r', resp)"
    "aer_Success resp" using demo_append_succeeds [of 0 demo_bunt demo_bunt 0] by (auto simp: demo_bunt_def)
  have "bunt_inv (r_logs (demo_node demo_bunt 0 0))" by (simp add: demo_node_def demo_bunt_inv)
  moreover have "follows (ae_PrevLogEntry (demo_append 0 0 [demo_log 1 1])) (ae_Entries (demo_append 0 0 [demo_log 1 1]))"
    by (simp add: demo_append_def demo_log_def)
  ultimately have "BuntStore_GetLog (r_logs r') (log_Index (demo_log 1 1)) = Inr (stored (demo_log 1 1))"
    "r_lastLogIndex r' = log_Index (demo_log 1 1)"
    using appendEntries_matches_leader [OF demo_node_vote_inv _ _ r] by (simp_all add: demo_append_def)
  with r show ?thesis by (simp add: demo_log_def stored_def)
qed

text \<open>
  A follower that receives again a request it has already answered loses the entries it stored since: although the
  previous entry and every entry of the request agree with its log, a success clears every entry behind the request.
\<close>

theorem appendEntries_truncates_matching_suffix:
  assumes "vote_inv (bunt_env Sn P W) bunt_inv r" and "bunt_inv (r_logs r)" and "follows (ae_PrevLogEntry a) (ae_Entries a)"
    and "appendEntries (bunt_env Sn P W) now a r = Ret (r', resp)" and "aer_Success resp" and "ae_Entries a \<noteq> []"
    and "\<forall>l \<in> set (ae_Entries a). BuntStore_GetLog (r_logs r) (log_Index l) = Inr (stored l)"
    and "i \<notin> log_Index ` set (ae_Entries a)" and "ae_PrevLogEntry a < i" and "i \<le> r_lastLogIndex r"
  shows "BuntStore_GetLog (r_logs r') i = Inl ErrLogNotFound \<and> r_lastLogIndex r' = log_Index (last (ae_Entries a))"
  using bunt_node.appendEntries_log [OF assms(1-5)] assms(6,8-10) by (simp add: bunt_log_store_def)

text \<open>
  C7: Committed entries reach the state machine in log order, each once. On a node that is not
  the leader, \<open>processLogs\<close> up to an index above the last applied one returns without panic
  whenever the log holds the entries in between (and their peer sets can be decoded); it applies
  exactly these, and unless the node was shut down on the way the channel to the state machine
  has received exactly the commands and barriers among them, in order.
\<close>

theorem processLogs_in_order:
  assumes "bunt_inv (r_logs r)" and "r_state r \<noteq> Leader" and "index \<noteq> - 1" and "r_lastApplied r < index"
    and "\<And>i. r_lastApplied r < i \<Longrightarrow> i \<le> index \<Longrightarrow> \<exists>l. bunt_entries (r_logs r) i = Some l \<and> peers_readable W l"
  shows "\<exists>r'. processLogs (bunt_env Sn P W) now index None r = Ret r' \<and> r_lastApplied r' = index \<and>
    (\<not> r_shutdown r' \<longrightarrow>
       r_fsmCommitCh r' = r_fsmCommitCh r @ fsm_feed (bunt_entries (r_logs r)) (r_lastApplied r + 1) (index + 1))"
  using bunt_node.processLogs_follower [OF assms(1-4)] assms(5) unfolding bunt_env_simps by blast

theorem processLogs_in_order_witness:
  "\<exists>logs r'. processLogs demo_env 0 1 None (demo_node logs 1 1) = Ret r' \<and> r_lastApplied r' = 1"
proof -
  obtain logs where st: "StoreLogs bunt_log_store demo_bunt [demo_log 1 1] = (logs, None)"
    by (simp add: bunt_log_store_def StoreLogs_succeeds demo_bunt_def)
  from bunt_logs.StoreLogs [OF demo_bunt_inv st] have inv: "bunt_inv logs"
    and e: "bunt_entries logs 1 = Some (demo_log 1 1)"
    by (simp_all add: logs_map_def demo_log_def stored_def)
  have "\<exists>r'. processLogs demo_env 0 1 None (demo_node logs 1 1) = Ret r' \<and> r_lastApplied r' = 1 \<and>
    (\<not> r_shutdown r' \<longrightarrow> r_fsmCommitCh r' = r_fsmCommitCh (demo_node logs 1 1) @
       fsm_feed (bunt_entries (r_logs (demo_node logs 1 1))) (r_lastApplied (demo_node logs 1 1) + 1) (1 + 1))"
  proof (rule processLogs_in_order)
    fix i :: uint64
    assume "r_lastApplied (demo_node logs 1 1) < i" "i \<le> 1"
    then have "i = 1" using word_succ_le [of 0 i] by (simp add: demo_node_def)
    with e show "\<exists>l. bunt_entries (r_logs (demo_node logs 1 1)) i = Some l \<and> peers_readable demo_wire l"
      by (simp add: demo_node_def peers_readable_def demo_log_def)
  qed (use inv in \<open>simp_all add: demo_node_def\<close>)
  then show ?thesis by blast
qed

end
