(* ===== verification/Raft_Leader.thy ===== *)
theory Raft_Leader
  imports Raft_Node
begin

text \<open>
  The work of a leader on its main goroutine (\<open>raft/raft.go\<close>: \<open>runLeader\<close>,
  \<open>leaderLoop\<close>, \<open>dispatchLogs\<close>, \<open>preparePeerChange\<close>, \<open>verifyLeader\<close>,
  \<open>checkLeaderLease\<close>): setting up and clearing the leader state, grouping and dispatching new
  entries, forwarding committed entries, and checking that it still leads.
\<close>

section \<open>Dispatching entries\<close>

text \<open>An operation on the leader's in-flight tracker. A cancelled tracker holds no entries.\<close>

definition on_inflight ::
  "(inflight \<Rightarrow> inflight outcome) \<Rightarrow> ('ls, 'ss, 'sn, 'ps) Raft \<Rightarrow> ('ls, 'ss, 'sn, 'ps) Raft outcome" where
  "on_inflight f r =
     (case r_leaderState r of
        None \<Rightarrow> Panic ''nil pointer dereference''
      | Some ls \<Rightarrow> obind (f (ls_inflight ls)) (\<lambda>i. Ret (r\<lparr>r_leaderState := Some (ls\<lparr>ls_inflight := i\<rparr>)\<rparr>)))"

text \<open>\<open>asyncNotifyCh(f.triggerCh)\<close> for every replication.\<close>

definition trigger :: "followerReplication \<Rightarrow> followerReplication outcome" where
  "trigger f = obind (asyncNotifyCh (fr_triggerCh f)) (\<lambda>ch. Ret (f\<lparr>fr_triggerCh := ch\<rparr>))"

fun each_repl ::
  "(followerReplication \<Rightarrow> followerReplication outcome) \<Rightarrow> (string \<times> followerReplication) list \<Rightarrow>
   (string \<times> followerReplication) list outcome" where
  "each_repl f [] = Ret []"
| "each_repl f ((p, s) # rs) = obind (f s) (\<lambda>s'. obind (each_repl f rs) (\<lambda>rs'. Ret ((p, s') # rs')))"

definition on_replications ::
  "(followerReplication \<Rightarrow> followerReplication outcome) \<Rightarrow> ('ls, 'ss, 'sn, 'ps) Raft \<Rightarrow>
   ('ls, 'ss, 'sn, 'ps) Raft outcome" where
  "on_replications f r =
     (case r_leaderState r of
        None \<Rightarrow> Ret r
      | Some ls \<Rightarrow> obind (each_repl f (ls_replState ls)) (\<lambda>rs. Ret (r\<lparr>r_leaderState := Some (ls\<lparr>ls_replState := rs\<rparr>)\<rparr>)))"

text \<open>The loop that numbers the entries and sets their term and commit policy.\<close>

fun number_logs :: "uint64 \<Rightarrow> uint64 \<Rightarrow> int \<Rightarrow> logFuture list \<Rightarrow> logFuture list" where
  "number_logs idx term n [] = []"
| "number_logs idx term n (f # fs) =
     f\<lparr>fut_log := (fut_log f)\<lparr>log_Index := idx, log_Term := term\<rparr>, fut_policy := Some (newMajorityQuorum n)\<rparr>
     # number_logs (idx + 1) term n fs"

definition dispatchLogs ::
  "('ls, 'ss, 'sn, 'ps) env \<Rightarrow> logFuture list \<Rightarrow> ('ls, 'ss, 'sn, 'ps) Raft \<Rightarrow> ('ls, 'ss, 'sn, 'ps) Raft outcome" where
  "dispatchLogs E applyLogs r =
     (let term = r_currentTerm r; lastIndex = getLastIndex r;
          fs = number_logs (lastIndex + 1) term (int (length (r_peers r)) + 1) applyLogs
      in case StoreLogs (e_logs E) (r_logs r) (map fut_log fs) of
           (ls', Some err) \<Rightarrow>
             Ret (setState Follower (r\<lparr>r_logs := ls', r_answers := respond_all fs (Some err) (r_answers r)\<rparr>))
         | (ls', None) \<Rightarrow>
             obind (on_inflight (\<lambda>i. StartAll i fs) (r\<lparr>r_logs := ls'\<rparr>)) (\<lambda>r1.
             on_replications trigger (setLastLog (lastIndex + of_nat (length applyLogs)) term r1)))"

section \<open>Peer set changes\<close>

text \<open>\<open>None\<close>: the change is refused and the future answered; otherwise the future with its data.\<close>

definition preparePeerChange ::
  "('ls, 'ss, 'sn, 'ps) env \<Rightarrow> logFuture \<Rightarrow> ('ls, 'ss, 'sn, 'ps) Raft \<Rightarrow> ('ls, 'ss, 'sn, 'ps) Raft \<times> logFuture option" where
  "preparePeerChange E l r =
     (let p = log_peer (fut_log l);
          knownPeer = (PeerContained (r_peers r) p \<or> r_localAddr r = p)
      in if log_Type (fut_log l) = LogAddPeer \<and> knownPeer then (answer (fut_errCh l) (Some ErrKnownPeer) r, None)
      else if log_Type (fut_log l) = LogRemovePeer \<and> \<not> knownPeer then (answer (fut_errCh l) (Some ErrUnknownPeer) r, None)
      else let peerSet = (if log_Type (fut_log l) = LogAddPeer then [p, r_localAddr r] @ r_peers r
                          else ExcludePeer ([r_localAddr r] @ r_peers r) p)
           in (r, Some (l\<lparr>fut_log := (fut_log l)\<lparr>log_Data := encodePeers (e_trans E) peerSet\<rparr>\<rparr>)))"

text \<open>\<open>ready[i], ready[n-1] = ready[n-1], nil; n--; i--\<close> on the part of the batch not yet looked at.\<close>

fun drop_ready :: "'a list \<Rightarrow> 'a list" where
  "drop_ready [] = []"
| "drop_ready (x # xs) = (if xs = [] then [] else last xs # butlast xs)"

lemma length_drop_ready [simp]: "length (drop_ready xs) = length xs - 1"
  by (cases xs) auto

text \<open>The loop over the batch: \<open>kept\<close> has been looked at, the list is still to come.\<close>

function prepare_batch ::
  "('ls, 'ss, 'sn, 'ps) env \<Rightarrow> int \<Rightarrow> logFuture list \<Rightarrow> logFuture list \<Rightarrow> bool \<Rightarrow> ('ls, 'ss, 'sn, 'ps) Raft \<Rightarrow>
   (('ls, 'ss, 'sn, 'ps) Raft \<times> logFuture list \<times> bool) outcome" where
  "prepare_batch E now kept [] stepDown r = Ret (r, kept, stepDown)"
| "prepare_batch E now kept (l # ls) stepDown r =
     (if stepDown then prepare_batch E now kept (drop_ready (l # ls)) stepDown (answer (fut_errCh l) (Some ErrNotLeader) r)
      else if log_Type (fut_log l) \<noteq> LogAddPeer \<and> log_Type (fut_log l) \<noteq> LogRemovePeer
        then prepare_batch E now (kept @ [l]) ls stepDown r
      else (case preparePeerChange E l r of
              (r1, None) \<Rightarrow> prepare_batch E now kept (drop_ready (l # ls)) stepDown r1
            | (r1, Some l1) \<Rightarrow>
                obind (processLog E now (fut_log l1) None True r1) (\<lambda>(r2, ok).
                  prepare_batch E now (kept @ [l1]) ls (stepDown \<or> ok) r2)))"
  by pat_completeness auto

termination prepare_batch
  by (relation "measure (\<lambda>(E, now, kept, rest, stepDown, r). length rest)") auto

declare drop_ready.simps [simp del]

text \<open>The case \<open>newLog := <-r.applyCh\<close> of the leader loop, on the gathered batch.\<close>

definition leader_apply ::
  "('ls, 'ss, 'sn, 'ps) env \<Rightarrow> int \<Rightarrow> logFuture list \<Rightarrow> bool \<Rightarrow> ('ls, 'ss, 'sn, 'ps) Raft \<Rightarrow>
   (('ls, 'ss, 'sn, 'ps) Raft \<times> bool) outcome" where
  "leader_apply E now ready stepDown r =
     obind (prepare_batch E now [] ready stepDown r) (\<lambda>(r1, logs, stepDown1).
       if logs = [] then Ret (r1, stepDown1)
       else obind (dispatchLogs E logs r1) (\<lambda>r2. Ret (r2, stepDown1)))"

section \<open>Committed entries\<close>

fun apply_committed ::
  "('ls, 'ss, 'sn, 'ps) env \<Rightarrow> int \<Rightarrow> logFuture list \<Rightarrow> ('ls, 'ss, 'sn, 'ps) Raft \<Rightarrow> ('ls, 'ss, 'sn, 'ps) Raft outcome" where
  "apply_committed E now [] r = Ret r"
| "apply_committed E now (f # fs) r =
     obind (processLogs E now (log_Index (fut_log f)) (Some f) (r\<lparr>r_commitIndex := log_Index (fut_log f)\<rparr>))
       (apply_committed E now fs)"

text \<open>The case \<open><-r.leaderState.commitCh\<close>: the token is taken and the committed list drained.\<close>

definition leader_commit ::
  "('ls, 'ss, 'sn, 'ps) env \<Rightarrow> int \<Rightarrow> ('ls, 'ss, 'sn, 'ps) Raft \<Rightarrow> ('ls, 'ss, 'sn, 'ps) Raft outcome" where
  "leader_commit E now r =
     (case r_leaderState r of
        None \<Rightarrow> Panic ''nil pointer dereference''
      | Some ls \<Rightarrow>
          (let i = ls_inflight ls; (fs, i1) = Committed (i\<lparr>commitCh := (commitCh i)\<lparr>sig_pending := False\<rparr>\<rparr>)
           in apply_committed E now fs (r\<lparr>r_leaderState := Some (ls\<lparr>ls_inflight := i1\<rparr>)\<rparr>)))"

section \<open>Verifying leadership\<close>

text \<open>\<open>verifyFuture.vote\<close> on the future with the given number.\<close>

definition vf_vote :: "bool \<Rightarrow> nat \<Rightarrow> ('ls, 'ss, 'sn, 'ps) Raft \<Rightarrow> ('ls, 'ss, 'sn, 'ps) Raft" where
  "vf_vote leader v r =
     (case map_of (r_verifies r) v of
        None \<Rightarrow> r
      | Some f \<Rightarrow>
          if \<not> vf_notifyCh f then r
          else if leader then
            (let f1 = f\<lparr>vf_votes := vf_votes f + 1\<rparr>
             in if vf_votes f1 \<ge> vf_quorumSize f1
                then r\<lparr>r_verifyCh := r_verifyCh r @ [v],
                       r_verifies := AList.update v (f1\<lparr>vf_notifyCh := False\<rparr>) (r_verifies r)\<rparr>
                else r\<lparr>r_verifies := AList.update v f1 (r_verifies r)\<rparr>)
          else r\<lparr>r_verifyCh := r_verifyCh r @ [v],
                 r_verifies := AList.update v (f\<lparr>vf_notifyCh := False\<rparr>) (r_verifies r)\<rparr>)"

definition notifyAll ::
  "bool \<Rightarrow> followerReplication \<Rightarrow> ('ls, 'ss, 'sn, 'ps) Raft \<Rightarrow> followerReplication \<times> ('ls, 'ss, 'sn, 'ps) Raft" where
  "notifyAll leader s r = (s\<lparr>fr_notify := []\<rparr>, fold (vf_vote leader) (fr_notify s) r)"

definition ask_heartbeat :: "nat \<Rightarrow> followerReplication \<Rightarrow> followerReplication outcome" where
  "ask_heartbeat v s =
     obind (asyncNotifyCh (fr_notifyCh s)) (\<lambda>ch. Ret (s\<lparr>fr_notify := fr_notify s @ [v], fr_notifyCh := ch\<rparr>))"

definition verifyLeader :: "nat \<Rightarrow> ('ls, 'ss, 'sn, 'ps) Raft \<Rightarrow> ('ls, 'ss, 'sn, 'ps) Raft outcome" where
  "verifyLeader v r =
     (let q = quorumSize r;
          r1 = r\<lparr>r_verifies := AList.update v \<lparr>vf_notifyCh = False, vf_quorumSize = q, vf_votes = 1\<rparr> (r_verifies r)\<rparr>
      in if q = 1 then Ret (answer (Some v) None r1)
      else (case r_leaderState r1 of
              None \<Rightarrow> Panic ''assignment to entry in nil map''
            | Some ls \<Rightarrow> on_replications (ask_heartbeat v)
                (r1\<lparr>r_verifies := AList.update v \<lparr>vf_notifyCh = True, vf_quorumSize = q, vf_votes = 1\<rparr> (r_verifies r),
                    r_leaderState := Some (ls\<lparr>ls_notify := List.insert v (ls_notify ls)\<rparr>)\<rparr>)))"

definition forget_verify :: "nat \<Rightarrow> ('ls, 'ss, 'sn, 'ps) Raft \<Rightarrow> ('ls, 'ss, 'sn, 'ps) Raft" where
  "forget_verify v r = r\<lparr>r_leaderState := map_option (\<lambda>ls. ls\<lparr>ls_notify := removeAll v (ls_notify ls)\<rparr>) (r_leaderState r)\<rparr>"

text \<open>The case \<open>v := <-r.verifyCh\<close> of the leader loop.\<close>

definition leader_verify :: "nat \<Rightarrow> ('ls, 'ss, 'sn, 'ps) Raft \<Rightarrow> ('ls, 'ss, 'sn, 'ps) Raft outcome" where
  "leader_verify v r =
     (case map_of (r_verifies r) v of
        None \<Rightarrow> verifyLeader v r
      | Some f \<Rightarrow>
          if vf_quorumSize f = 0 then verifyLeader v r
          else if vf_votes f < vf_quorumSize f
            then Ret (answer (Some v) (Some ErrNotLeader) (forget_verify v (setState Follower r)))
          else Ret (answer (Some v) None (forget_verify v r)))"

section \<open>The leader's lease\<close>

fun lease_contacts :: "int \<Rightarrow> int \<Rightarrow> (string \<times> followerReplication) list \<Rightarrow> int \<times> int \<Rightarrow> int \<times> int" where
  "lease_contacts now lease [] (contacted, maxDiff) = (contacted, maxDiff)"
| "lease_contacts now lease ((p, f) # rs) (contacted, maxDiff) =
     (let diff = now - fr_lastContact f
      in if diff \<le> lease then lease_contacts now lease rs (contacted + 1, if diff > maxDiff then diff else maxDiff)
         else lease_contacts now lease rs (contacted, maxDiff))"

definition checkLeaderLease ::
  "int \<Rightarrow> ('ls, 'ss, 'sn, 'ps) Raft \<Rightarrow> ('ls, 'ss, 'sn, 'ps) Raft \<times> int" where
  "checkLeaderLease now r =
     (let (contacted, maxDiff) = lease_contacts now (LeaderLeaseTimeout (r_conf r)) (replicated r) (1, 0)
      in (if contacted < quorumSize r then setState Follower r else r, maxDiff))"

section \<open>Becoming and ceasing to be leader\<close>

definition leader_setup :: "('ls, 'ss, 'sn, 'ps) Raft \<Rightarrow> ('ls, 'ss, 'sn, 'ps) Raft" where
  "leader_setup r = r\<lparr>r_leaderState := Some \<lparr>ls_inflight = newInflight idle_signal, ls_replState = [],
     ls_notify = [], ls_stepDown = idle_signal\<rparr>\<rparr>"

definition noop_future :: "('ls, 'ss, 'sn, 'ps) env \<Rightarrow> ('ls, 'ss, 'sn, 'ps) Raft \<Rightarrow> logFuture" where
  "noop_future E r = \<lparr>fut_errCh = None,
     fut_log = \<lparr>log_Index = 0, log_Term = 0, log_Type = LogAddPeer,
                log_Data = encodePeers (e_trans E) ([r_localAddr r] @ r_peers r), log_peer = []\<rparr>,
     fut_policy = None\<rparr>"

text \<open>\<open>runLeader\<close> up to the leader loop.\<close>

definition runLeader_enter ::
  "('ls, 'ss, 'sn, 'ps) env \<Rightarrow> int \<Rightarrow> ('ls, 'ss, 'sn, 'ps) Raft \<Rightarrow> ('ls, 'ss, 'sn, 'ps) Raft outcome" where
  "runLeader_enter E now r =
     (let r1 = leader_setup r
      in obind (startReplications (r_peers r1) now r1) (\<lambda>r2.
         obind (dispatchLogs E [noop_future E r2] r2) (\<lambda>r3.
         Ret (if DisableBootstrapAfterElect (r_conf r3) \<and> EnableSingleNode (r_conf r3)
              then r3\<lparr>r_conf := (r_conf r3)\<lparr>EnableSingleNode := False\<rparr>\<rparr> else r3))))"

definition close_stop :: "followerReplication \<Rightarrow> followerReplication outcome" where
  "close_stop s = (if fr_stopClosed s then Panic ''close of closed channel'' else Ret (s\<lparr>fr_stopClosed := True\<rparr>))"

text \<open>The deferred function of \<open>runLeader\<close>.\<close>

definition runLeader_exit ::
  "int \<Rightarrow> ('ls, 'ss, 'sn, 'ps) Raft \<Rightarrow> ('ls, 'ss, 'sn, 'ps) Raft outcome" where
  "runLeader_exit now r =
     (case r_leaderState r of
        None \<Rightarrow> Panic ''nil pointer dereference''
      | Some ls \<Rightarrow>
          obind (each_repl close_stop (ls_replState ls)) (\<lambda>rs.
          obind (Cancel (ls_inflight ls) ErrLeadershipLost (r_answers r)) (\<lambda>(i, as).
          let as1 = fold (\<lambda>v. respond (Some v) (Some ErrLeadershipLost)) (ls_notify ls) as;
              r1 = (setLastContact now r)\<lparr>r_answers := as1, r_leaderState := None,
                     r_stopping := r_stopping r @ map snd rs\<rparr>
          in Ret (if r_leader r1 = r_localAddr r1 then r1\<lparr>r_leader := []\<rparr> else r1))))"

section \<open>The leader's work does not touch term, vote or address\<close>

lemma on_inflight_role: "on_inflight f r = Ret r' \<Longrightarrow> same_role r r'"
  by (auto simp: on_inflight_def same_role_def split: option.splits)

lemma on_replications_role: "on_replications f r = Ret r' \<Longrightarrow> same_role r r'"
  by (auto simp: on_replications_def same_role_def split: option.splits)

lemma setLastLog_role: "same_role r (setLastLog i t r)"
  by (simp add: same_role_def setLastLog_def)

lemma dispatchLogs_role:
  assumes "dispatchLogs E fs r = Ret r'"
  shows "same_role r r'"
proof -
  let ?fs = "number_logs (getLastIndex r + 1) (r_currentTerm r) (int (length (r_peers r)) + 1) fs"
  obtain ls' err where s: "StoreLogs (e_logs E) (r_logs r) (map fut_log ?fs) = (ls', err)" by force
  show ?thesis
  proof (cases err)
    case (Some e)
    with assms s show ?thesis by (auto simp: dispatchLogs_def Let_def same_role_def)
  next
    case None
    with assms s obtain r1 where r1: "on_inflight (\<lambda>i. StartAll i ?fs) (r\<lparr>r_logs := ls'\<rparr>) = Ret r1"
      "on_replications trigger (setLastLog (getLastIndex r + of_nat (length fs)) (r_currentTerm r) r1) = Ret r'"
      by (auto simp: dispatchLogs_def Let_def)
    have "same_role r (r\<lparr>r_logs := ls'\<rparr>)" by (simp add: same_role_def)
    with on_inflight_role [OF r1(1)] setLastLog_role on_replications_role [OF r1(2)]
    show ?thesis by (meson same_role_trans)
  qed
qed

lemma preparePeerChange_role: "preparePeerChange E l r = (r', x) \<Longrightarrow> same_role r r'"
  by (auto simp: preparePeerChange_def Let_def answer_def same_role_def split: if_splits)

lemma prepare_batch_role: "prepare_batch E now kept fs sd r = Ret (r', logs, sd') \<Longrightarrow> same_role r r'"
proof (induction E now kept fs sd r rule: prepare_batch.induct)
  case (2 E now kept l ls sd r)
  consider "sd" | "\<not> sd" "log_Type (fut_log l) \<noteq> LogAddPeer \<and> log_Type (fut_log l) \<noteq> LogRemovePeer"
    | "\<not> sd" "\<not> (log_Type (fut_log l) \<noteq> LogAddPeer \<and> log_Type (fut_log l) \<noteq> LogRemovePeer)" by blast
  then show ?case
  proof cases
    case 1
    with "2.prems" "2.IH"(1) [OF 1] show ?thesis by (auto simp: same_role_def answer_def)
  next
    case 2
    with "2.prems" "2.IH"(2) [OF 2(1,2)] show ?thesis by simp
  next
    case 3
    obtain r1 x where p: "preparePeerChange E l r = (r1, x)" by force
    note r1 = preparePeerChange_role [OF p]
    show ?thesis
    proof (cases x)
      case None
      with "2.prems" p 3 have "prepare_batch E now kept (drop_ready (l # ls)) sd r1 = Ret (r', logs, sd')" by simp
      from "2.IH"(3) [OF 3 p [symmetric] None this] r1 show ?thesis by (blast intro: same_role_trans)
    next
      case (Some l1)
      with "2.prems" p 3 obtain r2 ok where pl: "processLog E now (fut_log l1) None True r1 = Ret (r2, ok)"
        and b: "prepare_batch E now (kept @ [l1]) ls (sd \<or> ok) r2 = Ret (r', logs, sd')"
        by (auto simp: obind_pair_Ret_iff)
      from "2.IH"(4) [OF 3 p [symmetric] Some b] have "same_role r2 r'" .
      with r1 frame_role [OF processLog_frame [OF pl]] show ?thesis by (blast intro: same_role_trans)
    qed
  qed
qed simp

lemma leader_apply_role:
  assumes "leader_apply E now ready sd r = Ret (r', sd')"
  shows "same_role r r'"
proof -
  from assms obtain r1 x where b: "prepare_batch E now [] ready sd r = Ret (r1, x)"
    and d: "(case x of (logs, sd1) \<Rightarrow>
      if logs = [] then Ret (r1, sd1) else obind (dispatchLogs E logs r1) (\<lambda>r2. Ret (r2, sd1))) = Ret (r', sd')"
    unfolding leader_apply_def obind_pair_Ret_iff by blast
  obtain logs sd1 where x: "x = (logs, sd1)" by force
  have "same_role r1 r'" using d by (auto simp: x split: if_splits dest: dispatchLogs_role)
  with prepare_batch_role [OF b [unfolded x]] show ?thesis by (rule same_role_trans)
qed

lemma apply_committed_role: "apply_committed E now fs r = Ret r' \<Longrightarrow> same_role r r'"
proof (induction fs arbitrary: r)
  case (Cons f fs)
  then obtain r1 where p: "processLogs E now (log_Index (fut_log f)) (Some f) (r\<lparr>r_commitIndex := log_Index (fut_log f)\<rparr>) = Ret r1"
    and a: "apply_committed E now fs r1 = Ret r'" by auto
  from frame_role [OF processLogs_frame [OF p]] have "same_role r r1" by (simp add: same_role_def)
  with Cons.IH [OF a] show ?case by (blast intro: same_role_trans)
qed simp

lemma leader_commit_role: "leader_commit E now r = Ret r' \<Longrightarrow> same_role r r'"
  by (auto simp: leader_commit_def Let_def Committed_def same_role_def split: option.splits dest!: apply_committed_role)

lemma vf_vote_role: "same_role r (vf_vote leader v r)"
  by (simp add: vf_vote_def Let_def same_role_def split: option.split)

lemma notifyAll_role: "notifyAll leader s r = (s', r') \<Longrightarrow> same_role r r'"
proof -
  have "same_role r (fold (vf_vote leader) vs r)" for vs
    by (induction vs arbitrary: r) (auto intro: same_role_trans vf_vote_role)
  then show "notifyAll leader s r = (s', r') \<Longrightarrow> same_role r r'" by (auto simp: notifyAll_def)
qed

lemma verifyLeader_role: "verifyLeader v r = Ret r' \<Longrightarrow> same_role r r'"
  by (auto simp: verifyLeader_def Let_def answer_def same_role_def split: if_splits option.splits dest!: on_replications_role)

lemma leader_verify_role: "leader_verify v r = Ret r' \<Longrightarrow> same_role r r'"
  by (auto simp: leader_verify_def same_role_def answer_def forget_verify_def split: option.splits if_splits dest!: verifyLeader_role)

lemma checkLeaderLease_role: "checkLeaderLease now r = (r', d) \<Longrightarrow> same_role r r'"
  by (auto simp: checkLeaderLease_def Let_def same_role_def split: prod.splits if_splits)

lemma runLeader_enter_role:
  assumes "runLeader_enter E now r = Ret r'"
  shows "same_role r r'"
proof -
  from assms obtain r2 r3 where r2: "startReplications (r_peers (leader_setup r)) now (leader_setup r) = Ret r2"
    and r3: "dispatchLogs E [noop_future E r2] r2 = Ret r3" and r': "same_role r3 r'"
    by (auto simp: runLeader_enter_def Let_def same_role_def)
  have "same_role r (leader_setup r)" by (simp add: leader_setup_def same_role_def)
  with frame_role [OF startReplications_frame [OF r2]] dispatchLogs_role [OF r3] r' show ?thesis
    by (meson same_role_trans)
qed

text \<open>The shape of the result of stepping down.\<close>

lemma runLeader_exit_cases:
  assumes "runLeader_exit now r = Ret r'"
  obtains ls rs i as where "r_leaderState r = Some ls" "each_repl close_stop (ls_replState ls) = Ret rs"
    "Cancel (ls_inflight ls) ErrLeadershipLost (r_answers r) = Ret (i, as)"
    "r' = r\<lparr>r_lastContact := now, r_answers := fold (\<lambda>v. respond (Some v) (Some ErrLeadershipLost)) (ls_notify ls) as,
       r_leaderState := None, r_stopping := r_stopping r @ map snd rs,
       r_leader := (if r_leader r = r_localAddr r then [] else r_leader r)\<rparr>"
proof -
  obtain ls where ls: "r_leaderState r = Some ls" using assms by (auto simp: runLeader_exit_def split: option.splits)
  then obtain rs where rs: "each_repl close_stop (ls_replState ls) = Ret rs"
    using assms by (auto simp: runLeader_exit_def)
  with ls obtain i as where c: "Cancel (ls_inflight ls) ErrLeadershipLost (r_answers r) = Ret (i, as)"
    using assms by (auto simp: runLeader_exit_def obind_pair_Ret_iff)
  show thesis
    using assms by (intro that [OF ls rs c]) (auto simp: runLeader_exit_def ls rs c Let_def setLastContact_def split: if_splits)
qed

lemma runLeader_exit_role: "runLeader_exit now r = Ret r' \<Longrightarrow> same_role r r'"
  by (erule runLeader_exit_cases) (simp add: same_role_def)

section \<open>Dispatch: numbering, storing, tracking\<close>

lemma length_number_logs [simp]: "length (number_logs idx t n fs) = length fs"
  by (induction fs arbitrary: idx) auto

lemma number_logs_fresh:
  "0 \<le> n \<Longrightarrow> unat idx + length fs < 2 ^ 64 \<Longrightarrow> idx \<noteq> 0 \<Longrightarrow> fresh_batch idx (number_logs idx t n fs)"
proof (induction fs arbitrary: idx)
  case (Cons f fs)
  then have i: "idx \<noteq> - 1 \<or> fs = []" by (cases fs) auto
  show ?case
  proof (cases "fs = []")
    case True
    with Cons.prems show ?thesis
      by (simp add: has_quorum_def mq_IsCommitted_def newMajorityQuorum_def pos_imp_zdiv_neg_iff not_le add_nonneg_pos)
  next
    case False
    with i have ni: "idx \<noteq> - 1" by simp
    then have "idx + 1 \<noteq> 0" by (metis add_eq_0_iff add.commute)
    moreover have "unat (idx + 1) + length fs < 2 ^ 64" using Cons.prems(2) ni by (simp add: word_succ_unat)
    ultimately have "fresh_batch (idx + 1) (number_logs (idx + 1) t n fs)" using Cons.IH Cons.prems(1) by blast
    with Cons.prems show ?thesis
      by (simp add: has_quorum_def mq_IsCommitted_def newMajorityQuorum_def pos_imp_zdiv_neg_iff not_le add_nonneg_pos)
  qed
qed simp

lemma number_logs_follows:
  "unat idx + length fs < 2 ^ 64 \<Longrightarrow> follows idx (map fut_log (number_logs (idx + 1) t n fs))"
proof (induction fs arbitrary: idx)
  case (Cons f fs)
  then have ni: "idx \<noteq> - 1" by auto
  then have "follows (idx + 1) (map fut_log (number_logs (idx + 1 + 1) t n fs))"
    using Cons.prems by (intro Cons.IH) (simp add: word_succ_unat)
  with ni show ?case by simp
qed simp

lemma number_logs_term: "f \<in> set (number_logs idx t n fs) \<Longrightarrow> log_Term (fut_log f) = t"
  by (induction fs arbitrary: idx) auto

text \<open>Numbering keeps each future's channel and its command.\<close>

lemma number_logs_keeps:
  "map fut_errCh (number_logs idx t n fs) = map fut_errCh fs \<and>
   map (\<lambda>f. (log_Type (fut_log f), log_Data (fut_log f))) (number_logs idx t n fs) =
   map (\<lambda>f. (log_Type (fut_log f), log_Data (fut_log f))) fs"
  by (induction fs arbitrary: idx) auto

lemma number_logs_last:
  "fs \<noteq> [] \<Longrightarrow> log_Index (fut_log (last (number_logs (idx + 1) t n fs))) = idx + of_nat (length fs)"
proof (induction fs arbitrary: idx)
  case (Cons f fs)
  show ?case
  proof (cases "fs = []")
    case False
    then have "number_logs (idx + 1 + 1) t n fs \<noteq> []" by (cases fs) auto
    with False Cons.IH [of "idx + 1"] show ?thesis by (simp add: add.assoc add.commute)
  qed simp
qed simp

definition triggers_open :: "leaderState \<Rightarrow> bool" where
  "triggers_open ls \<longleftrightarrow> (\<forall>s \<in> snd ` set (ls_replState ls). \<not> sig_closed (fr_triggerCh s))"

lemma each_repl_trigger:
  "\<forall>s \<in> snd ` set rs. \<not> sig_closed (fr_triggerCh s) \<Longrightarrow> \<exists>rs'. each_repl trigger rs = Ret rs'"
  by (induction rs) (auto simp: trigger_def asyncNotifyCh_def)

context log_store
begin

lemma StoreLogs_following:
  assumes "ls_inv s" and "StoreLogs L s ls = (s', None)" and "follows p ls" and "l \<in> set ls"
  shows "GetLog L s' (log_Index l) = Inr (stored l)"
  using get_after_store [OF assms(1,2) follows_distinct [OF assms(3)] assms(4)] .

end

lemma dispatchLogs_result:
  fixes r :: "('ls, 'ss, 'sn, 'ps) Raft" and fs :: "logFuture list"
  defines "gs \<equiv> number_logs (getLastIndex r + 1) (r_currentTerm r) (int (length (r_peers r)) + 1) fs"
  assumes ls: "r_leaderState r = Some ls" and w: "window (ls_inflight ls) b (getLastIndex r + 1)"
    and h: "head_waiting (ls_inflight ls)" and o: "\<not> sig_closed (commitCh (ls_inflight ls))" and t: "triggers_open ls"
    and ov: "unat (getLastIndex r) + length fs + 1 < 2 ^ 64"
    and st: "StoreLogs (e_logs E) (r_logs r) (map fut_log gs) = (logs', None)"
  shows "\<exists>r' ls' b'. dispatchLogs E fs r = Ret r' \<and> r_leaderState r' = Some ls' \<and> r_logs r' = logs' \<and>
    r_state r' = r_state r \<and> r_answers r' = r_answers r \<and>
    r_lastLogIndex r' = getLastIndex r + of_nat (length fs) \<and> r_lastLogTerm r' = r_currentTerm r \<and>
    delivers (ls_inflight ls) b (ls_inflight ls') b' (getLastIndex r + 1 + of_nat (length fs))"
proof -
  have ni: "getLastIndex r \<noteq> - 1" using ov by auto
  then have nz: "getLastIndex r + 1 \<noteq> 0" by (metis add_eq_0_iff add.commute)
  have "fresh_batch (getLastIndex r + 1) gs"
    unfolding gs_def using ov ni nz by (intro number_logs_fresh) (auto simp: word_succ_unat)
  from StartAll_delivers [OF w h this o] obtain i' b' where i': "StartAll (ls_inflight ls) gs = Ret i'"
    "delivers (ls_inflight ls) b i' b' (getLastIndex r + 1 + of_nat (length fs))" by (auto simp: gs_def)
  obtain rs' where "each_repl trigger (ls_replState ls) = Ret rs'"
    using each_repl_trigger t unfolding triggers_open_def by blast
  with i' show ?thesis
    by (auto simp: dispatchLogs_def Let_def gs_def [symmetric] st on_inflight_def ls on_replications_def setLastLog_def)
qed

section \<open>Stepping down\<close>

lemma fold_respond:
  "set as \<subseteq> set (fold (\<lambda>v. respond (Some v) err) vs as) \<and>
   (\<forall>v \<in> set vs. v \<in> fst ` set (fold (\<lambda>v. respond (Some v) err) vs as)) \<and>
   (distinct (map fst as) \<longrightarrow> distinct (map fst (fold (\<lambda>v. respond (Some v) err) vs as)))"
proof (induction vs arbitrary: as)
  case (Cons v vs)
  note IH = Cons.IH [of "respond (Some v) err as"]
  have "v \<in> fst ` set (fold (\<lambda>v. respond (Some v) err) vs (respond (Some v) err as))"
    using respond_answered [of v err as] IH by (meson image_mono subsetD)
  with IH respond_mono [of as "Some v" err] respond_distinct [of as "Some v" err] show ?case by auto
qed simp

lemma Cancel_result:
  assumes "Cancel i err as = Ret (i', as')"
  shows "as' = respond_all (committed i) (Some err) (respond_all (map snd (operations i)) (Some err) as)"
  using assms by (auto simp: Cancel_def Let_def)

section \<open>Every future of a batch is dispatched or answered\<close>

lemma answer_answers [simp]: "r_answers (answer ch err r) = respond ch err (r_answers r)"
  by (simp add: answer_def)

lemma fsm_send_answers: "set (r_answers r) \<subseteq> set (r_answers (fsm_send l None r))"
  by (auto simp: fsm_send_def coin_def split: list.splits)

lemma startReplication_answers: "startReplication p now r = Ret r' \<Longrightarrow> r_answers r' = r_answers r"
  by (auto simp: startReplication_def split: option.splits)

lemma start_missing_answers: "start_missing ps now r = Ret r' \<Longrightarrow> r_answers r' = r_answers r"
  by (induction ps arbitrary: r) (auto dest!: startReplication_answers split: if_splits)

lemma answers_state [simp]:
  "r_answers (setState st r) = r_answers r" "r_answers (setLeader x r) = r_answers r"
  by (simp_all add: setState_def setLeader_def observe_def Let_def)

lemma process_peers_precommit_answers:
  assumes "process_peers E now l True peers r = Ret (r', sd)"
  shows "r_answers r' = r_answers r"
proof -
  let ?r1 = "change_peers E l True peers r"
  have "r_answers ?r1 = r_answers r" by (simp add: change_peers_def set_peer_list_def)
  with assms show ?thesis
    by (auto simp: process_peers_def Let_def split: if_splits dest!: start_missing_answers)
qed

lemma processLog_precommit_answers:
  assumes "processLog E now l None True r = Ret (r', sd)"
  shows "set (r_answers r) \<subseteq> set (r_answers r')"
  using assms fsm_send_answers [of r l] process_peers_precommit_answers [of E now l _ r]
  by (auto simp: processLog_def split: if_splits)

lemma preparePeerChange_result:
  assumes "preparePeerChange E l r = (r1, x)"
  shows "set (r_answers r) \<subseteq> set (r_answers r1)"
    and "x = None \<Longrightarrow> fut_errCh l = Some c \<Longrightarrow> c \<in> fst ` set (r_answers r1)"
    and "x = Some l1 \<Longrightarrow> fut_errCh l1 = fut_errCh l"
  using assms respond_answered [of c]
  by (auto simp: preparePeerChange_def Let_def split: if_splits intro: subsetD [OF respond_mono])

lemma set_drop_ready: "set (l # ls) = insert l (set (drop_ready (l # ls)))"
proof (cases "ls = []")
  case False
  then have "set ls = insert (last ls) (set (butlast ls))"
    by (metis append_butlast_last_id list.simps(15) rotate1.simps(2) set_rotate1)
  with False show ?thesis by (simp add: drop_ready.simps)
qed (simp add: drop_ready.simps)

definition accounted :: "logFuture list \<Rightarrow> logFuture list \<Rightarrow> answers \<Rightarrow> bool" where
  "accounted fs logs as \<longleftrightarrow>
     (\<forall>f \<in> set fs. \<forall>c. fut_errCh f = Some c \<longrightarrow> c \<in> fst ` set as \<or> Some c \<in> fut_errCh ` set logs)"

lemma accounted_mono: "accounted fs logs as \<Longrightarrow> set as \<subseteq> set as' \<Longrightarrow> set logs \<subseteq> set logs' \<Longrightarrow> accounted fs logs' as'"
  unfolding accounted_def by (meson image_mono subsetD)

lemma prepare_batch_accounted:
  "prepare_batch E now kept fs sd r = Ret (r', logs, sd') \<Longrightarrow>
   set (r_answers r) \<subseteq> set (r_answers r') \<and> fut_errCh ` set kept \<subseteq> fut_errCh ` set logs \<and> accounted fs logs (r_answers r')"
proof (induction E now kept fs sd r rule: prepare_batch.induct)
  case (1 E now kept sd r)
  then show ?case by (simp add: accounted_def)
next
  case (2 E now kept l ls sd r)
  consider "sd" | "\<not> sd" "log_Type (fut_log l) \<noteq> LogAddPeer \<and> log_Type (fut_log l) \<noteq> LogRemovePeer"
    | "\<not> sd" "\<not> (log_Type (fut_log l) \<noteq> LogAddPeer \<and> log_Type (fut_log l) \<noteq> LogRemovePeer)" by blast
  then show ?case
  proof cases
    case 1
    with "2.prems" have b: "prepare_batch E now kept (drop_ready (l # ls)) sd (answer (fut_errCh l) (Some ErrNotLeader) r) = Ret (r', logs, sd')"
      by simp
    note IH = "2.IH"(1) [OF 1 b]
    have "c \<in> fst ` set (r_answers r')" if "fut_errCh l = Some c" for c
      using IH that respond_answered [of c "Some ErrNotLeader" "r_answers r"] by (auto dest!: subsetD)
    with IH show ?thesis
      using respond_mono [of "r_answers r" "fut_errCh l" "Some ErrNotLeader"]
      unfolding accounted_def set_drop_ready [of l ls] by auto
  next
    case 2
    with "2.prems" have "prepare_batch E now (kept @ [l]) ls sd r = Ret (r', logs, sd')" by simp
    from "2.IH"(2) [OF 2 this] show ?thesis unfolding accounted_def by auto
  next
    case 3
    obtain r1 x where p: "preparePeerChange E l r = (r1, x)" by force
    note p1 = preparePeerChange_result [OF p]
    show ?thesis
    proof (cases x)
      case None
      with "2.prems" p 3 have "prepare_batch E now kept (drop_ready (l # ls)) sd r1 = Ret (r', logs, sd')" by simp
      note IH = "2.IH"(3) [OF 3 p [symmetric] None this]
      then have "c \<in> fst ` set (r_answers r')" if "fut_errCh l = Some c" for c
        using p1(2) [OF None that] by (meson image_mono subsetD)
      with IH p1(1) show ?thesis unfolding accounted_def set_drop_ready [of l ls] by auto
    next
      case (Some l1)
      with "2.prems" p 3 obtain r2 ok where pl: "processLog E now (fut_log l1) None True r1 = Ret (r2, ok)"
        and b: "prepare_batch E now (kept @ [l1]) ls (sd \<or> ok) r2 = Ret (r', logs, sd')"
        by (auto simp: obind_pair_Ret_iff)
      note IH = "2.IH"(4) [OF 3 p [symmetric] Some b]
      have "set (r_answers r) \<subseteq> set (r_answers r')"
        using p1(1) processLog_precommit_answers [OF pl] IH by blast
      with IH p1(3) [OF Some] show ?thesis unfolding accounted_def by auto
    qed
  qed
qed

section \<open>Properties\<close>

text \<open>
  C26: Dispatching a batch never panics, and the log and the in-flight tracker stay in step: from
  a tracker whose window ends after the last index of the node, what \<open>dispatchLogs\<close> does depends on the
  store alone. If the store fails, no entry has changed, every future that had no answer is answered with the
  error of the store, nothing else is answered, and the leader steps down. If the store succeeds, the batch is numbered consecutively
  in the current term, every entry is stored, the window is extended by exactly the batch, the last index is that of the
  last entry, the node goes on as before and nothing is answered yet.
\<close>

theorem dispatchLogs_correct:
  fixes r :: "(bunt, bunt, 'sn, 'ps) Raft" and fs :: "logFuture list"
  defines "gs \<equiv> number_logs (getLastIndex r + 1) (r_currentTerm r) (int (length (r_peers r)) + 1) fs"
  assumes "bunt_inv (r_logs r)" and "r_leaderState r = Some ls" and "window (ls_inflight ls) b (getLastIndex r + 1)"
    and "head_waiting (ls_inflight ls)" and "\<not> sig_closed (commitCh (ls_inflight ls))" and "triggers_open ls"
    and "unat (getLastIndex r) + length fs + 1 < 2 ^ 64"
  shows "\<exists>r'. dispatchLogs (bunt_env Sn P W) fs r = Ret r' \<and>
    (case BuntStore_StoreLogs (r_logs r) (map fut_log gs) of
       (_, Some e) \<Rightarrow> r_state r' = Follower \<and> bunt_entries (r_logs r') = bunt_entries (r_logs r) \<and>
         set (r_answers r') = set (r_answers r) \<union>
           {(c, Some e) | c. (\<exists>f \<in> set fs. fut_errCh f = Some c) \<and> c \<notin> fst ` set (r_answers r)}
     | (_, None) \<Rightarrow> \<exists>ls' b'. r_leaderState r' = Some ls' \<and> r_state r' = r_state r \<and> r_answers r' = r_answers r \<and>
         (\<forall>g \<in> set gs. BuntStore_GetLog (r_logs r') (log_Index (fut_log g)) = Inr (stored (fut_log g)) \<and>
            log_Term (fut_log g) = r_currentTerm r) \<and>
         follows (getLastIndex r) (map fut_log gs) \<and> map fut_errCh gs = map fut_errCh fs \<and>
         r_lastLogIndex r' = getLastIndex r + of_nat (length fs) \<and>
         delivers (ls_inflight ls) b (ls_inflight ls') b' (getLastIndex r + 1 + of_nat (length fs)))"
proof -
  let ?E = "bunt_env Sn P W"
  obtain logs' err where st: "BuntStore_StoreLogs (r_logs r) (map fut_log gs) = (logs', err)" by force
  then have st': "StoreLogs bunt_log_store (r_logs r) (map fut_log gs) = (logs', err)" by (simp add: bunt_log_store_def)
  have fol: "follows (getLastIndex r) (map fut_log gs)"
    unfolding gs_def using assms(8) by (intro number_logs_follows) simp
  have ch: "map fut_errCh gs = map fut_errCh fs" unfolding gs_def using number_logs_keeps by blast
  show ?thesis
  proof (cases err)
    case (Some e)
    let ?r = "setState Follower (r\<lparr>r_logs := logs', r_answers := respond_all gs (Some e) (r_answers r)\<rparr>)"
    have d: "dispatchLogs ?E fs r = Ret ?r" using st' Some by (simp add: dispatchLogs_def Let_def gs_def)
    have e: "bunt_entries logs' = bunt_entries (r_logs r)"
      using bunt_logs.StoreLogs_fail [OF assms(2)] st' Some by blast
    have "fut_errCh ` set gs = fut_errCh ` set fs" using ch by (metis list.set_map)
    then have "(\<exists>g \<in> set gs. fut_errCh g = Some c) \<longleftrightarrow> (\<exists>f \<in> set fs. fut_errCh f = Some c)" for c
      by (metis (no_types, lifting) image_iff)
    then show ?thesis using d e st Some by (intro exI [of _ ?r]) (simp add: respond_all_exact)
  next
    case None
    from dispatchLogs_result [of r ls b fs ?E logs'] assms(3-8) st' None obtain r' ls' b' where
      d: "dispatchLogs ?E fs r = Ret r'" "r_leaderState r' = Some ls'" "r_logs r' = logs'" "r_state r' = r_state r"
      "r_answers r' = r_answers r" "r_lastLogIndex r' = getLastIndex r + of_nat (length fs)"
      "delivers (ls_inflight ls) b (ls_inflight ls') b' (getLastIndex r + 1 + of_nat (length fs))"
      by (auto simp: gs_def)
    have "BuntStore_GetLog logs' (log_Index (fut_log g)) = Inr (stored (fut_log g)) \<and> log_Term (fut_log g) = r_currentTerm r"
      if "g \<in> set gs" for g
      using bunt_logs.StoreLogs_following [OF assms(2) _ fol, of logs' "fut_log g"] st' None that
        number_logs_term [of g] by (auto simp: gs_def bunt_log_store_def)
    with d fol ch show ?thesis unfolding st None by (intro exI [of _ r']) (simp, blast)
  qed
qed

definition demo_leader :: "(bunt, bunt, unit, string list) Raft" where
  "demo_leader = leader_setup ((demo_node demo_bunt 0 0)\<lparr>r_state := Leader\<rparr>)"

text \<open>The same leader on a disk that cannot be written.\<close>

definition demo_leader_full :: "(bunt, bunt, unit, string list) Raft" where
  "demo_leader_full = demo_leader\<lparr>r_logs := \<lparr>db_items = [], db_aof = [False]\<rparr>\<rparr>"

lemma demo_leaders:
  assumes "r = demo_leader \<or> r = demo_leader_full"
  shows "bunt_inv (r_logs r)" "getLastIndex r = 0" "r_state r = Leader" "r_answers r = []" "r_currentTerm r = 0"
    "r_leaderState r = Some \<lparr>ls_inflight = newInflight idle_signal, ls_replState = [], ls_notify = [], ls_stepDown = idle_signal\<rparr>"
  using assms demo_bunt_inv
  by (auto simp: demo_leader_def demo_leader_full_def leader_setup_def demo_node_def getLastIndex_def bunt_inv_def)

theorem dispatchLogs_correct_witness:
  "(\<exists>r'. dispatchLogs demo_env [demo_future 0 7] demo_leader = Ret r' \<and> r_state r' = Leader \<and> r_lastLogIndex r' = 1 \<and> r_answers r' = []) \<and>
   (\<exists>r'. dispatchLogs demo_env [demo_future 0 7] demo_leader_full = Ret r' \<and> r_state r' = Follower \<and>
      set (r_answers r') = {(7, Some (ErrOther ''write error''))})"
proof -
  let ?i = "newInflight idle_signal" and ?fs = "[demo_future 0 7]"
  let ?ls = "\<lparr>ls_inflight = newInflight idle_signal, ls_replState = [], ls_notify = [], ls_stepDown = idle_signal\<rparr>"
  have c: "window ?i 1 (0 + 1)" "head_waiting ?i" "\<not> sig_closed (commitCh ?i)"
    "triggers_open \<lparr>ls_inflight = ?i, ls_replState = [], ls_notify = [], ls_stepDown = idle_signal\<rparr>"
    using newInflight_inv by (simp_all add: window_def newInflight_def head_waiting_def triggers_open_def)
  obtain b where s1: "BuntStore_StoreLogs (r_logs demo_leader) (map fut_log (number_logs (0 + 1) 0 (int (length (r_peers demo_leader)) + 1) ?fs)) = (b, None)"
    by (simp add: StoreLogs_succeeds demo_leader_def leader_setup_def demo_node_def demo_bunt_def)
  obtain b' where s2: "BuntStore_StoreLogs (r_logs demo_leader_full) (map fut_log (number_logs (0 + 1) 0 (int (length (r_peers demo_leader_full)) + 1) ?fs)) =
      (b', Some (ErrOther ''write error''))"
    by (simp add: StoreLogs_write_error demo_leader_full_def)
  have "\<exists>r'. dispatchLogs demo_env ?fs demo_leader = Ret r' \<and> r_state r' = Leader \<and> r_lastLogIndex r' = 1 \<and> r_answers r' = []"
    using dispatchLogs_correct [of demo_leader ?ls 1 ?fs demo_snapshots demo_peerStore demo_wire] demo_leaders [of demo_leader] c s1 by auto
  moreover have "\<exists>r'. dispatchLogs demo_env ?fs demo_leader_full = Ret r' \<and> r_state r' = Follower \<and>
      set (r_answers r') = {(7, Some (ErrOther ''write error''))}"
    using dispatchLogs_correct [of demo_leader_full ?ls 1 ?fs demo_snapshots demo_peerStore demo_wire] demo_leaders [of demo_leader_full] c s2 by (auto simp: demo_future_def)
  ultimately show ?thesis by blast
qed

text \<open>
  No client waits for ever on a batch: whatever the leader loop does with the peer changes of
  a batch (refusing known or unknown peers, refusing everything behind the leader's own removal,
  reordering), each future of the batch is either among the entries to dispatch or has been
  answered.
\<close>

theorem batch_accounted:
  assumes "prepare_batch E now [] ready stepDown r = Ret (r', logs, stepDown')"
  shows "accounted ready logs (r_answers r')"
  using prepare_batch_accounted [OF assms] by blast

theorem batch_accounted_witness:
  "accounted [demo_future 0 7, demo_future 0 8] [] (respond (Some 8) (Some ErrNotLeader) (respond (Some 7) (Some ErrNotLeader) []))"
proof -
  let ?r = "answer (Some 8) (Some ErrNotLeader) (answer (Some 7) (Some ErrNotLeader) demo_leader)"
  have "prepare_batch demo_env 0 [] [demo_future 0 7, demo_future 0 8] True demo_leader = Ret (?r, [], True)"
    by (simp add: drop_ready.simps demo_future_def)
  from batch_accounted [OF this] show ?thesis
    by (simp add: demo_leader_def leader_setup_def demo_node_def)
qed

text \<open>
  C27: Stepping down answers everybody: after the deferred function of \<open>runLeader\<close> every entry in
  flight, every committed entry not yet processed and every pending verification has an answer,
  no channel has two, the leader state is gone, all replications have been told to stop, and the
  node no longer names itself as the leader.
\<close>

theorem stepdown_answers_all:
  assumes "runLeader_exit now r = Ret r'" and "r_leaderState r = Some ls" and "distinct (map fst (r_answers r))"
    and "r_localAddr r \<noteq> []"
  shows "(\<forall>f \<in> snd ` set (operations (ls_inflight ls)) \<union> set (committed (ls_inflight ls)). \<forall>c.
        fut_errCh f = Some c \<longrightarrow> c \<in> fst ` set (r_answers r')) \<and>
    (\<forall>v \<in> set (ls_notify ls). v \<in> fst ` set (r_answers r')) \<and> distinct (map fst (r_answers r')) \<and>
    r_leaderState r' = None \<and> r_leader r' \<noteq> r_localAddr r' \<and>
    length (r_stopping r') = length (r_stopping r) + length (ls_replState ls)"
  using assms(1)
proof (cases rule: runLeader_exit_cases)
  case (1 ls1 rs i as)
  with assms(2) have l: "ls1 = ls" by simp
  have as: "as = respond_all (committed (ls_inflight ls)) (Some ErrLeadershipLost)
      (respond_all (map snd (operations (ls_inflight ls))) (Some ErrLeadershipLost) (r_answers r))" (is "_ = respond_all _ _ ?as1")
    using Cancel_result [OF 1(3)] l by simp
  have d: "distinct (map fst as)" unfolding as by (intro respond_all_distinct assms(3))
  have a: "c \<in> fst ` set as" if "f \<in> snd ` set (operations (ls_inflight ls)) \<union> set (committed (ls_inflight ls))"
    "fut_errCh f = Some c" for f c
    using that respond_all_answered [of f "map snd (operations (ls_inflight ls))" c "Some ErrLeadershipLost" "r_answers r"]
      respond_all_answered [of f "committed (ls_inflight ls)" c "Some ErrLeadershipLost" ?as1]
      respond_all_mono [of ?as1 "committed (ls_inflight ls)" "Some ErrLeadershipLost"] unfolding as by auto
  have len: "each_repl f xs = Ret ys \<Longrightarrow> length ys = length xs" for f xs ys
    by (induction f xs arbitrary: ys rule: each_repl.induct) auto
  note fr = fold_respond [of as "Some ErrLeadershipLost" "ls_notify ls"]
  have r': "r_answers r' = fold (\<lambda>v. respond (Some v) (Some ErrLeadershipLost)) (ls_notify ls) as"
    "r_leaderState r' = None" "r_leader r' \<noteq> r_localAddr r'" "r_stopping r' = r_stopping r @ map snd rs"
    using 1(4) assms(4) l by auto
  have "c \<in> fst ` set (r_answers r')" if "f \<in> snd ` set (operations (ls_inflight ls)) \<union> set (committed (ls_inflight ls))"
    "fut_errCh f = Some c" for f c
    using a [OF that] fr unfolding r'(1) by (meson image_mono subsetD)
  moreover have "length rs = length (ls_replState ls)" using len 1(2) l by blast
  ultimately show ?thesis using fr d r' by auto
qed

theorem stepdown_answers_all_witness:
  "\<exists>r'. runLeader_exit 5 demo_leader = Ret r' \<and> r_leaderState r' = None"
proof -
  have ls: "\<exists>ls. r_leaderState demo_leader = Some ls" by (simp add: demo_leader_def leader_setup_def)
  obtain r' where r': "runLeader_exit 5 demo_leader = Ret r'"
    by (simp add: runLeader_exit_def demo_leader_def leader_setup_def demo_node_def Cancel_def close_signal_def newInflight_def Let_def)
  from ls obtain ls where l: "r_leaderState demo_leader = Some ls" by blast
  have "distinct (map fst (r_answers demo_leader))" "r_localAddr demo_leader \<noteq> []"
    by (simp_all add: demo_leader_def leader_setup_def demo_node_def)
  from stepdown_answers_all [OF r' l this] r' show ?thesis by blast
qed

lemma lease_contacts_count:
  "lease_contacts now lease rs (n, d) =
     (n + int (length (filter (\<lambda>(p, f). now - fr_lastContact f \<le> lease) rs)),
      Max (insert d ((\<lambda>(p, f). now - fr_lastContact f) ` set (filter (\<lambda>(p, f). now - fr_lastContact f \<le> lease) rs))))"
proof (induction rs arbitrary: n d)
  case (Cons x rs)
  obtain p f where x: "x = (p, f)" by force
  have "Max (insert a (insert b A)) = Max (insert (max a b) A)" if "finite A" for a b :: int and A
    using that by (cases "A = {}") (auto simp: max.assoc)
  with Cons show ?case by (simp add: x Let_def max_def insert_commute)
qed simp

text \<open>
  C28: The lease check counts the followers contacted within the lease, plus the leader itself:
  the leader keeps its role exactly when they form a quorum, and the returned interval is the
  age of the oldest of these contacts (0 when there is none), so that the next check is never
  later than the lease allows.
\<close>

theorem lease_quorum:
  assumes "r_state r = Leader" and "checkLeaderLease now r = (r', maxDiff)"
  defines "recent \<equiv> filter (\<lambda>(p, f). now - fr_lastContact f \<le> LeaderLeaseTimeout (r_conf r)) (replicated r)"
  shows "(r_state r' = Leader \<longleftrightarrow> quorumSize r \<le> int (length recent) + 1) \<and>
    maxDiff = Max (insert 0 ((\<lambda>(p, f). now - fr_lastContact f) ` set recent)) \<and>
    (0 \<le> LeaderLeaseTimeout (r_conf r) \<longrightarrow> maxDiff \<le> LeaderLeaseTimeout (r_conf r))"
proof -
  have m: "maxDiff = Max (insert 0 ((\<lambda>(p, f). now - fr_lastContact f) ` set recent))"
    and s: "r' = (if 1 + int (length recent) < quorumSize r then setState Follower r else r)"
    using assms(2) unfolding recent_def checkLeaderLease_def lease_contacts_count by (auto simp: Let_def)
  have "maxDiff \<le> LeaderLeaseTimeout (r_conf r)" if "0 \<le> LeaderLeaseTimeout (r_conf r)"
    unfolding m using that by (subst Max_le_iff) (auto simp: recent_def)
  with m s assms(1) show ?thesis by auto
qed

theorem lease_quorum_witness:
  "r_state (fst (checkLeaderLease 0 demo_leader)) \<noteq> Leader"
proof -
  have "r_state demo_leader = Leader" by (simp add: demo_leader_def leader_setup_def)
  moreover have "\<not> quorumSize demo_leader \<le> int (length (filter (\<lambda>(p, f). 0 - fr_lastContact f \<le> LeaderLeaseTimeout (r_conf demo_leader)) (replicated demo_leader))) + 1"
    by (simp add: demo_leader_def leader_setup_def quorumSize_def demo_node_def replicated_def)
  ultimately show ?thesis
    using lease_quorum [of demo_leader 0 "fst (checkLeaderLease 0 demo_leader)" "snd (checkLeaderLease 0 demo_leader)"] by simp
qed

end
