(* ===== verification/Raft_Snapshot.thy ===== *)
theory Raft_Snapshot
  imports Raft_Leader
begin

text \<open>
  Snapshots and start-up (\<open>raft/raft.go\<close>: \<open>runFSM\<close>, \<open>takeSnapshot\<close>,
  \<open>shouldSnapshot\<close>, \<open>compactLogs\<close>, \<open>installSnapshot\<close>, \<open>restoreSnapshot\<close>,
  \<open>NewRaft\<close>; \<open>raft/fsm.go\<close>, \<open>raft/snapshot.go\<close>): the goroutine of the
  state machine, taking, installing and restoring snapshots, trimming the log behind them, and
  building a node from what its stores hold.
\<close>

section \<open>The state machine and its goroutine\<close>

record ('fs, 'fp, 'sn) FSM =
  fsm_Apply :: "'fs \<Rightarrow> Log \<Rightarrow> 'fs \<times> string"
  fsm_Snapshot :: "'fs \<Rightarrow> raft_error + 'fp"
  fsm_Restore :: "'fs \<Rightarrow> bytes \<Rightarrow> 'fs \<times> raft_error option"
  fsm_Persist :: "'fp \<Rightarrow> 'sn \<Rightarrow> string \<Rightarrow> 'sn \<times> raft_error option"

text \<open>The state machine with the local variables of \<open>runFSM\<close> and the responses given to futures.\<close>

record 'fs fsmThread =
  ft_fsm :: 'fs
  ft_lastIndex :: uint64
  ft_lastTerm :: uint64
  ft_responses :: "(nat \<times> string option) list"

text \<open>\<open>case req := <-r.fsmRestoreCh\<close>\<close>

definition fsm_restore ::
  "('ls, 'ss, 'sn, 'ps) env \<Rightarrow> ('fs, 'fp, 'sn) FSM \<Rightarrow> string \<Rightarrow> ('ls, 'ss, 'sn, 'ps) Raft \<Rightarrow> 'fs fsmThread \<Rightarrow>
   'fs fsmThread \<times> raft_error option" where
  "fsm_restore E F snapID r t =
     (case sn_Open (e_snaps E) (r_snapshots r) snapID of
        Inl err \<Rightarrow> (t, Some (ErrOther ''failed to open snapshot''))
      | Inr (meta, source) \<Rightarrow>
          (case fsm_Restore F (ft_fsm t) source of
             (fs', Some err) \<Rightarrow> (t\<lparr>ft_fsm := fs'\<rparr>, Some (ErrOther ''failed to restore snapshot''))
           | (fs', None) \<Rightarrow> (t\<lparr>ft_fsm := fs', ft_lastIndex := sm_Index meta, ft_lastTerm := sm_Term meta\<rparr>, None)))"

text \<open>\<open>case req := <-r.fsmSnapshotCh\<close>: the error, or index, term, peers and snapshot.\<close>

definition fsm_snapshot ::
  "('ls, 'ss, 'sn, 'ps) env \<Rightarrow> ('fs, 'fp, 'sn) FSM \<Rightarrow> ('ls, 'ss, 'sn, 'ps) Raft \<Rightarrow> 'fs fsmThread \<Rightarrow>
   raft_error + uint64 \<times> uint64 \<times> string list \<times> 'fp" where
  "fsm_snapshot E F r t =
     (if ft_lastIndex t = 0 then Inl ErrNothingNewToSnapshot
      else (case ps_Peers (e_peers E) (r_peerStore r) of
              Inl err \<Rightarrow> Inl err
            | Inr peers \<Rightarrow>
                (case fsm_Snapshot F (ft_fsm t) of
                   Inl err \<Rightarrow> Inl err
                 | Inr snap \<Rightarrow> Inr (ft_lastIndex t, ft_lastTerm t, peers, snap))))"

text \<open>\<open>case commitEntry := <-r.fsmCommitCh\<close>\<close>

definition fsm_commit ::
  "('fs, 'fp, 'sn) FSM \<Rightarrow> commitTuple \<Rightarrow> ('ls, 'ss, 'sn, 'ps) Raft \<Rightarrow> 'fs fsmThread \<Rightarrow>
   ('ls, 'ss, 'sn, 'ps) Raft \<times> 'fs fsmThread" where
  "fsm_commit F entry r t =
     (let (l, future) = entry;
          (fs', resp) = (if log_Type l = LogCommand
                         then (let (fs1, x) = fsm_Apply F (ft_fsm t) l in (fs1, Some x))
                         else (ft_fsm t, None));
          t1 = t\<lparr>ft_fsm := fs', ft_lastIndex := log_Index l, ft_lastTerm := log_Term l\<rparr>
      in case future of
           None \<Rightarrow> (r, t1)
         | Some f \<Rightarrow> (answer (fut_errCh f) None r,
                     case fut_errCh f of None \<Rightarrow> t1
                     | Some c \<Rightarrow> t1\<lparr>ft_responses := ft_responses t1 @ [(c, resp)]\<rparr>))"

text \<open>The goroutine working off everything in its channel.\<close>

fun fsm_drain ::
  "('fs, 'fp, 'sn) FSM \<Rightarrow> commitTuple list \<Rightarrow> ('ls, 'ss, 'sn, 'ps) Raft \<Rightarrow> 'fs fsmThread \<Rightarrow>
   ('ls, 'ss, 'sn, 'ps) Raft \<times> 'fs fsmThread" where
  "fsm_drain F [] r t = (r, t)"
| "fsm_drain F (e # es) r t = (let (r1, t1) = fsm_commit F e r t in fsm_drain F es r1 t1)"

section \<open>Trimming the log\<close>

definition compactLogs ::
  "('ls, 'ss, 'sn, 'ps) env \<Rightarrow> uint64 \<Rightarrow> ('ls, 'ss, 'sn, 'ps) Raft \<Rightarrow>
   (('ls, 'ss, 'sn, 'ps) Raft \<times> raft_error option) outcome" where
  "compactLogs E snapIdx r =
     (case FirstIndex (e_logs E) (r_logs r) of
        Inl err \<Rightarrow> Ret (r, Some (ErrOther ''first log index''))
      | Inr minLog \<Rightarrow>
          if r_lastLogIndex r \<le> TrailingLogs (r_conf r) then Ret (r, None)
          else let maxLog = min_u64 snapIdx (r_lastLogIndex r - TrailingLogs (r_conf r))
               in obind (DeleteRange (e_logs E) (r_logs r) minLog maxLog) (\<lambda>(ls', err).
                    Ret (r\<lparr>r_logs := ls'\<rparr>, case err of None \<Rightarrow> None | Some _ \<Rightarrow> Some (ErrOther ''log compaction''))))"

section \<open>Taking a snapshot\<close>

definition shouldSnapshot :: "('ls, 'ss, 'sn, 'ps) env \<Rightarrow> ('ls, 'ss, 'sn, 'ps) Raft \<Rightarrow> bool" where
  "shouldSnapshot E r =
     (case LastIndex (e_logs E) (r_logs r) of
        Inl err \<Rightarrow> False
      | Inr lastIdx \<Rightarrow> lastIdx - r_lastSnapshotIndex r \<ge> SnapshotThreshold (r_conf r))"

definition takeSnapshot ::
  "('ls, 'ss, 'sn, 'ps) env \<Rightarrow> ('fs, 'fp, 'sn) FSM \<Rightarrow> ('ls, 'ss, 'sn, 'ps) Raft \<Rightarrow> 'fs fsmThread \<Rightarrow>
   (('ls, 'ss, 'sn, 'ps) Raft \<times> raft_error option) outcome" where
  "takeSnapshot E F r t =
     (let (sent, r0) = (if r_shutdown r then coin r else (True, r))
      in if \<not> sent then Ret (r0, Some ErrRaftShutdown)
      else (case fsm_snapshot E F r0 t of
        Inl err \<Rightarrow> Ret (r0, Some (if err = ErrNothingNewToSnapshot then err else ErrOther ''start snapshot''))
      | Inr (index, term, peers, snap) \<Rightarrow>
          (case sn_Create (e_snaps E) (r_snapshots r0) index term (encodePeers (e_trans E) peers) of
             (sn1, Inl err) \<Rightarrow> Ret (r0\<lparr>r_snapshots := sn1\<rparr>, Some (ErrOther ''create snapshot''))
           | (sn1, Inr sink) \<Rightarrow>
               (case fsm_Persist F snap sn1 sink of
                  (sn2, Some err) \<Rightarrow>
                    Ret (r0\<lparr>r_snapshots := sn_Cancel (e_snaps E) sn2 sink\<rparr>, Some (ErrOther ''persist snapshot''))
                | (sn2, None) \<Rightarrow>
                    (case sn_Close (e_snaps E) sn2 sink of
                       (sn3, Some err) \<Rightarrow> Ret (r0\<lparr>r_snapshots := sn3\<rparr>, Some (ErrOther ''close snapshot''))
                     | (sn3, None) \<Rightarrow>
                         compactLogs E index (setLastSnapshot index term (r0\<lparr>r_snapshots := sn3\<rparr>)))))))"

section \<open>Installing a leader's snapshot\<close>

text \<open>
  \<open>io.Copy(sink, rpc.Reader)\<close>: the bytes the reader gives are written, then the reader ends or
  fails with \<open>rd_err\<close>.
\<close>

definition copy_to_sink ::
  "'sn SnapshotStore \<Rightarrow> 'sn \<Rightarrow> string \<Rightarrow> bytes \<Rightarrow> raft_error option \<Rightarrow> 'sn \<times> raft_error option" where
  "copy_to_sink S sn sink data rd_err =
     (case sn_Write S sn sink data of
        (sn1, Some err) \<Rightarrow> (sn1, Some err)
      | (sn1, None) \<Rightarrow> (sn1, rd_err))"

text \<open>The part after the snapshot has been received: restore it and adopt its index and peers.\<close>

definition adopt_snapshot ::
  "('ls, 'ss, 'sn, 'ps) env \<Rightarrow> ('fs, 'fp, 'sn) FSM \<Rightarrow> int \<Rightarrow> InstallSnapshotRequest \<Rightarrow> string \<Rightarrow>
   ('ls, 'ss, 'sn, 'ps) Raft \<Rightarrow> 'fs fsmThread \<Rightarrow>
   (('ls, 'ss, 'sn, 'ps) Raft \<times> 'fs fsmThread \<times> bool \<times> raft_error option) outcome" where
  "adopt_snapshot E F now req sink r t =
     (let (sent, r0) = (if r_shutdown r then coin r else (True, r))
      in if \<not> sent then Ret (r0, t, False, None)
      else (case fsm_restore E F sink r0 t of
        (t1, Some err) \<Rightarrow> Ret (r0, t1, False, Some err)
      | (t1, None) \<Rightarrow>
          obind (decodePeers (e_trans E) (is_Peers req)) (\<lambda>peers.
          let r1 = setLastSnapshot (is_LastLogIndex req) (is_LastLogTerm req) (r0\<lparr>r_lastApplied := is_LastLogIndex req\<rparr>);
              r2 = set_peer_list E (ExcludePeer peers (r_localAddr r1)) peers r1
          in obind (compactLogs E (is_LastLogIndex req) r2) (\<lambda>(r3, _).
             Ret (setLastContact now r3, t1, True, None)))))"

definition installSnapshot ::
  "('ls, 'ss, 'sn, 'ps) env \<Rightarrow> ('fs, 'fp, 'sn) FSM \<Rightarrow> int \<Rightarrow> InstallSnapshotRequest \<Rightarrow> bytes \<Rightarrow> raft_error option \<Rightarrow>
   ('ls, 'ss, 'sn, 'ps) Raft \<Rightarrow> 'fs fsmThread \<Rightarrow>
   (('ls, 'ss, 'sn, 'ps) Raft \<times> 'fs fsmThread \<times> InstallSnapshotResponse \<times> raft_error option) outcome" where
  "installSnapshot E F now req data rd_err r t =
     (let resp = \<lparr>isr_Term = r_currentTerm r, isr_Success = False\<rparr>
      in if is_Term req < r_currentTerm r then Ret (r, t, resp, None)
      else obind (if is_Term req > r_currentTerm r
                  then obind (setCurrentTerm E (is_Term req) (setState Follower r)) (\<lambda>r1. Ret (r1, resp\<lparr>isr_Term := is_Term req\<rparr>))
                  else Ret (r, resp))
        (\<lambda>(r1, resp1).
          let r2 = setLeader (DecodePeer (e_trans E) (is_Leader req)) r1
          in case sn_Create (e_snaps E) (r_snapshots r2) (is_LastLogIndex req) (is_LastLogTerm req) (is_Peers req) of
               (sn1, Inl err) \<Rightarrow> Ret (r2\<lparr>r_snapshots := sn1\<rparr>, t, resp1, Some (ErrOther ''failed to create snapshot''))
             | (sn1, Inr sink) \<Rightarrow>
                 (case copy_to_sink (e_snaps E) sn1 sink data rd_err of
                    (sn2, Some err) \<Rightarrow> Ret (r2\<lparr>r_snapshots := sn_Cancel (e_snaps E) sn2 sink\<rparr>, t, resp1, Some err)
                  | (sn2, None) \<Rightarrow>
                      if int (length data) \<noteq> is_Size req
                      then Ret (r2\<lparr>r_snapshots := sn_Cancel (e_snaps E) sn2 sink\<rparr>, t, resp1, Some (ErrOther ''short read''))
                      else (case sn_Close (e_snaps E) sn2 sink of
                        (sn3, Some err) \<Rightarrow> Ret (r2\<lparr>r_snapshots := sn3\<rparr>, t, resp1, Some err)
                      | (sn3, None) \<Rightarrow>
                          obind (adopt_snapshot E F now req sink (r2\<lparr>r_snapshots := sn3\<rparr>) t) (\<lambda>(r3, t1, ok, err).
                            Ret (r3, t1, resp1\<lparr>isr_Success := ok\<rparr>, err))))))"

section \<open>Starting a node\<close>

fun try_snapshots ::
  "('ls, 'ss, 'sn, 'ps) env \<Rightarrow> ('fs, 'fp, 'sn) FSM \<Rightarrow> SnapshotMeta list \<Rightarrow> ('ls, 'ss, 'sn, 'ps) Raft \<Rightarrow> 'fs fsmThread \<Rightarrow>
   ('ls, 'ss, 'sn, 'ps) Raft \<times> 'fs fsmThread \<times> bool" where
  "try_snapshots E F [] r t = (r, t, False)"
| "try_snapshots E F (snapshot # rest) r t =
     (case sn_Open (e_snaps E) (r_snapshots r) (sm_ID snapshot) of
        Inl err \<Rightarrow> try_snapshots E F rest r t
      | Inr (_, source) \<Rightarrow>
          (case fsm_Restore F (ft_fsm t) source of
             (fs', Some err) \<Rightarrow> try_snapshots E F rest r (t\<lparr>ft_fsm := fs'\<rparr>)
           | (fs', None) \<Rightarrow>
               (setLastSnapshot (sm_Index snapshot) (sm_Term snapshot) (r\<lparr>r_lastApplied := sm_Index snapshot\<rparr>),
                t\<lparr>ft_fsm := fs'\<rparr>, True)))"

definition restoreSnapshot ::
  "('ls, 'ss, 'sn, 'ps) env \<Rightarrow> ('fs, 'fp, 'sn) FSM \<Rightarrow> ('ls, 'ss, 'sn, 'ps) Raft \<Rightarrow> 'fs fsmThread \<Rightarrow>
   ('ls, 'ss, 'sn, 'ps) Raft \<times> 'fs fsmThread \<times> raft_error option" where
  "restoreSnapshot E F r t =
     (case sn_List (e_snaps E) (r_snapshots r) of
        Inl err \<Rightarrow> (r, t, Some err)
      | Inr snapshots \<Rightarrow>
          (let (r1, t1, ok) = try_snapshots E F snapshots r t
           in if ok then (r1, t1, None)
              else if length snapshots > 0 then (r1, t1, Some (ErrOther ''failed to load any existing snapshots''))
              else (r1, t1, None)))"

text \<open>The struct \<open>NewRaft\<close> builds, before anything is restored.\<close>

definition fresh_node ::
  "Config \<Rightarrow> string \<Rightarrow> string list \<Rightarrow> 'ls \<Rightarrow> 'ss \<Rightarrow> 'sn \<Rightarrow> 'ps \<Rightarrow> ('ls, 'ss, 'sn, 'ps) Raft" where
  "fresh_node conf localAddr peers ls ss sn ps = \<lparr>r_currentTerm = 0, r_commitIndex = 0, r_lastApplied = 0,
     r_lastSnapshotIndex = 0, r_lastSnapshotTerm = 0, r_lastLogIndex = 0, r_lastLogTerm = 0, r_state = Follower,
     r_conf = conf, r_fsmCommitCh = [], r_lastContact = 0, r_leader = [], r_leaderState = None,
     r_localAddr = localAddr, r_logs = ls, r_peers = peers, r_peerStore = ps, r_shutdown = False,
     r_snapshots = sn, r_stable = ss, r_verifies = [], r_verifyCh = [], r_answers = [], r_observed = [],
     r_stopping = [], r_sched = []\<rparr>"

definition NewRaft ::
  "('ls, 'ss, 'sn, 'ps) env \<Rightarrow> ('fs, 'fp, 'sn) FSM \<Rightarrow> Config \<Rightarrow> string \<Rightarrow> 'ls \<Rightarrow> 'ss \<Rightarrow> 'sn \<Rightarrow> 'ps \<Rightarrow> 'fs \<Rightarrow>
   (raft_error + ('ls, 'ss, 'sn, 'ps) Raft \<times> 'fs fsmThread) outcome" where
  "NewRaft E F conf localAddr ls ss sn ps fs =
     (case ValidateConfig conf of Some err \<Rightarrow> Ret (Inl err) | None \<Rightarrow>
      let term = ss_GetUint64 (e_stable E) ss keyCurrentTerm
      in if read_failed term then Ret (Inl (ErrOther ''failed to load current term''))
      else (case LastIndex (e_logs E) ls of Inl err \<Rightarrow> Ret (Inl (ErrOther ''failed to find last log'')) | Inr lastIdx \<Rightarrow>
      (case (if lastIdx > 0 then GetLog (e_logs E) ls lastIdx
             else Inr \<lparr>log_Index = 0, log_Term = 0, log_Type = 0, log_Data = [], log_peer = []\<rparr>) of
         Inl err \<Rightarrow> Ret (Inl (ErrOther ''failed to get last log'')) | Inr lastLog \<Rightarrow>
      (case ps_Peers (e_peers E) ps of Inl err \<Rightarrow> Ret (Inl (ErrOther ''failed to get list of peers'')) | Inr peers \<Rightarrow>
       (let r = setState Follower (fresh_node conf localAddr (ExcludePeer peers localAddr) ls ss sn ps);
            r1 = (if StartAsLeader conf then setLeader localAddr (setState Leader r) else r)
        in obind (setCurrentTerm E (case term of Inl _ \<Rightarrow> 0 | Inr t \<Rightarrow> t) r1) (\<lambda>r2.
           let t = \<lparr>ft_fsm = fs, ft_lastIndex = 0, ft_lastTerm = 0, ft_responses = []\<rparr>;
               (r3, t1, err) = restoreSnapshot E F (setLastLog (log_Index lastLog) (log_Term lastLog) r2) t
           in Ret (case err of Some e \<Rightarrow> Inl e | None \<Rightarrow> Inr (r3, t1))))))))"

section \<open>Snapshots and the role of a node\<close>

lemma compactLogs_cases:
  assumes "compactLogs E snapIdx r = Ret (r', err)"
  obtains (kept) "r' = r"
    | (trimmed) minLog ls' e where "FirstIndex (e_logs E) (r_logs r) = Inr minLog"
        "TrailingLogs (r_conf r) < r_lastLogIndex r"
        "DeleteRange (e_logs E) (r_logs r) minLog (min snapIdx (r_lastLogIndex r - TrailingLogs (r_conf r))) = Ret (ls', e)"
        "r' = r\<lparr>r_logs := ls'\<rparr>" "err = None \<longleftrightarrow> e = None"
proof (cases "FirstIndex (e_logs E) (r_logs r)")
  case (Inl e)
  with assms have "r' = r" by (simp add: compactLogs_def)
  then show thesis by (rule kept)
next
  case (Inr m)
  show thesis
  proof (cases "r_lastLogIndex r \<le> TrailingLogs (r_conf r)")
    case True
    with assms Inr have "r' = r" by (simp add: compactLogs_def)
    then show thesis by (rule kept)
  next
    case False
    with assms Inr obtain ls' e where
      "DeleteRange (e_logs E) (r_logs r) m (min snapIdx (r_lastLogIndex r - TrailingLogs (r_conf r))) = Ret (ls', e)"
      "r' = r\<lparr>r_logs := ls'\<rparr>" "err = (case e of None \<Rightarrow> None | Some _ \<Rightarrow> Some (ErrOther ''log compaction''))"
      by (auto simp: compactLogs_def Let_def obind_pair_Ret_iff)
    with False Inr show thesis by (intro trimmed [of m ls' e]) (auto split: option.splits)
  qed
qed

lemma compactLogs_role: "compactLogs E snapIdx r = Ret (r', err) \<Longrightarrow> same_role r r'"
  by (erule compactLogs_cases) (simp_all add: same_role_def)

lemma coin_cond_role: "(if c then coin r else (True, r)) = (b, r') \<Longrightarrow> same_role r r'"
  by (auto split: if_splits dest: frame_role [OF coin_frame])

lemma same_role_update [simp]:
  "same_role r (r'\<lparr>r_snapshots := x\<rparr>) = same_role r r'"
  "same_role (r\<lparr>r_snapshots := x\<rparr>) r' = same_role r r'"
  "same_role r (setLastSnapshot i t r') = same_role r r'"
  "same_role (setLastSnapshot i t r) r' = same_role r r'"
  "same_role r (set_peer_list E ps qs r') = same_role r r'"
  "same_role (set_peer_list E ps qs r) r' = same_role r r'"
  "same_role (r\<lparr>r_lastApplied := j\<rparr>) r' = same_role r r'"
  "same_role r (r'\<lparr>r_lastApplied := j\<rparr>) = same_role r r'"
  "same_role r (setLastContact now r') = same_role r r'"
  by (simp_all add: same_role_def setLastSnapshot_def set_peer_list_def setLastContact_def)

lemma adopt_snapshot_role:
  assumes "adopt_snapshot E F now req sink r t = Ret (r', t', ok, err)"
  shows "same_role r r'"
proof -
  obtain sent r0 where c: "(if r_shutdown r then coin r else (True, r)) = (sent, r0)" by force
  note r0 = coin_cond_role [OF c]
  obtain t1 e where f: "fsm_restore E F sink r0 t = (t1, e)" by force
  show ?thesis
  proof (cases "sent \<and> e = None")
    case False
    with assms c f r0 show ?thesis by (cases sent; cases e) (auto simp: adopt_snapshot_def)
  next
    case True
    define r1 where "r1 ps = set_peer_list E (ExcludePeer ps (r_localAddr r0)) ps
      (setLastSnapshot (is_LastLogIndex req) (is_LastLogTerm req) (r0\<lparr>r_lastApplied := is_LastLogIndex req\<rparr>))" for ps
    from True assms c f obtain ps r3 e3 where "compactLogs E (is_LastLogIndex req) (r1 ps) = Ret (r3, e3)" "r' = setLastContact now r3"
      by (auto simp: adopt_snapshot_def Let_def obind_pair_Ret_iff r1_def setLastSnapshot_def)
    then have "same_role (r1 ps) r'" by (auto dest: compactLogs_role)
    with r0 show ?thesis by (auto simp: r1_def intro: same_role_trans)
  qed
qed

lemma installSnapshot_cases:
  assumes "installSnapshot E F now req data rd_err r t = Ret (r', t', resp, err)"
  obtains (stale) "is_Term req < r_currentTerm r" "r' = r" "t' = t" "\<not> isr_Success resp"
    | (handled) r1 where "r_currentTerm r \<le> is_Term req"
        "(if is_Term req > r_currentTerm r then setCurrentTerm E (is_Term req) (setState Follower r) else Ret r) = Ret r1"
        "same_role (setLeader (DecodePeer (e_trans E) (is_Leader req)) r1) r'"
proof (cases "is_Term req < r_currentTerm r")
  case True
  with assms have "r' = r" "t' = t" "\<not> isr_Success resp" by (auto simp: installSnapshot_def Let_def)
  with True show thesis by (rule stale)
next
  case False
  define resp0 where "resp0 = \<lparr>isr_Term = r_currentTerm r, isr_Success = False\<rparr>"
  define enter where "enter = (if is_Term req > r_currentTerm r
    then obind (setCurrentTerm E (is_Term req) (setState Follower r)) (\<lambda>r1. Ret (r1, resp0\<lparr>isr_Term := is_Term req\<rparr>))
    else Ret (r, resp0))"
  define body where "body r1 resp1 = (let r2 = setLeader (DecodePeer (e_trans E) (is_Leader req)) r1
    in case sn_Create (e_snaps E) (r_snapshots r2) (is_LastLogIndex req) (is_LastLogTerm req) (is_Peers req) of
         (sn1, Inl err) \<Rightarrow> Ret (r2\<lparr>r_snapshots := sn1\<rparr>, t, resp1, Some (ErrOther ''failed to create snapshot''))
       | (sn1, Inr sink) \<Rightarrow>
           (case copy_to_sink (e_snaps E) sn1 sink data rd_err of
              (sn2, Some err) \<Rightarrow> Ret (r2\<lparr>r_snapshots := sn_Cancel (e_snaps E) sn2 sink\<rparr>, t, resp1, Some err)
            | (sn2, None) \<Rightarrow>
                if int (length data) \<noteq> is_Size req
                then Ret (r2\<lparr>r_snapshots := sn_Cancel (e_snaps E) sn2 sink\<rparr>, t, resp1, Some (ErrOther ''short read''))
                else (case sn_Close (e_snaps E) sn2 sink of
                  (sn3, Some err) \<Rightarrow> Ret (r2\<lparr>r_snapshots := sn3\<rparr>, t, resp1, Some err)
                | (sn3, None) \<Rightarrow>
                    obind (adopt_snapshot E F now req sink (r2\<lparr>r_snapshots := sn3\<rparr>) t) (\<lambda>(r3, t1, ok, err).
                      Ret (r3, t1, resp1\<lparr>isr_Success := ok\<rparr>, err)))))" for r1 and resp1 :: InstallSnapshotResponse
  from assms False obtain r1 resp1 where e: "enter = Ret (r1, resp1)" and b: "body r1 resp1 = Ret (r', t', resp, err)"
    unfolding installSnapshot_def enter_def body_def resp0_def Let_def by (simp only: if_False obind_pair_Ret_iff) blast
  have "same_role (setLeader (DecodePeer (e_trans E) (is_Leader req)) r1) r'"
    using b unfolding body_def Let_def
    by (auto split: prod.splits sum.splits option.splits if_splits dest!: adopt_snapshot_role simp: obind_pair_Ret_iff)
  moreover have "(if is_Term req > r_currentTerm r then setCurrentTerm E (is_Term req) (setState Follower r) else Ret r) = Ret r1"
    using e by (auto simp: enter_def split: if_splits)
  ultimately show thesis using handled [of r1] False by simp
qed

context raft_env
begin

lemma installSnapshot_keeps_vote:
  assumes "vote_inv E ss_inv r" and "installSnapshot E F now req data rd_err r t = Ret (r', t', resp, err)"
  shows "keeps_vote E r r' \<and> vote_inv E ss_inv r'"
  using assms(2)
proof (cases rule: installSnapshot_cases)
  case stale
  with assms(1) show ?thesis by (simp add: keeps_vote_def)
next
  case (handled r1)
  have inv: "ss_inv (r_stable r)" "vote_term E (r_stable r) \<le> r_currentTerm r" "durable_term E (r_stable r) = r_currentTerm r"
    using assms(1) by (auto simp: vote_inv_def)
  have k1: "keeps_vote E r r1 \<and> ss_inv (r_stable r1) \<and> durable_term E (r_stable r1) = r_currentTerm r1"
  proof (cases "is_Term req > r_currentTerm r")
    case True
    with handled(2) have "setCurrentTerm E (is_Term req) (setState Follower r) = Ret r1" by simp
    with inv(1) show ?thesis using handled(1) by (rule keeps_vote_term)
  next
    case False
    with handled(2) inv show ?thesis by (simp add: keeps_vote_def)
  qed
  have role: "same_role r1 r'" using handled(3) by (simp add: same_role_def)
  have "vote_inv E ss_inv r1" using k1 inv by (auto simp: vote_inv_def keeps_vote_def)
  with role have "vote_inv E ss_inv r'" using same_role_vote_inv by blast
  with k1 same_role_keeps_vote [OF role] show ?thesis by (blast intro: keeps_vote_trans)
qed

end

section \<open>Starting from the stores\<close>

lemma try_snapshots_role:
  "try_snapshots E F snaps r t = (r', t', ok) \<Longrightarrow> same_role r r' \<and> r_state r' = r_state r \<and> r_leader r' = r_leader r \<and>
     r_lastLogIndex r' = r_lastLogIndex r \<and> r_lastLogTerm r' = r_lastLogTerm r \<and> r_logs r' = r_logs r \<and> r_peers r' = r_peers r"
proof (induction E F snaps r t rule: try_snapshots.induct)
  case (2 E F s rest r t)
  show ?case
  proof (cases "sn_Open (e_snaps E) (r_snapshots r) (sm_ID s)")
    case (Inl e)
    with 2 show ?thesis by simp
  next
    case (Inr x)
    obtain m src where x: "x = (m, src)" by force
    obtain fs' e where f: "fsm_Restore F (ft_fsm t) src = (fs', e)" by force
    show ?thesis
    proof (cases e)
      case None
      with "2.prems" Inr x f show ?thesis by (auto simp: same_role_def setLastSnapshot_def)
    next
      case (Some err)
      with "2.prems" Inr x f "2.IH"(2) [OF Inr x [symmetric] f [symmetric] Some] show ?thesis by simp
    qed
  qed
qed simp

lemma restoreSnapshot_role:
  assumes "restoreSnapshot E F r t = (r', t', err)"
  shows "same_role r r' \<and> r_state r' = r_state r \<and> r_leader r' = r_leader r \<and>
     r_lastLogIndex r' = r_lastLogIndex r \<and> r_lastLogTerm r' = r_lastLogTerm r \<and> r_logs r' = r_logs r \<and> r_peers r' = r_peers r"
proof (cases "sn_List (e_snaps E) (r_snapshots r)")
  case (Inl e)
  with assms show ?thesis by (simp add: restoreSnapshot_def)
next
  case (Inr snaps)
  obtain r1 t1 ok where t: "try_snapshots E F snaps r t = (r1, t1, ok)" by (metis prod_cases3)
  with assms Inr have "r' = r1" by (auto simp: restoreSnapshot_def split: if_splits)
  with try_snapshots_role [OF t] show ?thesis by simp
qed

lemma NewRaft_cases:
  assumes "NewRaft E F conf addr ls ss sn ps fs = Ret (Inr (r, t))"
  obtains lastIdx lastLog peers r2 where "ValidateConfig conf = None" "\<not> read_failed (ss_GetUint64 (e_stable E) ss keyCurrentTerm)"
    "LastIndex (e_logs E) ls = Inr lastIdx"
    "(if lastIdx > 0 then GetLog (e_logs E) ls lastIdx
      else Inr \<lparr>log_Index = 0, log_Term = 0, log_Type = 0, log_Data = [], log_peer = []\<rparr>) = Inr lastLog"
    "ps_Peers (e_peers E) ps = Inr peers"
    "setCurrentTerm E (durable_term E ss)
      (if StartAsLeader conf
       then setLeader addr (setState Leader (setState Follower (fresh_node conf addr (ExcludePeer peers addr) ls ss sn ps)))
       else setState Follower (fresh_node conf addr (ExcludePeer peers addr) ls ss sn ps)) = Ret r2"
    "restoreSnapshot E F (setLastLog (log_Index lastLog) (log_Term lastLog) r2)
       \<lparr>ft_fsm = fs, ft_lastIndex = 0, ft_lastTerm = 0, ft_responses = []\<rparr> = (r, t, None)"
proof -
  have v: "ValidateConfig conf = None" "\<not> read_failed (ss_GetUint64 (e_stable E) ss keyCurrentTerm)"
    using assms by (auto simp: NewRaft_def Let_def split: option.splits if_splits)
  obtain lastIdx where l: "LastIndex (e_logs E) ls = Inr lastIdx"
    using assms v by (cases "LastIndex (e_logs E) ls") (simp_all add: NewRaft_def Let_def)
  obtain lastLog where g: "(if lastIdx > 0 then GetLog (e_logs E) ls lastIdx
      else Inr \<lparr>log_Index = 0, log_Term = 0, log_Type = 0, log_Data = [], log_peer = []\<rparr>) = Inr lastLog"
    using assms v l by (cases "if lastIdx > 0 then GetLog (e_logs E) ls lastIdx
      else Inr \<lparr>log_Index = 0, log_Term = 0, log_Type = 0, log_Data = [], log_peer = []\<rparr>") (simp_all add: NewRaft_def Let_def)
  obtain peers where p: "ps_Peers (e_peers E) ps = Inr peers"
    using assms v l g by (cases "ps_Peers (e_peers E) ps") (simp_all add: NewRaft_def Let_def)
  let ?r1 = "if StartAsLeader conf
    then setLeader addr (setState Leader (setState Follower (fresh_node conf addr (ExcludePeer peers addr) ls ss sn ps)))
    else setState Follower (fresh_node conf addr (ExcludePeer peers addr) ls ss sn ps)"
  let ?t = "\<lparr>ft_fsm = fs, ft_lastIndex = 0, ft_lastTerm = 0, ft_responses = []\<rparr>"
  from assms obtain r2 where s: "setCurrentTerm E (durable_term E ss) ?r1 = Ret r2"
    and rest: "(case restoreSnapshot E F (setLastLog (log_Index lastLog) (log_Term lastLog) r2) ?t of (r3, t1, err) \<Rightarrow>
      Ret (case err of Some e \<Rightarrow> Inl e | None \<Rightarrow> Inr (r3, t1))) = Ret (Inr (r, t))"
    unfolding NewRaft_def Let_def durable_term_def [symmetric]
    by (simp only: v l g p if_False option.case sum.case obind_Ret_iff) blast
  obtain r3 t1 err where q: "restoreSnapshot E F (setLastLog (log_Index lastLog) (log_Term lastLog) r2) ?t = (r3, t1, err)"
    by (metis prod_cases3)
  with rest have "restoreSnapshot E F (setLastLog (log_Index lastLog) (log_Term lastLog) r2) ?t = (r, t, None)"
    by (auto split: option.splits)
  with that [OF v l g p s] show thesis by blast
qed

context raft_env
begin

text \<open>A node built from its stores works with the term on disk, keeps its vote and is no leader (unless told so).\<close>

lemma NewRaft_effect:
  assumes ok: "ss_inv ss" and le: "vote_term E ss \<le> durable_term E ss"
    and new: "NewRaft E F conf addr ls ss sn ps fs = Ret (Inr (r, t))"
  shows "vote_inv E ss_inv r \<and> r_currentTerm r = durable_term E ss \<and> r_localAddr r = addr \<and>
    vote_term E (r_stable r) = vote_term E ss \<and> vote_cand E (r_stable r) = vote_cand E ss \<and>
    (\<not> StartAsLeader conf \<longrightarrow> r_state r = Follower)"
  using new
proof (cases rule: NewRaft_cases)
  case (1 lastIdx lastLog peers r2)
  let ?r1 = "if StartAsLeader conf
       then setLeader addr (setState Leader (setState Follower (fresh_node conf addr (ExcludePeer peers addr) ls ss sn ps)))
       else setState Follower (fresh_node conf addr (ExcludePeer peers addr) ls ss sn ps)"
  have s1: "r_stable ?r1 = ss" "r_localAddr ?r1 = addr" by (simp_all add: fresh_node_def)
  then have "ss_inv (r_stable ?r1)" using ok by simp
  from setCurrentTerm_effect [OF this 1(6)] s1 have e: "ss_inv (r_stable r2)" "durable_term E (r_stable r2) = durable_term E ss"
    "r_currentTerm r2 = durable_term E ss" "vote_term E (r_stable r2) = vote_term E ss" "vote_cand E (r_stable r2) = vote_cand E ss"
    by simp_all
  have f: "r_localAddr r2 = addr" "\<not> StartAsLeader conf \<Longrightarrow> r_state r2 = Follower"
    using 1(6) by (auto simp: setCurrentTerm_def fresh_node_def split: prod.splits option.splits)
  from restoreSnapshot_role [OF 1(7)] have "same_role r2 r" "r_state r = r_state r2"
    by (simp_all add: same_role_def setLastLog_def)
  with e f le show ?thesis by (simp add: vote_inv_def same_role_def)
qed

end

section \<open>Properties\<close>

lemma fsm_commit_state:
  "ft_fsm (snd (fsm_commit F e r t)) = (if log_Type (fst e) = LogCommand then fst (fsm_Apply F (ft_fsm t) (fst e)) else ft_fsm t) \<and>
   ft_lastIndex (snd (fsm_commit F e r t)) = log_Index (fst e) \<and> ft_lastTerm (snd (fsm_commit F e r t)) = log_Term (fst e) \<and>
   r_answers (fst (fsm_commit F e r t)) = (case snd e of None \<Rightarrow> r_answers r | Some f \<Rightarrow> respond (fut_errCh f) None (r_answers r))"
  by (cases e) (simp add: fsm_commit_def case_prod_unfold Let_def answer_def split: option.split)



text \<open>
  C30: Trimming the log is safe: \<open>compactLogs\<close> returns, never removes an entry behind the
  snapshot, keeps the configured number of trailing entries, and, when it succeeds, no entry
  from the first index up to the bound is left.
\<close>

theorem compactLogs_keeps_tail:
  assumes "bunt_inv (r_logs r)" and "snapIdx \<noteq> - 1"
  shows "\<exists>r' err. compactLogs (bunt_env Sn P W) snapIdx r = Ret (r', err) \<and> bunt_inv (r_logs r') \<and>
    (\<forall>i. snapIdx < i \<or> r_lastLogIndex r \<le> TrailingLogs (r_conf r) \<or> r_lastLogIndex r - TrailingLogs (r_conf r) < i \<longrightarrow>
       BuntStore_GetLog (r_logs r') i = BuntStore_GetLog (r_logs r) i) \<and>
    (err = None \<longrightarrow> TrailingLogs (r_conf r) < r_lastLogIndex r \<longrightarrow>
       (\<forall>i \<le> min snapIdx (r_lastLogIndex r - TrailingLogs (r_conf r)). BuntStore_GetLog (r_logs r') i = Inl ErrLogNotFound))"
proof -
  let ?E = "bunt_env Sn P W" and ?hi = "min snapIdx (r_lastLogIndex r - TrailingLogs (r_conf r))"
  define lo where "lo = (if bunt_entries (r_logs r) = Map.empty then 0 else Min (dom (bunt_entries (r_logs r))))"
  have fi: "FirstIndex bunt_log_store (r_logs r) = Inr lo" using bunt_logs.FirstIndex [OF assms(1)] by (simp add: lo_def)
  show ?thesis
  proof (cases "r_lastLogIndex r \<le> TrailingLogs (r_conf r)")
    case True
    with fi assms(1) show ?thesis by (auto simp: compactLogs_def)
  next
    case False
    have hi: "?hi \<noteq> - 1" using assms(2) word_order.extremum_uniqueI [of snapIdx] by (auto simp: min_def)
    obtain b err where d: "DeleteRange bunt_log_store (r_logs r) lo ?hi = Ret (b, err)"
      using bunt_logs.DeleteRange_returns [OF assms(1) hi, of lo] by (auto simp: returns_iff)
    have c: "compactLogs ?E snapIdx r = Ret (r\<lparr>r_logs := b\<rparr>, case err of None \<Rightarrow> None | Some _ \<Rightarrow> Some (ErrOther ''log compaction''))"
      using fi False d by (simp add: compactLogs_def Let_def)
    have low: "BuntStore_GetLog (r_logs r) i = Inl ErrLogNotFound" if "i < lo" for i
    proof -
      have "i \<notin> dom (bunt_entries (r_logs r))"
        using that Min_le [of "dom (bunt_entries (r_logs r))" i] by (auto simp: lo_def split: if_splits dest: leD)
      then have "bunt_entries (r_logs r) i = None" by blast
      then show ?thesis using bunt_GetLog [OF assms(1)] by simp
    qed
    show ?thesis
    proof (cases err)
      case (Some e)
      with bunt_logs.DeleteRange_fail [OF assms(1)] d have "bunt_inv b" "bunt_entries b = bunt_entries (r_logs r)" by auto
      with c Some assms(1) show ?thesis by (simp add: bunt_GetLog)
    next
      case None
      with d have d: "DeleteRange bunt_log_store (r_logs r) lo ?hi = Ret (b, None)" by simp
      have b: "bunt_inv b" using bunt_logs.DeleteRange [OF assms(1) d] by blast
      have g: "BuntStore_GetLog b i = (if lo \<le> i \<and> i \<le> ?hi then Inl ErrLogNotFound else BuntStore_GetLog (r_logs r) i)" for i
        using bunt_logs.get_after_delete [OF assms(1) d, of i] by (simp add: bunt_log_store_def)
      have "BuntStore_GetLog b i = Inl ErrLogNotFound" if "i \<le> ?hi" for i
        using g [of i] low [of i] that by (cases "lo \<le> i") auto
      moreover have "BuntStore_GetLog b i = BuntStore_GetLog (r_logs r) i"
        if "snapIdx < i \<or> r_lastLogIndex r - TrailingLogs (r_conf r) < i" for i
        using g [of i] that by (auto dest: leD)
      ultimately show ?thesis using c None b False by auto
    qed
  qed
qed

theorem compactLogs_keeps_tail_witness:
  "\<exists>r' err. compactLogs demo_env 3 (demo_node demo_bunt 20000 1) = Ret (r', err) \<and> bunt_inv (r_logs r')"
  using compactLogs_keeps_tail [of "demo_node demo_bunt 20000 1" 3 demo_snapshots demo_peerStore demo_wire]
  by (auto simp: demo_node_def demo_bunt_inv)

text \<open>
  A node restarted from its stores (that is not told to start as leader) is a follower in
  the term it had on disk, with its recorded vote intact, so a crash cannot make it vote twice
  in a term.
\<close>

theorem NewRaft_keeps_vote:
  assumes "bunt_inv ss" and "vote_term (bunt_env Sn P W) ss \<le> durable_term (bunt_env Sn P W) ss"
    and "NewRaft (bunt_env Sn P W) F conf addr ls ss sn ps fs = Ret (Inr (r, t))"
  shows "vote_inv (bunt_env Sn P W) bunt_inv r \<and> r_currentTerm r = durable_term (bunt_env Sn P W) ss \<and>
    vote_term (bunt_env Sn P W) (r_stable r) = vote_term (bunt_env Sn P W) ss \<and>
    vote_cand (bunt_env Sn P W) (r_stable r) = vote_cand (bunt_env Sn P W) ss \<and>
    (\<not> StartAsLeader conf \<longrightarrow> r_state r = Follower)"
  using bunt_node.NewRaft_effect [OF assms] by blast

definition demo_fsm :: "(string list, string list, unit) FSM" where
  "demo_fsm = \<lparr>fsm_Apply = \<lambda>s l. (s @ [log_Data l], []), fsm_Snapshot = Inr, fsm_Restore = \<lambda>s b. (s, None),
      fsm_Persist = \<lambda>p sn i. (sn, None)\<rparr>"

theorem NewRaft_keeps_vote_witness:
  "\<exists>r t. NewRaft demo_env demo_fsm DefaultConfig ''a'' demo_bunt demo_bunt () [''a'', ''b''] [] = Ret (Inr (r, t)) \<and>
     r_state r = Follower \<and> r_currentTerm r = 0"
proof -
  have v: "vote_term demo_env demo_bunt \<le> durable_term demo_env demo_bunt"
    by (simp add: vote_term_def durable_term_def demo_stable_reads)
  have t: "durable_term demo_env demo_bunt = 0" by (simp add: durable_term_def demo_stable_reads)
  have c: "ValidateConfig DefaultConfig = None" "\<not> StartAsLeader DefaultConfig"
    by (simp_all add: ValidateConfig_def DefaultConfig_def)
  have l: "LastIndex bunt_log_store demo_bunt = Inr 0"
    by (simp add: bunt_log_store_def BuntStore_LastIndex_def demo_bunt_def index_of_def)
  have p: "ps_Peers demo_peerStore ps = Inr ps" for ps by (simp add: demo_peerStore_def)
  have sn: "sn_List demo_snapshots x = Inr []" for x by (simp add: demo_snapshots_def)
  obtain r t where r: "NewRaft demo_env demo_fsm DefaultConfig ''a'' demo_bunt demo_bunt () [''a'', ''b''] [] = Ret (Inr (r, t))"
    by (simp add: NewRaft_def c l p demo_stable_reads is_not_found_def Let_def demo_setCurrentTerm fresh_node_def
        restoreSnapshot_def sn setLastLog_def setState_def setLeader_def)
  from NewRaft_keeps_vote [OF demo_bunt_inv v r] r t c(2) show ?thesis by auto
qed

section \<open>The interface of the snapshot store\<close>

text \<open>What a client of a snapshot store can see: the list, and what the snapshots in it contain.\<close>

definition snap_view ::
  "'sn SnapshotStore \<Rightarrow> 'sn \<Rightarrow> (raft_error + SnapshotMeta list) \<times> (raft_error + SnapshotMeta \<times> bytes) list" where
  "snap_view S sn = (sn_List S sn, case sn_List S sn of Inl e \<Rightarrow> [] | Inr ms \<Rightarrow> map (\<lambda>m. sn_Open S sn (sm_ID m)) ms)"

text \<open>
  A store in which a snapshot becomes visible only when its sink is closed: creating, writing and cancelling are not seen.
\<close>

locale snapshot_store =
  fixes S :: "'sn SnapshotStore" and ok :: "'sn \<Rightarrow> bool"
  assumes Create_unseen: "ok sn \<Longrightarrow> ok (fst (sn_Create S sn index trm peers)) \<and> snap_view S (fst (sn_Create S sn index trm peers)) = snap_view S sn"
    and Write_unseen: "ok sn \<Longrightarrow> ok (fst (sn_Write S sn i b)) \<and> snap_view S (fst (sn_Write S sn i b)) = snap_view S sn"
    and Cancel_unseen: "ok sn \<Longrightarrow> ok (sn_Cancel S sn i) \<and> snap_view S (sn_Cancel S sn i) = snap_view S sn"
    and Close_ok: "ok sn \<Longrightarrow> ok (fst (sn_Close S sn i))"
begin

lemma copy_unseen:
  assumes "ok sn" and "copy_to_sink S sn i b e = (sn', r)"
  shows "ok sn' \<and> snap_view S sn' = snap_view S sn"
  using Write_unseen [OF assms(1), of i b] assms(2) by (auto simp: copy_to_sink_def split: prod.splits option.splits)

text \<open>A transfer that breaks off, or that has another size than announced, is not seen.\<close>

lemma installSnapshot_unseen:
  assumes "e_snaps E = S" and "ok (r_snapshots r)" and "installSnapshot E F now req data rd_err r t = Ret (r', t', resp, err)"
    and "rd_err \<noteq> None \<or> int (length data) \<noteq> is_Size req"
  shows "\<not> isr_Success resp \<and> t' = t \<and> ok (r_snapshots r') \<and> snap_view S (r_snapshots r') = snap_view S (r_snapshots r)"
proof (cases "is_Term req < r_currentTerm r")
  case True
  then show ?thesis using assms by (auto simp: installSnapshot_def)
next
  case False
  let ?resp = "\<lparr>isr_Term = r_currentTerm r, isr_Success = False\<rparr>"
  let ?raise = "if is_Term req > r_currentTerm r
    then obind (setCurrentTerm E (is_Term req) (setState Follower r)) (\<lambda>r1. Ret (r1, ?resp\<lparr>isr_Term := is_Term req\<rparr>)) else Ret (r, ?resp)"
  obtain r1 resp1 where up: "?raise = Ret (r1, resp1)"
    using assms(3) False by (cases ?raise) (auto simp: installSnapshot_def Let_def)
  then have r1: "r_snapshots r1 = r_snapshots r" "\<not> isr_Success resp1"
    by (auto simp: setCurrentTerm_def setState_def setLeader_def observe_def Let_def split: if_splits prod.splits option.splits)
  define r2 where "r2 = setLeader (DecodePeer (e_trans E) (is_Leader req)) r1"
  have r2: "r_snapshots r2 = r_snapshots r" using r1(1) by (simp add: r2_def setLeader_def observe_def Let_def)
  obtain sn1 c where c: "sn_Create S (r_snapshots r2) (is_LastLogIndex req) (is_LastLogTerm req) (is_Peers req) = (sn1, c)" by force
  have ok1: "ok sn1" "snap_view S sn1 = snap_view S (r_snapshots r)"
    using Create_unseen [of "r_snapshots r2" "is_LastLogIndex req" "is_LastLogTerm req" "is_Peers req"] assms(2) r2 c by simp_all
  note run = assms(3) [unfolded installSnapshot_def Let_def, simplified False if_False, unfolded up, simplified, folded r2_def, unfolded assms(1) c]
  show ?thesis
  proof (cases c)
    case (Inl e)
    then show ?thesis using run ok1 r1(2) by auto
  next
    case (Inr sink)
    obtain sn2 e2 where w: "copy_to_sink S sn1 sink data rd_err = (sn2, e2)" by force
    have ok2: "ok sn2" "snap_view S sn2 = snap_view S (r_snapshots r)" using copy_unseen [OF ok1(1) w] ok1(2) by simp_all
    have "e2 \<noteq> None \<or> int (length data) \<noteq> is_Size req"
      using w assms(4) by (auto simp: copy_to_sink_def split: prod.splits option.splits)
    then have "r' = r2\<lparr>r_snapshots := sn_Cancel S sn2 sink\<rparr> \<and> t' = t \<and> resp = resp1" using run Inr w by (cases e2) auto
    then show ?thesis using Cancel_unseen [OF ok2(1), of sink] ok2(2) r1(2) by simp
  qed
qed

end

end
