(* ===== verification/Raft_Server.thy ===== *)
theory Raft_Server
  imports Raft_Snapshot
begin

text \<open>
  The main goroutine as a state machine (\<open>raft/raft.go\<close>: \<open>run\<close>, \<open>runFollower\<close>,
  \<open>runCandidate\<close>, \<open>runLeader\<close>, \<open>leaderLoop\<close>, \<open>processRPC\<close>,
  \<open>processHeartbeat\<close>): each case of each \<open>select\<close> is a step on the node, the
  state-machine goroutine and the local variables of the loop the main goroutine sits in.
\<close>

section \<open>Remote calls\<close>

datatype RPC =
    RPC_AppendEntries AppendEntriesRequest
  | RPC_RequestVote RequestVoteRequest
  | RPC_InstallSnapshot InstallSnapshotRequest bytes "raft_error option"
  | RPC_Other

datatype RPCResponse =
    Resp_AppendEntries AppendEntriesResponse
  | Resp_RequestVote RequestVoteResponse
  | Resp_InstallSnapshot InstallSnapshotResponse "raft_error option"
  | Resp_Error raft_error

definition processRPC ::
  "('ls, 'ss, 'sn, 'ps) env \<Rightarrow> ('fs, 'fp, 'sn) FSM \<Rightarrow> int \<Rightarrow> RPC \<Rightarrow> ('ls, 'ss, 'sn, 'ps) Raft \<Rightarrow> 'fs fsmThread \<Rightarrow>
   (('ls, 'ss, 'sn, 'ps) Raft \<times> 'fs fsmThread \<times> RPCResponse) outcome" where
  "processRPC E F now rpc r t =
     (case rpc of
        RPC_AppendEntries a \<Rightarrow> obind (appendEntries E now a r) (\<lambda>(r1, resp). Ret (r1, t, Resp_AppendEntries resp))
      | RPC_RequestVote req \<Rightarrow> obind (requestVote E now req r) (\<lambda>(r1, resp). Ret (r1, t, Resp_RequestVote resp))
      | RPC_InstallSnapshot req data rd_err \<Rightarrow>
          obind (installSnapshot E F now req data rd_err r t) (\<lambda>(r1, t1, resp, err). Ret (r1, t1, Resp_InstallSnapshot resp err))
      | RPC_Other \<Rightarrow> Ret (r, t, Resp_Error (ErrOther ''unexpected command'')))"

text \<open>The fast path for heartbeats, called by the transport's goroutine. \<open>None\<close>: no answer is sent.\<close>

definition processHeartbeat ::
  "('ls, 'ss, 'sn, 'ps) env \<Rightarrow> int \<Rightarrow> RPC \<Rightarrow> ('ls, 'ss, 'sn, 'ps) Raft \<Rightarrow>
   (('ls, 'ss, 'sn, 'ps) Raft \<times> RPCResponse option) outcome" where
  "processHeartbeat E now rpc r =
     (if r_shutdown r then Ret (r, None)
      else (case rpc of
              RPC_AppendEntries a \<Rightarrow> obind (appendEntries E now a r) (\<lambda>(r1, resp). Ret (r1, Some (Resp_AppendEntries resp)))
            | _ \<Rightarrow> Ret (r, Some (Resp_Error (ErrOther ''unexpected command'')))))"

section \<open>The loops and their events\<close>

text \<open>
  What a \<open>select\<close> can receive: a call, entries from \<open>applyCh\<close> (the leader gathers a
  batch), a verification, a peer set, the timers, a vote, the step-down and commit signals, or
  the shutdown.
\<close>

datatype event =
    Ev_rpc RPC
  | Ev_apply "logFuture list"
  | Ev_verify nat
  | Ev_peers nat "string list"
  | Ev_heartbeatTimer
  | Ev_vote RequestVoteResponse
  | Ev_electionTimer
  | Ev_stepDown
  | Ev_commit
  | Ev_lease
  | Ev_shutdown

text \<open>The local variables of \<open>runCandidate\<close>: the vote channel with its request (nil when the
  node could not persist its own vote) and the tally.\<close>

record candidacy =
  cd_req :: RequestVoteRequest
  cd_voteCh :: bool
  cd_grantedVotes :: int
  cd_votesNeeded :: int

datatype mode = Following | Standing candidacy | Leading bool | Stopped

record ('ls, 'ss, 'sn, 'ps, 'fs) server =
  sv_raft :: "('ls, 'ss, 'sn, 'ps) Raft"
  sv_fsm :: "'fs fsmThread"
  sv_mode :: mode

text \<open>What a step gives to the outside: an answer, the request of a new candidacy with whether the
  node has its own vote, and the term in which it has just won.\<close>

record step_output =
  o_reply :: "RPCResponse option"
  o_elect :: "(RequestVoteRequest \<times> bool) option"
  o_won :: "uint64 option"

abbreviation silent :: step_output where
  "silent \<equiv> \<lparr>o_reply = None, o_elect = None, o_won = None\<rparr>"

definition reject_all ::
  "logFuture list \<Rightarrow> ('ls, 'ss, 'sn, 'ps) Raft \<Rightarrow> ('ls, 'ss, 'sn, 'ps) Raft" where
  "reject_all fs r = r\<lparr>r_answers := respond_all fs (Some ErrNotLeader) (r_answers r)\<rparr>"

text \<open>\<open>case p := <-r.peerCh\<close> outside the leader loop.\<close>

definition set_peers ::
  "('ls, 'ss, 'sn, 'ps) env \<Rightarrow> nat \<Rightarrow> string list \<Rightarrow> ('ls, 'ss, 'sn, 'ps) Raft \<Rightarrow> ('ls, 'ss, 'sn, 'ps) Raft" where
  "set_peers E ch ps r =
     (let (store, err) = ps_SetPeers (e_peers E) (r_peerStore r) ps
      in answer (Some ch) err (r\<lparr>r_peers := ExcludePeer ps (r_localAddr r), r_peerStore := store\<rparr>))"

text \<open>One turn of \<open>runFollower\<close>; the flag says that the function returns.\<close>

definition follower_step ::
  "('ls, 'ss, 'sn, 'ps) env \<Rightarrow> ('fs, 'fp, 'sn) FSM \<Rightarrow> int \<Rightarrow> event \<Rightarrow> ('ls, 'ss, 'sn, 'ps) Raft \<Rightarrow> 'fs fsmThread \<Rightarrow>
   (('ls, 'ss, 'sn, 'ps) Raft \<times> 'fs fsmThread \<times> RPCResponse option \<times> bool) outcome" where
  "follower_step E F now ev r t =
     (case ev of
        Ev_rpc rpc \<Rightarrow> obind (processRPC E F now rpc r t) (\<lambda>(r1, t1, resp). Ret (r1, t1, Some resp, False))
      | Ev_apply fs \<Rightarrow> Ret (reject_all fs r, t, None, False)
      | Ev_verify v \<Rightarrow> Ret (answer (Some v) (Some ErrNotLeader) r, t, None, False)
      | Ev_peers ch ps \<Rightarrow> Ret (set_peers E ch ps r, t, None, False)
      | Ev_heartbeatTimer \<Rightarrow>
          if now - r_lastContact r < HeartbeatTimeout (r_conf r) then Ret (r, t, None, False)
          else let r1 = setLeader [] r
               in if length (r_peers r1) = 0 \<and> \<not> EnableSingleNode (r_conf r1) then Ret (r1, t, None, False)
                  else Ret (setState Candidate r1, t, None, True)
      | Ev_shutdown \<Rightarrow> Ret (r, t, None, r_shutdown r)
      | _ \<Rightarrow> Ret (r, t, None, False))"

text \<open>The case \<open>vote := <-voteCh\<close> of \<open>runCandidate\<close>.\<close>

definition count_vote ::
  "('ls, 'ss, 'sn, 'ps) env \<Rightarrow> RequestVoteResponse \<Rightarrow> candidacy \<Rightarrow> ('ls, 'ss, 'sn, 'ps) Raft \<Rightarrow>
   (('ls, 'ss, 'sn, 'ps) Raft \<times> candidacy \<times> bool) outcome" where
  "count_vote E vote cd r =
     (if rvr_Term vote > r_currentTerm r
      then obind (setCurrentTerm E (rvr_Term vote) (setState Follower r)) (\<lambda>r1. Ret (r1, cd, True))
      else let cd1 = (if rvr_Granted vote then cd\<lparr>cd_grantedVotes := cd_grantedVotes cd + 1\<rparr> else cd)
           in if cd_grantedVotes cd1 \<ge> cd_votesNeeded cd1
              then Ret (setLeader (r_localAddr r) (setState Leader r), cd1, True)
              else Ret (r, cd1, False))"

definition candidate_step ::
  "('ls, 'ss, 'sn, 'ps) env \<Rightarrow> ('fs, 'fp, 'sn) FSM \<Rightarrow> int \<Rightarrow> event \<Rightarrow> candidacy \<Rightarrow> ('ls, 'ss, 'sn, 'ps) Raft \<Rightarrow> 'fs fsmThread \<Rightarrow>
   (('ls, 'ss, 'sn, 'ps) Raft \<times> 'fs fsmThread \<times> candidacy \<times> RPCResponse option \<times> bool) outcome" where
  "candidate_step E F now ev cd r t =
     (case ev of
        Ev_rpc rpc \<Rightarrow> obind (processRPC E F now rpc r t) (\<lambda>(r1, t1, resp). Ret (r1, t1, cd, Some resp, False))
      | Ev_vote vote \<Rightarrow>
          if cd_voteCh cd then obind (count_vote E vote cd r) (\<lambda>(r1, cd1, done). Ret (r1, t, cd1, None, done))
          else Ret (r, t, cd, None, False)
      | Ev_apply fs \<Rightarrow> Ret (reject_all fs r, t, cd, None, False)
      | Ev_verify v \<Rightarrow> Ret (answer (Some v) (Some ErrNotLeader) r, t, cd, None, False)
      | Ev_peers ch ps \<Rightarrow> Ret (setState Follower (set_peers E ch ps r), t, cd, None, True)
      | Ev_electionTimer \<Rightarrow> Ret (r, t, cd, None, True)
      | Ev_shutdown \<Rightarrow> Ret (r, t, cd, None, r_shutdown r)
      | _ \<Rightarrow> Ret (r, t, cd, None, False))"

text \<open>The two signals of the leader state are received only when a token waits in them.\<close>

definition take_stepDown :: "('ls, 'ss, 'sn, 'ps) Raft \<Rightarrow> ('ls, 'ss, 'sn, 'ps) Raft" where
  "take_stepDown r =
     (case r_leaderState r of
        None \<Rightarrow> r
      | Some ls \<Rightarrow> if sig_pending (ls_stepDown ls)
                   then setState Follower (r\<lparr>r_leaderState := Some (ls\<lparr>ls_stepDown := (ls_stepDown ls)\<lparr>sig_pending := False\<rparr>\<rparr>)\<rparr>)
                   else r)"

definition commit_pending :: "('ls, 'ss, 'sn, 'ps) Raft \<Rightarrow> bool" where
  "commit_pending r = (case r_leaderState r of None \<Rightarrow> False | Some ls \<Rightarrow> sig_pending (commitCh (ls_inflight ls)))"

definition leader_step ::
  "('ls, 'ss, 'sn, 'ps) env \<Rightarrow> ('fs, 'fp, 'sn) FSM \<Rightarrow> int \<Rightarrow> event \<Rightarrow> bool \<Rightarrow> ('ls, 'ss, 'sn, 'ps) Raft \<Rightarrow> 'fs fsmThread \<Rightarrow>
   (('ls, 'ss, 'sn, 'ps) Raft \<times> 'fs fsmThread \<times> bool \<times> RPCResponse option \<times> bool) outcome" where
  "leader_step E F now ev stepDown r t =
     (case ev of
        Ev_rpc rpc \<Rightarrow> obind (processRPC E F now rpc r t) (\<lambda>(r1, t1, resp). Ret (r1, t1, stepDown, Some resp, False))
      | Ev_stepDown \<Rightarrow> Ret (take_stepDown r, t, stepDown, None, False)
      | Ev_commit \<Rightarrow>
          obind (if commit_pending r then leader_commit E now r else Ret r) (\<lambda>r1. Ret (r1, t, stepDown, None, False))
      | Ev_verify v \<Rightarrow> obind (leader_verify v r) (\<lambda>r1. Ret (r1, t, stepDown, None, False))
      | Ev_peers ch ps \<Rightarrow> Ret (answer (Some ch) (Some ErrLeader) r, t, stepDown, None, False)
      | Ev_apply fs \<Rightarrow> obind (leader_apply E now fs stepDown r) (\<lambda>(r1, sd). Ret (r1, t, sd, None, False))
      | Ev_lease \<Rightarrow> Ret (fst (checkLeaderLease now r), t, stepDown, None, False)
      | Ev_shutdown \<Rightarrow> Ret (r, t, stepDown, None, r_shutdown r)
      | _ \<Rightarrow> Ret (r, t, stepDown, None, False))"

section \<open>The outer loop\<close>

text \<open>
  \<open>run\<close> at the top of its loop: stop after a shutdown, otherwise enter the loop of the state.
  A leader whose first entry cannot be stored leaves its loop at once.
\<close>

definition enter_mode ::
  "('ls, 'ss, 'sn, 'ps) env \<Rightarrow> int \<Rightarrow> ('ls, 'ss, 'sn, 'ps) Raft \<Rightarrow>
   (('ls, 'ss, 'sn, 'ps) Raft \<times> mode \<times> (RequestVoteRequest \<times> bool) option) outcome" where
  "enter_mode E now r =
     (if r_shutdown r then Ret (setLeader [] r, Stopped, None)
      else (case r_state r of
        Follower \<Rightarrow> Ret (r, Following, None)
      | Candidate \<Rightarrow> obind (electSelf E r) (\<lambda>(r1, req, voted).
          Ret (r1, Standing \<lparr>cd_req = req, cd_voteCh = voted, cd_grantedVotes = 0, cd_votesNeeded = quorumSize r1\<rparr>, Some (req, voted)))
      | Leader \<Rightarrow> obind (runLeader_enter E now r) (\<lambda>r1.
          if r_state r1 = Leader then Ret (r1, Leading False, None)
          else obind (runLeader_exit now r1) (\<lambda>r2. Ret (r2, Following, None)))
      | Shutdown \<Rightarrow> Ret (r, Stopped, None)))"

definition server_step ::
  "('ls, 'ss, 'sn, 'ps) env \<Rightarrow> ('fs, 'fp, 'sn) FSM \<Rightarrow> int \<Rightarrow> event \<Rightarrow> ('ls, 'ss, 'sn, 'ps, 'fs) server \<Rightarrow>
   (('ls, 'ss, 'sn, 'ps, 'fs) server \<times> step_output) outcome" where
  "server_step E F now ev sv =
     (case sv_mode sv of
        Stopped \<Rightarrow> Ret (sv, silent)
      | Following \<Rightarrow>
          obind (follower_step E F now ev (sv_raft sv) (sv_fsm sv)) (\<lambda>(r1, t1, reply, done).
            if \<not> done then Ret (\<lparr>sv_raft = r1, sv_fsm = t1, sv_mode = Following\<rparr>, silent\<lparr>o_reply := reply\<rparr>)
            else obind (enter_mode E now r1) (\<lambda>(r2, m, el).
              Ret (\<lparr>sv_raft = r2, sv_fsm = t1, sv_mode = m\<rparr>, \<lparr>o_reply = reply, o_elect = el, o_won = None\<rparr>)))
      | Standing cd \<Rightarrow>
          obind (candidate_step E F now ev cd (sv_raft sv) (sv_fsm sv)) (\<lambda>(r1, t1, cd1, reply, done).
            if \<not> done \<and> r_state r1 = Candidate
            then Ret (\<lparr>sv_raft = r1, sv_fsm = t1, sv_mode = Standing cd1\<rparr>, silent\<lparr>o_reply := reply\<rparr>)
            else obind (enter_mode E now r1) (\<lambda>(r2, m, el).
              Ret (\<lparr>sv_raft = r2, sv_fsm = t1, sv_mode = m\<rparr>,
                   \<lparr>o_reply = reply, o_elect = el, o_won = (if r_state r1 = Leader then Some (r_currentTerm r1) else None)\<rparr>)))
      | Leading stepDown \<Rightarrow>
          obind (leader_step E F now ev stepDown (sv_raft sv) (sv_fsm sv)) (\<lambda>(r1, t1, sd1, reply, done).
            if \<not> done \<and> r_state r1 = Leader
            then Ret (\<lparr>sv_raft = r1, sv_fsm = t1, sv_mode = Leading sd1\<rparr>, silent\<lparr>o_reply := reply\<rparr>)
            else obind (runLeader_exit now r1) (\<lambda>r2.
                 obind (enter_mode E now r2) (\<lambda>(r3, m, el).
                   Ret (\<lparr>sv_raft = r3, sv_fsm = t1, sv_mode = m\<rparr>, \<lparr>o_reply = reply, o_elect = el, o_won = None\<rparr>)))))"

section \<open>One step and the vote\<close>

text \<open>Evidence of a vote that no later vote of the node can contradict.\<close>

definition recorded :: "('ls, 'ss, 'sn, 'ps) env \<Rightarrow> 'ss \<Rightarrow> uint64 \<Rightarrow> bytes \<Rightarrow> bool" where
  "recorded E s t c \<longleftrightarrow> t < vote_term E s \<or> t = vote_term E s \<and> vote_cand E s = Some c"

lemma vote_advances_trans: "vote_advances E a b \<Longrightarrow> vote_advances E b c \<Longrightarrow> vote_advances E a c"
  unfolding vote_advances_def by (elim disjE) auto

lemma recorded_advances: "recorded E s t c \<Longrightarrow> vote_advances E s s' \<Longrightarrow> recorded E s' t c"
  unfolding recorded_def vote_advances_def by (elim disjE) auto

text \<open>A vote just given: it is recorded, and nothing else had been recorded for its term.\<close>

definition new_vote :: "('ls, 'ss, 'sn, 'ps) env \<Rightarrow> 'ss \<Rightarrow> 'ss \<Rightarrow> uint64 \<Rightarrow> bytes \<Rightarrow> bool" where
  "new_vote E s s' t c \<longleftrightarrow> recorded E s' t c \<and> (\<forall>c'. recorded E s t c' \<longrightarrow> c' = c)"

lemma new_voteI:
  assumes "vote_advances E s s'" and "vote_term E s' = t" and "vote_cand E s' = Some c"
  shows "new_vote E s s' t c"
proof -
  have post: "recorded E s' t c" using assms(2,3) by (simp add: recorded_def)
  have "c' = c" if rec: "recorded E s t c'" for c'
  proof -
    from recorded_advances [OF rec assms(1)] have "recorded E s' t c'" .
    with assms(2,3) show ?thesis by (simp add: recorded_def)
  qed
  with post show ?thesis unfolding new_vote_def by blast
qed

lemma keeps_vote_advances: "keeps_vote E r r' \<Longrightarrow> vote_advances E (r_stable r) (r_stable r')"
  by (simp add: keeps_vote_def vote_advances_def)

text \<open>
  The effect of a handler on the role: the term does not go back, the vote only advances, and
  being candidate or leader afterwards means having been so before, in the same term.
\<close>

definition role_step :: "('ls, 'ss, 'sn, 'ps) env \<Rightarrow> ('ss \<Rightarrow> bool) \<Rightarrow> ('ls, 'ss, 'sn, 'ps) Raft \<Rightarrow> ('ls, 'ss, 'sn, 'ps) Raft \<Rightarrow> bool" where
  "role_step E ok r r' \<longleftrightarrow> vote_inv E ok r' \<and> vote_advances E (r_stable r) (r_stable r') \<and>
     r_currentTerm r \<le> r_currentTerm r' \<and> r_localAddr r' = r_localAddr r \<and>
     (r_state r' = Candidate \<or> r_state r' = Leader \<longrightarrow> r_state r' = r_state r \<and> r_currentTerm r' = r_currentTerm r)"

lemma role_step_trans: "role_step E ok a b \<Longrightarrow> role_step E ok b c \<Longrightarrow> role_step E ok a c"
  unfolding role_step_def by (auto intro: vote_advances_trans)

lemma role_stepI: "vote_inv E ok r \<Longrightarrow> same_role r r' \<Longrightarrow> role_step E ok r r'"
  using same_role_vote_inv [of r r' E ok]
  by (auto simp: role_step_def same_role_def)

text \<open>
  How the loop the main goroutine sits in and the state of the node belong together. A heartbeat on the fast path may have
  made a follower of a node whose main goroutine still waits as candidate or as leader, but must not have moved the term of a candidate.
\<close>

definition mode_ok :: "('ls, 'ss, 'sn, 'ps) Raft \<Rightarrow> mode \<Rightarrow> bool" where
  "mode_ok r m \<longleftrightarrow>
     (case m of
        Following \<Rightarrow> r_state r \<noteq> Candidate \<and> r_state r \<noteq> Leader
      | Standing cd \<Rightarrow> r_state r \<noteq> Leader \<and> rv_Term (cd_req cd) = r_currentTerm r
      | Leading sd \<Rightarrow> r_state r \<noteq> Candidate
      | Stopped \<Rightarrow> True)"

context raft_env
begin

lemma processRPC_role:
  assumes "vote_inv E ss_inv r" and "processRPC E F now rpc r t = Ret (r', t', resp)"
  shows "role_step E ss_inv r r' \<and>
    (\<forall>req vr. rpc = RPC_RequestVote req \<longrightarrow> resp = Resp_RequestVote vr \<longrightarrow> rvr_Granted vr \<longrightarrow>
       new_vote E (r_stable r) (r_stable r') (rv_Term req) (rv_Candidate req))"
proof (cases rpc)
  case (RPC_AppendEntries a)
  with assms(2) obtain x where "appendEntries E now a r = Ret (r', x)" by (auto simp: processRPC_def obind_pair_Ret_iff)
  from appendEntries_keeps_vote [OF assms(1) this] RPC_AppendEntries show ?thesis
    by (auto simp: role_step_def keeps_vote_def vote_advances_def)
next
  case (RPC_RequestVote req)
  with assms(2) obtain x where x: "requestVote E now req r = Ret (r', x)" and "resp = Resp_RequestVote x"
    by (auto simp: processRPC_def obind_pair_Ret_iff)
  note eff = requestVote_effect [OF assms(1) x]
  have "new_vote E (r_stable r) (r_stable r') (rv_Term req) (rv_Candidate req)" if "rvr_Granted x"
    using eff that assms(1) by (intro new_voteI) (auto simp: vote_inv_def)
  with eff \<open>resp = Resp_RequestVote x\<close> RPC_RequestVote show ?thesis by (simp add: role_step_def)
next
  case (RPC_InstallSnapshot req data e)
  with assms(2) obtain x y where "installSnapshot E F now req data e r t = Ret (r', t', x, y)"
    by (auto simp: processRPC_def obind_pair_Ret_iff)
  from installSnapshot_keeps_vote [OF assms(1) this] RPC_InstallSnapshot show ?thesis
    by (auto simp: role_step_def keeps_vote_def vote_advances_def)
next
  case RPC_Other
  with assms show ?thesis by (auto simp: processRPC_def role_step_def)
qed

text \<open>A heartbeat on the fast path: the node is afterwards in the later of the two terms, and keeps its role or becomes a follower.\<close>

lemma appendEntries_term:
  assumes "vote_inv E ss_inv r" and "appendEntries E now a r = Ret (r', resp)"
  shows "r_currentTerm r' = max (r_currentTerm r) (ae_Term a)"
proof -
  have inv: "ss_inv (r_stable r)" "durable_term E (r_stable r) = r_currentTerm r" using assms(1) by (auto simp: vote_inv_def)
  have *: ?thesis if "r_currentTerm r \<le> ae_Term a" "entered E a r r2" "same_role r2 r'" for r2
    using entered_effect [OF inv that(1,2)] that(1,3) by (simp add: same_role_def max_def)
  from assms(2) show ?thesis
  proof (cases rule: appendEntries_cases)
    case stale
    then show ?thesis by (simp add: max.absorb1)
  next
    case mismatch
    show ?thesis using mismatch(1,2) by (rule *) simp
  next
    case (failed r2)
    show ?thesis using failed(1,2) append_new_role [OF failed(3)] by (rule *)
  next
    case (success r2 r3 r4)
    have "same_role r2 r'"
      unfolding success(6) using append_new_role [OF success(4)] update_commit_role [OF success(5)] setLastContact_role same_role_trans by blast
    with success(1,2) show ?thesis by (rule *)
  qed
qed

lemma processHeartbeat_role:
  assumes inv: "vote_inv E ss_inv r" and hb: "processHeartbeat E now (RPC_AppendEntries a) r = Ret (r', resp)"
  shows "role_step E ss_inv r r' \<and> r_currentTerm r' \<le> max (r_currentTerm r) (ae_Term a)"
proof (cases "r_shutdown r")
  case True
  with hb inv show ?thesis by (auto simp: processHeartbeat_def role_step_def)
next
  case False
  with hb obtain x where x: "appendEntries E now a r = Ret (r', x)" by (auto simp: processHeartbeat_def obind_pair_Ret_iff)
  have "role_step E ss_inv r r'"
    using appendEntries_keeps_vote [OF inv x] by (auto simp: role_step_def keeps_vote_def vote_advances_def)
  then show ?thesis using appendEntries_term [OF inv x] by simp
qed

lemma answer_role: "same_role r (answer ch err r)"
  by (simp add: answer_def same_role_def)

lemma reject_role: "same_role r (reject_all fs r)"
  by (simp add: reject_all_def same_role_def)

lemma set_peers_role: "same_role r (set_peers E ch ps r)"
  by (simp add: set_peers_def same_role_def answer_def case_prod_unfold Let_def)

lemma take_stepDown_role: "same_role r (take_stepDown r)"
  by (auto simp: take_stepDown_def same_role_def split: option.split)

end

section \<open>The effect of a step of the main goroutine\<close>

text \<open>What never goes back, whatever the step: term, vote, address.\<close>

definition advances :: "('ls, 'ss, 'sn, 'ps) env \<Rightarrow> ('ss \<Rightarrow> bool) \<Rightarrow> ('ls, 'ss, 'sn, 'ps) Raft \<Rightarrow> ('ls, 'ss, 'sn, 'ps) Raft \<Rightarrow> bool" where
  "advances E ok r r' \<longleftrightarrow> vote_inv E ok r' \<and> vote_advances E (r_stable r) (r_stable r') \<and>
     r_currentTerm r \<le> r_currentTerm r' \<and> r_localAddr r' = r_localAddr r"

lemma advances_trans: "advances E ok a b \<Longrightarrow> advances E ok b c \<Longrightarrow> advances E ok a c"
  unfolding advances_def by (auto intro: vote_advances_trans)

lemma role_step_advances: "role_step E ok r r' \<Longrightarrow> advances E ok r r'"
  by (simp add: role_step_def advances_def)

text \<open>An answer that grants a vote rests on a recorded vote.\<close>

definition grant_recorded ::
  "('ls, 'ss, 'sn, 'ps) env \<Rightarrow> event \<Rightarrow> RPCResponse option \<Rightarrow> ('ls, 'ss, 'sn, 'ps) Raft \<Rightarrow> ('ls, 'ss, 'sn, 'ps) Raft \<Rightarrow> bool" where
  "grant_recorded E ev reply r r' \<longleftrightarrow>
     (\<forall>req vr. ev = Ev_rpc (RPC_RequestVote req) \<longrightarrow> reply = Some (Resp_RequestVote vr) \<longrightarrow> rvr_Granted vr \<longrightarrow>
        new_vote E (r_stable r) (r_stable r') (rv_Term req) (rv_Candidate req))"

lemma grant_recorded_advances:
  "grant_recorded E ev reply r r' \<Longrightarrow> advances E ok r' r'' \<Longrightarrow> grant_recorded E ev reply r r''"
  by (auto simp: grant_recorded_def new_vote_def advances_def intro: recorded_advances)

lemma grant_recorded_silent [simp]: "grant_recorded E ev None r r'"
  by (simp add: grant_recorded_def)

text \<open>How a vote changes the tally, and when it decides the election.\<close>

definition tally_step :: "event \<Rightarrow> candidacy \<Rightarrow> candidacy \<Rightarrow> bool" where
  "tally_step ev cd cd' \<longleftrightarrow> cd_req cd' = cd_req cd \<and> cd_votesNeeded cd' = cd_votesNeeded cd \<and> cd_voteCh cd' = cd_voteCh cd \<and>
     (cd_grantedVotes cd' = cd_grantedVotes cd \<or>
      (\<exists>vote. ev = Ev_vote vote \<and> rvr_Granted vote \<and> cd_voteCh cd \<and> cd_grantedVotes cd' = cd_grantedVotes cd + 1))"

definition wins :: "event \<Rightarrow> candidacy \<Rightarrow> bool" where
  "wins ev cd \<longleftrightarrow> (\<exists>vote. ev = Ev_vote vote \<and> cd_voteCh cd \<and>
     cd_votesNeeded cd \<le> cd_grantedVotes cd + (if rvr_Granted vote then 1 else 0))"

context raft_env
begin

lemma follower_step_quiet:
  assumes "\<And>rpc. ev \<noteq> Ev_rpc rpc" and "ev \<noteq> Ev_heartbeatTimer" and "follower_step E F now ev r t = Ret (r', t', reply, done)"
  shows "same_role r r' \<and> reply = None"
  using assms by (cases ev) (auto simp: follower_step_def answer_role reject_role set_peers_role)

lemma candidate_step_quiet:
  assumes "\<And>rpc. ev \<noteq> Ev_rpc rpc" and "\<And>vote. ev \<noteq> Ev_vote vote" and "candidate_step E F now ev cd r t = Ret (r', t', cd', reply, done)"
  shows "same_role r r' \<and> reply = None \<and> cd' = cd"
proof (cases ev)
  case (Ev_peers ch ps)
  with assms(3) set_peers_role [of r ch ps] show ?thesis by (auto simp: candidate_step_def same_role_def)
qed (use assms in \<open>auto simp: candidate_step_def answer_role reject_role\<close>)

lemma leader_step_quiet:
  assumes "\<And>rpc. ev \<noteq> Ev_rpc rpc" and "leader_step E F now ev sd r t = Ret (r', t', sd', reply, done)"
  shows "same_role r r' \<and> reply = None"
proof (cases ev)
  case Ev_lease
  with assms(2) have "r' = fst (checkLeaderLease now r)" "reply = None" by (auto simp: leader_step_def)
  with checkLeaderLease_role [of now r r' "snd (checkLeaderLease now r)"] show ?thesis by simp
next
  case Ev_commit
  with assms(2) have "(if commit_pending r then leader_commit E now r else Ret r) = Ret r'" "reply = None"
    by (auto simp: leader_step_def)
  with leader_commit_role [of E now r r'] show ?thesis by (auto split: if_splits)
next
  case (Ev_apply fs)
  with assms(2) have "leader_apply E now fs sd r = Ret (r', sd')" "reply = None"
    by (auto simp: leader_step_def obind_pair_Ret_iff)
  with leader_apply_role show ?thesis by blast
next
  case (Ev_verify v)
  with assms(2) have "leader_verify v r = Ret r'" "reply = None" by (auto simp: leader_step_def)
  with leader_verify_role show ?thesis by blast
qed (use assms in \<open>auto simp: leader_step_def answer_role take_stepDown_role\<close>)

lemma follower_step_effect:
  assumes inv: "vote_inv E ss_inv r" and st: "r_state r \<noteq> Candidate \<and> r_state r \<noteq> Leader"
    and step: "follower_step E F now ev r t = Ret (r', t', reply, done)"
  shows "advances E ss_inv r r' \<and> grant_recorded E ev reply r r' \<and> r_state r' \<noteq> Leader \<and> (\<not> done \<longrightarrow> r_state r' \<noteq> Candidate)"
proof -
  have same: ?thesis if "same_role r r'" "reply = None"
    using role_stepI [OF inv that(1)] that st by (auto simp: advances_def role_step_def)
  consider rpc where "ev = Ev_rpc rpc" | "ev = Ev_heartbeatTimer" | "same_role r r' \<and> reply = None"
    using follower_step_quiet [OF _ _ step] by blast
  then show ?thesis
  proof cases
    case (1 rpc)
    with step obtain x where x: "processRPC E F now rpc r t = Ret (r', t', x)" "reply = Some x"
      by (auto simp: follower_step_def obind_pair_Ret_iff)
    from processRPC_role [OF inv x(1)] x(2) st 1 show ?thesis
      by (auto simp: role_step_def advances_def grant_recorded_def)
  next
    case 2
    with step have "r' = r \<or> r' = setLeader [] r \<or> r' = setState Candidate (setLeader [] r) \<and> done" "reply = None"
      by (auto simp: follower_step_def Let_def split: if_splits)
    with inv st show ?thesis by (auto simp: advances_def vote_inv_def)
  next
    case 3
    with same show ?thesis by blast
  qed
qed

lemma count_vote_effect:
  assumes inv: "vote_inv E ss_inv r" and step: "count_vote E vote cd r = Ret (r', cd', done)"
  shows "advances E ss_inv r r' \<and> cd_req cd' = cd_req cd \<and> cd_votesNeeded cd' = cd_votesNeeded cd \<and> cd_voteCh cd' = cd_voteCh cd \<and>
    (\<not> done \<longrightarrow> r' = r) \<and>
    (cd_grantedVotes cd' = cd_grantedVotes cd + (if rvr_Granted vote then 1 else 0) \<or> done) \<and>
    (done \<longrightarrow> r_state r' = Follower \<or> r_state r' = Leader \<and> r_currentTerm r' = r_currentTerm r \<and>
       cd_votesNeeded cd \<le> cd_grantedVotes cd + (if rvr_Granted vote then 1 else 0))"
proof (cases "rvr_Term vote > r_currentTerm r")
  case True
  with step obtain r1 where "setCurrentTerm E (rvr_Term vote) (setState Follower r) = Ret r1" "r' = r1" "cd' = cd" "done"
    by (auto simp: count_vote_def)
  moreover from this keeps_vote_term [of r "rvr_Term vote" r1] inv True have
    "keeps_vote E r r1 \<and> ss_inv (r_stable r1) \<and> durable_term E (r_stable r1) = r_currentTerm r1"
    by (auto simp: vote_inv_def)
  moreover from calculation have "r_state r1 = Follower"
    by (auto simp: setCurrentTerm_def split: prod.splits option.splits)
  ultimately show ?thesis using inv by (auto simp: advances_def keeps_vote_def vote_advances_def vote_inv_def)
next
  case False
  with step inv show ?thesis by (auto simp: count_vote_def Let_def advances_def vote_inv_def split: if_splits)
qed

lemma candidate_step_effect:
  assumes inv: "vote_inv E ss_inv r" and st: "r_state r \<noteq> Leader"
    and step: "candidate_step E F now ev cd r t = Ret (r', t', cd', reply, done)"
  shows "advances E ss_inv r r' \<and> grant_recorded E ev reply r r' \<and>
    (r_state r' = Candidate \<longrightarrow> r_currentTerm r' = r_currentTerm r \<and> (\<not> done \<longrightarrow> tally_step ev cd cd')) \<and>
    (r_state r' = Leader \<longrightarrow> r_currentTerm r' = r_currentTerm r \<and> wins ev cd)"
proof -
  have same: ?thesis if "same_role r r'" "reply = None" "cd' = cd"
    using role_stepI [OF inv that(1)] that st by (auto simp: advances_def role_step_def tally_step_def)
  consider (rpc) rpc where "ev = Ev_rpc rpc" | (vote) vote where "ev = Ev_vote vote" | (quiet) "same_role r r' \<and> reply = None \<and> cd' = cd"
    using candidate_step_quiet [OF _ _ step] by blast
  then show ?thesis
  proof cases
    case (rpc rpc)
    with step obtain x where x: "processRPC E F now rpc r t = Ret (r', t', x)" "reply = Some x" "cd' = cd"
      by (auto simp: candidate_step_def obind_pair_Ret_iff)
    from processRPC_role [OF inv x(1)] x(2,3) st rpc show ?thesis
      by (auto simp: role_step_def advances_def grant_recorded_def tally_step_def)
  next
    case (vote vote)
    show ?thesis
    proof (cases "cd_voteCh cd")
      case True
      with vote step have c: "count_vote E vote cd r = Ret (r', cd', done)" "reply = None"
        by (auto simp: candidate_step_def obind_pair_Ret_iff)
      from count_vote_effect [OF inv c(1)] c(2) True vote st show ?thesis
        by (auto simp: tally_step_def wins_def)
    next
      case False
      with vote step same show ?thesis by (auto simp: candidate_step_def)
    qed
  next
    case quiet
    with same show ?thesis by blast
  qed
qed

lemma leader_step_effect:
  assumes inv: "vote_inv E ss_inv r" and st: "r_state r \<noteq> Candidate"
    and step: "leader_step E F now ev sd r t = Ret (r', t', sd', reply, done)"
  shows "advances E ss_inv r r' \<and> grant_recorded E ev reply r r' \<and> r_state r' \<noteq> Candidate \<and>
    (r_state r' = Leader \<longrightarrow> r_currentTerm r' = r_currentTerm r \<and> r_state r = Leader)"
proof -
  have same: ?thesis if "same_role r r'" "reply = None"
    using role_stepI [OF inv that(1)] that st by (auto simp: advances_def role_step_def)
  show ?thesis
  proof (cases "\<exists>rpc. ev = Ev_rpc rpc")
    case True
    then obtain rpc where ev: "ev = Ev_rpc rpc" by blast
    with step obtain x where x: "processRPC E F now rpc r t = Ret (r', t', x)" "reply = Some x"
      by (auto simp: leader_step_def obind_pair_Ret_iff)
    from processRPC_role [OF inv x(1)] x(2) st ev show ?thesis
      by (auto simp: role_step_def advances_def grant_recorded_def)
  next
    case False
    with leader_step_quiet [OF _ step] same show ?thesis by blast
  qed
qed

lemma enter_mode_effect:
  assumes inv: "vote_inv E ss_inv r" and step: "enter_mode E now r = Ret (r', m, el)"
    and ov: "\<And>req v. el = Some (req, v) \<Longrightarrow> rv_Term req \<noteq> 0"
  shows "advances E ss_inv r r' \<and> mode_ok r' m \<and>
    (\<forall>cd. m = Standing cd \<longrightarrow> el = Some (cd_req cd, cd_voteCh cd) \<and> cd_grantedVotes cd = 0 \<and> cd_votesNeeded cd = quorumSize r' \<and>
       rv_Candidate (cd_req cd) = EncodePeer (e_trans E) (r_localAddr r') \<and> r_currentTerm r < rv_Term (cd_req cd) \<and>
       (cd_voteCh cd \<longrightarrow> recorded E (r_stable r') (rv_Term (cd_req cd)) (rv_Candidate (cd_req cd)))) \<and>
    (el \<noteq> None \<longrightarrow> (\<exists>cd. m = Standing cd)) \<and>
    (\<forall>sd. m = Leading sd \<longrightarrow> r_state r = Leader \<and> r_currentTerm r' = r_currentTerm r)"
proof (cases "r_shutdown r")
  case True
  with step inv show ?thesis by (auto simp: enter_mode_def mode_ok_def advances_def vote_inv_def)
next
  case False
  show ?thesis
  proof (cases "r_state r")
    case Candidate
    with False step obtain req voted where e: "electSelf E r = Ret (r', req, voted)" and m: "el = Some (req, voted)"
      "m = Standing \<lparr>cd_req = req, cd_voteCh = voted, cd_grantedVotes = 0, cd_votesNeeded = quorumSize r'\<rparr>"
      by (auto simp: enter_mode_def obind_pair_Ret_iff)
    have tm: "rv_Term req = r_currentTerm r + 1"
      using e by (auto simp: electSelf_def Let_def setCurrentTerm_def case_prod_unfold split: option.splits)
    from tm ov [OF m(1)] have ni: "r_currentTerm r \<noteq> - 1" by auto
    have lt: "r_currentTerm r < r_currentTerm r + 1" using ni by (simp add: word_less_succ)
    note eff = electSelf_effect [OF inv ni e]
    have "advances E ss_inv r r'" using eff order.strict_implies_order [OF lt] by (simp add: advances_def)
    moreover have "mode_ok r' m" using eff m(2) Candidate by (simp add: mode_ok_def)
    moreover have "voted \<longrightarrow> recorded E (r_stable r') (rv_Term req) (rv_Candidate req)" using eff by (simp add: recorded_def)
    moreover have "r_currentTerm r < rv_Term req" using tm lt by simp
    moreover have "rv_Candidate req = EncodePeer (e_trans E) (r_localAddr r')" using eff by simp
    ultimately show ?thesis using m by simp
  next
    case Leader
    with False step obtain r1 where e: "runLeader_enter E now r = Ret r1"
      and rest: "(if r_state r1 = Leader then Ret (r1, Leading False, None)
        else obind (runLeader_exit now r1) (\<lambda>r2. Ret (r2, Following, None))) = Ret (r', m, el)"
      by (auto simp: enter_mode_def)
    have r1: "same_role r r1" using e by (rule runLeader_enter_role)
    show ?thesis
    proof (cases "r_state r1 = Leader")
      case True
      with rest role_stepI [OF inv r1] Leader r1 show ?thesis
        by (auto simp: mode_ok_def role_step_def advances_def same_role_def)
    next
      case False
      with rest obtain x: "runLeader_exit now r1 = Ret r'" "m = Following" "el = None" by auto
      have r2: "same_role r1 r'" using x(1) by (rule runLeader_exit_role)
      have "same_role r r'" using r1 r2 by (rule same_role_trans)
      with role_stepI [OF inv this] x False r1 r2 Leader show ?thesis
        by (auto simp: mode_ok_def role_step_def advances_def same_role_def)
    qed
  qed (use False step inv in \<open>auto simp: enter_mode_def mode_ok_def advances_def\<close>)
qed

end

section \<open>The contract of a step\<close>

text \<open>
  The properties the election argument needs of one step of a server: nothing goes back; a
  granting answer is recorded; a candidacy either goes on with at most one more vote or starts
  afresh in a later term; leadership is kept, or won by a decisive vote in the term of the
  candidacy.
\<close>

definition step_contract ::
  "('ls, 'ss, 'sn, 'ps) env \<Rightarrow> ('ss \<Rightarrow> bool) \<Rightarrow> event \<Rightarrow> ('ls, 'ss, 'sn, 'ps, 'fs) server \<Rightarrow> ('ls, 'ss, 'sn, 'ps, 'fs) server \<Rightarrow>
   step_output \<Rightarrow> bool" where
  "step_contract E ok ev sv sv' out \<longleftrightarrow>
     advances E ok (sv_raft sv) (sv_raft sv') \<and> mode_ok (sv_raft sv') (sv_mode sv') \<and>
     grant_recorded E ev (o_reply out) (sv_raft sv) (sv_raft sv') \<and>
     (o_elect out = None \<longrightarrow> (\<forall>cd'. sv_mode sv' = Standing cd' \<longrightarrow>
        (\<exists>cd. sv_mode sv = Standing cd \<and> tally_step ev cd cd' \<and> r_currentTerm (sv_raft sv') = r_currentTerm (sv_raft sv)))) \<and>
     (\<forall>req voted. o_elect out = Some (req, voted) \<longrightarrow>
        sv_mode sv' = Standing \<lparr>cd_req = req, cd_voteCh = voted, cd_grantedVotes = 0, cd_votesNeeded = quorumSize (sv_raft sv')\<rparr> \<and>
        rv_Candidate req = EncodePeer (e_trans E) (r_localAddr (sv_raft sv')) \<and> r_currentTerm (sv_raft sv) < rv_Term req \<and>
        (voted \<longrightarrow> recorded E (r_stable (sv_raft sv')) (rv_Term req) (rv_Candidate req))) \<and>
     (\<forall>t. o_won out = Some t \<longrightarrow> (\<exists>cd. sv_mode sv = Standing cd \<and> t = rv_Term (cd_req cd) \<and> wins ev cd)) \<and>
     (\<forall>sd'. sv_mode sv' = Leading sd' \<longrightarrow>
        (\<exists>sd. sv_mode sv = Leading sd \<and> r_state (sv_raft sv) = Leader \<and> r_currentTerm (sv_raft sv') = r_currentTerm (sv_raft sv)) \<or>
        o_won out = Some (r_currentTerm (sv_raft sv')))"

context raft_env
begin

lemma entered_contract:
  assumes adv: "advances E ss_inv (sv_raft sv) r1" and rec: "grant_recorded E ev reply (sv_raft sv) r1"
    and ent: "enter_mode E now r1 = Ret (r2, m, el)" and ov: "\<And>req v. el = Some (req, v) \<Longrightarrow> rv_Term req \<noteq> 0"
    and won: "\<And>t. w = Some t \<Longrightarrow> (\<exists>cd. sv_mode sv = Standing cd \<and> t = rv_Term (cd_req cd) \<and> wins ev cd)"
    and lead: "r_state r1 = Leader \<Longrightarrow> (\<exists>sd. sv_mode sv = Leading sd \<and> r_state (sv_raft sv) = Leader \<and> r_currentTerm r1 = r_currentTerm (sv_raft sv)) \<or> w = Some (r_currentTerm r1)"
  shows "step_contract E ss_inv ev sv \<lparr>sv_raft = r2, sv_fsm = t1, sv_mode = m\<rparr> \<lparr>o_reply = reply, o_elect = el, o_won = w\<rparr>"
proof -
  have inv: "vote_inv E ss_inv r1" using adv by (simp add: advances_def)
  note e = enter_mode_effect [OF inv ent ov]
  have a12: "advances E ss_inv r1 r2" using e by blast
  have le: "r_currentTerm (sv_raft sv) \<le> r_currentTerm r1" using adv by (simp add: advances_def)
  have "advances E ss_inv (sv_raft sv) r2" using adv a12 by (rule advances_trans)
  moreover have "grant_recorded E ev reply (sv_raft sv) r2" using rec a12 by (rule grant_recorded_advances)
  moreover have "\<forall>cd'. m \<noteq> Standing cd'" if "el = None" using e that by auto
  moreover have "m = Standing \<lparr>cd_req = req, cd_voteCh = voted, cd_grantedVotes = 0, cd_votesNeeded = quorumSize r2\<rparr> \<and>
      rv_Candidate req = EncodePeer (e_trans E) (r_localAddr r2) \<and> r_currentTerm (sv_raft sv) < rv_Term req \<and>
      (voted \<longrightarrow> recorded E (r_stable r2) (rv_Term req) (rv_Candidate req))" if "el = Some (req, voted)" for req voted
  proof -
    from e that obtain cd where cd: "m = Standing cd" by blast
    with e that have f: "req = cd_req cd" "voted = cd_voteCh cd" "cd_grantedVotes cd = 0" "cd_votesNeeded cd = quorumSize r2"
      "rv_Candidate req = EncodePeer (e_trans E) (r_localAddr r2)" "r_currentTerm r1 < rv_Term req"
      "voted \<longrightarrow> recorded E (r_stable r2) (rv_Term req) (rv_Candidate req)" by auto
    have "m = Standing \<lparr>cd_req = req, cd_voteCh = voted, cd_grantedVotes = 0, cd_votesNeeded = quorumSize r2\<rparr>"
      using f cd by simp
    with f le show ?thesis by auto
  qed
  moreover have "(\<exists>sd. sv_mode sv = Leading sd \<and> r_state (sv_raft sv) = Leader \<and> r_currentTerm r2 = r_currentTerm (sv_raft sv)) \<or> w = Some (r_currentTerm r2)"
    if "m = Leading sd" for sd
    using e that lead by auto
  moreover have "mode_ok r2 m" using e by blast
  ultimately show ?thesis using won
    by (simp only: step_contract_def server.select_convs step_output.select_convs) blast
qed

lemma server_step_contract:
  assumes inv: "vote_inv E ss_inv (sv_raft sv)" and mo: "mode_ok (sv_raft sv) (sv_mode sv)"
    and step: "server_step E F now ev sv = Ret (sv', out)"
    and ov: "\<And>req v. o_elect out = Some (req, v) \<Longrightarrow> rv_Term req \<noteq> 0"
  shows "step_contract E ss_inv ev sv sv' out"
proof (cases "sv_mode sv")
  case Stopped
  with step have "sv' = sv" "out = silent" by (auto simp: server_step_def)
  with inv mo Stopped show ?thesis by (simp add: step_contract_def advances_def)
next
  case Following
  from step Following obtain r1 t1 reply fin where f: "follower_step E F now ev (sv_raft sv) (sv_fsm sv) = Ret (r1, t1, reply, fin)"
    and rest: "(if \<not> fin then Ret (\<lparr>sv_raft = r1, sv_fsm = t1, sv_mode = Following\<rparr>, silent\<lparr>o_reply := reply\<rparr>)
      else obind (enter_mode E now r1) (\<lambda>(r2, m, el).
        Ret (\<lparr>sv_raft = r2, sv_fsm = t1, sv_mode = m\<rparr>, \<lparr>o_reply = reply, o_elect = el, o_won = None\<rparr>))) = Ret (sv', out)"
    by (auto simp: server_step_def)
  have st: "r_state (sv_raft sv) \<noteq> Candidate \<and> r_state (sv_raft sv) \<noteq> Leader" using mo Following by (simp add: mode_ok_def)
  note e = follower_step_effect [OF inv st f]
  show ?thesis
  proof (cases fin)
    case False
    with rest have "sv' = \<lparr>sv_raft = r1, sv_fsm = t1, sv_mode = Following\<rparr>" "out = silent\<lparr>o_reply := reply\<rparr>" by auto
    with e False show ?thesis by (simp add: step_contract_def mode_ok_def)
  next
    case True
    with rest obtain r2 m el where x: "enter_mode E now r1 = Ret (r2, m, el)" "sv' = \<lparr>sv_raft = r2, sv_fsm = t1, sv_mode = m\<rparr>"
      "out = \<lparr>o_reply = reply, o_elect = el, o_won = None\<rparr>" by (auto simp: obind_pair_Ret_iff)
    show ?thesis unfolding x(2,3)
      by (rule entered_contract [OF _ _ x(1)]) (use e ov x(3) in auto)
  qed
next
  case (Standing cd)
  from step Standing obtain r1 t1 cd1 reply fin where f: "candidate_step E F now ev cd (sv_raft sv) (sv_fsm sv) = Ret (r1, t1, cd1, reply, fin)"
    and rest: "(if \<not> fin \<and> r_state r1 = Candidate
      then Ret (\<lparr>sv_raft = r1, sv_fsm = t1, sv_mode = Standing cd1\<rparr>, silent\<lparr>o_reply := reply\<rparr>)
      else obind (enter_mode E now r1) (\<lambda>(r2, m, el).
        Ret (\<lparr>sv_raft = r2, sv_fsm = t1, sv_mode = m\<rparr>,
             \<lparr>o_reply = reply, o_elect = el, o_won = (if r_state r1 = Leader then Some (r_currentTerm r1) else None)\<rparr>))) = Ret (sv', out)"
    by (auto simp: server_step_def)
  have st: "r_state (sv_raft sv) \<noteq> Leader" and tm: "rv_Term (cd_req cd) = r_currentTerm (sv_raft sv)"
    using mo Standing by (simp_all add: mode_ok_def)
  note e = candidate_step_effect [OF inv st f]
  show ?thesis
  proof (cases "\<not> fin \<and> r_state r1 = Candidate")
    case True
    with rest have x: "sv' = \<lparr>sv_raft = r1, sv_fsm = t1, sv_mode = Standing cd1\<rparr>" "out = silent\<lparr>o_reply := reply\<rparr>" by auto
    have "tally_step ev cd cd1" "r_currentTerm r1 = r_currentTerm (sv_raft sv)" using e True by auto
    then show ?thesis using e True x tm Standing by (simp add: step_contract_def mode_ok_def tally_step_def)
  next
    case False
    with rest obtain r2 m el where x: "enter_mode E now r1 = Ret (r2, m, el)" "sv' = \<lparr>sv_raft = r2, sv_fsm = t1, sv_mode = m\<rparr>"
      "out = \<lparr>o_reply = reply, o_elect = el, o_won = (if r_state r1 = Leader then Some (r_currentTerm r1) else None)\<rparr>"
      by (auto simp: obind_pair_Ret_iff split: if_splits)
    show ?thesis unfolding x(2,3)
      by (rule entered_contract [OF _ _ x(1)]) (use e ov x(3) Standing tm in \<open>auto split: if_splits\<close>)
  qed
next
  case (Leading sd)
  from step Leading obtain r1 t1 sd1 reply fin where f: "leader_step E F now ev sd (sv_raft sv) (sv_fsm sv) = Ret (r1, t1, sd1, reply, fin)"
    and rest: "(if \<not> fin \<and> r_state r1 = Leader
      then Ret (\<lparr>sv_raft = r1, sv_fsm = t1, sv_mode = Leading sd1\<rparr>, silent\<lparr>o_reply := reply\<rparr>)
      else obind (runLeader_exit now r1) (\<lambda>r2. obind (enter_mode E now r2) (\<lambda>(r3, m, el).
        Ret (\<lparr>sv_raft = r3, sv_fsm = t1, sv_mode = m\<rparr>, \<lparr>o_reply = reply, o_elect = el, o_won = None\<rparr>)))) = Ret (sv', out)"
    by (auto simp: server_step_def)
  have st: "r_state (sv_raft sv) \<noteq> Candidate" using mo Leading by (simp add: mode_ok_def)
  note e = leader_step_effect [OF inv st f]
  show ?thesis
  proof (cases "\<not> fin \<and> r_state r1 = Leader")
    case True
    with rest have x: "sv' = \<lparr>sv_raft = r1, sv_fsm = t1, sv_mode = Leading sd1\<rparr>" "out = silent\<lparr>o_reply := reply\<rparr>" by auto
    show ?thesis using e True x Leading by (simp add: step_contract_def mode_ok_def)
  next
    case False
    with rest obtain r2 where x2: "runLeader_exit now r1 = Ret r2" and
      rest2: "obind (enter_mode E now r2) (\<lambda>(r3, m, el).
        Ret (\<lparr>sv_raft = r3, sv_fsm = t1, sv_mode = m\<rparr>, \<lparr>o_reply = reply, o_elect = el, o_won = None\<rparr>)) = Ret (sv', out)"
      by (auto split: if_splits)
    then obtain r3 m el where x: "enter_mode E now r2 = Ret (r3, m, el)" "sv' = \<lparr>sv_raft = r3, sv_fsm = t1, sv_mode = m\<rparr>"
      "out = \<lparr>o_reply = reply, o_elect = el, o_won = None\<rparr>" by (auto simp: obind_pair_Ret_iff)
    have inv1: "vote_inv E ss_inv r1" using e by (simp add: advances_def)
    note role = runLeader_exit_role [OF x2]
    have adv: "advances E ss_inv r1 r2" using role_step_advances [OF role_stepI [OF inv1 role]] .
    have "advances E ss_inv (sv_raft sv) r2" "grant_recorded E ev reply (sv_raft sv) r2"
      using e adv advances_trans grant_recorded_advances by blast+
    then show ?thesis unfolding x(2,3)
      by (rule entered_contract [OF _ _ x(1)]) (use e ov x(3) Leading role in \<open>auto simp: same_role_def\<close>)
  qed
qed

end

end
