(* ===== verification/Raft_Election.thy ===== *)
theory Raft_Election
  imports Raft_Server
begin

text \<open>
  Elections in a cluster of nodes that run \<open>raft/raft.go\<close>: the steps of the nodes are
  interleaved, requests and answers may be lost, delayed or repeated, and a node may crash
  between or in the middle of the writes to its stable store and be built again from what the
  store holds. Heartbeats come through the main goroutine or on the fast path, on which the transport's goroutine changes the node while
  the main goroutine waits. Each handler runs to its end before the next one on the same node, and the membership is fixed.
\<close>

section \<open>The cluster\<close>

text \<open>
  Besides the servers, the history of the answers to vote requests (voter, request, answer), of
  the answers a candidate has taken from its vote channel (candidate, term, voter), of the
  elections won, and whether a heartbeat on the fast path has moved a waiting candidate to a later term.
\<close>

record ('ls, 'ss, 'sn, 'ps, 'fs) cluster =
  cl_server :: "string \<Rightarrow> ('ls, 'ss, 'sn, 'ps, 'fs) server"
  cl_answers :: "(string \<times> RequestVoteRequest \<times> RequestVoteResponse) set"
  cl_counted :: "(string \<times> uint64 \<times> string) set"
  cl_elected :: "(uint64 \<times> string) set"
  cl_raced :: bool

text \<open>A node whose peer set is the rest of the fixed membership.\<close>

definition members :: "string set \<Rightarrow> string \<Rightarrow> ('ls, 'ss, 'sn, 'ps) Raft \<Rightarrow> bool" where
  "members C n r \<longleftrightarrow> r_localAddr r = n \<and> distinct (n # r_peers r) \<and> set (n # r_peers r) = C"

definition majority :: "string set \<Rightarrow> int" where
  "majority C = int (card C) div 2 + 1"

lemma members_quorum: "members C n r \<Longrightarrow> quorumSize r = majority C"
proof -
  assume m: "members C n r"
  then have "card (set (n # r_peers r)) = length (n # r_peers r)" by (intro distinct_card) (simp add: members_def)
  then have "card C = length (r_peers r) + 1" using m by (simp only: members_def) simp
  then show ?thesis by (simp add: quorumSize_def majority_def)
qed

text \<open>The vote a candidate puts into its own channel.\<close>

definition own_vote :: "RequestVoteRequest \<Rightarrow> RequestVoteResponse" where
  "own_vote req = \<lparr>rvr_Term = rv_Term req, rvr_Peers = [], rvr_Granted = True\<rparr>"

text \<open>The answers a step gives: to a vote request it received, and to itself when it stands.\<close>

definition given :: "string \<Rightarrow> event \<Rightarrow> step_output \<Rightarrow> (string \<times> RequestVoteRequest \<times> RequestVoteResponse) set" where
  "given n ev out =
     {(n, req, vr) | req vr. ev = Ev_rpc (RPC_RequestVote req) \<and> o_reply out = Some (Resp_RequestVote vr)} \<union>
     {(n, req, own_vote req) | req. o_elect out = Some (req, True)}"

definition absorb ::
  "string \<Rightarrow> event \<Rightarrow> (string \<times> uint64 \<times> string) set \<Rightarrow> ('ls, 'ss, 'sn, 'ps, 'fs) server \<Rightarrow> step_output \<Rightarrow>
   ('ls, 'ss, 'sn, 'ps, 'fs) cluster \<Rightarrow> ('ls, 'ss, 'sn, 'ps, 'fs) cluster" where
  "absorb n ev counted sv' out cl = cl\<lparr>cl_server := (cl_server cl)(n := sv'), cl_answers := cl_answers cl \<union> given n ev out,
     cl_counted := cl_counted cl \<union> counted, cl_elected := cl_elected cl \<union> {(t, n) | t. o_won out = Some t}\<rparr>"

text \<open>
  What the stable store may hold when the process dies in the middle of a step: the writes of
  \<open>setCurrentTerm\<close> and of the first half of \<open>persistVote\<close>, each of which may also have
  failed. (After the second half the step is complete but for its answer, which may be lost.)
\<close>

definition crash_store :: "('ls, 'ss, 'sn, 'ps) env \<Rightarrow> 'ss \<Rightarrow> 'ss \<Rightarrow> bool" where
  "crash_store E s s' \<longleftrightarrow>
     (\<exists>t s1. (s1 = s \<and> t = durable_term E s \<or>
              durable_term E s \<le> t \<and> (\<exists>err. ss_SetUint64 (e_stable E) s keyCurrentTerm t = (s1, err))) \<and>
       (s' = s1 \<or>
        durable_term E s1 = t \<and> \<not> (vote_term E s1 = t \<and> vote_cand E s1 \<noteq> None) \<and>
        (\<exists>err. ss_SetUint64 (e_stable E) s1 keyLastVoteTerm t = (s', err))))"

text \<open>
  The race of \<open>processHeartbeat\<close> with \<open>runCandidate\<close>: the main goroutine waits for votes of its term while the
  transport's goroutine raises the term of the node.
\<close>

definition races :: "('ls, 'ss, 'sn, 'ps, 'fs) server \<Rightarrow> AppendEntriesRequest \<Rightarrow> bool" where
  "races sv a \<longleftrightarrow> (\<exists>cd. sv_mode sv = Standing cd) \<and> r_currentTerm (sv_raft sv) < ae_Term a"

text \<open>
  One step of the cluster. The premise on \<open>o_elect\<close> excludes a wrap of the 64-bit term.
\<close>

inductive cluster_step ::
  "('ls, 'ss, 'sn, 'ps) env \<Rightarrow> ('fs, 'fp, 'sn) FSM \<Rightarrow> string set \<Rightarrow>
   ('ls, 'ss, 'sn, 'ps, 'fs) cluster \<Rightarrow> ('ls, 'ss, 'sn, 'ps, 'fs) cluster \<Rightarrow> bool"
  for E :: "('ls, 'ss, 'sn, 'ps) env" and F :: "('fs, 'fp, 'sn) FSM" and C :: "string set" where
  local_event:
    "\<lbrakk>n \<in> C; \<And>vote. ev \<noteq> Ev_vote vote; server_step E F now ev (cl_server cl n) = Ret (sv', out);
      \<And>req v. o_elect out = Some (req, v) \<Longrightarrow> rv_Term req \<noteq> 0; members C n (sv_raft sv')\<rbrakk> \<Longrightarrow>
     cluster_step E F C cl (absorb n ev {} sv' out cl)"
| peer_answer:
    "\<lbrakk>n \<in> C; v \<in> C; v \<noteq> n; sv_mode (cl_server cl n) = Standing cd; (n, rv_Term (cd_req cd), v) \<notin> cl_counted cl;
      \<And>vr. res = Inr vr \<Longrightarrow> (v, cd_req cd, vr) \<in> cl_answers cl; askPeer E (cd_req cd) res = Ret vote;
      server_step E F now (Ev_vote vote) (cl_server cl n) = Ret (sv', out);
      \<And>req v. o_elect out = Some (req, v) \<Longrightarrow> rv_Term req \<noteq> 0; members C n (sv_raft sv')\<rbrakk> \<Longrightarrow>
     cluster_step E F C cl (absorb n (Ev_vote vote) {(n, rv_Term (cd_req cd), v)} sv' out cl)"
| own_answer:
    "\<lbrakk>n \<in> C; sv_mode (cl_server cl n) = Standing cd; (n, rv_Term (cd_req cd), n) \<notin> cl_counted cl;
      (n, cd_req cd, own_vote (cd_req cd)) \<in> cl_answers cl;
      server_step E F now (Ev_vote (own_vote (cd_req cd))) (cl_server cl n) = Ret (sv', out);
      \<And>req v. o_elect out = Some (req, v) \<Longrightarrow> rv_Term req \<noteq> 0; members C n (sv_raft sv')\<rbrakk> \<Longrightarrow>
     cluster_step E F C cl (absorb n (Ev_vote (own_vote (cd_req cd))) {(n, rv_Term (cd_req cd), n)} sv' out cl)"
| restart:
    "\<lbrakk>n \<in> C; crash_store E (r_stable (sv_raft (cl_server cl n))) ss; \<not> StartAsLeader conf;
      NewRaft E F conf n ls ss sn ps fs = Ret (Inr (r, t)); members C n r\<rbrakk> \<Longrightarrow>
     cluster_step E F C cl (cl\<lparr>cl_server := (cl_server cl)(n := \<lparr>sv_raft = r, sv_fsm = t, sv_mode = Following\<rparr>)\<rparr>)"
| fast_heartbeat:
    "\<lbrakk>n \<in> C; processHeartbeat E now (RPC_AppendEntries a) (sv_raft (cl_server cl n)) = Ret (r, resp); members C n r\<rbrakk> \<Longrightarrow>
     cluster_step E F C cl (cl\<lparr>cl_server := (cl_server cl)(n := (cl_server cl n)\<lparr>sv_raft := r\<rparr>),
       cl_raced := cl_raced cl \<or> races (cl_server cl n) a\<rparr>)"

text \<open>At the start every node is a follower and no vote has been asked for.\<close>

definition starts :: "('ls, 'ss, 'sn, 'ps) env \<Rightarrow> ('ss \<Rightarrow> bool) \<Rightarrow> string set \<Rightarrow> ('ls, 'ss, 'sn, 'ps, 'fs) cluster \<Rightarrow> bool" where
  "starts E ok C cl \<longleftrightarrow> finite C \<and> cl_answers cl = {} \<and> cl_counted cl = {} \<and> cl_elected cl = {} \<and>
     (\<forall>n\<in>C. let sv = cl_server cl n in vote_inv E ok (sv_raft sv) \<and> sv_mode sv = Following \<and>
        r_state (sv_raft sv) = Follower \<and> members C n (sv_raft sv))"

inductive reaches ::
  "('ls, 'ss, 'sn, 'ps) env \<Rightarrow> ('fs, 'fp, 'sn) FSM \<Rightarrow> string set \<Rightarrow>
   ('ls, 'ss, 'sn, 'ps, 'fs) cluster \<Rightarrow> ('ls, 'ss, 'sn, 'ps, 'fs) cluster \<Rightarrow> bool"
  for E :: "('ls, 'ss, 'sn, 'ps) env" and F :: "('fs, 'fp, 'sn) FSM" and C :: "string set"
    and cl :: "('ls, 'ss, 'sn, 'ps, 'fs) cluster" where
  here: "reaches E F C cl cl"
| further: "reaches E F C cl cl' \<Longrightarrow> cluster_step E F C cl' cl'' \<Longrightarrow> reaches E F C cl cl''"

section \<open>The invariant\<close>

definition granted :: "('ls, 'ss, 'sn, 'ps, 'fs) cluster \<Rightarrow> string \<Rightarrow> uint64 \<Rightarrow> bytes \<Rightarrow> bool" where
  "granted cl v t c \<longleftrightarrow> (\<exists>req vr. (v, req, vr) \<in> cl_answers cl \<and> rvr_Granted vr \<and> rv_Term req = t \<and> rv_Candidate req = c)"

text \<open>A set of members that have voted for a node in a term.\<close>

definition backed ::
  "('ls, 'ss, 'sn, 'ps) env \<Rightarrow> string set \<Rightarrow> ('ls, 'ss, 'sn, 'ps, 'fs) cluster \<Rightarrow> string \<Rightarrow> uint64 \<Rightarrow> string set \<Rightarrow> bool" where
  "backed E C cl n t V \<longleftrightarrow> V \<subseteq> C \<and> (\<forall>v\<in>V. granted cl v t (EncodePeer (e_trans E) n))"

definition tally_inv ::
  "('ls, 'ss, 'sn, 'ps) env \<Rightarrow> string set \<Rightarrow> ('ls, 'ss, 'sn, 'ps, 'fs) cluster \<Rightarrow> string \<Rightarrow> candidacy \<Rightarrow> bool" where
  "tally_inv E C cl n cd \<longleftrightarrow> rv_Candidate (cd_req cd) = EncodePeer (e_trans E) n \<and> cd_votesNeeded cd = majority C \<and>
     (\<exists>V. backed E C cl n (rv_Term (cd_req cd)) V \<and> int (card V) = cd_grantedVotes cd \<and>
        (\<forall>v\<in>V. (n, rv_Term (cd_req cd), v) \<in> cl_counted cl))"

definition node_inv ::
  "('ls, 'ss, 'sn, 'ps) env \<Rightarrow> ('ss \<Rightarrow> bool) \<Rightarrow> string set \<Rightarrow> ('ls, 'ss, 'sn, 'ps, 'fs) cluster \<Rightarrow> string \<Rightarrow> bool" where
  "node_inv E ok C cl n \<longleftrightarrow>
     (let sv = cl_server cl n; r = sv_raft sv in
        vote_inv E ok r \<and> mode_ok r (sv_mode sv) \<and> members C n r \<and>
        (\<forall>cd. sv_mode sv = Standing cd \<longrightarrow> tally_inv E C cl n cd) \<and>
        (\<forall>sd. sv_mode sv = Leading sd \<and> r_state r = Leader \<longrightarrow> (r_currentTerm r, n) \<in> cl_elected cl) \<and>
        (\<forall>t c. granted cl n t c \<longrightarrow> recorded E (r_stable r) t c))"

definition votes_unique :: "string set \<Rightarrow> ('ls, 'ss, 'sn, 'ps, 'fs) cluster \<Rightarrow> bool" where
  "votes_unique C cl \<longleftrightarrow> (\<forall>v\<in>C. \<forall>t c c'. granted cl v t c \<longrightarrow> granted cl v t c' \<longrightarrow> c = c')"

definition elected_backed :: "('ls, 'ss, 'sn, 'ps) env \<Rightarrow> string set \<Rightarrow> ('ls, 'ss, 'sn, 'ps, 'fs) cluster \<Rightarrow> bool" where
  "elected_backed E C cl \<longleftrightarrow>
     (\<forall>t n. (t, n) \<in> cl_elected cl \<longrightarrow> (\<exists>V. backed E C cl n t V \<and> majority C \<le> int (card V)))"

definition cluster_inv ::
  "('ls, 'ss, 'sn, 'ps) env \<Rightarrow> ('ss \<Rightarrow> bool) \<Rightarrow> string set \<Rightarrow> ('ls, 'ss, 'sn, 'ps, 'fs) cluster \<Rightarrow> bool" where
  "cluster_inv E ok C cl \<longleftrightarrow> finite C \<and> (\<forall>n\<in>C. node_inv E ok C cl n) \<and> votes_unique C cl \<and> elected_backed E C cl"

lemma backed_mono: "backed E C cl n t V \<Longrightarrow> cl_answers cl \<subseteq> cl_answers cl' \<Longrightarrow> backed E C cl' n t V"
  unfolding backed_def granted_def by blast

lemma tally_mono:
  "tally_inv E C cl n cd \<Longrightarrow> cl_answers cl \<subseteq> cl_answers cl' \<Longrightarrow> cl_counted cl \<subseteq> cl_counted cl' \<Longrightarrow> tally_inv E C cl' n cd"
  unfolding tally_inv_def by (blast intro: backed_mono)

text \<open>A step of one node leaves what the invariant says of another.\<close>

lemma node_inv_other:
  assumes "node_inv E ok C cl m" and "cl_server cl' m = cl_server cl m" and "cl_answers cl \<subseteq> cl_answers cl'"
    and "cl_counted cl \<subseteq> cl_counted cl'" and "cl_elected cl \<subseteq> cl_elected cl'"
    and "\<And>req vr. (m, req, vr) \<in> cl_answers cl' \<Longrightarrow> (m, req, vr) \<in> cl_answers cl"
  shows "node_inv E ok C cl' m"
proof -
  have "granted cl' m t c \<Longrightarrow> granted cl m t c" for t c unfolding granted_def using assms(6) by blast
  with assms tally_mono [OF _ assms(3,4)] show ?thesis unfolding node_inv_def Let_def by fastforce
qed

section \<open>Elections are safe\<close>

text \<open>Two majorities of the same finite set meet.\<close>

lemma majorities_overlap:
  assumes "finite C" "V \<subseteq> C" "W \<subseteq> C" "majority C \<le> int (card V)" "majority C \<le> int (card W)"
  shows "V \<inter> W \<noteq> {}"
proof
  assume "V \<inter> W = {}"
  then have "card (V \<union> W) = card V + card W"
    using assms by (intro card_Un_disjoint) (auto intro: finite_subset)
  moreover have "card (V \<union> W) \<le> card C" using assms by (intro card_mono) auto
  ultimately show False using assms(4,5) unfolding majority_def by linarith
qed

lemma elected_unique:
  assumes inv: "cluster_inv E ok C cl" and inj: "\<And>p. DecodePeer (e_trans E) (EncodePeer (e_trans E) p) = p"
    and "(t, n) \<in> cl_elected cl" and "(t, m) \<in> cl_elected cl"
  shows "n = m"
proof -
  from inv assms(3,4) obtain V W where V: "backed E C cl n t V" "majority C \<le> int (card V)"
    and W: "backed E C cl m t W" "majority C \<le> int (card W)"
    unfolding cluster_inv_def elected_backed_def by blast
  from majorities_overlap [of C V W] V W inv obtain v where v: "v \<in> V" "v \<in> W" "v \<in> C"
    unfolding cluster_inv_def backed_def by blast
  with V W have "granted cl v t (EncodePeer (e_trans E) n)" "granted cl v t (EncodePeer (e_trans E) m)"
    unfolding backed_def by blast+
  with inv v have "EncodePeer (e_trans E) n = EncodePeer (e_trans E) m"
    unfolding cluster_inv_def votes_unique_def by blast
  then show ?thesis using inj by metis
qed

text \<open>The clauses of the contract of a step, one by one.\<close>

lemma contract_stands:
  assumes "step_contract E ok ev sv sv' out" and "o_elect out = Some (req, voted)"
  shows "sv_mode sv' = Standing \<lparr>cd_req = req, cd_voteCh = voted, cd_grantedVotes = 0, cd_votesNeeded = quorumSize (sv_raft sv')\<rparr> \<and>
    rv_Candidate req = EncodePeer (e_trans E) (r_localAddr (sv_raft sv')) \<and> r_currentTerm (sv_raft sv) < rv_Term req \<and>
    r_currentTerm (sv_raft sv') = rv_Term req \<and>
    (voted \<longrightarrow> recorded E (r_stable (sv_raft sv')) (rv_Term req) (rv_Candidate req))"
proof -
  have m: "mode_ok (sv_raft sv') (sv_mode sv')" using assms(1) by (simp add: step_contract_def)
  have s: "\<forall>req voted. o_elect out = Some (req, voted) \<longrightarrow>
        sv_mode sv' = Standing \<lparr>cd_req = req, cd_voteCh = voted, cd_grantedVotes = 0, cd_votesNeeded = quorumSize (sv_raft sv')\<rparr> \<and>
        rv_Candidate req = EncodePeer (e_trans E) (r_localAddr (sv_raft sv')) \<and> r_currentTerm (sv_raft sv) < rv_Term req \<and>
        (voted \<longrightarrow> recorded E (r_stable (sv_raft sv')) (rv_Term req) (rv_Candidate req))"
    using assms(1) unfolding step_contract_def by (elim conjE)
  from s [rule_format, OF assms(2)] m show ?thesis by (auto simp: mode_ok_def)
qed

lemma contract_basics:
  assumes "step_contract E ok ev sv sv' out"
  shows "vote_inv E ok (sv_raft sv') \<and> vote_advances E (r_stable (sv_raft sv)) (r_stable (sv_raft sv')) \<and>
    mode_ok (sv_raft sv') (sv_mode sv') \<and> grant_recorded E ev (o_reply out) (sv_raft sv) (sv_raft sv')"
  using assms by (simp add: step_contract_def advances_def)

lemma contract_tally:
  assumes "step_contract E ok ev sv sv' out" and "o_elect out = None" and "sv_mode sv' = Standing cd'"
  shows "\<exists>cd. sv_mode sv = Standing cd \<and> tally_step ev cd cd'"
  using assms by (auto simp: step_contract_def)

lemma contract_won:
  assumes "step_contract E ok ev sv sv' out" and "o_won out = Some t"
  shows "\<exists>cd. sv_mode sv = Standing cd \<and> t = rv_Term (cd_req cd) \<and> wins ev cd"
  using assms by (simp add: step_contract_def)

lemma contract_leads:
  assumes "step_contract E ok ev sv sv' out" and "sv_mode sv' = Leading sd'"
  shows "(\<exists>sd. sv_mode sv = Leading sd \<and> r_state (sv_raft sv) = Leader \<and> r_currentTerm (sv_raft sv') = r_currentTerm (sv_raft sv)) \<or>
    o_won out = Some (r_currentTerm (sv_raft sv'))"
  using assms by (simp add: step_contract_def)

text \<open>Taking one more answer out of the vote channel.\<close>

lemma tally_count:
  assumes "tally_inv E C cl n cd" and "finite C" and "v \<in> C" and "(n, rv_Term (cd_req cd), v) \<notin> cl_counted cl"
    and "rvr_Granted vote \<Longrightarrow> granted cl v (rv_Term (cd_req cd)) (EncodePeer (e_trans E) n)"
  shows "\<exists>V. backed E C cl n (rv_Term (cd_req cd)) V \<and> int (card V) = cd_grantedVotes cd + (if rvr_Granted vote then 1 else 0) \<and>
    (\<forall>w\<in>V. (n, rv_Term (cd_req cd), w) \<in> insert (n, rv_Term (cd_req cd), v) (cl_counted cl))"
proof -
  from assms(1) obtain V where V: "backed E C cl n (rv_Term (cd_req cd)) V" "int (card V) = cd_grantedVotes cd"
    "\<forall>w\<in>V. (n, rv_Term (cd_req cd), w) \<in> cl_counted cl" unfolding tally_inv_def by blast
  have "finite V" using V(1) assms(2) unfolding backed_def by (blast intro: finite_subset)
  moreover have "v \<notin> V" using V(3) assms(4) by blast
  ultimately have c: "int (card (insert v V)) = cd_grantedVotes cd + 1" using V(2) by simp
  have b: "backed E C cl n (rv_Term (cd_req cd)) (insert v V)" if "rvr_Granted vote"
    using V(1) assms(3) assms(5) [OF that] unfolding backed_def by blast
  show ?thesis
  proof (cases "rvr_Granted vote")
    case True
    with b c V(3) show ?thesis by (intro exI [of _ "insert v V"]) auto
  next
    case False
    with V show ?thesis by (intro exI [of _ V]) auto
  qed
qed

text \<open>The record of a node's vote is evidence of one candidate per term.\<close>

lemma recorded_here: "recorded E s t c \<Longrightarrow> vote_term E s \<le> t \<Longrightarrow> vote_term E s = t \<and> vote_cand E s = Some c"
  by (auto simp: recorded_def)

lemma given_granted:
  assumes "granted (absorb n ev K sv' out cl) m t c"
  obtains (old) "granted cl m t c"
    | (reply) req vr where "m = n" "ev = Ev_rpc (RPC_RequestVote req)" "o_reply out = Some (Resp_RequestVote vr)" "rvr_Granted vr"
        "t = rv_Term req" "c = rv_Candidate req"
    | (stands) req where "m = n" "o_elect out = Some (req, True)" "t = rv_Term req" "c = rv_Candidate req"
proof -
  from assms obtain req vr where a: "(m, req, vr) \<in> cl_answers cl \<union> given n ev out" and
    f: "rvr_Granted vr" "rv_Term req = t" "rv_Candidate req = c"
    by (auto simp: granted_def absorb_def)
  show thesis
  proof (cases "(m, req, vr) \<in> cl_answers cl")
    case True
    with f have "granted cl m t c" unfolding granted_def by blast
    then show thesis by (rule old)
  next
    case False
    with a have "(m, req, vr) \<in> given n ev out" by blast
    then show thesis unfolding given_def
      using reply [of req vr] stands [of req] f by auto
  qed
qed

context raft_env
begin

lemma granted_new:
  assumes ctr: "step_contract E ss_inv ev sv sv' out" and inv: "vote_inv E ss_inv (sv_raft sv)"
    and g: "granted (absorb n ev K sv' out cl) n t c"
  shows "granted cl n t c \<or> new_vote E (r_stable (sv_raft sv)) (r_stable (sv_raft sv')) t c"
proof -
  have elect: "new_vote E (r_stable (sv_raft sv)) (r_stable (sv_raft sv')) t c"
    if "o_elect out = Some (req, True)" "t = rv_Term req" "c = rv_Candidate req" for req
  proof -
    have r: "recorded E (r_stable (sv_raft sv')) t c" "r_currentTerm (sv_raft sv) < t"
      unfolding that(2,3) using contract_stands [OF ctr that(1)] by blast+
    have "\<not> recorded E (r_stable (sv_raft sv)) t c'" for c'
      using r(2) inv by (auto simp: recorded_def vote_inv_def)
    with r(1) show ?thesis by (simp add: new_vote_def)
  qed
  have replied: "new_vote E (r_stable (sv_raft sv)) (r_stable (sv_raft sv')) t c"
    if "ev = Ev_rpc (RPC_RequestVote req)" "o_reply out = Some (Resp_RequestVote vr)" "rvr_Granted vr"
      "t = rv_Term req" "c = rv_Candidate req" for req vr
    using contract_basics [OF ctr] that by (simp add: grant_recorded_def)
  from g show ?thesis
  proof (cases rule: given_granted)
    case (reply req vr)
    show ?thesis by (rule disjI2) (rule replied [OF reply(2-6)])
  next
    case (stands req)
    show ?thesis by (rule disjI2) (rule elect [OF stands(2-4)])
  qed (rule disjI1)
qed

lemma granted_once:
  assumes ctr: "step_contract E ss_inv ev sv sv' out" and inv: "vote_inv E ss_inv (sv_raft sv)"
    and rec: "\<And>t c. granted cl n t c \<Longrightarrow> recorded E (r_stable (sv_raft sv)) t c"
    and uniq: "\<And>c c'. granted cl n t c \<Longrightarrow> granted cl n t c' \<Longrightarrow> c = c'"
    and g: "granted (absorb n ev K sv' out cl) n t c" and g': "granted (absorb n ev K sv' out cl) n t c'"
  shows "c = c'"
proof -
  note new = granted_new [OF ctr inv]
  have adv: "vote_advances E (r_stable (sv_raft sv)) (r_stable (sv_raft sv'))" and inv': "vote_inv E ss_inv (sv_raft sv')"
    using contract_basics [OF ctr] by simp_all
  have stand: "x = y" if e: "o_elect out = Some (req, True)" "t = rv_Term req" "x = rv_Candidate req"
    and y: "recorded E (r_stable (sv_raft sv')) t y" for req x y
  proof -
    have r: "recorded E (r_stable (sv_raft sv')) t x" "r_currentTerm (sv_raft sv') = t"
      unfolding e(2,3) using contract_stands [OF ctr e(1)] by blast+
    then have "vote_term E (r_stable (sv_raft sv')) \<le> t" using inv' by (simp add: vote_inv_def)
    with recorded_here [OF r(1)] recorded_here [OF y] show ?thesis by simp
  qed
  have new_rec: "recorded E (r_stable (sv_raft sv')) t x" if x: "granted (absorb n ev K sv' out cl) n t x" for x
    using new [OF x] recorded_advances [OF rec adv] by (auto simp: new_vote_def)
  have old_new: "x = y" if "granted cl n t x" "new_vote E (r_stable (sv_raft sv)) (r_stable (sv_raft sv')) t y" for x y
    using that(2) rec [OF that(1)] by (simp add: new_vote_def)
  from g show ?thesis
  proof (cases rule: given_granted)
    case old
    from new [OF g'] show ?thesis by (elim disjE) (erule uniq [OF old], erule old_new [OF old])
  next
    case (stands req)
    show ?thesis by (rule stand [OF stands(2-4) new_rec [OF g']])
  next
    case (reply req vr)
    note r = this
    from g' show ?thesis
    proof (cases rule: given_granted)
      case old
      from new [OF g] show ?thesis by (elim disjE) (erule uniq [OF _ old], erule old_new [OF old, symmetric])
    next
      case (stands req')
      show ?thesis by (rule stand [OF stands(2-4) new_rec [OF g], symmetric])
    qed (use r in simp)
  qed
qed

text \<open>A step of one node, with the answers it takes from its vote channel, keeps the invariant.\<close>

lemma absorb_tally:
  assumes inv: "node_inv E ss_inv C cl n" and fin: "finite C"
    and ctr: "step_contract E ss_inv ev (cl_server cl n) sv' out" and mem: "members C n (sv_raft sv')"
    and vote: "\<And>vote cd. ev = Ev_vote vote \<Longrightarrow> sv_mode (cl_server cl n) = Standing cd \<Longrightarrow>
      \<exists>v\<in>C. K = {(n, rv_Term (cd_req cd), v)} \<and> (n, rv_Term (cd_req cd), v) \<notin> cl_counted cl \<and>
        (rvr_Granted vote \<longrightarrow> granted cl v (rv_Term (cd_req cd)) (EncodePeer (e_trans E) n))"
    and st: "sv_mode sv' = Standing cd'"
  shows "tally_inv E C (absorb n ev K sv' out cl) n cd'"
proof (cases "o_elect out")
  case (Some x)
  then obtain req voted where "o_elect out = Some (req, voted)" by (cases x) simp
  from contract_stands [OF ctr this] st mem members_quorum [OF mem]
  have "rv_Candidate (cd_req cd') = EncodePeer (e_trans E) n" "cd_votesNeeded cd' = majority C" "cd_grantedVotes cd' = 0"
    by (auto simp: members_def)
  then show ?thesis unfolding tally_inv_def by (intro conjI exI [of _ "{}"]) (simp_all add: backed_def)
next
  case None
  from contract_tally [OF ctr this st] obtain cd where cd: "sv_mode (cl_server cl n) = Standing cd" and ts: "tally_step ev cd cd'"
    by blast
  have sub: "cl_answers cl \<subseteq> cl_answers (absorb n ev K sv' out cl)" "cl_counted cl \<subseteq> cl_counted (absorb n ev K sv' out cl)"
    by (auto simp: absorb_def)
  have ti: "tally_inv E C cl n cd" using inv cd by (simp add: node_inv_def Let_def)
  have eq: "cd_req cd' = cd_req cd" "cd_votesNeeded cd' = cd_votesNeeded cd" using ts by (simp_all add: tally_step_def)
  show ?thesis
  proof (cases "cd_grantedVotes cd' = cd_grantedVotes cd")
    case True
    with tally_mono [OF ti sub] eq show ?thesis by (simp add: tally_inv_def)
  next
    case False
    with ts obtain vote where v: "ev = Ev_vote vote" "rvr_Granted vote" "cd_grantedVotes cd' = cd_grantedVotes cd + 1"
      by (auto simp: tally_step_def)
    from vote [OF v(1) cd] obtain w where w: "w \<in> C" "K = {(n, rv_Term (cd_req cd), w)}" "(n, rv_Term (cd_req cd), w) \<notin> cl_counted cl"
      "rvr_Granted vote \<Longrightarrow> granted cl w (rv_Term (cd_req cd)) (EncodePeer (e_trans E) n)" by blast
    from tally_count [where vote = vote, OF ti fin w(1,3,4)] v obtain V where V: "backed E C cl n (rv_Term (cd_req cd)) V"
      "int (card V) = cd_grantedVotes cd + 1" "\<forall>x\<in>V. (n, rv_Term (cd_req cd), x) \<in> insert (n, rv_Term (cd_req cd), w) (cl_counted cl)"
      by auto
    have "\<forall>x\<in>V. (n, rv_Term (cd_req cd), x) \<in> cl_counted (absorb n ev K sv' out cl)" using V(3) w(2) by (auto simp: absorb_def)
    with V(2) v(3) eq ti backed_mono [OF V(1) sub(1)] show ?thesis unfolding tally_inv_def by auto
  qed
qed

lemma absorb_elected:
  assumes inv: "cluster_inv E ss_inv C cl" and n: "n \<in> C"
    and ctr: "step_contract E ss_inv ev (cl_server cl n) sv' out"
    and vote: "\<And>vote cd. ev = Ev_vote vote \<Longrightarrow> sv_mode (cl_server cl n) = Standing cd \<Longrightarrow>
      \<exists>v\<in>C. K = {(n, rv_Term (cd_req cd), v)} \<and> (n, rv_Term (cd_req cd), v) \<notin> cl_counted cl \<and>
        (rvr_Granted vote \<longrightarrow> granted cl v (rv_Term (cd_req cd)) (EncodePeer (e_trans E) n))"
  shows "elected_backed E C (absorb n ev K sv' out cl)"
  unfolding elected_backed_def
proof (intro allI impI)
  fix t m assume e: "(t, m) \<in> cl_elected (absorb n ev K sv' out cl)"
  have sub: "cl_answers cl \<subseteq> cl_answers (absorb n ev K sv' out cl)" by (auto simp: absorb_def)
  have "\<exists>V. backed E C cl m t V \<and> majority C \<le> int (card V)"
  proof (cases "(t, m) \<in> cl_elected cl")
    case True
    with inv show ?thesis by (simp add: cluster_inv_def elected_backed_def)
  next
    case False
    with e have w: "m = n" "o_won out = Some t" by (auto simp: absorb_def)
    from contract_won [OF ctr w(2)] obtain cd where cd: "sv_mode (cl_server cl n) = Standing cd" "t = rv_Term (cd_req cd)" "wins ev cd"
      by blast
    then obtain vote where v: "ev = Ev_vote vote" "cd_votesNeeded cd \<le> cd_grantedVotes cd + (if rvr_Granted vote then 1 else 0)"
      by (auto simp: wins_def)
    have ti: "tally_inv E C cl n cd" and fin: "finite C" using inv n cd(1) by (auto simp: cluster_inv_def node_inv_def Let_def)
    from vote [OF v(1) cd(1)] obtain w where w': "w \<in> C" "(n, rv_Term (cd_req cd), w) \<notin> cl_counted cl"
      "rvr_Granted vote \<Longrightarrow> granted cl w (rv_Term (cd_req cd)) (EncodePeer (e_trans E) n)" by blast
    from tally_count [OF ti fin w'] obtain V where "backed E C cl n (rv_Term (cd_req cd)) V"
      "int (card V) = cd_grantedVotes cd + (if rvr_Granted vote then 1 else 0)" by blast
    with v(2) ti cd(2) w(1) show ?thesis by (intro exI [of _ V]) (simp add: tally_inv_def)
  qed
  with backed_mono [OF _ sub] show "\<exists>V. backed E C (absorb n ev K sv' out cl) m t V \<and> majority C \<le> int (card V)" by blast
qed

lemma absorb_inv:
  assumes inv: "cluster_inv E ss_inv C cl" and n: "n \<in> C"
    and ctr: "step_contract E ss_inv ev (cl_server cl n) sv' out" and mem: "members C n (sv_raft sv')"
    and vote: "\<And>vote cd. ev = Ev_vote vote \<Longrightarrow> sv_mode (cl_server cl n) = Standing cd \<Longrightarrow>
      \<exists>v\<in>C. K = {(n, rv_Term (cd_req cd), v)} \<and> (n, rv_Term (cd_req cd), v) \<notin> cl_counted cl \<and>
        (rvr_Granted vote \<longrightarrow> granted cl v (rv_Term (cd_req cd)) (EncodePeer (e_trans E) n))"
  shows "cluster_inv E ss_inv C (absorb n ev K sv' out cl)"
proof -
  let ?cl = "absorb n ev K sv' out cl"
  have fin: "finite C" and ni: "node_inv E ss_inv C cl n" and uq: "votes_unique C cl"
    using inv n by (simp_all add: cluster_inv_def)
  have vi: "vote_inv E ss_inv (sv_raft (cl_server cl n))" and
    rec: "\<And>t c. granted cl n t c \<Longrightarrow> recorded E (r_stable (sv_raft (cl_server cl n))) t c" and
    lead: "\<And>sd. sv_mode (cl_server cl n) = Leading sd \<Longrightarrow> r_state (sv_raft (cl_server cl n)) = Leader \<Longrightarrow> (r_currentTerm (sv_raft (cl_server cl n)), n) \<in> cl_elected cl"
    using ni by (auto simp: node_inv_def Let_def)
  have b: "vote_inv E ss_inv (sv_raft sv')" "vote_advances E (r_stable (sv_raft (cl_server cl n))) (r_stable (sv_raft sv'))"
    "mode_ok (sv_raft sv') (sv_mode sv')" using contract_basics [OF ctr] by simp_all
  have sv: "cl_server ?cl n = sv'" by (simp add: absorb_def)
  have rec': "recorded E (r_stable (sv_raft sv')) t c" if g: "granted ?cl n t c" for t c
    using granted_new [OF ctr vi g] recorded_advances [OF rec b(2)] by (auto simp: new_vote_def)
  have lead': "(r_currentTerm (sv_raft sv'), n) \<in> cl_elected ?cl" if "sv_mode sv' = Leading sd" for sd
    using contract_leads [OF ctr that] lead by (auto simp: absorb_def)
  have tally': "tally_inv E C ?cl n cd" if "sv_mode sv' = Standing cd" for cd
    using ni fin ctr mem vote that by (rule absorb_tally)
  have "node_inv E ss_inv C ?cl n"
    unfolding node_inv_def Let_def sv
    by (intro conjI allI impI b mem) (erule tally' rec' | (erule conjE, erule lead'))+
  moreover have "node_inv E ss_inv C ?cl m" if "m \<in> C" "m \<noteq> n" for m
  proof (rule node_inv_other)
    show "node_inv E ss_inv C cl m" using that inv by (simp add: cluster_inv_def)
    show "(m, req, vr) \<in> cl_answers cl" if "(m, req, vr) \<in> cl_answers ?cl" for req vr
      using that \<open>m \<noteq> n\<close> by (simp add: absorb_def given_def)
  qed (use that in \<open>simp_all add: absorb_def\<close>)
  ultimately have nodes: "\<forall>m\<in>C. node_inv E ss_inv C ?cl m" by blast
  have "c = c'" if "v \<in> C" "granted ?cl v t c" "granted ?cl v t c'" for v t c c'
  proof (cases "v = n")
    case True
    have u: "c = c'" if "granted cl n t c" "granted cl n t c'" for c c'
      using uq n that unfolding votes_unique_def by blast
    from that True granted_once [OF ctr vi rec u] show ?thesis by blast
  next
    case False
    have "granted cl v t x" if "granted ?cl v t x" for x using that by (cases rule: given_granted) (use False in auto)
    with that uq show ?thesis unfolding votes_unique_def by blast
  qed
  then have "votes_unique C ?cl" unfolding votes_unique_def by blast
  moreover have "elected_backed E C ?cl" using inv n ctr vote by (rule absorb_elected)
  ultimately show ?thesis using fin nodes by (simp add: cluster_inv_def)
qed

text \<open>A store left behind by a crash has gone forward at most.\<close>

lemma write_term_effect:
  assumes ok: "ss_inv s" and w: "ss_SetUint64 (e_stable E) s keyCurrentTerm t = (s', err)" and le: "durable_term E s \<le> t"
  shows "ss_inv s' \<and> vote_term E s' = vote_term E s \<and> vote_cand E s' = vote_cand E s \<and> durable_term E s \<le> durable_term E s'"
proof -
  have w': "ss_Set (e_stable E) s keyCurrentTerm (u64_bytes t) = (s', err)" using w by (simp add: SetUint64)
  note eff = set_effect [OF ok w']
  have "durable_term E s \<le> durable_term E s'"
  proof (cases err)
    case None
    then have "durable_term E s' = t" using get_u64_after_set [OF ok] w by (simp add: durable_term_def)
    with le show ?thesis by simp
  next
    case (Some e)
    with eff show ?thesis by (simp add: durable_term_def)
  qed
  with eff show ?thesis by (simp add: vote_term_def vote_cand_def)
qed

lemma write_vote_term_effect:
  assumes ok: "ss_inv s" and w: "ss_SetUint64 (e_stable E) s keyLastVoteTerm t = (s', err)"
    and le: "vote_term E s \<le> t" and new: "\<not> (vote_term E s = t \<and> vote_cand E s \<noteq> None)"
  shows "ss_inv s' \<and> durable_term E s' = durable_term E s \<and> vote_advances E s s' \<and> (vote_term E s' = t \<or> vote_term E s' = vote_term E s)"
proof -
  have w': "ss_Set (e_stable E) s keyLastVoteTerm (u64_bytes t) = (s', err)" using w by (simp add: SetUint64)
  note eff = set_effect [OF ok w']
  show ?thesis
  proof (cases err)
    case None
    then have "vote_term E s' = t" using get_u64_after_set [OF ok] w by (simp add: vote_term_def)
    moreover have "vote_term E s < t \<or> vote_term E s = t \<and> vote_cand E s = None" using le new by auto
    ultimately show ?thesis using eff by (auto simp: vote_advances_def durable_term_def)
  next
    case (Some e)
    with eff show ?thesis by (simp add: vote_advances_def durable_term_def vote_term_def vote_cand_def)
  qed
qed

lemma crash_store_advances:
  assumes ok: "ss_inv s" and le: "vote_term E s \<le> durable_term E s" and cr: "crash_store E s s'"
  shows "ss_inv s' \<and> vote_advances E s s' \<and> vote_term E s' \<le> durable_term E s'"
proof -
  from cr obtain t s1 where s1: "s1 = s \<and> t = durable_term E s \<or>
      durable_term E s \<le> t \<and> (\<exists>err. ss_SetUint64 (e_stable E) s keyCurrentTerm t = (s1, err))"
    and s': "s' = s1 \<or> durable_term E s1 = t \<and> \<not> (vote_term E s1 = t \<and> vote_cand E s1 \<noteq> None) \<and>
      (\<exists>err. ss_SetUint64 (e_stable E) s1 keyLastVoteTerm t = (s', err))"
    unfolding crash_store_def by blast
  have e1: "ss_inv s1 \<and> vote_term E s1 = vote_term E s \<and> vote_cand E s1 = vote_cand E s \<and> durable_term E s \<le> durable_term E s1"
    using s1 ok write_term_effect [OF ok] by (elim disjE conjE exE) simp_all
  then have le1: "vote_term E s1 \<le> durable_term E s1" and adv1: "vote_advances E s s1"
    using le by (auto simp: vote_advances_def)
  from s' show ?thesis
  proof (elim disjE conjE exE)
    assume "s' = s1"
    with e1 le1 adv1 show ?thesis by simp
  next
    fix err
    assume a: "durable_term E s1 = t" "\<not> (vote_term E s1 = t \<and> vote_cand E s1 \<noteq> None)"
      "ss_SetUint64 (e_stable E) s1 keyLastVoteTerm t = (s', err)"
    have i1: "ss_inv s1" and l: "vote_term E s1 \<le> t" using e1 le1 a(1) by simp_all
    note w = write_vote_term_effect [OF i1 a(3) l a(2)]
    have "vote_term E s' \<le> durable_term E s'" using w a(1) le1 by auto
    with w vote_advances_trans [OF adv1] show ?thesis by blast
  qed
qed

text \<open>A node that changes without giving an answer, taking a vote or winning.\<close>

lemma swap_inv:
  assumes inv: "cluster_inv E ss_inv C cl" and n: "n \<in> C"
    and vi: "vote_inv E ss_inv (sv_raft sv')" and mo: "mode_ok (sv_raft sv') (sv_mode sv')" and mem: "members C n (sv_raft sv')"
    and adv: "vote_advances E (r_stable (sv_raft (cl_server cl n))) (r_stable (sv_raft sv'))"
    and stand: "\<And>cd. sv_mode sv' = Standing cd \<Longrightarrow> sv_mode (cl_server cl n) = Standing cd"
    and lead: "\<And>sd. sv_mode sv' = Leading sd \<Longrightarrow> r_state (sv_raft sv') = Leader \<Longrightarrow>
      sv_mode (cl_server cl n) = Leading sd \<and> r_state (sv_raft (cl_server cl n)) = Leader \<and>
      r_currentTerm (sv_raft sv') = r_currentTerm (sv_raft (cl_server cl n))"
  shows "cluster_inv E ss_inv C (cl\<lparr>cl_server := (cl_server cl)(n := sv'), cl_raced := x\<rparr>)" (is "cluster_inv E ss_inv C ?cl")
proof -
  have ni: "node_inv E ss_inv C cl n" using inv n by (simp add: cluster_inv_def)
  have g: "granted ?cl = granted cl" by (intro ext) (simp add: granted_def)
  have t: "tally_inv E C ?cl n = tally_inv E C cl n" by (intro ext) (simp add: tally_inv_def backed_def g)
  have "recorded E (r_stable (sv_raft sv')) t c" if "granted cl n t c" for t c
    using ni that recorded_advances [OF _ adv] by (auto simp: node_inv_def Let_def)
  moreover have "tally_inv E C cl n cd" if "sv_mode sv' = Standing cd" for cd
    using ni stand [OF that] by (simp add: node_inv_def Let_def)
  moreover have "(r_currentTerm (sv_raft sv'), n) \<in> cl_elected cl" if "sv_mode sv' = Leading sd" "r_state (sv_raft sv') = Leader" for sd
    using ni lead [OF that] by (auto simp: node_inv_def Let_def)
  ultimately have here: "node_inv E ss_inv C ?cl n" using vi mo mem unfolding node_inv_def Let_def by (auto simp: g t)
  have others: "node_inv E ss_inv C ?cl m" if "m \<in> C" "m \<noteq> n" for m
  proof (rule node_inv_other)
    show "node_inv E ss_inv C cl m" using that inv by (simp add: cluster_inv_def)
  qed (use that in simp_all)
  have "votes_unique C ?cl" "elected_backed E C ?cl"
    using inv by (simp_all add: cluster_inv_def votes_unique_def elected_backed_def backed_def g)
  moreover have "\<forall>m\<in>C. node_inv E ss_inv C ?cl m" using here others by blast
  moreover have "finite C" using inv by (simp add: cluster_inv_def)
  ultimately show ?thesis unfolding cluster_inv_def by blast
qed

lemma restart_inv:
  assumes inv: "cluster_inv E ss_inv C cl" and n: "n \<in> C"
    and cr: "crash_store E (r_stable (sv_raft (cl_server cl n))) ss" and sl: "\<not> StartAsLeader conf"
    and new: "NewRaft E F conf n ls ss sn ps fs = Ret (Inr (r, t))" and mem: "members C n r"
  shows "cluster_inv E ss_inv C (cl\<lparr>cl_server := (cl_server cl)(n := \<lparr>sv_raft = r, sv_fsm = t, sv_mode = Following\<rparr>)\<rparr>)"
proof -
  have "vote_inv E ss_inv (sv_raft (cl_server cl n))" using inv n by (simp add: cluster_inv_def node_inv_def Let_def)
  then have vi: "ss_inv (r_stable (sv_raft (cl_server cl n)))"
    "vote_term E (r_stable (sv_raft (cl_server cl n))) \<le> durable_term E (r_stable (sv_raft (cl_server cl n)))"
    by (simp_all add: vote_inv_def)
  from crash_store_advances [OF vi cr] have ss: "ss_inv ss" "vote_term E ss \<le> durable_term E ss"
    "vote_advances E (r_stable (sv_raft (cl_server cl n))) ss" by simp_all
  from NewRaft_effect [OF ss(1,2) new] sl have r: "vote_inv E ss_inv r" "r_state r = Follower"
    "vote_term E (r_stable r) = vote_term E ss" "vote_cand E (r_stable r) = vote_cand E ss" by simp_all
  have "vote_advances E (r_stable (sv_raft (cl_server cl n))) (r_stable r)" using ss(3) r(3,4) by (simp add: vote_advances_def)
  then have "cluster_inv E ss_inv C (cl\<lparr>cl_server := (cl_server cl)(n := \<lparr>sv_raft = r, sv_fsm = t, sv_mode = Following\<rparr>), cl_raced := cl_raced cl\<rparr>)"
    using r mem by (intro swap_inv [OF inv n]) (simp_all add: mode_ok_def)
  then show ?thesis by simp
qed

lemma heartbeat_inv:
  assumes inv: "cluster_inv E ss_inv C cl" and n: "n \<in> C" and mem: "members C n r"
    and hb: "processHeartbeat E now (RPC_AppendEntries a) (sv_raft (cl_server cl n)) = Ret (r, resp)"
    and calm: "\<not> races (cl_server cl n) a"
  shows "cluster_inv E ss_inv C (cl\<lparr>cl_server := (cl_server cl)(n := (cl_server cl n)\<lparr>sv_raft := r\<rparr>), cl_raced := x\<rparr>)"
proof -
  let ?sv = "cl_server cl n"
  have vi: "vote_inv E ss_inv (sv_raft ?sv)" and mo: "mode_ok (sv_raft ?sv) (sv_mode ?sv)"
    using inv n by (simp_all add: cluster_inv_def node_inv_def Let_def)
  note p = processHeartbeat_role [OF vi hb]
  then have step: "vote_inv E ss_inv r" "vote_advances E (r_stable (sv_raft ?sv)) (r_stable r)" "r_currentTerm (sv_raft ?sv) \<le> r_currentTerm r"
    "r_state r = Candidate \<or> r_state r = Leader \<Longrightarrow> r_state r = r_state (sv_raft ?sv) \<and> r_currentTerm r = r_currentTerm (sv_raft ?sv)"
    by (auto simp: role_step_def)
  have "r_currentTerm r = r_currentTerm (sv_raft ?sv)" if "sv_mode ?sv = Standing cd" for cd
    using calm that p step(3) by (auto simp: races_def max_def split: if_splits)
  then have "mode_ok r (sv_mode ?sv)" using mo step(4) by (auto simp: mode_ok_def split: mode.splits)
  then show ?thesis using step mem by (intro swap_inv [OF inv n]) auto
qed

lemma cluster_step_inv:
  assumes "cluster_step E F C cl cl'" and inv: "cluster_inv E ss_inv C cl" and calm: "\<not> cl_raced cl'"
  shows "cluster_inv E ss_inv C cl'"
  using assms(1)
proof cases
  have node: "vote_inv E ss_inv (sv_raft (cl_server cl n))" "mode_ok (sv_raft (cl_server cl n)) (sv_mode (cl_server cl n))"
    if "n \<in> C" for n using inv that by (auto simp: cluster_inv_def node_inv_def Let_def)
  have cand: "rv_Candidate (cd_req cd) = EncodePeer (e_trans E) n" if "n \<in> C" "sv_mode (cl_server cl n) = Standing cd" for n cd
    using inv that by (auto simp: cluster_inv_def node_inv_def Let_def tally_inv_def)
  {
    case (local_event n ev now sv' out)
    have ctr: "step_contract E ss_inv ev (cl_server cl n) sv' out"
      using node [OF local_event(2)] local_event(4,5) by (rule server_step_contract)
    show ?thesis unfolding local_event(1)
      by (rule absorb_inv [OF inv local_event(2) ctr local_event(6)]) (use local_event(3) in simp)
  next
    case (peer_answer n v cd res vote now sv' out)
    have ctr: "step_contract E ss_inv (Ev_vote vote) (cl_server cl n) sv' out"
      using node [OF peer_answer(2)] peer_answer(9,10) by (rule server_step_contract)
    have g: "granted cl v (rv_Term (cd_req cd)) (EncodePeer (e_trans E) n)" if "rvr_Granted vote"
    proof -
      from peer_answer(8) that obtain vr where "res = Inr vr" "vote = vr" by (auto simp: askPeer_def split: sum.splits)
      with peer_answer(7) that cand [OF peer_answer(2,5)] show ?thesis unfolding granted_def by blast
    qed
    show ?thesis unfolding peer_answer(1)
      by (rule absorb_inv [OF inv peer_answer(2) ctr peer_answer(11)]) (use peer_answer(3,5,6) g in auto)
  next
    case (own_answer n cd now sv' out)
    have ctr: "step_contract E ss_inv (Ev_vote (own_vote (cd_req cd))) (cl_server cl n) sv' out"
      using node [OF own_answer(2)] own_answer(6,7) by (rule server_step_contract)
    have g: "granted cl n (rv_Term (cd_req cd)) (EncodePeer (e_trans E) n)"
      unfolding granted_def using own_answer(5) cand [OF own_answer(2,3)]
      by (intro exI [of _ "cd_req cd"] exI [of _ "own_vote (cd_req cd)"]) (simp add: own_vote_def)
    show ?thesis unfolding own_answer(1)
      by (rule absorb_inv [OF inv own_answer(2) ctr own_answer(8)]) (use own_answer(2,3,4) g in auto)
  next
    case (restart n ss conf ls sn ps fs r t)
    show ?thesis unfolding restart(1) using inv restart(2-6) by (rule restart_inv)
  next
    case (fast_heartbeat n now a r resp)
    have "\<not> races (cl_server cl n) a" using calm fast_heartbeat(1) by simp
    with inv fast_heartbeat(2,4,3) show ?thesis unfolding fast_heartbeat(1) by (rule heartbeat_inv)
  }
qed

lemma raced_stays: "cluster_step E F C cl cl' \<Longrightarrow> cl_raced cl \<Longrightarrow> cl_raced cl'"
  by (erule cluster_step.cases) (auto simp: absorb_def)

lemma starts_inv: "starts E ss_inv C cl \<Longrightarrow> cluster_inv E ss_inv C cl"
  by (auto simp: starts_def cluster_inv_def node_inv_def Let_def mode_ok_def votes_unique_def elected_backed_def granted_def)

lemma reaches_inv:
  assumes "reaches E F C cl cl'" and "starts E ss_inv C cl" and "\<not> cl_raced cl'"
  shows "cluster_inv E ss_inv C cl'"
  using assms(1,3)
proof induction
  case here
  show ?case using assms(2) by (rule starts_inv)
next
  case (further cl' cl'')
  have "\<not> cl_raced cl'" using raced_stays [OF further(2)] further(4) by blast
  then show ?case using further(2,4) further(3) cluster_step_inv by blast
qed

lemma one_leader:
  assumes "reaches E F C cl0 cl" and "starts E ss_inv C cl0" and "\<not> cl_raced cl"
    and inj: "\<And>p. DecodePeer (e_trans E) (EncodePeer (e_trans E) p) = p"
  shows "((t, n) \<in> cl_elected cl \<and> (t, m) \<in> cl_elected cl \<longrightarrow> n = m) \<and>
    (n \<in> C \<and> sv_mode (cl_server cl n) = Leading sd \<and> r_state (sv_raft (cl_server cl n)) = Leader \<longrightarrow>
      (r_currentTerm (sv_raft (cl_server cl n)), n) \<in> cl_elected cl)"
proof -
  have inv: "cluster_inv E ss_inv C cl" using assms(1-3) by (rule reaches_inv)
  then have "n \<in> C \<and> sv_mode (cl_server cl n) = Leading sd \<and> r_state (sv_raft (cl_server cl n)) = Leader \<longrightarrow> (r_currentTerm (sv_raft (cl_server cl n)), n) \<in> cl_elected cl"
    by (auto simp: cluster_inv_def node_inv_def Let_def)
  with elected_unique [OF inv inj] show ?thesis by blast
qed

end

section \<open>Properties\<close>

text \<open>
  C1: At most one leader per term. In every run of a cluster of nodes with a fixed membership,
  whatever requests, answers, timers, lost messages, store failures and crashes (also between
  the two writes that record a vote), and with heartbeats also on the fast path of the transport, two nodes that have won the
  election of the same term are the same node; in particular two nodes that lead in the same term are the same.
  The handlers of one node run one at a time, the names of peers must survive the transport's encoding, and one race must not
  have happened: that a heartbeat on the fast path raised the term of a node whose main goroutine waited for votes
  (\<open>heartbeat_race_makes_leader\<close> below shows what the code does then).
\<close>

theorem one_leader_per_term:
  assumes "starts (bunt_env Sn P W) bunt_inv C cl0" and "reaches (bunt_env Sn P W) F C cl0 cl" and "\<not> cl_raced cl"
    and "\<And>p. DecodePeer W (EncodePeer W p) = p"
  shows "(\<forall>t n m. (t, n) \<in> cl_elected cl \<and> (t, m) \<in> cl_elected cl \<longrightarrow> n = m) \<and>
    (\<forall>n m sd sd'. n \<in> C \<and> m \<in> C \<and> sv_mode (cl_server cl n) = Leading sd \<and> sv_mode (cl_server cl m) = Leading sd' \<and>
       r_state (sv_raft (cl_server cl n)) = Leader \<and> r_state (sv_raft (cl_server cl m)) = Leader \<and>
       r_currentTerm (sv_raft (cl_server cl n)) = r_currentTerm (sv_raft (cl_server cl m)) \<longrightarrow> n = m)"
proof -
  have dec: "DecodePeer (e_trans (bunt_env Sn P W)) (EncodePeer (e_trans (bunt_env Sn P W)) p) = p" for p
    using assms(4) by simp
  note one = bunt_node.one_leader [OF assms(2,1,3) dec]
  have el: "n = m" if "(t, n) \<in> cl_elected cl" "(t, m) \<in> cl_elected cl" for t n m using one that by blast
  have lead: "(r_currentTerm (sv_raft (cl_server cl n)), n) \<in> cl_elected cl"
    if "n \<in> C" "sv_mode (cl_server cl n) = Leading sd" "r_state (sv_raft (cl_server cl n)) = Leader" for n sd using one that by blast
  show ?thesis using el lead by metis
qed

text \<open>A cluster of one node that elects itself.\<close>

definition solo_raft :: "(bunt, bunt, unit, string list) Raft" where
  "solo_raft = (demo_node demo_bunt 0 0)\<lparr>r_peers := [], r_conf := DefaultConfig\<lparr>EnableSingleNode := True\<rparr>\<rparr>"

definition solo_fsm :: "string list fsmThread" where
  "solo_fsm = \<lparr>ft_fsm = [], ft_lastIndex = 0, ft_lastTerm = 0, ft_responses = []\<rparr>"

definition solo :: "(bunt, bunt, unit, string list, string list) cluster" where
  "solo = \<lparr>cl_server = \<lambda>_. \<lparr>sv_raft = solo_raft, sv_fsm = solo_fsm, sv_mode = Following\<rparr>,
     cl_answers = {}, cl_counted = {}, cl_elected = {}, cl_raced = False\<rparr>"

definition solo_req :: RequestVoteRequest where
  "solo_req = \<lparr>rv_Term = 1, rv_Candidate = ''a'', rv_LastLogIndex = 0, rv_LastLogTerm = 0\<rparr>"

lemma solo_starts: "starts demo_env bunt_inv {''a''} solo"
  by (simp add: starts_def solo_def solo_raft_def members_def demo_node_def vote_inv_def demo_bunt_inv durable_term_def
      vote_term_def demo_stable_reads)

text \<open>The state after the heartbeat timer.\<close>

definition solo_candidate :: "bunt \<Rightarrow> (bunt, bunt, unit, string list) Raft" where
  "solo_candidate b = (setState Candidate (setLeader [] solo_raft))\<lparr>r_currentTerm := 1, r_stable := b\<rparr>"

lemma solo_stands:
  "\<exists>b. db_aof b = [] \<and>
     server_step demo_env demo_fsm 2000000000 Ev_heartbeatTimer (cl_server solo ''a'') =
       Ret (\<lparr>sv_raft = solo_candidate b, sv_fsm = solo_fsm,
             sv_mode = Standing \<lparr>cd_req = solo_req, cd_voteCh = True, cd_grantedVotes = 0, cd_votesNeeded = 1\<rparr>\<rparr>,
            silent\<lparr>o_elect := Some (solo_req, True)\<rparr>)"
proof -
  let ?s = "\<lparr>db_items = [(dbConf @ keyCurrentTerm, FormatUint 1)], db_aof = []\<rparr>"
  obtain b where b: "ss_SetUint64 bunt_stable_store ?s keyLastVoteTerm 1 = (b, None)" "db_aof b = []"
    by (simp add: bunt_stable_store_def BuntStore_SetUint64_def Set_succeeds)
  obtain b' where b': "ss_Set bunt_stable_store b keyLastVoteCand ''a'' = (b', None)" "db_aof b' = []"
    using b(2) by (simp add: bunt_stable_store_def Set_succeeds)
  have f: "follower_step demo_env demo_fsm 2000000000 Ev_heartbeatTimer solo_raft solo_fsm =
      Ret (setState Candidate (setLeader [] solo_raft), solo_fsm, None, True)"
    by (simp add: follower_step_def Let_def solo_raft_def demo_node_def DefaultConfig_def setLeader_def)
  have p: "persistVote demo_env 1 ''a'' ((setState Candidate (setLeader [] solo_raft))\<lparr>r_stable := ?s, r_currentTerm := 1\<rparr>) =
      (solo_candidate b', None)"
    using b b' by (simp add: persistVote_def solo_candidate_def)
  let ?r1 = "(setState Candidate (setLeader [] solo_raft))\<lparr>r_stable := ?s, r_currentTerm := 1\<rparr>"
  have t: "setCurrentTerm demo_env (r_currentTerm (setState Candidate (setLeader [] solo_raft)) + 1)
      (setState Candidate (setLeader [] solo_raft)) = Ret ?r1"
    by (simp add: demo_setCurrentTerm solo_raft_def demo_node_def)
  have g: "getLastEntry ?r1 = (0, 0)" "EncodePeer demo_wire (r_localAddr ?r1) = ''a''" "r_currentTerm ?r1 = 1"
    by (simp_all add: getLastEntry_def solo_raft_def demo_node_def demo_wire_def)
  have e: "electSelf demo_env (setState Candidate (setLeader [] solo_raft)) = Ret (solo_candidate b', solo_req, True)"
    unfolding electSelf_def t obind.simps Let_def g bunt_env_simps by (simp add: p solo_req_def)
  have m: "enter_mode demo_env 2000000000 (setState Candidate (setLeader [] solo_raft)) =
      Ret (solo_candidate b', Standing \<lparr>cd_req = solo_req, cd_voteCh = True, cd_grantedVotes = 0, cd_votesNeeded = 1\<rparr>,
           Some (solo_req, True))"
    using e by (simp add: enter_mode_def) (simp add: solo_candidate_def solo_raft_def demo_node_def quorumSize_def setState_def setLeader_def)
  show ?thesis using b'(2) by (intro exI [of _ b']) (simp add: server_step_def solo_def f m)
qed

lemma dispatchLogs_peers: "dispatchLogs E fs r = Ret r' \<Longrightarrow> r_peers r' = r_peers r"
  by (auto simp: dispatchLogs_def Let_def on_inflight_def on_replications_def setLastLog_def setState_def setLeader_def observe_def
      split: prod.splits option.splits if_splits)

lemma solo_leads:
  assumes "db_aof b = []"
  shows "\<exists>r1. runLeader_enter demo_env now (setLeader ''a'' (setState Leader (solo_candidate b))) = Ret r1 \<and>
    r_state r1 = Leader \<and> r_peers r1 = [] \<and> r_localAddr r1 = ''a''"
proof -
  let ?r = "leader_setup (setLeader ''a'' (setState Leader (solo_candidate b)))"
  let ?ls = "\<lparr>ls_inflight = newInflight idle_signal, ls_replState = [], ls_notify = [], ls_stepDown = idle_signal\<rparr>"
  have 1: "r_leaderState ?r = Some ?ls" "getLastIndex ?r = 0" "r_peers ?r = []" "r_logs ?r = demo_bunt" "r_state ?r = Leader"
    "r_localAddr ?r = ''a''"
    by (simp_all add: leader_setup_def getLastIndex_def solo_candidate_def)
       (simp_all add: solo_raft_def demo_node_def)
  have w: "window (ls_inflight ?ls) 1 (getLastIndex ?r + 1)" "head_waiting (ls_inflight ?ls)"
    "\<not> sig_closed (commitCh (ls_inflight ?ls))" "triggers_open ?ls" "unat (getLastIndex ?r) + length [noop_future demo_env ?r] + 1 < 2 ^ 64"
    using 1(2) newInflight_inv by (simp_all add: window_def newInflight_def head_waiting_def triggers_open_def)
  obtain logs' where "StoreLogs (e_logs demo_env) (r_logs ?r) (map fut_log (number_logs (getLastIndex ?r + 1) (r_currentTerm ?r)
      (int (length (r_peers ?r)) + 1) [noop_future demo_env ?r])) = (logs', None)"
    using 1(4) by (simp add: bunt_log_store_def StoreLogs_succeeds demo_bunt_def)
  from dispatchLogs_result [OF 1(1) w this] obtain r' where d: "dispatchLogs demo_env [noop_future demo_env ?r] ?r = Ret r'" "r_state r' = Leader"
    using 1(5) by auto
  have "r_peers r' = []" "r_localAddr r' = ''a''"
    using dispatchLogs_peers [OF d(1)] dispatchLogs_role [OF d(1)] 1 by (simp_all add: same_role_def)
  with d 1(3) show ?thesis by (simp add: runLeader_enter_def Let_def)
qed

lemma solo_wins:
  assumes "db_aof b = []"
  shows "\<exists>sv' out. server_step demo_env demo_fsm 2000000000 (Ev_vote (own_vote solo_req))
      \<lparr>sv_raft = solo_candidate b, sv_fsm = solo_fsm,
       sv_mode = Standing \<lparr>cd_req = solo_req, cd_voteCh = True, cd_grantedVotes = 0, cd_votesNeeded = 1\<rparr>\<rparr> = Ret (sv', out) \<and>
    o_won out = Some 1 \<and> o_elect out = None \<and> members {''a''} ''a'' (sv_raft sv')"
proof -
  let ?cd = "\<lparr>cd_req = solo_req, cd_voteCh = True, cd_grantedVotes = 0, cd_votesNeeded = 1\<rparr>"
  let ?r = "setLeader ''a'' (setState Leader (solo_candidate b))"
  have c: "candidate_step demo_env demo_fsm 2000000000 (Ev_vote (own_vote solo_req)) ?cd (solo_candidate b) solo_fsm =
      Ret (?r, solo_fsm, ?cd\<lparr>cd_grantedVotes := 1\<rparr>, None, True)"
    by (simp add: candidate_step_def count_vote_def own_vote_def solo_req_def solo_candidate_def Let_def)
       (simp add: solo_raft_def demo_node_def)
  obtain r1 where r1: "runLeader_enter demo_env 2000000000 ?r = Ret r1" "r_state r1 = Leader" "r_peers r1 = []" "r_localAddr r1 = ''a''"
    using solo_leads [OF assms] by blast
  have m: "enter_mode demo_env 2000000000 ?r = Ret (r1, Leading False, None)"
    using r1 by (simp add: enter_mode_def solo_candidate_def) (simp add: solo_raft_def demo_node_def)
  have "server_step demo_env demo_fsm 2000000000 (Ev_vote (own_vote solo_req))
      \<lparr>sv_raft = solo_candidate b, sv_fsm = solo_fsm, sv_mode = Standing ?cd\<rparr> =
      Ret (\<lparr>sv_raft = r1, sv_fsm = solo_fsm, sv_mode = Leading False\<rparr>, silent\<lparr>o_won := Some 1\<rparr>)"
    unfolding server_step_def server.select_convs mode.case c obind.simps prod.case using m
    by (simp add: solo_candidate_def)
  with r1 show ?thesis by (intro exI conjI) (auto simp: members_def)
qed

theorem one_leader_per_term_witness:
  "\<exists>cl. reaches demo_env demo_fsm {''a''} solo cl \<and> (1, ''a'') \<in> cl_elected cl \<and>
     (\<forall>n. (1, n) \<in> cl_elected cl \<longrightarrow> n = ''a'')"
proof -
  let ?cd = "\<lparr>cd_req = solo_req, cd_voteCh = True, cd_grantedVotes = 0, cd_votesNeeded = 1\<rparr>"
  obtain b where b: "db_aof b = []" and st: "server_step demo_env demo_fsm 2000000000 Ev_heartbeatTimer (cl_server solo ''a'') =
    Ret (\<lparr>sv_raft = solo_candidate b, sv_fsm = solo_fsm, sv_mode = Standing ?cd\<rparr>, silent\<lparr>o_elect := Some (solo_req, True)\<rparr>)"
    using solo_stands by blast
  define c1 where "c1 = absorb ''a'' Ev_heartbeatTimer {} \<lparr>sv_raft = solo_candidate b, sv_fsm = solo_fsm, sv_mode = Standing ?cd\<rparr>
    (silent\<lparr>o_elect := Some (solo_req, True)\<rparr>) solo"
  have s1: "cluster_step demo_env demo_fsm {''a''} solo c1" unfolding c1_def
    by (rule local_event [OF _ _ st]) (auto simp: members_def solo_candidate_def solo_raft_def demo_node_def solo_req_def)
  have c1: "cl_server c1 ''a'' = \<lparr>sv_raft = solo_candidate b, sv_fsm = solo_fsm, sv_mode = Standing ?cd\<rparr>"
    "cl_counted c1 = {}" "(''a'', solo_req, own_vote solo_req) \<in> cl_answers c1"
    by (simp_all add: c1_def absorb_def given_def solo_def)
  obtain sv' out where w: "server_step demo_env demo_fsm 2000000000 (Ev_vote (own_vote solo_req)) (cl_server c1 ''a'') = Ret (sv', out)"
    "o_won out = Some 1" "o_elect out = None" "members {''a''} ''a'' (sv_raft sv')"
    using solo_wins [OF b] c1(1) by auto
  have s2: "cluster_step demo_env demo_fsm {''a''} c1 (absorb ''a'' (Ev_vote (own_vote (cd_req ?cd))) {(''a'', rv_Term (cd_req ?cd), ''a'')} sv' out c1)"
    by (rule own_answer) (use c1 w in auto)
  let ?c2 = "absorb ''a'' (Ev_vote (own_vote (cd_req ?cd))) {(''a'', rv_Term (cd_req ?cd), ''a'')} sv' out c1"
  have r: "reaches demo_env demo_fsm {''a''} solo ?c2" by (rule further [OF further [OF here s1] s2])
  have e: "(1, ''a'') \<in> cl_elected ?c2" using w(2) by (simp add: absorb_def)
  have d: "DecodePeer demo_wire (EncodePeer demo_wire p) = p" for p by (simp add: demo_wire_def)
  have "\<not> cl_raced ?c2" by (simp add: absorb_def c1_def solo_def)
  from one_leader_per_term [OF solo_starts r this d] e r show ?thesis by blast
qed

section \<open>The fast path for heartbeats\<close>

text \<open>
  \<open>runCandidate\<close> looks at the state of the node only at the top of its loop. When the transport's goroutine handles a heartbeat of a later
  term while the candidate waits for its last vote, the vote, granted for the term of the candidacy, makes the node leader in the
  later term, in which nobody has voted for it and in which the sender of the heartbeat leads.
\<close>

theorem heartbeat_race_makes_leader:
  assumes "vote_inv (bunt_env Sn P W) bunt_inv r" and "rv_Term (cd_req cd) = r_currentTerm r" and "r_currentTerm r < ae_Term a"
    and "\<not> r_shutdown r" and "processHeartbeat (bunt_env Sn P W) now (RPC_AppendEntries a) r = Ret (r1, resp)"
    and "cd_voteCh cd" and "rvr_Granted vote" and "rvr_Term vote \<le> rv_Term (cd_req cd)" and "cd_votesNeeded cd \<le> cd_grantedVotes cd + 1"
  shows "\<exists>r2 cd'. candidate_step (bunt_env Sn P W) F now (Ev_vote vote) cd r1 t = Ret (r2, t, cd', None, True) \<and> r_state r2 = Leader \<and>
    r_currentTerm r2 = ae_Term a \<and> rv_Term (cd_req cd') < r_currentTerm r2"
proof -
  from assms(4,5) obtain x where "appendEntries (bunt_env Sn P W) now a r = Ret (r1, x)"
    by (auto simp: processHeartbeat_def obind_pair_Ret_iff)
  from bunt_node.appendEntries_term [OF assms(1) this] have t: "r_currentTerm r1 = ae_Term a" using assms(3) by (simp add: max.absorb2)
  then have "\<not> r_currentTerm r1 < rvr_Term vote" using assms(2,3,8) by auto
  then show ?thesis using assms(2,3,6,7,9) t by (simp add: candidate_step_def count_vote_def Let_def)
qed

end
