(* ===== verification/Raft_Replication.thy ===== *)
theory Raft_Replication
  imports Raft_Snapshot
begin

text \<open>
  Replication from a leader to one peer (\<open>raft/replication.go\<close>) over the network transport
  (\<open>raft/net_transport.go\<close>): building a request from the leader's log, acting on the answer,
  shipping a snapshot, heartbeats and pipelining. The goroutine works on its own
  \<open>followerReplication\<close>; the in-flight tracker, the verifications and the step-down signal
  belong to the leader. The answers of the peer are inputs, one per turn of a loop; a run that
  has used up its answers waits for the peer.
\<close>

section \<open>Building a request\<close>

definition setPreviousLog ::
  "('ls, 'ss, 'sn, 'ps) env \<Rightarrow> uint64 \<Rightarrow> ('ls, 'ss, 'sn, 'ps) Raft \<Rightarrow> raft_error + uint64 \<times> uint64" where
  "setPreviousLog E nextIndex r =
     (if nextIndex = 1 then Inr (0, 0)
      else if nextIndex - 1 = r_lastSnapshotIndex r then Inr (r_lastSnapshotIndex r, r_lastSnapshotTerm r)
      else (case GetLog (e_logs E) (r_logs r) (nextIndex - 1) of
              Inl err \<Rightarrow> Inl err
            | Inr l \<Rightarrow> Inr (log_Index l, log_Term l)))"

text \<open>
  The loop of \<open>setNewLogs\<close>. Its bound is the largest \<open>uint64\<close> only for a log that fills
  the whole index range; there the counter would wrap.
\<close>

function collect_logs ::
  "('ls, 'ss, 'sn, 'ps) env \<Rightarrow> ('ls, 'ss, 'sn, 'ps) Raft \<Rightarrow> uint64 \<Rightarrow> uint64 \<Rightarrow> Log list \<Rightarrow> (raft_error + Log list) outcome" where
  "collect_logs E r i maxIndex entries =
     (if i \<le> maxIndex
      then (case GetLog (e_logs E) (r_logs r) i of
              Inl err \<Rightarrow> Ret (Inl err)
            | Inr oldLog \<Rightarrow> if i = - 1 then Diverge else collect_logs E r (i + 1) maxIndex (entries @ [oldLog]))
      else Ret (Inr entries))"
  by pat_completeness auto

termination collect_logs
proof (relation "measure (\<lambda>(E, r, i :: uint64, maxIndex, es). 2 ^ 64 - unat i)", goal_cases)
  case 1
  show ?case by simp
next
  case (2 E r i maxIndex es x2)
  have "unat i < 2 ^ 64" using unsigned_less [of i] by simp
  with 2 show ?case by (simp add: word_succ_unat diff_less_mono2)
qed

declare collect_logs.simps [simp del]

definition setNewLogs ::
  "('ls, 'ss, 'sn, 'ps) env \<Rightarrow> uint64 \<Rightarrow> uint64 \<Rightarrow> ('ls, 'ss, 'sn, 'ps) Raft \<Rightarrow> (raft_error + Log list) outcome" where
  "setNewLogs E nextIndex lastIndex r =
     collect_logs E r nextIndex (min_u64 (nextIndex + of_int (MaxAppendEntries (r_conf r)) - 1) lastIndex) []"

definition setupAppendEntries ::
  "('ls, 'ss, 'sn, 'ps) env \<Rightarrow> followerReplication \<Rightarrow> uint64 \<Rightarrow> uint64 \<Rightarrow> ('ls, 'ss, 'sn, 'ps) Raft \<Rightarrow>
   (raft_error + AppendEntriesRequest) outcome" where
  "setupAppendEntries E s nextIndex lastIndex r =
     (case setPreviousLog E nextIndex r of
        Inl err \<Rightarrow> Ret (Inl err)
      | Inr (prevEntry, prevTerm) \<Rightarrow>
          obind (setNewLogs E nextIndex lastIndex r) (\<lambda>new.
            Ret (case new of
                   Inl err \<Rightarrow> Inl err
                 | Inr entries \<Rightarrow>
                     Inr \<lparr>ae_Term = fr_currentTerm s, ae_Leader = EncodePeer (e_trans E) (r_localAddr r),
                          ae_PrevLogEntry = prevEntry, ae_PrevLogTerm = prevTerm, ae_Entries = entries,
                          ae_LeaderCommitIndex = r_commitIndex r\<rparr>)))"

section \<open>Acting on an answer\<close>

text \<open>
  The goroutine holds a pointer to the in-flight tracker. After the leader has stepped down the
  tracker is cancelled: it is empty and nobody reads it.
\<close>

definition on_tracker ::
  "(inflight \<Rightarrow> inflight outcome) \<Rightarrow> ('ls, 'ss, 'sn, 'ps) Raft \<Rightarrow> ('ls, 'ss, 'sn, 'ps) Raft outcome" where
  "on_tracker f r =
     (case r_leaderState r of
        None \<Rightarrow> obind (f (newInflight idle_signal)) (\<lambda>_. Ret r)
      | Some ls \<Rightarrow> obind (f (ls_inflight ls)) (\<lambda>i. Ret (r\<lparr>r_leaderState := Some (ls\<lparr>ls_inflight := i\<rparr>)\<rparr>)))"

definition updateLastAppended ::
  "AppendEntriesRequest \<Rightarrow> followerReplication \<Rightarrow> ('ls, 'ss, 'sn, 'ps) Raft \<Rightarrow>
   (('ls, 'ss, 'sn, 'ps) Raft \<times> followerReplication) outcome" where
  "updateLastAppended req s r =
     obind
       (if ae_Entries req = [] then Ret (r, s)
        else let first = hd (ae_Entries req); last = List.last (ae_Entries req)
             in obind (on_tracker (\<lambda>i. CommitRange i (log_Index first) (log_Index last)) r) (\<lambda>r1.
                  Ret (r1, s\<lparr>fr_matchIndex := log_Index last, fr_nextIndex := log_Index last + 1\<rparr>)))
       (\<lambda>(r1, s1). let (s2, r2) = notifyAll True s1 r1 in Ret (r2, s2))"

definition handleStaleTerm ::
  "followerReplication \<Rightarrow> ('ls, 'ss, 'sn, 'ps) Raft \<Rightarrow> (('ls, 'ss, 'sn, 'ps) Raft \<times> followerReplication) outcome" where
  "handleStaleTerm s r =
     (let (s1, r1) = notifyAll False s r
      in case r_leaderState r1 of
           None \<Rightarrow> Ret (r1, s1)
         | Some ls \<Rightarrow> obind (asyncNotifyCh (ls_stepDown ls)) (\<lambda>ch.
             Ret (r1\<lparr>r_leaderState := Some (ls\<lparr>ls_stepDown := ch\<rparr>)\<rparr>, s1)))"

text \<open>
  How the transport fills the caller's response. The network transport decodes with
  \<open>encoding/gob\<close>: a field with the zero value of its type is not sent, and decoding leaves
  the fields that were not sent as they are (\<open>decodeResponse\<close>).
\<close>

definition decodeResponse :: "AppendEntriesResponse \<Rightarrow> AppendEntriesResponse \<Rightarrow> AppendEntriesResponse" where
  "decodeResponse resp sent = \<lparr>aer_Term = (if aer_Term sent = 0 then aer_Term resp else aer_Term sent),
     aer_LastLog = (if aer_LastLog sent = 0 then aer_LastLog resp else aer_LastLog sent),
     aer_Success = (aer_Success sent \<or> aer_Success resp),
     aer_NoRetryBackoff = (aer_NoRetryBackoff sent \<or> aer_NoRetryBackoff resp)\<rparr>"

text \<open>A response variable as declared, with zero fields.\<close>

definition zero_response :: AppendEntriesResponse where
  "zero_response = \<lparr>aer_Term = 0, aer_LastLog = 0, aer_Success = False, aer_NoRetryBackoff = False\<rparr>"

text \<open>What the peer does in one turn of the loop: its answer to AppendEntries, or to a snapshot, and the time.\<close>

record peer_turn =
  pt_append :: "raft_error + AppendEntriesResponse"
  pt_install :: "raft_error + InstallSnapshotResponse"
  pt_now :: int

definition sendLatestSnapshot ::
  "('ls, 'ss, 'sn, 'ps) env \<Rightarrow> peer_turn \<Rightarrow> followerReplication \<Rightarrow> ('ls, 'ss, 'sn, 'ps) Raft \<Rightarrow>
   (('ls, 'ss, 'sn, 'ps) Raft \<times> followerReplication \<times> bool \<times> raft_error option) outcome" where
  "sendLatestSnapshot E turn s r =
     (case sn_List (e_snaps E) (r_snapshots r) of
        Inl err \<Rightarrow> Ret (r, s, False, Some err)
      | Inr [] \<Rightarrow> Ret (r, s, False, Some (ErrOther ''no snapshots found''))
      | Inr (newest # _) \<Rightarrow>
          (case sn_Open (e_snaps E) (r_snapshots r) (sm_ID newest) of
             Inl err \<Rightarrow> Ret (r, s, False, Some err)
           | Inr (meta, _) \<Rightarrow>
               (case pt_install turn of
                  Inl err \<Rightarrow> Ret (r, s\<lparr>fr_failures := fr_failures s + 1\<rparr>, False, Some err)
                | Inr resp \<Rightarrow>
                    if isr_Term resp > fr_currentTerm s
                    then obind (handleStaleTerm s r) (\<lambda>(r1, s1). Ret (r1, s1, True, None))
                    else let s1 = s\<lparr>fr_lastContact := pt_now turn\<rparr>
                    in if isr_Success resp
                       then obind (on_tracker (\<lambda>i. CommitRange i (fr_matchIndex s1 + 1) (sm_Index meta)) r) (\<lambda>r1.
                         let s2 = s1\<lparr>fr_matchIndex := sm_Index meta, fr_nextIndex := sm_Index meta + 1, fr_failures := 0\<rparr>;
                             (s3, r2) = notifyAll True s2 r1
                         in Ret (r2, s3, False, None))
                       else Ret (r, s1\<lparr>fr_failures := fr_failures s1 + 1\<rparr>, False, None))))"

text \<open>The part of \<open>replicateTo\<close> after a successful call; \<open>Some stop\<close> when the function returns.\<close>

definition append_answered ::
  "AppendEntriesRequest \<Rightarrow> AppendEntriesResponse \<Rightarrow> int \<Rightarrow> followerReplication \<Rightarrow> ('ls, 'ss, 'sn, 'ps) Raft \<Rightarrow>
   (('ls, 'ss, 'sn, 'ps) Raft \<times> followerReplication \<times> bool) outcome" where
  "append_answered req resp now s r =
     (if aer_Term resp > ae_Term req then obind (handleStaleTerm s r) (\<lambda>(r1, s1). Ret (r1, s1, True))
      else let s1 = s\<lparr>fr_lastContact := now\<rparr>
      in if aer_Success resp
         then obind (updateLastAppended req s1 r) (\<lambda>(r1, s2). Ret (r1, s2\<lparr>fr_failures := 0, fr_allowPipeline := True\<rparr>, False))
         else let next = max_u64 (min_u64 (fr_nextIndex s1 - 1) (aer_LastLog resp + 1)) 1
              in Ret (r, s1\<lparr>fr_nextIndex := next, fr_matchIndex := next - 1,
                           fr_failures := (if aer_NoRetryBackoff resp then 0 else fr_failures s1 + 1)\<rparr>, False))"

datatype repl_result = Waiting | Returned bool

text \<open>
  \<open>replicateTo\<close>: \<open>resp\<close> is the response variable the loop reuses, \<open>recv\<close> how the
  transport fills it.
\<close>

fun replicateTo ::
  "('ls, 'ss, 'sn, 'ps) env \<Rightarrow> (AppendEntriesResponse \<Rightarrow> AppendEntriesResponse \<Rightarrow> AppendEntriesResponse) \<Rightarrow> uint64 \<Rightarrow>
   peer_turn list \<Rightarrow> AppendEntriesResponse \<Rightarrow> followerReplication \<Rightarrow> ('ls, 'ss, 'sn, 'ps) Raft \<Rightarrow>
   (('ls, 'ss, 'sn, 'ps) Raft \<times> followerReplication \<times> repl_result) outcome" where
  "replicateTo E recv lastIndex [] resp s r = Ret (r, s, Waiting)"
| "replicateTo E recv lastIndex (turn # turns) resp s r =
     obind (setupAppendEntries E s (fr_nextIndex s) lastIndex r) (\<lambda>setup.
       case setup of
         Inl err \<Rightarrow>
           if err = ErrLogNotFound
           then obind (sendLatestSnapshot E turn s r) (\<lambda>(r1, s1, stop, err1).
             if stop then Ret (r1, s1, Returned True)
             else if err1 \<noteq> None then Ret (r1, s1, Returned False)
             else if fr_nextIndex s1 \<le> lastIndex then replicateTo E recv lastIndex turns resp s1 r1
             else Ret (r1, s1, Returned False))
           else Ret (r, s, Returned False)
       | Inr req \<Rightarrow>
           (case pt_append turn of
              Inl err \<Rightarrow> Ret (r, s\<lparr>fr_failures := fr_failures s + 1\<rparr>, Returned False)
            | Inr sent \<Rightarrow>
                (let resp1 = recv resp sent
                 in obind (append_answered req resp1 (pt_now turn) s r) (\<lambda>(r1, s1, stop).
                      if stop then Ret (r1, s1, Returned True)
                      else if fr_nextIndex s1 \<le> lastIndex then replicateTo E recv lastIndex turns resp1 s1 r1
                      else Ret (r1, s1, Returned False)))))"

section \<open>The outer loop\<close>

text \<open>The cases of the \<open>select\<close> of \<open>replicate\<close>; a closed stop channel gives 0.\<close>

datatype repl_event = Repl_stop uint64 | Repl_trigger | Repl_timeout

text \<open>What the goroutine does next: go on in the same loop, switch to the pipeline, wait in a call, or end.\<close>

datatype repl_next = Repl_loop | Repl_pipeline | Repl_waits | Repl_ends

definition replicate_turn ::
  "('ls, 'ss, 'sn, 'ps) env \<Rightarrow> (AppendEntriesResponse \<Rightarrow> AppendEntriesResponse \<Rightarrow> AppendEntriesResponse) \<Rightarrow> repl_event \<Rightarrow>
   peer_turn list \<Rightarrow> followerReplication \<Rightarrow> ('ls, 'ss, 'sn, 'ps) Raft \<Rightarrow>
   (('ls, 'ss, 'sn, 'ps) Raft \<times> followerReplication \<times> repl_next) outcome" where
  "replicate_turn E recv ev turns s r =
     (case ev of
        Repl_stop maxIndex \<Rightarrow>
          if maxIndex > 0
          then obind (replicateTo E recv maxIndex turns zero_response s r) (\<lambda>(r1, s1, res).
                 Ret (r1, s1, if res = Waiting then Repl_waits else Repl_ends))
          else Ret (r, s, Repl_ends)
      | _ \<Rightarrow>
          obind (replicateTo E recv (r_lastLogIndex r) turns zero_response s r) (\<lambda>(r1, s1, res).
            case res of
              Waiting \<Rightarrow> Ret (r1, s1, Repl_waits)
            | Returned shouldStop \<Rightarrow>
                if \<not> shouldStop \<and> fr_allowPipeline s1 then Ret (r1, s1\<lparr>fr_allowPipeline := False\<rparr>, Repl_pipeline)
                else Ret (r1, s1, if shouldStop then Repl_ends else Repl_loop)))"

section \<open>Heartbeats\<close>

text \<open>One turn of \<open>heartbeat\<close> after its \<open>select\<close>: failures and response variable are its local variables.\<close>

definition heartbeat_turn ::
  "(AppendEntriesResponse \<Rightarrow> AppendEntriesResponse \<Rightarrow> AppendEntriesResponse) \<Rightarrow> peer_turn \<Rightarrow> uint64 \<Rightarrow> AppendEntriesResponse \<Rightarrow>
   followerReplication \<Rightarrow> ('ls, 'ss, 'sn, 'ps) Raft \<Rightarrow>
   ('ls, 'ss, 'sn, 'ps) Raft \<times> followerReplication \<times> uint64 \<times> AppendEntriesResponse" where
  "heartbeat_turn recv turn failures resp s r =
     (case pt_append turn of
        Inl err \<Rightarrow> (r, s, failures + 1, resp)
      | Inr sent \<Rightarrow>
          (let resp1 = recv resp sent;
               (s1, r1) = notifyAll (aer_Success resp1) (s\<lparr>fr_lastContact := pt_now turn\<rparr>) r
           in (r1, s1, 0, resp1)))"

section \<open>The pipeline\<close>

text \<open>
  \<open>pipelineSend\<close>: the request handed to the pipeline (if it was), the next index and whether
  to stop. \<open>sent\<close> says whether the pipeline took the request.
\<close>

definition pipelineSend ::
  "('ls, 'ss, 'sn, 'ps) env \<Rightarrow> bool \<Rightarrow> uint64 \<Rightarrow> uint64 \<Rightarrow> followerReplication \<Rightarrow> ('ls, 'ss, 'sn, 'ps) Raft \<Rightarrow>
   (AppendEntriesRequest option \<times> uint64 \<times> bool) outcome" where
  "pipelineSend E sent nextIdx lastIndex s r =
     obind (setupAppendEntries E s nextIdx lastIndex r) (\<lambda>setup.
       case setup of
         Inl err \<Rightarrow> Ret (None, nextIdx, True)
       | Inr req \<Rightarrow>
           if \<not> sent then Ret (None, nextIdx, True)
           else Ret (Some req, if ae_Entries req = [] then nextIdx else log_Index (List.last (ae_Entries req)) + 1, False))"

text \<open>\<open>pipelineDecode\<close> on one answer; the flag says to go on.\<close>

definition pipelineDecode ::
  "AppendEntriesRequest \<Rightarrow> AppendEntriesResponse \<Rightarrow> int \<Rightarrow> followerReplication \<Rightarrow> ('ls, 'ss, 'sn, 'ps) Raft \<Rightarrow>
   (('ls, 'ss, 'sn, 'ps) Raft \<times> followerReplication \<times> bool) outcome" where
  "pipelineDecode req resp now s r =
     (if aer_Term resp > ae_Term req then obind (handleStaleTerm s r) (\<lambda>(r1, s1). Ret (r1, s1, False))
      else let s1 = s\<lparr>fr_lastContact := now\<rparr>
      in if \<not> aer_Success resp then Ret (r, s1, False)
      else obind (updateLastAppended req s1 r) (\<lambda>(r1, s2). Ret (r1, s2, True)))"

section \<open>What a request carries\<close>

text \<open>The leader's entries from \<open>lo\<close> to \<open>hi\<close>, in order.\<close>

definition carries :: "('ls, 'ss, 'sn, 'ps) env \<Rightarrow> 'ls \<Rightarrow> uint64 \<Rightarrow> uint64 \<Rightarrow> Log list \<Rightarrow> bool" where
  "carries E logs lo hi es \<longleftrightarrow> follows (lo - 1) es \<and>
     (\<forall>j. lo \<le> j \<and> j \<le> hi \<longrightarrow> (\<exists>l \<in> set es. GetLog (e_logs E) logs j = Inr l \<and> log_Index l = j)) \<and>
     (\<forall>l \<in> set es. GetLog (e_logs E) logs (log_Index l) = Inr l) \<and>
     (if hi < lo then es = [] else es \<noteq> [] \<and> log_Index (last es) = hi)"

context raft_env
begin

lemma GetLog_index: "ls_inv s \<Longrightarrow> GetLog (e_logs E) s i = Inr l \<Longrightarrow> log_Index l = i"
  by (auto simp: GetLog entry_index split: option.splits)

lemma carries_Cons:
  assumes inv: "ls_inv logs" and nz: "i \<noteq> 0" and i: "i \<le> hi" "i \<noteq> - 1" and get: "GetLog (e_logs E) logs i = Inr l"
    and new: "carries E logs (i + 1) hi new"
  shows "carries E logs i hi (l # new)"
proof -
  have li: "log_Index l = i" using inv get by (rule GetLog_index)
  have p: "i - 1 \<noteq> - 1" "i - 1 + 1 = i" using nz by simp_all
  have fol: "follows (i - 1) (l # new)" using new p li by (simp add: carries_def)
  have last: "log_Index (last (l # new)) = hi"
  proof (cases "hi < i + 1")
    case True
    then have "hi = i" using i by (metis leD order.order_iff_strict word_succ_le)
    with True new li show ?thesis by (simp add: carries_def)
  next
    case False
    with new show ?thesis by (simp add: carries_def)
  qed
  have "\<exists>k \<in> set (l # new). GetLog (e_logs E) logs j = Inr k \<and> log_Index k = j" if "i \<le> j" "j \<le> hi" for j
  proof (cases "j = i")
    case True
    with get li show ?thesis by simp
  next
    case False
    then have "i + 1 \<le> j" using that i(2) by (simp add: word_succ_le)
    with new that(2) show ?thesis unfolding carries_def by (metis list.set_intros(2))
  qed
  moreover have "\<forall>k \<in> set (l # new). GetLog (e_logs E) logs (log_Index k) = Inr k" using new get li by (simp add: carries_def)
  moreover have "\<not> hi < i" using i(1) by simp
  ultimately show ?thesis unfolding carries_def using fol last by simp
qed

lemma collect_logs_carries:
  assumes inv: "ls_inv (r_logs r)"
  shows "i \<noteq> 0 \<Longrightarrow> collect_logs E r i hi es = Ret (Inr es') \<Longrightarrow> \<exists>new. es' = es @ new \<and> carries E (r_logs r) i hi new"
proof (induction "2 ^ 64 - unat i" arbitrary: i es rule: less_induct)
  case less
  show ?case
  proof (cases "i \<le> hi")
    case False
    with less.prems have "es' = es" by (simp add: collect_logs.simps)
    with False show ?thesis by (auto simp: carries_def)
  next
    case True
    with less.prems(2) obtain l where get: "GetLog (e_logs E) (r_logs r) i = Inr l" and ni: "i \<noteq> - 1"
      and rec: "collect_logs E r (i + 1) hi (es @ [l]) = Ret (Inr es')"
      by (subst (asm) collect_logs.simps) (auto split: sum.splits if_splits)
    have nz: "i + 1 \<noteq> 0" using ni by (metis add_eq_0_iff add.commute)
    have "unat i < 2 ^ 64" using unsigned_less [of i] by simp
    then have dec: "2 ^ 64 - unat (i + 1) < 2 ^ 64 - unat i" using ni by (simp add: word_succ_unat diff_less_mono2)
    from less.hyps [OF dec nz rec] obtain new where "es' = (es @ [l]) @ new" "carries E (r_logs r) (i + 1) hi new" by blast
    with carries_Cons [OF inv less.prems(1) True ni get] show ?thesis by (intro exI [of _ "l # new"]) simp
  qed
qed

lemma setPreviousLog_index:
  assumes "ls_inv (r_logs r)" and "setPreviousLog E next r = Inr (p, t)"
  shows "p = next - 1"
  using assms by (auto simp: setPreviousLog_def dest: GetLog_index split: if_splits sum.splits)

lemma setupAppendEntries_carries:
  assumes inv: "ls_inv (r_logs r)" and nz: "next \<noteq> 0" and su: "setupAppendEntries E s next lastIndex r = Ret (Inr req)"
  shows "ae_Term req = fr_currentTerm s \<and> ae_PrevLogEntry req = next - 1 \<and>
    carries E (r_logs r) next (min (next + of_int (MaxAppendEntries (r_conf r)) - 1) lastIndex) (ae_Entries req)"
proof -
  obtain p t where p: "setPreviousLog E next r = Inr (p, t)"
    using su by (cases "setPreviousLog E next r") (auto simp: setupAppendEntries_def)
  with su obtain y where y: "setNewLogs E next lastIndex r = Ret y" by (auto simp: setupAppendEntries_def)
  with su p obtain new where n: "setNewLogs E next lastIndex r = Ret (Inr new)"
    by (cases y) (auto simp: setupAppendEntries_def)
  with su p have req: "ae_Entries req = new" "ae_PrevLogEntry req = p" "ae_Term req = fr_currentTerm s"
    by (auto simp: setupAppendEntries_def)
  have "collect_logs E r next (min (next + of_int (MaxAppendEntries (r_conf r)) - 1) lastIndex) [] = Ret (Inr new)"
    using n by (simp add: setNewLogs_def)
  from collect_logs_carries [OF inv nz this]
  have "carries E (r_logs r) next (min (next + of_int (MaxAppendEntries (r_conf r)) - 1) lastIndex) new" by auto
  with req setPreviousLog_index [OF inv p] show ?thesis by simp
qed

text \<open>A stored entry is read back as it is.\<close>

lemma round_copies:
  assumes li: "ls_inv (r_logs rl)" and nz: "next \<noteq> 0" and su: "setupAppendEntries E s next lastIndex rl = Ret (Inr req)"
    and vf: "vote_inv E ss_inv rf" and lf: "ls_inv (r_logs rf)"
    and ae: "appendEntries E now req rf = Ret (rf', resp)" and ok: "aer_Success resp"
    and j: "next \<le> j" "j \<le> min (next + of_int (MaxAppendEntries (r_conf rl)) - 1) lastIndex"
    and plain: "\<And>l. GetLog (e_logs E) (r_logs rl) j = Inr l \<Longrightarrow> stored l = l"
  shows "\<exists>l. GetLog (e_logs E) (r_logs rl) j = Inr l \<and> GetLog (e_logs E) (r_logs rf') j = Inr l"
proof -
  note c = setupAppendEntries_carries [OF li nz su]
  then have fol: "follows (ae_PrevLogEntry req) (ae_Entries req)" by (simp add: carries_def)
  from c j obtain l where l: "l \<in> set (ae_Entries req)" "GetLog (e_logs E) (r_logs rl) j = Inr l" "log_Index l = j"
    unfolding carries_def by blast
  from appendEntries_log [OF vf lf fol ae ok] l(1) have "GetLog (e_logs E) (r_logs rf') (log_Index l) = Inr (stored l)" by blast
  with l plain [OF l(2)] show ?thesis by simp
qed

text \<open>The entries before the first sent index stay.\<close>

lemma round_keeps:
  assumes li: "ls_inv (r_logs rl)" and nz: "next \<noteq> 0" and su: "setupAppendEntries E s next lastIndex rl = Ret (Inr req)"
    and vf: "vote_inv E ss_inv rf" and lf: "ls_inv (r_logs rf)"
    and ae: "appendEntries E now req rf = Ret (rf', resp)" and ok: "aer_Success resp" and j: "j < next"
  shows "GetLog (e_logs E) (r_logs rf') j = GetLog (e_logs E) (r_logs rf) j"
proof -
  have c: "follows (ae_PrevLogEntry req) (ae_Entries req)" "ae_PrevLogEntry req = next - 1"
    using setupAppendEntries_carries [OF li nz su] by (simp_all add: carries_def)
  have "next - 1 \<noteq> - 1" using nz by (simp add: eq_diff_eq)
  then have "j \<le> next - 1" using j word_less_succ [of "next - 1" j] by simp
  then show ?thesis using appendEntries_log [OF vf lf c(1) ae ok] c(2) by simp
qed

end

section \<open>Replication leaves the leader's log alone\<close>

text \<open>Votes on verifications touch only the verifications.\<close>

definition only_verifies :: "('ls, 'ss, 'sn, 'ps) Raft \<Rightarrow> ('ls, 'ss, 'sn, 'ps) Raft \<Rightarrow> bool" where
  "only_verifies r r' \<longleftrightarrow> r' = r\<lparr>r_verifies := r_verifies r', r_verifyCh := r_verifyCh r'\<rparr>"

lemma vf_vote_frame: "only_verifies r (vf_vote b v r)"
  by (simp add: only_verifies_def vf_vote_def Let_def split: option.split)

lemma only_verifies_trans: "only_verifies a b \<Longrightarrow> only_verifies b c \<Longrightarrow> only_verifies a c"
  by (cases a; cases b; cases c) (simp add: only_verifies_def)

lemma votes_frame: "only_verifies r (fold (vf_vote b) vs r)"
proof (induction vs arbitrary: r)
  case (Cons v vs)
  from only_verifies_trans [OF vf_vote_frame Cons.IH] show ?case by simp
qed (simp add: only_verifies_def)

lemma notifyAll_frame:
  assumes "notifyAll b s r = (s', r')"
  shows "s' = s\<lparr>fr_notify := []\<rparr> \<and> only_verifies r r'"
  using assms votes_frame [of r b "fr_notify s"] by (auto simp: notifyAll_def)

lemma only_verifiesD:
  assumes "only_verifies r r'"
  shows "r_logs r' = r_logs r" "r_leaderState r' = r_leaderState r" "r_conf r' = r_conf r" "r_snapshots r' = r_snapshots r"
    "r_lastSnapshotIndex r' = r_lastSnapshotIndex r" "r_lastSnapshotTerm r' = r_lastSnapshotTerm r"
    "r_lastLogIndex r' = r_lastLogIndex r" "r_commitIndex r' = r_commitIndex r" "r_answers r' = r_answers r"
  by (subst assms [unfolded only_verifies_def], simp)+

section \<open>A peer that accepts nothing\<close>

abbreviation tracker :: "('ls, 'ss, 'sn, 'ps) Raft \<Rightarrow> inflight option" where
  "tracker r \<equiv> map_option ls_inflight (r_leaderState r)"

lemma handleStaleTerm_frame:
  assumes "handleStaleTerm s r = Ret (r', s')"
  shows "tracker r' = tracker r \<and> r_logs r' = r_logs r \<and> fr_nextIndex s' = fr_nextIndex s \<and> fr_matchIndex s' = fr_matchIndex s"
proof -
  obtain s1 r1 where n: "notifyAll False s r = (s1, r1)" by force
  note f = notifyAll_frame [OF n]
  note d = only_verifiesD [OF conjunct2 [OF f]]
  show ?thesis using assms n d(1,2) f by (cases "r_leaderState r") (auto simp: handleStaleTerm_def)
qed

lemma back_up_bounds:
  fixes nx :: uint64
  assumes "0 < nx"
  shows "0 < max_u64 (min_u64 (nx - 1) x) 1 \<and> max_u64 (min_u64 (nx - 1) x) 1 \<le> nx"
proof -
  have "nx - 1 \<le> nx" using assms by (simp add: word_le_nat_alt unat_minus_one word_gt_0)
  moreover have "1 \<le> nx" using assms by (simp add: word_le_nat_alt word_less_nat_alt)
  ultimately show ?thesis by (auto simp: max_def min_def word_gt_0)
qed

lemma sendLatestSnapshot_rejected:
  assumes "sendLatestSnapshot E turn s r = Ret (r', s', stop, err)" and "\<And>i. pt_install turn = Inr i \<Longrightarrow> \<not> isr_Success i"
  shows "tracker r' = tracker r \<and> r_logs r' = r_logs r \<and> fr_nextIndex s' = fr_nextIndex s"
  using assms handleStaleTerm_frame
  by (auto simp: sendLatestSnapshot_def Let_def obind_pair_Ret_iff split: sum.splits list.splits prod.splits if_splits)

lemma append_rejected:
  assumes "append_answered req resp now s r = Ret (r', s', stop)" and "\<not> aer_Success resp" and "0 < fr_nextIndex s"
  shows "tracker r' = tracker r \<and> r_logs r' = r_logs r \<and> 0 < fr_nextIndex s' \<and> fr_nextIndex s' \<le> fr_nextIndex s"
proof (cases "aer_Term resp > ae_Term req")
  case True
  with assms handleStaleTerm_frame [of s r r' s'] show ?thesis by (auto simp: append_answered_def obind_pair_Ret_iff)
next
  case False
  with assms(1,2) have "r' = r" "fr_nextIndex s' = max_u64 (min_u64 (fr_nextIndex s - 1) (aer_LastLog resp + 1)) 1"
    by (auto simp: append_answered_def Let_def)
  with back_up_bounds [OF assms(3), of "aer_LastLog resp + 1"] show ?thesis by (simp del: max_u64_max min_u64_min)
qed

definition rejecting :: "peer_turn \<Rightarrow> bool" where
  "rejecting turn \<longleftrightarrow> (\<forall>a. pt_append turn = Inr a \<longrightarrow> \<not> aer_Success a) \<and> (\<forall>i. pt_install turn = Inr i \<longrightarrow> \<not> isr_Success i)"

lemma replicateTo_rejected:
  assumes "\<forall>turn \<in> set turns. rejecting turn" and "\<not> aer_Success resp" and "0 < fr_nextIndex s"
    and "replicateTo E decodeResponse lastIndex turns resp s r = Ret (r', s', res)"
  shows "tracker r' = tracker r \<and> r_logs r' = r_logs r \<and> 0 < fr_nextIndex s' \<and> fr_nextIndex s' \<le> fr_nextIndex s"
  using assms
proof (induction turns arbitrary: resp s r)
  case (Cons turn turns)
  obtain su where st: "setupAppendEntries E s (fr_nextIndex s) lastIndex r = Ret su"
    using Cons.prems(4) by auto
  have rej: "\<And>i. pt_install turn = Inr i \<Longrightarrow> \<not> isr_Success i" "\<And>a. pt_append turn = Inr a \<Longrightarrow> \<not> aer_Success a"
    using Cons.prems(1) by (auto simp: rejecting_def)
  have rest: "\<forall>t \<in> set turns. rejecting t" using Cons.prems(1) by simp
  show ?case
  proof (cases su)
    case (Inl err)
    show ?thesis
    proof (cases "err = ErrLogNotFound")
      case True
      with Cons.prems(4) st Inl obtain r1 s1 stop err1 where sn: "sendLatestSnapshot E turn s r = Ret (r1, s1, stop, err1)"
        and c: "(if stop then Ret (r1, s1, Returned True) else if err1 \<noteq> None then Ret (r1, s1, Returned False)
          else if fr_nextIndex s1 \<le> lastIndex then replicateTo E decodeResponse lastIndex turns resp s1 r1
          else Ret (r1, s1, Returned False)) = Ret (r', s', res)"
        by (auto simp: obind_pair_Ret_iff)
      note fr = sendLatestSnapshot_rejected [OF sn rej(1)]
      show ?thesis
      proof (cases "\<not> stop \<and> err1 = None \<and> fr_nextIndex s1 \<le> lastIndex")
        case True
        with c have "replicateTo E decodeResponse lastIndex turns resp s1 r1 = Ret (r', s', res)" by simp
        from Cons.IH [OF rest Cons.prems(2) _ this] fr Cons.prems(3) show ?thesis by simp
      next
        case False
        with c fr Cons.prems(3) show ?thesis by (auto split: if_splits)
      qed
    next
      case False
      with Cons.prems(3,4) st Inl show ?thesis by simp
    qed
  next
    case (Inr req)
    show ?thesis
    proof (cases "pt_append turn")
      case (Inl err)
      with Cons.prems(3,4) st Inr show ?thesis by auto
    next
      case (Inr sent)
      let ?resp = "decodeResponse resp sent"
      have ns: "\<not> aer_Success ?resp" using rej(2) [OF Inr] Cons.prems(2) by (simp add: decodeResponse_def)
      from Cons.prems(4) st \<open>su = Inr req\<close> Inr obtain r1 s1 stop where a: "append_answered req ?resp (pt_now turn) s r = Ret (r1, s1, stop)"
        and c: "(if stop then Ret (r1, s1, Returned True)
          else if fr_nextIndex s1 \<le> lastIndex then replicateTo E decodeResponse lastIndex turns ?resp s1 r1
          else Ret (r1, s1, Returned False)) = Ret (r', s', res)"
        by (auto simp: obind_pair_Ret_iff Let_def)
      note fr = append_rejected [OF a ns Cons.prems(3)]
      show ?thesis
      proof (cases "\<not> stop \<and> fr_nextIndex s1 \<le> lastIndex")
        case True
        with c have "replicateTo E decodeResponse lastIndex turns ?resp s1 r1 = Ret (r', s', res)" by simp
        from Cons.IH [OF rest ns _ this] fr show ?thesis by auto
      next
        case False
        with c fr show ?thesis by (auto split: if_splits)
      qed
    qed
  qed
qed simp

section \<open>A peer that answers\<close>

definition answering :: "uint64 \<Rightarrow> peer_turn \<Rightarrow> bool" where
  "answering term turn \<longleftrightarrow> (\<exists>a. pt_append turn = Inr a \<and> aer_Term a \<le> term)"

definition accepting :: "uint64 \<Rightarrow> peer_turn \<Rightarrow> bool" where
  "accepting term turn \<longleftrightarrow> (\<exists>a. pt_append turn = Inr a \<and> aer_Success a \<and> aer_Term a \<le> term)"

text \<open>The leader can read every entry the peer still needs, and the one before.\<close>

definition readable :: "('ls, 'ss, 'sn, 'ps) env \<Rightarrow> 'ls \<Rightarrow> uint64 \<Rightarrow> uint64 \<Rightarrow> bool" where
  "readable E logs lo hi \<longleftrightarrow> (\<forall>i. lo \<le> i \<and> i \<le> hi \<longrightarrow> (\<exists>l. GetLog (e_logs E) logs i = Inr l))"

lemma below_max: "i \<le> hi \<Longrightarrow> hi \<noteq> - 1 \<Longrightarrow> (i :: uint64) \<noteq> - 1"
  by (auto dest: word_order.extremum_uniqueI)

context raft_env
begin

lemma collect_logs_returns:
  assumes "hi \<noteq> - 1"
  shows "readable E (r_logs r) i hi \<Longrightarrow> \<exists>es'. collect_logs E r i hi es = Ret (Inr es')"
proof (induction "2 ^ 64 - unat i" arbitrary: i es rule: less_induct)
  case less
  show ?case
  proof (cases "i \<le> hi")
    case False
    then show ?thesis by (simp add: collect_logs.simps)
  next
    case True
    then obtain l where get: "GetLog (e_logs E) (r_logs r) i = Inr l" using less.prems by (auto simp: readable_def)
    have ni: "i \<noteq> - 1" using True assms by (rule below_max)
    have "unat i < 2 ^ 64" using unsigned_less [of i] by simp
    then have dec: "2 ^ 64 - unat (i + 1) < 2 ^ 64 - unat i" using ni by (simp add: word_succ_unat diff_less_mono2)
    have "readable E (r_logs r) (i + 1) hi" using less.prems ni by (auto simp: readable_def word_succ_le)
    from less.hyps [OF dec this, of "es @ [l]"] get ni True show ?thesis by (subst collect_logs.simps) simp
  qed
qed

lemma setupAppendEntries_returns:
  assumes rd: "readable E (r_logs r) nx lastIndex" and ni: "lastIndex \<noteq> - 1"
    and prev: "nx = 1 \<or> nx - 1 = r_lastSnapshotIndex r \<or> (\<exists>l. GetLog (e_logs E) (r_logs r) (nx - 1) = Inr l)"
  shows "\<exists>req. setupAppendEntries E s nx lastIndex r = Ret (Inr req)"
proof -
  let ?hi = "min (nx + of_int (MaxAppendEntries (r_conf r)) - 1) lastIndex"
  have "?hi \<le> lastIndex" by simp
  then have "?hi \<noteq> - 1" "readable E (r_logs r) nx ?hi" using below_max [OF _ ni] rd by (auto simp: readable_def)
  from collect_logs_returns [OF this, of "[]"] obtain es where es: "setNewLogs E nx lastIndex r = Ret (Inr es)"
    by (auto simp: setNewLogs_def)
  have "\<exists>p t. setPreviousLog E nx r = Inr (p, t)"
    using prev by (cases "nx = 1"; cases "nx - 1 = r_lastSnapshotIndex r") (auto simp: setPreviousLog_def)
  with es show ?thesis by (auto simp: setupAppendEntries_def)
qed

lemma append_accepted:
  assumes es: "ae_Entries req \<noteq> []" and ok: "aer_Success resp" "aer_Term resp \<le> ae_Term req"
    and ls: "r_leaderState r = Some ls" and w: "window (ls_inflight ls) b e" "head_waiting (ls_inflight ls)"
    and ni: "log_Index (last (ae_Entries req)) \<noteq> - 1"
  shows "\<exists>r' s' ls' b'. append_answered req resp now s r = Ret (r', s', False) \<and>
    fr_matchIndex s' = log_Index (last (ae_Entries req)) \<and> fr_nextIndex s' = log_Index (last (ae_Entries req)) + 1 \<and>
    fr_currentTerm s' = fr_currentTerm s \<and> r_logs r' = r_logs r \<and> r_conf r' = r_conf r \<and>
    r_leaderState r' = Some ls' \<and> window (ls_inflight ls') b' e \<and> head_waiting (ls_inflight ls')"
proof -
  let ?es = "ae_Entries req"
  let ?s1 = "s\<lparr>fr_lastContact := now\<rparr>"
  from CommitRange_delivers [OF w ni] obtain i' b' where
    c: "CommitRange (ls_inflight ls) (log_Index (hd ?es)) (log_Index (last ?es)) = Ret i'" and d: "delivers (ls_inflight ls) b i' b' e"
    by blast
  let ?r1 = "r\<lparr>r_leaderState := Some (ls\<lparr>ls_inflight := i'\<rparr>)\<rparr>"
  let ?s2 = "?s1\<lparr>fr_matchIndex := log_Index (last ?es), fr_nextIndex := log_Index (last ?es) + 1\<rparr>"
  obtain s3 r2 where n: "notifyAll True ?s2 ?r1 = (s3, r2)" by force
  have u: "updateLastAppended req ?s1 r = Ret (r2, s3)"
    using es c ls n by (simp add: updateLastAppended_def on_tracker_def Let_def)
  have a: "append_answered req resp now s r = Ret (r2, s3\<lparr>fr_failures := 0, fr_allowPipeline := True\<rparr>, False)"
    using u ok by (simp add: append_answered_def Let_def)
  note fr = notifyAll_frame [OF n]
  note ov = only_verifiesD [OF conjunct2 [OF fr]]
  from a fr ov(1,2,3) delivers_window [OF d] show ?thesis by auto
qed

lemma last_batch_bounds:
  fixes nx lastIndex :: uint64 and m :: int
  assumes "nx \<le> lastIndex" and "0 < m" and "unat lastIndex + nat m < 2 ^ 64"
  shows "nx \<le> min (nx + of_int m - 1) lastIndex"
proof -
  have "unat nx + nat m < 2 ^ 64" using assms(1,3) by (simp add: word_le_nat_alt)
  moreover have m: "(of_int m :: uint64) = of_nat (nat m)" using assms(2) by simp
  ultimately have "unat (nx + of_int m) = unat nx + nat m"
    unfolding m using assms(3) by (subst unat_add_lem [THEN iffD1]) (simp_all add: unat_of_nat)
  moreover have "unat (nx + of_int m - 1) = unat (nx + of_int m) - 1"
    using calculation assms(2) by (intro unat_minus_one) auto
  ultimately show ?thesis using assms(1,2) by (simp add: word_le_nat_alt)
qed

lemma replicateTo_answered:
  assumes inv: "ls_inv (r_logs r)" and nz: "0 < fr_nextIndex s" and le: "fr_nextIndex s \<le> lastIndex"
    and max: "0 < MaxAppendEntries (r_conf r)" "unat lastIndex + nat (MaxAppendEntries (r_conf r)) < 2 ^ 64"
    and rd: "readable E (r_logs r) (fr_nextIndex s) lastIndex"
    and prev: "fr_nextIndex s = 1 \<or> fr_nextIndex s - 1 = r_lastSnapshotIndex r \<or> (\<exists>l. GetLog (e_logs E) (r_logs r) (fr_nextIndex s - 1) = Inr l)"
    and ls: "r_leaderState r = Some ls" and w: "window (ls_inflight ls) b e" "head_waiting (ls_inflight ls)"
    and acc: "\<forall>turn \<in> set turns. answering (fr_currentTerm s) turn"
    and first: "aer_Success resp \<or> turns \<noteq> [] \<and> accepting (fr_currentTerm s) (hd turns)" and tm: "aer_Term resp \<le> fr_currentTerm s"
    and enough: "unat lastIndex - unat (fr_nextIndex s) < length turns"
  shows "\<exists>r' s'. replicateTo E decodeResponse lastIndex turns resp s r = Ret (r', s', Returned False) \<and>
    fr_matchIndex s' = lastIndex \<and> fr_nextIndex s' = lastIndex + 1"
  using assms
proof (induction turns arbitrary: resp s r ls b)
  case (Cons turn turns)
  let ?nx = "fr_nextIndex s"
  let ?hi = "min (?nx + of_int (MaxAppendEntries (r_conf r)) - 1) lastIndex"
  have ni: "lastIndex \<noteq> - 1" using Cons.prems(4,5) by auto
  from setupAppendEntries_returns [OF Cons.prems(6) ni Cons.prems(7)] obtain req where
    su: "setupAppendEntries E s ?nx lastIndex r = Ret (Inr req)" by blast
  have nz: "?nx \<noteq> 0" using Cons.prems(2) by auto
  note c = setupAppendEntries_carries [OF Cons.prems(1) nz su]
  have lo: "?nx \<le> ?hi" using Cons.prems(3,4,5) by (rule last_batch_bounds)
  then have es: "ae_Entries req \<noteq> []" and la: "log_Index (last (ae_Entries req)) = ?hi"
    using c unfolding carries_def by (simp_all add: leD)
  have hi: "?hi \<noteq> - 1" by (rule below_max [OF _ ni]) simp
  obtain sent where sent: "pt_append turn = Inr sent" "aer_Term sent \<le> fr_currentTerm s"
    using Cons.prems(11) by (auto simp: answering_def)
  let ?resp = "decodeResponse resp sent"
  have ok: "aer_Success ?resp" "aer_Term ?resp \<le> ae_Term req" "aer_Term ?resp \<le> fr_currentTerm s"
    using sent Cons.prems(12,13) c by (auto simp: decodeResponse_def accepting_def)
  obtain r1 s1 ls1 b1 where a: "append_answered req ?resp (pt_now turn) s r = Ret (r1, s1, False)"
    and s1: "fr_matchIndex s1 = ?hi" "fr_nextIndex s1 = ?hi + 1" "fr_currentTerm s1 = fr_currentTerm s"
    and r1: "r_logs r1 = r_logs r" "r_conf r1 = r_conf r" "r_leaderState r1 = Some ls1"
      "window (ls_inflight ls1) b1 e" "head_waiting (ls_inflight ls1)"
    using append_accepted [OF es ok(1,2) Cons.prems(8-10), of "pt_now turn" s] hi unfolding la by blast
  have step: "replicateTo E decodeResponse lastIndex (turn # turns) resp s r =
      (if fr_nextIndex s1 \<le> lastIndex then replicateTo E decodeResponse lastIndex turns ?resp s1 r1 else Ret (r1, s1, Returned False))"
    using su sent(1) a by simp
  show ?case
  proof (cases "?hi = lastIndex")
    case True
    then have "\<not> fr_nextIndex s1 \<le> lastIndex" using s1(2) ni by (simp add: word_succ_le)
    with True s1 show ?thesis unfolding step by simp
  next
    case False
    then have lt: "?hi < lastIndex" by (simp add: order.not_eq_order_implies_strict)
    have le1: "fr_nextIndex s1 \<le> lastIndex" using s1(2) hi lt by (simp add: word_succ_le)
    have pos: "0 < fr_nextIndex s1" unfolding s1(2) using hi by (metis add_eq_0_iff add.commute word_gt_0)
    have mono: "?nx \<le> fr_nextIndex s1" unfolding s1(2) using lo hi by (simp add: word_le_nat_alt word_succ_unat)
    have rd: "readable E (r_logs r1) (fr_nextIndex s1) lastIndex"
      using Cons.prems(6) mono unfolding readable_def r1(1) by (meson order.trans)
    have pv: "\<exists>l. GetLog (e_logs E) (r_logs r1) (fr_nextIndex s1 - 1) = Inr l"
      using Cons.prems(6) lo lt unfolding readable_def r1(1) s1(2) by (auto dest: order.strict_implies_order)
    have "unat ?nx < unat (fr_nextIndex s1)" unfolding s1(2) using lo hi by (simp add: word_succ_unat word_le_nat_alt)
    then have en: "unat lastIndex - unat (fr_nextIndex s1) < length turns"
      using Cons.prems(14) le1 by (simp add: word_le_nat_alt)
    have "\<exists>r' s'. replicateTo E decodeResponse lastIndex turns ?resp s1 r1 = Ret (r', s', Returned False) \<and>
        fr_matchIndex s' = lastIndex \<and> fr_nextIndex s' = lastIndex + 1"
    proof (rule Cons.IH)
      show "\<forall>t \<in> set turns. answering (fr_currentTerm s1) t" using Cons.prems(11) s1(3) by simp
    qed (use Cons.prems(1,4,5) r1 pos le1 rd pv ok(1,3) s1(3) en in simp_all)
    with le1 show ?thesis unfolding step by simp
  qed
qed simp

end

section \<open>Properties\<close>

declare replicateTo.simps [simp del]

lemma bunt_entry_stored: "bunt_inv b \<Longrightarrow> BuntStore_GetLog b j = Inr l \<Longrightarrow> stored l = l"
  using bunt_invD [of b j] by (auto simp: bunt_GetLog bunt_entries_def stored_def split: option.splits sum.splits)

lemma append_match:
  assumes "append_answered req resp now s r = Ret (r', s', False)" and "aer_Success resp" and "ae_Entries req \<noteq> []"
  shows "fr_matchIndex s' = log_Index (last (ae_Entries req)) \<and> fr_nextIndex s' = log_Index (last (ae_Entries req)) + 1"
proof -
  have "\<not> aer_Term resp > ae_Term req" using assms(1) by (auto simp: append_answered_def obind_pair_Ret_iff)
  with assms obtain s2 where u: "updateLastAppended req (s\<lparr>fr_lastContact := now\<rparr>) r = Ret (r', s2)"
    and s': "s' = s2\<lparr>fr_failures := 0, fr_allowPipeline := True\<rparr>"
    by (auto simp: append_answered_def Let_def obind_pair_Ret_iff)
  from u assms(3) obtain r1 where "notifyAll True (s\<lparr>fr_lastContact := now, fr_matchIndex := log_Index (last (ae_Entries req)),
      fr_nextIndex := log_Index (last (ae_Entries req)) + 1\<rparr>) r1 = (s2, r')"
    by (auto simp: updateLastAppended_def Let_def case_prod_unfold prod_eq_iff)
  from notifyAll_frame [OF this] s' show ?thesis by simp
qed

text \<open>
  C5: One round of replication copies entries. When the leader builds a request for a peer, the
  peer (a node with the same code) accepts it, and the leader takes note, then every index from
  the next index on up to the new match index holds the same entry at the leader and at the
  peer, and the peer keeps what it had before the next index: so logs that agreed up to the next index agree up to the
  match index. The match index is what the leader could send, and replication goes on right behind it.
\<close>

theorem replication_round_copies:
  assumes "bunt_inv (r_logs rl)" and "next \<noteq> 0"
    and "setupAppendEntries (bunt_env Sn P W) s next lastIndex rl = Ret (Inr req)" and "ae_Entries req \<noteq> []"
    and "vote_inv (bunt_env Sn P W) bunt_inv rf" and "bunt_inv (r_logs rf)"
    and "appendEntries (bunt_env Sn P W) now req rf = Ret (rf', resp)" and "aer_Success resp"
    and "append_answered req resp now s rl = Ret (rl', s', False)"
  shows "fr_matchIndex s' = min (next + of_int (MaxAppendEntries (r_conf rl)) - 1) lastIndex \<and>
    fr_nextIndex s' = fr_matchIndex s' + 1 \<and>
    (\<forall>j. next \<le> j \<and> j \<le> fr_matchIndex s' \<longrightarrow>
       (\<exists>l. BuntStore_GetLog (r_logs rl) j = Inr l \<and> BuntStore_GetLog (r_logs rf') j = Inr l)) \<and>
    (\<forall>j < next. BuntStore_GetLog (r_logs rf') j = BuntStore_GetLog (r_logs rf) j)"
proof -
  let ?E = "bunt_env Sn P W" and ?hi = "min (next + of_int (MaxAppendEntries (r_conf rl)) - 1) lastIndex"
  note c = bunt_node.setupAppendEntries_carries [OF assms(1-3)]
  then have la: "log_Index (last (ae_Entries req)) = ?hi" using assms(4) by (simp add: carries_def split: if_splits)
  have m: "fr_matchIndex s' = ?hi \<and> fr_nextIndex s' = ?hi + 1"
    using append_match [OF assms(9,8,4)] la by simp
  have "\<exists>l. BuntStore_GetLog (r_logs rl) j = Inr l \<and> BuntStore_GetLog (r_logs rf') j = Inr l" if "next \<le> j" "j \<le> ?hi" for j
    using bunt_node.round_copies [OF assms(1-3,5-8) that] bunt_entry_stored [OF assms(1)]
    by (simp add: bunt_log_store_def)
  moreover have "BuntStore_GetLog (r_logs rf') j = BuntStore_GetLog (r_logs rf) j" if "j < next" for j
    using bunt_node.round_keeps [OF assms(1-3,5-8) that] by (simp add: bunt_log_store_def)
  ultimately show ?thesis using m by simp
qed

text \<open>A leader with two entries in its log.\<close>

definition repl_logs :: bunt where
  "repl_logs = fst (BuntStore_StoreLogs demo_bunt [demo_log 1 1, demo_log 2 1])"

definition repl_leader :: "int \<Rightarrow> (bunt, bunt, unit, string list) Raft" where
  "repl_leader m = demo_leader\<lparr>r_logs := repl_logs, r_lastLogIndex := 2, r_lastLogTerm := 1, r_localAddr := ''b'',
     r_currentTerm := 1, r_conf := DefaultConfig\<lparr>MaxAppendEntries := m\<rparr>\<rparr>"

definition repl_peer :: "uint64 \<Rightarrow> followerReplication" where
  "repl_peer n = (new_replication ''a'' 0 (repl_leader 1))\<lparr>fr_nextIndex := n\<rparr>"

lemma repl_logs_get: "bunt_inv repl_logs" "BuntStore_GetLog repl_logs 1 = Inr (demo_log 1 1)" "BuntStore_GetLog repl_logs 2 = Inr (demo_log 2 1)"
proof -
  let ?ls = "[demo_log 1 1, demo_log 2 1]"
  have st: "StoreLogs bunt_log_store demo_bunt ?ls = (repl_logs, None)"
    using StoreLogs_succeeds [of demo_bunt ?ls] by (simp add: repl_logs_def bunt_log_store_def demo_bunt_def)
  have d: "distinct (map log_Index ?ls)" by (simp add: demo_log_def)
  show "bunt_inv repl_logs" using bunt_logs.StoreLogs [OF demo_bunt_inv st] by simp
  have "GetLog bunt_log_store repl_logs (log_Index l) = Inr (stored l)" if "l \<in> set ?ls" for l
    using demo_bunt_inv st d that by (rule bunt_logs.get_after_store)
  from this [of "demo_log 1 1"] this [of "demo_log 2 1"]
  show "BuntStore_GetLog repl_logs 1 = Inr (demo_log 1 1)" "BuntStore_GetLog repl_logs 2 = Inr (demo_log 2 1)"
    by (simp_all add: bunt_log_store_def demo_log_def stored_def)
qed

lemma repl_leader_fields [simp]:
  "r_logs (repl_leader m) = repl_logs" "MaxAppendEntries (r_conf (repl_leader m)) = m" "r_localAddr (repl_leader m) = ''b''"
  "r_commitIndex (repl_leader m) = 0" "r_answers (repl_leader m) = []" "r_verifyCh (repl_leader m) = []" "r_lastSnapshotIndex (repl_leader m) = 0"
  "r_leaderState (repl_leader m) = Some \<lparr>ls_inflight = newInflight idle_signal, ls_replState = [], ls_notify = [], ls_stepDown = idle_signal\<rparr>"
  "fr_nextIndex (repl_peer n) = n" "fr_currentTerm (repl_peer n) = 1" "fr_notify (repl_peer n) = []"
  by (simp_all add: repl_leader_def demo_leader_def leader_setup_def demo_node_def repl_peer_def new_replication_def)

lemma repl_setup: "setupAppendEntries demo_env (repl_peer 1) 1 2 (repl_leader 1) = Ret (Inr (demo_append 0 0 [demo_log 1 1]))"
proof -
  have "collect_logs demo_env (repl_leader 1) 1 1 [] = Ret (Inr [demo_log 1 1])"
    using repl_logs_get by (subst collect_logs.simps, simp add: bunt_log_store_def, subst collect_logs.simps, simp add: word_le_nat_alt)
  then show ?thesis
    by (simp add: setupAppendEntries_def setNewLogs_def setPreviousLog_def demo_append_def demo_wire_def)
qed

lemma repl_window:
  "window (newInflight idle_signal) 3 3" "head_waiting (newInflight idle_signal)"
  using newInflight_inv by (simp_all add: window_def newInflight_def head_waiting_def)

theorem replication_round_copies_witness:
  "\<exists>rf' resp rl' s'. appendEntries demo_env 0 (demo_append 0 0 [demo_log 1 1]) (demo_node demo_bunt 0 0) = Ret (rf', resp) \<and>
     append_answered (demo_append 0 0 [demo_log 1 1]) resp 0 (repl_peer 1) (repl_leader 1) = Ret (rl', s', False) \<and>
     fr_matchIndex s' = 1 \<and> (\<exists>l. BuntStore_GetLog repl_logs 1 = Inr l \<and> BuntStore_GetLog (r_logs rf') 1 = Inr l)"
proof -
  obtain rf' resp where f: "appendEntries demo_env 0 (demo_append 0 0 [demo_log 1 1]) (demo_node demo_bunt 0 0) = Ret (rf', resp)"
    "aer_Success resp" "aer_Term resp = 1"
    using demo_append_succeeds [of 0 demo_bunt demo_bunt 0] by (auto simp: demo_bunt_def)
  have lf: "bunt_inv (r_logs (demo_node demo_bunt 0 0))" by (simp add: demo_node_def demo_bunt_inv)
  have rq: "ae_Entries (demo_append 0 0 [demo_log 1 1]) \<noteq> []" "aer_Term resp \<le> ae_Term (demo_append 0 0 [demo_log 1 1])"
    "log_Index (last (ae_Entries (demo_append 0 0 [demo_log 1 1]))) \<noteq> - 1"
    using f(3) by (simp_all add: demo_append_def demo_log_def)
  from bunt_node.append_accepted [where r = "repl_leader 1" and s = "repl_peer 1" and now = 0 and b = 3 and e = 3, OF rq(1) f(2) rq(2)] rq(3) repl_window
  obtain rl' s' where a: "append_answered (demo_append 0 0 [demo_log 1 1]) resp 0 (repl_peer 1) (repl_leader 1) = Ret (rl', s', False)"
    by auto
  have "bunt_inv (r_logs (repl_leader 1))" using repl_logs_get(1) by simp
  from replication_round_copies [OF this _ repl_setup rq(1) demo_node_vote_inv lf f(1,2) a] a f(1) show ?thesis by auto
qed

text \<open>
  C31: A peer that accepts is brought up to date. If the leader can read the entries the peer
  needs and the peer accepts every request of the leader's term, \<open>replicateTo\<close> returns after
  at most one call per entry, with the match index at the last entry.
\<close>

theorem replicateTo_catches_up:
  assumes "bunt_inv (r_logs r)" and "0 < fr_nextIndex s" and "fr_nextIndex s \<le> lastIndex"
    and "0 < MaxAppendEntries (r_conf r)" and "unat lastIndex + nat (MaxAppendEntries (r_conf r)) < 2 ^ 64"
    and "readable (bunt_env Sn P W) (r_logs r) (fr_nextIndex s) lastIndex"
    and "fr_nextIndex s = 1 \<or> fr_nextIndex s - 1 = r_lastSnapshotIndex r \<or> (\<exists>l. BuntStore_GetLog (r_logs r) (fr_nextIndex s - 1) = Inr l)"
    and "r_leaderState r = Some ls" and "window (ls_inflight ls) b e" and "head_waiting (ls_inflight ls)"
    and "\<forall>turn \<in> set turns. accepting (fr_currentTerm s) turn" and "unat lastIndex - unat (fr_nextIndex s) < length turns"
  shows "\<exists>r' s'. replicateTo (bunt_env Sn P W) decodeResponse lastIndex turns zero_response s r = Ret (r', s', Returned False) \<and>
    fr_matchIndex s' = lastIndex \<and> fr_nextIndex s' = lastIndex + 1"
proof (rule bunt_node.replicateTo_answered [OF assms(1-6) _ assms(8-10)])
  show "\<forall>turn \<in> set turns. answering (fr_currentTerm s) turn" using assms(11) by (auto simp: answering_def accepting_def)
  show "aer_Success zero_response \<or> turns \<noteq> [] \<and> accepting (fr_currentTerm s) (hd turns)" using assms(11,12) by (cases turns) auto
qed (use assms(7,12) in \<open>simp_all add: zero_response_def bunt_log_store_def\<close>)

definition repl_reply :: "bool \<Rightarrow> peer_turn" where
  "repl_reply ok = \<lparr>pt_append = Inr \<lparr>aer_Term = 1, aer_LastLog = 1, aer_Success = ok, aer_NoRetryBackoff = False\<rparr>,
     pt_install = Inl (ErrOther ''none''), pt_now = 0\<rparr>"

lemma repl_readable: "readable demo_env repl_logs 1 2"
proof -
  have "i = 1 \<or> i = 2" if "1 \<le> i" "i \<le> (2 :: uint64)" for i
    using that by (simp add: word_le_nat_alt word_unat_eq_iff) linarith
  with repl_logs_get show ?thesis by (auto simp: readable_def bunt_log_store_def)
qed

theorem replicateTo_catches_up_witness:
  "\<exists>r' s'. replicateTo demo_env decodeResponse 2 [repl_reply True, repl_reply True] zero_response (repl_peer 1) (repl_leader 1) =
     Ret (r', s', Returned False) \<and> fr_matchIndex s' = 2"
  using replicateTo_catches_up [of "repl_leader 1" "repl_peer 1" 2 demo_snapshots demo_peerStore demo_wire _ 3 3 "[repl_reply True, repl_reply True]"]
    repl_logs_get(1) repl_readable repl_window
  by (auto simp: accepting_def repl_reply_def)

text \<open>
  C32: A run in which the peer accepts nothing commits nothing: the in-flight tracker and the log
  of the leader stay as they were, and the next index only moves back, never below 1.
\<close>

theorem rejections_commit_nothing:
  assumes "\<forall>turn \<in> set turns. rejecting turn" and "0 < fr_nextIndex s"
    and "replicateTo E decodeResponse lastIndex turns zero_response s r = Ret (r', s', res)"
  shows "tracker r' = tracker r \<and> r_logs r' = r_logs r \<and> 0 < fr_nextIndex s' \<and> fr_nextIndex s' \<le> fr_nextIndex s"
  using assms(1) _ assms(2,3) by (rule replicateTo_rejected) (simp add: zero_response_def)

theorem rejections_commit_nothing_witness:
  "\<exists>r' s'. replicateTo demo_env decodeResponse 2 [repl_reply False] zero_response (repl_peer 1) (repl_leader 1) = Ret (r', s', Waiting) \<and>
     tracker r' = tracker (repl_leader 1)"
proof -
  obtain r' s' where r: "replicateTo demo_env decodeResponse 2 [repl_reply False] zero_response (repl_peer 1) (repl_leader 1) = Ret (r', s', Waiting)"
    using repl_setup by (simp add: replicateTo.simps repl_reply_def append_answered_def decodeResponse_def zero_response_def demo_append_def Let_def)
  have "\<forall>turn \<in> set [repl_reply False]. rejecting turn" by (simp add: rejecting_def repl_reply_def)
  from rejections_commit_nothing [OF this _ r] r show ?thesis by simp
qed

text \<open>
  C33: A rejected request is counted as accepted. \<open>replicateTo\<close> declares its response variable
  outside the loop and the network transport's decoder leaves fields that were sent as zero
  unchanged, so after one accepted request every later answer of the same call reads as a
  success: once the first request is accepted, the leader marks all entries up to the last index
  as replicated, whatever the peer answers.
\<close>

theorem one_acceptance_counts_for_all:
  assumes "bunt_inv (r_logs r)" and "0 < fr_nextIndex s" and "fr_nextIndex s \<le> lastIndex"
    and "0 < MaxAppendEntries (r_conf r)" and "unat lastIndex + nat (MaxAppendEntries (r_conf r)) < 2 ^ 64"
    and "readable (bunt_env Sn P W) (r_logs r) (fr_nextIndex s) lastIndex" and "fr_nextIndex s = 1"
    and "r_leaderState r = Some ls" and "window (ls_inflight ls) b e" and "head_waiting (ls_inflight ls)"
    and "accepting (fr_currentTerm s) turn" and "\<forall>turn \<in> set turns. answering (fr_currentTerm s) turn"
    and "unat lastIndex - unat (fr_nextIndex s) \<le> length turns"
  shows "\<exists>r' s'. replicateTo (bunt_env Sn P W) decodeResponse lastIndex (turn # turns) zero_response s r = Ret (r', s', Returned False) \<and>
    fr_matchIndex s' = lastIndex"
proof -
  have "\<exists>r' s'. replicateTo (bunt_env Sn P W) decodeResponse lastIndex (turn # turns) zero_response s r = Ret (r', s', Returned False) \<and>
    fr_matchIndex s' = lastIndex \<and> fr_nextIndex s' = lastIndex + 1"
  proof (rule bunt_node.replicateTo_answered [OF assms(1-6) _ assms(8-10)])
    show "\<forall>t \<in> set (turn # turns). answering (fr_currentTerm s) t" using assms(11,12) by (auto simp: answering_def accepting_def)
  qed (use assms(7,11,13) in \<open>simp_all add: zero_response_def\<close>)
  then show ?thesis by blast
qed

theorem one_acceptance_counts_for_all_witness:
  "\<exists>r' s'. replicateTo demo_env decodeResponse 2 [repl_reply True, repl_reply False] zero_response (repl_peer 1) (repl_leader 1) =
     Ret (r', s', Returned False) \<and> fr_matchIndex s' = 2 \<and> rejecting (repl_reply False)"
  using one_acceptance_counts_for_all [of "repl_leader 1" "repl_peer 1" 2 demo_snapshots demo_peerStore demo_wire _ 3 3 "repl_reply True" "[repl_reply False]"]
    repl_logs_get(1) repl_readable repl_window
  by (simp add: accepting_def answering_def rejecting_def repl_reply_def)

text \<open>
  The same stale field lets a deposed leader confirm itself. The heartbeat loop keeps its
  response variable between turns and does not look at the term of the answer: after one accepted
  heartbeat, a follower's refusal in a later term adds its vote to the pending verification, and
  \<open>VerifyLeader\<close> succeeds.
\<close>

theorem refused_heartbeat_verifies:
  "\<exists>r1 s1 n resp r2.
     heartbeat_turn decodeResponse
       \<lparr>pt_append = Inr \<lparr>aer_Term = 9, aer_LastLog = 0, aer_Success = False, aer_NoRetryBackoff = False\<rparr>,
        pt_install = Inl (ErrOther ''none''), pt_now = 0\<rparr> 0
       \<lparr>aer_Term = 1, aer_LastLog = 0, aer_Success = True, aer_NoRetryBackoff = False\<rparr>
       ((repl_peer 1)\<lparr>fr_notify := [7]\<rparr>)
       ((repl_leader 1)\<lparr>r_verifies := [(7, \<lparr>vf_notifyCh = True, vf_quorumSize = 2, vf_votes = 1\<rparr>)]\<rparr>) = (r1, s1, n, resp) \<and>
     aer_Term resp = 9 \<and> r_verifyCh r1 = [7] \<and> leader_verify 7 r1 = Ret r2 \<and> (7, None) \<in> set (r_answers r2)"
  by (simp add: heartbeat_turn_def decodeResponse_def notifyAll_def vf_vote_def Let_def leader_verify_def answer_def respond_def forget_verify_def)

end
