(* ===== verification/Cron_Schedule.thy ===== *)
theory Cron_Schedule
  imports Go_Prelude "HOL-Library.Product_Lexorder" "HOL-Library.While_Combinator"
begin

unbundle bit_operations_syntax

text \<open>
  Schedules of the cron package (\<open>cron/spec.go\<close>, \<open>cron/constantdelay.go\<close>): the activation
  time that follows a given time. Times are calendar times of the schedule's location, which has
  a fixed offset of whole minutes (UTC, or a zone without daylight saving time); the order of
  times is the lexicographic order of their fields.
\<close>

section \<open>Calendar times\<close>

datatype civil = Civil (cyear: int) (cmonth: int) (cday: int) (chour: int) (cminute: int) (csecond: int)

definition civil_key :: "civil \<Rightarrow> int \<times> int \<times> int \<times> int \<times> int \<times> int" where
  "civil_key t = (cyear t, cmonth t, cday t, chour t, cminute t, csecond t)"

lemma civil_key_inject [simp]: "civil_key a = civil_key b \<longleftrightarrow> a = b"
  by (cases a; cases b) (simp add: civil_key_def)

instantiation civil :: linorder
begin

definition less_eq_civil :: "civil \<Rightarrow> civil \<Rightarrow> bool" where
  "less_eq_civil a b \<longleftrightarrow> civil_key a \<le> civil_key b"

definition less_civil :: "civil \<Rightarrow> civil \<Rightarrow> bool" where
  "less_civil a b \<longleftrightarrow> civil_key a < civil_key b"

instance
  by standard (auto simp: less_eq_civil_def less_civil_def simp flip: civil_key_inject)

end

lemmas civil_order = less_eq_civil_def less_civil_def civil_key_def

definition is_leap :: "int \<Rightarrow> bool" where
  "is_leap y \<longleftrightarrow> y mod 4 = 0 \<and> (y mod 100 \<noteq> 0 \<or> y mod 400 = 0)"

definition days_in :: "int \<Rightarrow> int \<Rightarrow> int" where
  "days_in y m = (if m = 2 then if is_leap y then 29 else 28 else if m \<in> {4, 6, 9, 11} then 30 else 31)"

definition valid_civil :: "civil \<Rightarrow> bool" where
  "valid_civil t \<longleftrightarrow> 1 \<le> cmonth t \<and> cmonth t \<le> 12 \<and> 1 \<le> cday t \<and> cday t \<le> days_in (cyear t) (cmonth t) \<and>
     0 \<le> chour t \<and> chour t < 24 \<and> 0 \<le> cminute t \<and> cminute t < 60 \<and> 0 \<le> csecond t \<and> csecond t < 60"

text \<open>
  The day of the week, Sunday being 0: the days since a Sunday, counting the leap days of the
  years before March of the given year.
\<close>

definition weekday :: "civil \<Rightarrow> int" where
  "weekday t =
     (let y = (if cmonth t \<le> 2 then cyear t - 1 else cyear t);
          m = (if cmonth t \<le> 2 then cmonth t + 9 else cmonth t - 3)
      in (365 * y + y div 4 - y div 100 + y div 400 + (153 * m + 2) div 5 + cday t + 2) mod 7)"

section \<open>Moving through the calendar\<close>

text \<open>
  \<open>AddDate(0, 1, 0)\<close>, \<open>AddDate(0, 0, 1)\<close> and \<open>Add\<close> of an hour, a minute and a second
  on valid times. A day that the next month does not have runs over into the month after it
  (December is followed by a month of as many days).
\<close>

definition add_month :: "civil \<Rightarrow> civil" where
  "add_month t =
     (if cmonth t < 12
      then let m = cmonth t + 1; n = days_in (cyear t) m
           in if cday t \<le> n then Civil (cyear t) m (cday t) (chour t) (cminute t) (csecond t)
              else Civil (cyear t) (m + 1) (cday t - n) (chour t) (cminute t) (csecond t)
      else Civil (cyear t + 1) 1 (cday t) (chour t) (cminute t) (csecond t))"

definition add_day :: "civil \<Rightarrow> civil" where
  "add_day t =
     (if cday t < days_in (cyear t) (cmonth t) then Civil (cyear t) (cmonth t) (cday t + 1) (chour t) (cminute t) (csecond t)
      else if cmonth t < 12 then Civil (cyear t) (cmonth t + 1) 1 (chour t) (cminute t) (csecond t)
      else Civil (cyear t + 1) 1 1 (chour t) (cminute t) (csecond t))"

definition add_hour :: "civil \<Rightarrow> civil" where
  "add_hour t =
     (if chour t < 23 then Civil (cyear t) (cmonth t) (cday t) (chour t + 1) (cminute t) (csecond t)
      else add_day (Civil (cyear t) (cmonth t) (cday t) 0 (cminute t) (csecond t)))"

definition add_minute :: "civil \<Rightarrow> civil" where
  "add_minute t =
     (if cminute t < 59 then Civil (cyear t) (cmonth t) (cday t) (chour t) (cminute t + 1) (csecond t)
      else add_hour (Civil (cyear t) (cmonth t) (cday t) (chour t) 0 (csecond t)))"

definition add_second :: "civil \<Rightarrow> civil" where
  "add_second t =
     (if csecond t < 59 then Civil (cyear t) (cmonth t) (cday t) (chour t) (cminute t) (csecond t + 1)
      else add_minute (Civil (cyear t) (cmonth t) (cday t) (chour t) (cminute t) 0))"

text \<open>The starts of the month, day, hour and minute of a time.\<close>

definition month_start :: "civil \<Rightarrow> civil" where
  "month_start t = Civil (cyear t) (cmonth t) 1 0 0 0"

definition day_start :: "civil \<Rightarrow> civil" where
  "day_start t = Civil (cyear t) (cmonth t) (cday t) 0 0 0"

definition hour_start :: "civil \<Rightarrow> civil" where
  "hour_start t = Civil (cyear t) (cmonth t) (cday t) (chour t) 0 0"

definition minute_start :: "civil \<Rightarrow> civil" where
  "minute_start t = Civil (cyear t) (cmonth t) (cday t) (chour t) (cminute t) 0"

section \<open>Schedules\<close>

record SpecSchedule =
  sch_Second :: uint64
  sch_Minute :: uint64
  sch_Hour :: uint64
  sch_Dom :: uint64
  sch_Month :: uint64
  sch_Dow :: uint64

definition starBit :: uint64 where
  "starBit = push_bit 63 1"

text \<open>\<open>1<<uint(n)&set\<close> is not zero.\<close>

definition in_set :: "int \<Rightarrow> uint64 \<Rightarrow> bool" where
  "in_set n s \<longleftrightarrow> push_bit (nat n) 1 AND s \<noteq> 0"

definition dayMatches :: "SpecSchedule \<Rightarrow> civil \<Rightarrow> bool" where
  "dayMatches s t =
     (let domMatch = in_set (cday t) (sch_Dom s); dowMatch = in_set (weekday t) (sch_Dow s)
      in if sch_Dom s AND starBit \<noteq> 0 \<or> sch_Dow s AND starBit \<noteq> 0 then domMatch \<and> dowMatch
         else domMatch \<or> dowMatch)"

text \<open>
  The five loops of \<open>Next\<close>. Each returns the time, the flag \<open>added\<close>, and whether the code
  jumps to the label \<open>WRAP\<close>.
\<close>

function month_loop :: "SpecSchedule \<Rightarrow> civil \<Rightarrow> bool \<Rightarrow> civil \<times> bool \<times> bool" where
  "month_loop s t added =
     (if in_set (cmonth t) (sch_Month s) then (t, added, False)
      else let t1 = add_month (if added then t else month_start t)
           in if cmonth t1 = 1 then (t1, True, True) else month_loop s t1 True)"
  by pat_completeness auto

termination month_loop
  by (relation "measure (\<lambda>(s, t, added). nat (13 - cmonth t))") (auto simp: add_month_def month_start_def Let_def split: if_splits)

function day_loop :: "SpecSchedule \<Rightarrow> civil \<Rightarrow> bool \<Rightarrow> civil \<times> bool \<times> bool" where
  "day_loop s t added =
     (if dayMatches s t then (t, added, False)
      else let t1 = add_day (if added then t else day_start t)
           in if cday t1 = 1 then (t1, True, True) else day_loop s t1 True)"
  by pat_completeness auto

lemma days_in_bounds: "28 \<le> days_in y m \<and> days_in y m \<le> 31"
  by (simp add: days_in_def)

termination day_loop
proof (relation "measure (\<lambda>(s, t, added). nat (32 - cday t))", goal_cases)
  case (2 s t added x)
  then show ?case using days_in_bounds [of "cyear t" "cmonth t"]
    by (auto simp: add_day_def day_start_def split: if_splits)
qed simp

function hour_loop :: "SpecSchedule \<Rightarrow> civil \<Rightarrow> bool \<Rightarrow> civil \<times> bool \<times> bool" where
  "hour_loop s t added =
     (if in_set (chour t) (sch_Hour s) then (t, added, False)
      else let t1 = add_hour (if added then t else hour_start t)
           in if chour t1 = 0 then (t1, True, True) else hour_loop s t1 True)"
  by pat_completeness auto

lemma chour_add_day [simp]: "chour (add_day t) = chour t" "cminute (add_day t) = cminute t" "csecond (add_day t) = csecond t"
  by (simp_all add: add_day_def)

termination hour_loop
  by (relation "measure (\<lambda>(s, t, added). nat (24 - chour t))") (auto simp: add_hour_def hour_start_def split: if_splits)

function minute_loop :: "SpecSchedule \<Rightarrow> civil \<Rightarrow> bool \<Rightarrow> civil \<times> bool \<times> bool" where
  "minute_loop s t added =
     (if in_set (cminute t) (sch_Minute s) then (t, added, False)
      else let t1 = add_minute (if added then t else minute_start t)
           in if cminute t1 = 0 then (t1, True, True) else minute_loop s t1 True)"
  by pat_completeness auto

lemma cminute_add_hour [simp]: "cminute (add_hour t) = cminute t" "csecond (add_hour t) = csecond t"
  by (simp_all add: add_hour_def)

termination minute_loop
  by (relation "measure (\<lambda>(s, t, added). nat (60 - cminute t))") (auto simp: add_minute_def minute_start_def split: if_splits)

function second_loop :: "SpecSchedule \<Rightarrow> civil \<Rightarrow> bool \<Rightarrow> civil \<times> bool \<times> bool" where
  "second_loop s t added =
     (if in_set (csecond t) (sch_Second s) then (t, added, False)
      else let t1 = add_second t
           in if csecond t1 = 0 then (t1, True, True) else second_loop s t1 True)"
  by pat_completeness auto

lemma csecond_add_minute [simp]: "csecond (add_minute t) = csecond t"
  by (simp add: add_minute_def)

termination second_loop
  by (relation "measure (\<lambda>(s, t, added). nat (60 - csecond t))") (auto simp: add_second_def split: if_splits)

declare month_loop.simps [simp del] day_loop.simps [simp del] hour_loop.simps [simp del]
  minute_loop.simps [simp del] second_loop.simps [simp del]

text \<open>One pass from the label \<open>WRAP\<close>; the last flag says that \<open>Next\<close> returns the time.\<close>

definition next_pass :: "SpecSchedule \<Rightarrow> civil \<times> bool \<times> bool \<Rightarrow> civil \<times> bool \<times> bool" where
  "next_pass s st =
     (let (t0, a0, _) = st; (t1, a1, w1) = month_loop s t0 a0
      in if w1 then (t1, a1, False) else let (t2, a2, w2) = day_loop s t1 a1
      in if w2 then (t2, a2, False) else let (t3, a3, w3) = hour_loop s t2 a2
      in if w3 then (t3, a3, False) else let (t4, a4, w4) = minute_loop s t3 a3
      in if w4 then (t4, a4, False) else let (t5, a5, w5) = second_loop s t4 a4
      in if w5 then (t5, a5, False) else (t5, a5, True))"

text \<open>
  \<open>Next\<close> on a time within the second \<open>t\<close>. The outer option is \<open>None\<close> when the code
  would not return; the inner one when it returns the zero time.
\<close>

definition Next :: "SpecSchedule \<Rightarrow> civil \<Rightarrow> civil option option" where
  "Next s t =
     (let start = add_second t; yearLimit = cyear start + 5
      in map_option (\<lambda>(u, added, fin). if fin then Some u else None)
           (while_option (\<lambda>(u, added, fin). \<not> fin \<and> \<not> cyear u > yearLimit) (next_pass s) (start, False, False)))"

definition matches :: "SpecSchedule \<Rightarrow> civil \<Rightarrow> bool" where
  "matches s t \<longleftrightarrow> in_set (cmonth t) (sch_Month s) \<and> dayMatches s t \<and> in_set (chour t) (sch_Hour s) \<and>
     in_set (cminute t) (sch_Minute s) \<and> in_set (csecond t) (sch_Second s)"

section \<open>The loop over one field\<close>

text \<open>
  What one field loop promises, given the laws of its field: a time is \<open>ok\<close> when the field
  matches, \<open>up\<close> when the coarser fields match, \<open>start\<close> is the beginning of the unit of time,
  \<open>adv\<close> goes to the next unit, and \<open>fit\<close> is the invariant of a time that was moved: each
  field matches or the time is the start of that field's unit.
\<close>

locale field_loop =
  fixes ok up fit wrapped :: "civil \<Rightarrow> bool"
    and start adv :: "civil \<Rightarrow> civil"
    and lp :: "civil \<Rightarrow> bool \<Rightarrow> civil \<times> bool \<times> bool"
    and left :: "civil \<Rightarrow> nat"
  assumes lp_eq: "lp t added =
        (if ok t then (t, added, False)
         else let t1 = adv (if added then t else start t)
              in if wrapped t1 then (t1, True, True) else lp t1 True)"
    and adv_valid: "valid_civil t \<Longrightarrow> valid_civil (adv (start t))"
    and adv_greater: "valid_civil t \<Longrightarrow> t < adv (start t)"
    and adv_same: "valid_civil t \<Longrightarrow> valid_civil v \<Longrightarrow> t \<le> v \<Longrightarrow> v < adv (start t) \<Longrightarrow> ok v = ok t"
    and adv_fit: "valid_civil t \<Longrightarrow> up t \<Longrightarrow> fit (adv (start t))"
    and adv_up: "valid_civil t \<Longrightarrow> up t \<Longrightarrow> \<not> wrapped (adv (start t)) \<Longrightarrow> up (adv (start t))"
    and adv_left: "valid_civil t \<Longrightarrow> \<not> wrapped (adv (start t)) \<Longrightarrow> left (adv (start t)) < left t"
    and fit_start: "fit t \<Longrightarrow> ok t \<or> start t = t"
begin

lemma lp_spec:
  assumes "valid_civil t" and "up t" and "added \<longrightarrow> fit t" and "lp t added = (u, a, w)"
  shows "valid_civil u \<and> t \<le> u \<and> (a \<longrightarrow> fit u) \<and> (\<not> w \<longrightarrow> ok u \<and> up u) \<and> (w \<longrightarrow> t < u) \<and>
         (\<forall>v. valid_civil v \<and> t \<le> v \<and> v < u \<longrightarrow> \<not> ok v)"
  using assms
proof (induction "left t" arbitrary: t added rule: less_induct)
  case less
  show ?case
  proof (cases "ok t")
    case True
    with less.prems show ?thesis by (auto simp: lp_eq [of t])
  next
    case False
    define t1 where "t1 = adv (start t)"
    have "adv (if added then t else start t) = t1"
      using False less.prems(3) fit_start [of t] by (auto simp: t1_def)
    then have lp: "(if wrapped t1 then (t1, True, True) else lp t1 True) = (u, a, w)"
      using less.prems(4) False by (simp add: lp_eq [of t])
    have t1: "valid_civil t1" "t < t1" "fit t1"
      using less.prems adv_valid adv_greater adv_fit by (auto simp: t1_def)
    have skipped: "\<not> ok v" if "valid_civil v" "t \<le> v" "v < t1" for v
      using adv_same [of t v] that False less.prems(1) by (simp add: t1_def)
    show ?thesis
    proof (cases "wrapped t1")
      case True
      with lp t1 skipped show ?thesis by auto
    next
      case nowrap: False
      with less.prems have "left t1 < left t" and "up t1" by (auto simp: t1_def adv_left adv_up)
      with less.hyps [of t1 True] t1 lp nowrap
      have "valid_civil u \<and> t1 \<le> u \<and> (a \<longrightarrow> fit u) \<and> (\<not> w \<longrightarrow> ok u \<and> up u) \<and> (w \<longrightarrow> t1 < u) \<and>
         (\<forall>v. valid_civil v \<and> t1 \<le> v \<and> v < u \<longrightarrow> \<not> ok v)" by simp
      with t1(2) skipped show ?thesis by (meson leI less_imp_le less_le_trans)
    qed
  qed
qed

end

text \<open>The invariant of a time that was moved.\<close>

definition fits :: "SpecSchedule \<Rightarrow> civil \<Rightarrow> bool" where
  "fits s t \<longleftrightarrow> (in_set (cmonth t) (sch_Month s) \<or> month_start t = t) \<and> (dayMatches s t \<or> day_start t = t) \<and>
     (in_set (chour t) (sch_Hour s) \<or> hour_start t = t) \<and> (in_set (cminute t) (sch_Minute s) \<or> minute_start t = t)"

lemmas start_defs = month_start_def day_start_def hour_start_def minute_start_def
lemmas add_defs = add_month_def add_day_def add_hour_def add_minute_def add_second_def

lemma dayMatches_cong: "cyear t = cyear v \<Longrightarrow> cmonth t = cmonth v \<Longrightarrow> cday t = cday v \<Longrightarrow> dayMatches s t = dayMatches s v"
  by (simp add: dayMatches_def weekday_def)

lemma dayMatches_Civil [simp]: "dayMatches s (Civil (cyear t) (cmonth t) (cday t) h m x) = dayMatches s t"
  by (simp add: dayMatches_def weekday_def)

lemma days_in_pos [simp]: "1 \<le> days_in y m"
  by (simp add: days_in_def)

lemma month_days [simp]: "days_in y 1 = 31" "days_in y 12 = 31"
  by (simp_all add: days_in_def)

interpretation month: field_loop "\<lambda>t. in_set (cmonth t) (sch_Month s)" "\<lambda>t. True" "fits s" "\<lambda>t. cmonth t = 1"
  month_start add_month "month_loop s" "\<lambda>t. nat (13 - cmonth t)"
proof (unfold_locales, goal_cases)
  case (1 t added)
  show ?case by (subst month_loop.simps) simp
next
  case (2 t)
  then show ?case by (auto simp: valid_civil_def month_start_def add_month_def Let_def)
next
  case (3 t)
  then show ?case by (auto simp: valid_civil_def month_start_def add_month_def Let_def civil_order)
next
  case (4 t v)
  then have "cmonth v = cmonth t" by (auto simp: valid_civil_def month_start_def add_month_def Let_def civil_order split: if_splits)
  then show ?case by simp
next
  case (5 t)
  then show ?case by (auto simp: fits_def start_defs add_month_def Let_def)
next
  case (7 t)
  then show ?case by (auto simp: valid_civil_def month_start_def add_month_def Let_def split: if_splits)
qed (auto simp: fits_def)

interpretation day: field_loop "dayMatches s" "\<lambda>t. in_set (cmonth t) (sch_Month s)" "fits s" "\<lambda>t. cday t = 1"
  day_start add_day "day_loop s" "\<lambda>t. nat (32 - cday t)"
proof (unfold_locales, goal_cases)
  case (1 t added)
  show ?case by (subst day_loop.simps) simp
next
  case (2 t)
  then show ?case by (auto simp: valid_civil_def day_start_def add_day_def)
next
  case (3 t)
  then show ?case by (auto simp: valid_civil_def day_start_def add_day_def civil_order)
next
  case (4 t v)
  then have "cyear v = cyear t" "cmonth v = cmonth t" "cday v = cday t"
    by (auto simp: valid_civil_def day_start_def add_day_def civil_order split: if_splits)
  then show ?case by (rule dayMatches_cong)
next
  case (7 t)
  then show ?case using days_in_bounds [of "cyear t" "cmonth t"]
    by (auto simp: valid_civil_def day_start_def add_day_def split: if_splits)
qed (auto simp: fits_def start_defs add_day_def split: if_splits)

text \<open>
  The finer loops move by a step that stays in the day (hour, minute) or begins the next one.
\<close>

lemma add_day_coarse:
  "cyear (add_day t) = cyear t \<and> cmonth (add_day t) = cmonth t \<or> cday (add_day t) = 1"
  by (simp add: add_day_def)

lemma add_day_valid: "valid_civil t \<Longrightarrow> valid_civil (add_day t)"
  by (auto simp: valid_civil_def add_day_def)

lemma add_day_greater: "valid_civil t \<Longrightarrow> day_start t < add_day (Civil (cyear t) (cmonth t) (cday t) h m s)"
  by (auto simp: valid_civil_def day_start_def add_day_def civil_order)

lemma add_hour_valid: "valid_civil t \<Longrightarrow> valid_civil (add_hour t)"
  by (auto simp: add_hour_def intro!: add_day_valid) (auto simp: valid_civil_def)

lemma add_minute_valid: "valid_civil t \<Longrightarrow> valid_civil (add_minute t)"
  by (auto simp: add_minute_def intro!: add_hour_valid) (auto simp: valid_civil_def)

lemma add_second_valid: "valid_civil t \<Longrightarrow> valid_civil (add_second t)"
  by (auto simp: add_second_def intro!: add_minute_valid) (auto simp: valid_civil_def)

lemma start_valid: "valid_civil t \<Longrightarrow> valid_civil (hour_start t) \<and> valid_civil (minute_start t) \<and> valid_civil (day_start t)"
  by (auto simp: valid_civil_def start_defs)

text \<open>Each step is to the first time of the next unit: between a time and it there is only the same unit.\<close>

lemma add_hour_next:
  "valid_civil t \<Longrightarrow> t < add_hour (hour_start t) \<and>
   (valid_civil v \<longrightarrow> t \<le> v \<longrightarrow> v < add_hour (hour_start t) \<longrightarrow> hour_start v = hour_start t)"
  by (cases "chour t < 23"; cases "cday t < days_in (cyear t) (cmonth t)"; cases "cmonth t < 12")
    (auto simp: valid_civil_def start_defs add_hour_def add_day_def civil_order)

lemma add_minute_hour: "\<not> cminute t < 59 \<Longrightarrow> add_minute (minute_start t) = add_hour (hour_start t)"
  by (simp add: add_minute_def minute_start_def hour_start_def)

lemma add_minute_next:
  assumes "valid_civil t"
  shows "t < add_minute (minute_start t) \<and>
   (valid_civil v \<longrightarrow> t \<le> v \<longrightarrow> v < add_minute (minute_start t) \<longrightarrow> minute_start v = minute_start t)"
proof (cases "cminute t < 59")
  case True
  with assms show ?thesis by (auto simp: add_minute_def valid_civil_def minute_start_def civil_order)
next
  case False
  have "minute_start v = minute_start t" if "valid_civil v" "t \<le> v" "hour_start v = hour_start t"
    using that assms False by (auto simp: valid_civil_def start_defs civil_order)
  with False add_hour_next [OF assms] show ?thesis by (simp add: add_minute_hour)
qed

lemma add_second_minute: "\<not> csecond t < 59 \<Longrightarrow> add_second t = add_minute (minute_start t)"
  by (simp add: add_second_def minute_start_def)

lemma add_second_next:
  assumes "valid_civil t"
  shows "t < add_second t \<and> (valid_civil v \<longrightarrow> t \<le> v \<longrightarrow> v < add_second t \<longrightarrow> v = t)"
proof (cases "csecond t < 59")
  case True
  then show ?thesis by (cases t; cases v) (auto simp: add_second_def civil_order)
next
  case False
  have "v = t" if "valid_civil v" "t \<le> v" "minute_start v = minute_start t"
    using that assms False by (cases t; cases v) (auto simp: valid_civil_def minute_start_def civil_order)
  with False add_minute_next [OF assms] show ?thesis by (simp add: add_second_minute)
qed

interpretation hour: field_loop "\<lambda>t. in_set (chour t) (sch_Hour s)" "\<lambda>t. in_set (cmonth t) (sch_Month s) \<and> dayMatches s t"
  "fits s" "\<lambda>t. chour t = 0" hour_start add_hour "hour_loop s" "\<lambda>t. nat (24 - chour t)"
proof (unfold_locales, goal_cases)
  case (1 t added)
  show ?case by (subst hour_loop.simps) simp
next
  case (4 t v)
  then have "hour_start v = hour_start t" using add_hour_next by blast
  then show ?case by (simp add: hour_start_def)
next
  case (5 t)
  then show ?case by (auto simp: fits_def start_defs add_hour_def add_day_def split: if_splits)
next
  case (6 t)
  then show ?case by (auto simp: hour_start_def add_hour_def split: if_splits)
next
  case (7 t)
  then show ?case by (auto simp: hour_start_def add_hour_def valid_civil_def split: if_splits)
qed (simp_all add: add_hour_valid start_valid add_hour_next [THEN conjunct1] fits_def)

interpretation minute: field_loop "\<lambda>t. in_set (cminute t) (sch_Minute s)"
  "\<lambda>t. in_set (cmonth t) (sch_Month s) \<and> dayMatches s t \<and> in_set (chour t) (sch_Hour s)"
  "fits s" "\<lambda>t. cminute t = 0" minute_start add_minute "minute_loop s" "\<lambda>t. nat (60 - cminute t)"
proof (unfold_locales, goal_cases)
  case (1 t added)
  show ?case by (subst minute_loop.simps) simp
next
  case (4 t v)
  then have "minute_start v = minute_start t" using add_minute_next by blast
  then show ?case by (simp add: minute_start_def)
next
  case (5 t)
  then show ?case
  proof (cases "cminute t < 59")
    case True
    with 5 show ?thesis by (simp add: fits_def start_defs add_minute_def)
  next
    case False
    with 5 show ?thesis using hour.adv_fit [of t s] by (simp add: add_minute_hour)
  qed
next
  case (6 t)
  then show ?case by (simp add: minute_start_def add_minute_def split: if_splits)
next
  case (7 t)
  then show ?case by (auto simp: minute_start_def add_minute_def valid_civil_def split: if_splits)
qed (simp_all add: add_minute_valid start_valid add_minute_next [THEN conjunct1] fits_def)

interpretation second: field_loop "\<lambda>t. in_set (csecond t) (sch_Second s)"
  "\<lambda>t. in_set (cmonth t) (sch_Month s) \<and> dayMatches s t \<and> in_set (chour t) (sch_Hour s) \<and> in_set (cminute t) (sch_Minute s)"
  "fits s" "\<lambda>t. csecond t = 0" "\<lambda>t. t" add_second "second_loop s" "\<lambda>t. nat (60 - csecond t)"
proof (unfold_locales, goal_cases)
  case (1 t added)
  show ?case by (subst second_loop.simps) simp
next
  case (4 t v)
  then have "v = t" using add_second_next by blast
  then show ?case by simp
next
  case (5 t)
  then show ?case
  proof (cases "csecond t < 59")
    case True
    with 5 show ?thesis by (simp add: fits_def add_second_def)
  next
    case False
    with 5 show ?thesis using minute.adv_fit [of t s] by (simp add: add_second_minute)
  qed
next
  case (6 t)
  then show ?case by (simp add: add_second_def split: if_splits)
next
  case (7 t)
  then show ?case by (auto simp: add_second_def valid_civil_def split: if_splits)
qed (simp_all add: add_second_valid add_second_next [THEN conjunct1])

section \<open>The whole search\<close>

text \<open>What one pass keeps: it never goes back, and no time it goes past matches.\<close>

definition passed :: "SpecSchedule \<Rightarrow> civil \<Rightarrow> civil \<Rightarrow> bool" where
  "passed s t u \<longleftrightarrow> t \<le> u \<and> (\<forall>v. valid_civil v \<and> t \<le> v \<and> v < u \<longrightarrow> \<not> matches s v)"

lemma passed_refl [simp]: "passed s t t"
  by (auto simp: passed_def)

lemma passed_trans [trans]: "passed s t u \<Longrightarrow> passed s u w \<Longrightarrow> passed s t w"
  by (auto simp: passed_def) (meson leI)

definition moved :: "SpecSchedule \<Rightarrow> civil \<Rightarrow> civil \<times> bool \<times> bool \<Rightarrow> bool" where
  "moved s t = (\<lambda>(u, a, w). valid_civil u \<and> (a \<longrightarrow> fits s u) \<and> passed s t u \<and> (w \<longrightarrow> t < u))"

lemma moved_trans: "moved s t (u, a, False) \<Longrightarrow> moved s u r \<Longrightarrow> moved s t r"
  by (cases r) (auto simp: moved_def intro: passed_trans, auto simp: passed_def)

lemma moved_by_loop:
  assumes "moved s z (t, a, False)"
    and "valid_civil t \<Longrightarrow> a \<longrightarrow> fits s t \<Longrightarrow>
      valid_civil u \<and> t \<le> u \<and> (b \<longrightarrow> fits s u) \<and> (\<not> w \<longrightarrow> ok u \<and> up u) \<and> (w \<longrightarrow> t < u) \<and>
      (\<forall>v. valid_civil v \<and> t \<le> v \<and> v < u \<longrightarrow> \<not> ok v)"
    and "\<And>v. matches s v \<Longrightarrow> ok v"
  shows "moved s z (u, b, w) \<and> (\<not> w \<longrightarrow> ok u \<and> up u)"
proof -
  have "valid_civil t" "a \<longrightarrow> fits s t" using assms(1) by (auto simp: moved_def)
  note r = assms(2) [OF this]
  then have "moved s t (u, b, w)" using assms(3) by (auto simp: moved_def passed_def)
  with r show ?thesis using moved_trans [OF assms(1)] by blast
qed

lemma month_moved:
  assumes "moved s z (t, a, False)" and "True" and "month_loop s t a = (u, b, w)"
  shows "moved s z (u, b, w) \<and> (\<not> w \<longrightarrow> in_set (cmonth u) (sch_Month s) \<and> True)"
proof (rule moved_by_loop [OF assms(1), where ok = "\<lambda>t. in_set (cmonth t) (sch_Month s)" and up = "\<lambda>t. True"])
qed (use assms month.lp_spec [of t a s u b w] in \<open>simp_all add: matches_def\<close>)

lemma day_moved:
  assumes "moved s z (t, a, False)" and "in_set (cmonth t) (sch_Month s)" and "day_loop s t a = (u, b, w)"
  shows "moved s z (u, b, w) \<and> (\<not> w \<longrightarrow> dayMatches s u \<and> in_set (cmonth u) (sch_Month s))"
proof (rule moved_by_loop [OF assms(1), where ok = "\<lambda>t. dayMatches s t" and up = "\<lambda>t. in_set (cmonth t) (sch_Month s)"])
qed (use assms day.lp_spec [of t s a u b w] in \<open>simp_all add: matches_def\<close>)

lemma hour_moved:
  assumes "moved s z (t, a, False)" and "in_set (cmonth t) (sch_Month s) \<and> dayMatches s t" and "hour_loop s t a = (u, b, w)"
  shows "moved s z (u, b, w) \<and> (\<not> w \<longrightarrow> in_set (chour u) (sch_Hour s) \<and> in_set (cmonth u) (sch_Month s) \<and> dayMatches s u)"
proof (rule moved_by_loop [OF assms(1), where ok = "\<lambda>t. in_set (chour t) (sch_Hour s)" and up = "\<lambda>t. in_set (cmonth t) (sch_Month s) \<and> dayMatches s t"])
qed (use assms hour.lp_spec [of t s a u b w] in \<open>simp_all add: matches_def\<close>)

lemma minute_moved:
  assumes "moved s z (t, a, False)" and "in_set (cmonth t) (sch_Month s) \<and> dayMatches s t \<and> in_set (chour t) (sch_Hour s)" and "minute_loop s t a = (u, b, w)"
  shows "moved s z (u, b, w) \<and> (\<not> w \<longrightarrow> in_set (cminute u) (sch_Minute s) \<and> in_set (cmonth u) (sch_Month s) \<and> dayMatches s u \<and> in_set (chour u) (sch_Hour s))"
proof (rule moved_by_loop [OF assms(1), where ok = "\<lambda>t. in_set (cminute t) (sch_Minute s)" and up = "\<lambda>t. in_set (cmonth t) (sch_Month s) \<and> dayMatches s t \<and> in_set (chour t) (sch_Hour s)"])
qed (use assms minute.lp_spec [of t s a u b w] in \<open>simp_all add: matches_def\<close>)

lemma second_moved:
  assumes "moved s z (t, a, False)" and "in_set (cmonth t) (sch_Month s) \<and> dayMatches s t \<and> in_set (chour t) (sch_Hour s) \<and> in_set (cminute t) (sch_Minute s)" and "second_loop s t a = (u, b, w)"
  shows "moved s z (u, b, w) \<and> (\<not> w \<longrightarrow> in_set (csecond u) (sch_Second s) \<and> in_set (cmonth u) (sch_Month s) \<and> dayMatches s u \<and> in_set (chour u) (sch_Hour s) \<and> in_set (cminute u) (sch_Minute s))"
proof (rule moved_by_loop [OF assms(1), where ok = "\<lambda>t. in_set (csecond t) (sch_Second s)" and up = "\<lambda>t. in_set (cmonth t) (sch_Month s) \<and> dayMatches s t \<and> in_set (chour t) (sch_Hour s) \<and> in_set (cminute t) (sch_Minute s)"])
qed (use assms second.lp_spec [of t s a u b w] in \<open>simp_all add: matches_def\<close>)

lemma next_pass_spec:
  assumes "valid_civil t" and "a \<longrightarrow> fits s t"
  shows "case next_pass s (t, a, f) of (u, a', fin) \<Rightarrow> moved s t (u, a', \<not> fin) \<and> (fin \<longrightarrow> matches s u)"
proof -
  obtain t1 a1 w1 where 1: "month_loop s t a = (t1, a1, w1)" by (metis prod_cases3)
  obtain t2 a2 w2 where 2: "day_loop s t1 a1 = (t2, a2, w2)" by (metis prod_cases3)
  obtain t3 a3 w3 where 3: "hour_loop s t2 a2 = (t3, a3, w3)" by (metis prod_cases3)
  obtain t4 a4 w4 where 4: "minute_loop s t3 a3 = (t4, a4, w4)" by (metis prod_cases3)
  obtain t5 a5 w5 where 5: "second_loop s t4 a4 = (t5, a5, w5)" by (metis prod_cases3)
  have "moved s t (t, a, False)" using assms by (simp add: moved_def)
  note m = month_moved [OF this TrueI 1]
  note d = day_moved [OF _ _ 2, of t]
  note h = hour_moved [OF _ _ 3, of t]
  note n = minute_moved [OF _ _ 4, of t]
  note x = second_moved [OF _ _ 5, of t]
  show ?thesis
  proof (cases "w1 \<or> w2")
    case True
    with m d show ?thesis by (cases w1) (simp_all add: next_pass_def 1 2)
  next
    case early: False
    with m d have "moved s t (t2, a2, False) \<and> in_set (cmonth t2) (sch_Month s) \<and> dayMatches s t2" by simp
    note h = h [OF this [THEN conjunct1] this [THEN conjunct2]]
    show ?thesis
    proof (cases w3)
      case True
      with h early show ?thesis by (simp add: next_pass_def 1 2 3)
    next
      case False
      with h n have "moved s t (t4, a4, w4) \<and> (\<not> w4 \<longrightarrow> in_set (cminute t4) (sch_Minute s) \<and>
          in_set (cmonth t4) (sch_Month s) \<and> dayMatches s t4 \<and> in_set (chour t4) (sch_Hour s))" by simp
      with x False early show ?thesis by (cases w4; cases w5) (simp_all add: next_pass_def 1 2 3 4 5 matches_def)
    qed
  qed
qed

lemma finite_years: "finite {v. valid_civil v \<and> t \<le> v \<and> cyear v \<le> y}"
proof (rule finite_subset)
  show "{v. valid_civil v \<and> t \<le> v \<and> cyear v \<le> y} \<subseteq> (\<lambda>(a, b, c, d, e, f). Civil a b c d e f) `
     ({cyear t..y} \<times> {1..12} \<times> {1..31} \<times> {0..23} \<times> {0..59} \<times> {0..59})"
  proof
    fix v assume "v \<in> {v. valid_civil v \<and> t \<le> v \<and> cyear v \<le> y}"
    then show "v \<in> (\<lambda>(a, b, c, d, e, f). Civil a b c d e f) `
       ({cyear t..y} \<times> {1..12} \<times> {1..31} \<times> {0..23} \<times> {0..59} \<times> {0..59})"
      using days_in_bounds [of "cyear v" "cmonth v"]
      by (intro image_eqI [where x = "civil_key v"]) (auto simp: civil_key_def valid_civil_def less_eq_civil_def)
  qed
qed simp

text \<open>The invariant of the search from \<open>start\<close>, and its measure: the valid times left up to the limit.\<close>

definition searching :: "SpecSchedule \<Rightarrow> civil \<Rightarrow> civil \<times> bool \<times> bool \<Rightarrow> bool" where
  "searching s start = (\<lambda>(u, a, fin). moved s start (u, a, False) \<and> (fin \<longrightarrow> matches s u))"

definition search_left :: "int \<Rightarrow> civil \<times> bool \<times> bool \<Rightarrow> nat" where
  "search_left y = (\<lambda>(u, a, fin). if fin then 0 else Suc (card {v. valid_civil v \<and> u \<le> v \<and> cyear v \<le> y}))"

lemma searching_step:
  assumes "searching s z (t, a, False)" and "cyear t \<le> y"
  shows "searching s z (next_pass s (t, a, False)) \<and> search_left y (next_pass s (t, a, False)) < search_left y (t, a, False)"
proof -
  obtain u b fin where p: "next_pass s (t, a, False) = (u, b, fin)" by (metis prod_cases3)
  have t: "moved s z (t, a, False)" using assms by (simp add: searching_def)
  then have valid: "valid_civil t" "a \<longrightarrow> fits s t" by (simp_all add: moved_def)
  with p have u: "moved s t (u, b, \<not> fin)" "fin \<longrightarrow> matches s u" using next_pass_spec [of t a s False] by simp_all
  then have "moved s z (u, b, False)" using moved_trans [OF t, of "(u, b, False)"] by (simp add: moved_def)
  moreover have "search_left y (u, b, fin) < search_left y (t, a, False)"
  proof (cases fin)
    case False
    then have "t < u" using u by (simp add: moved_def)
    then have "{v. valid_civil v \<and> u \<le> v \<and> cyear v \<le> y} \<subset> {v. valid_civil v \<and> t \<le> v \<and> cyear v \<le> y}"
      using valid assms(2) by (auto dest: less_imp_le order_trans leD)
    with False show ?thesis by (simp add: search_left_def psubset_card_mono finite_years)
  qed (simp add: search_left_def)
  ultimately show ?thesis using u by (simp add: p searching_def)
qed

lemma Next_search:
  assumes "valid_civil t"
  shows "\<exists>u a fin. Next s t = Some (if fin then Some u else None) \<and> searching s (add_second t) (u, a, fin) \<and>
           (\<not> fin \<longrightarrow> cyear u > cyear (add_second t) + 5)"
proof -
  define z y where "z = add_second t" and "y = cyear z + 5"
  let ?b = "\<lambda>(u :: civil, added :: bool, fin). \<not> fin \<and> \<not> cyear u > y"
  have start: "searching s z (z, False, False)"
    using assms by (simp add: searching_def moved_def z_def add_second_valid)
  have step: "searching s z (next_pass s st) \<and> search_left y (next_pass s st) < search_left y st"
    if "searching s z st" "?b st" for st
    using that searching_step [of s z "fst st" "fst (snd st)" y] by (cases st) auto
  obtain u a fin where w: "while_option ?b (next_pass s) (z, False, False) = Some (u, a, fin)"
    using measure_while_option_Some [of "searching s z" ?b "next_pass s" "search_left y", OF step start]
    by (metis prod_cases3)
  have "searching s z (u, a, fin)"
    using while_option_rule [of "searching s z", OF _ w start] step by blast
  moreover have "\<not> ?b (u, a, fin)" using while_option_stop [OF w] .
  ultimately have "Next s t = Some (if fin then Some u else None) \<and> searching s (add_second t) (u, a, fin) \<and>
      (\<not> fin \<longrightarrow> cyear u > cyear (add_second t) + 5)"
    using w by (auto simp: Next_def z_def y_def Let_def)
  then show ?thesis by blast
qed

lemma after_second: "valid_civil t \<Longrightarrow> valid_civil v \<Longrightarrow> t < v \<longleftrightarrow> add_second t \<le> v"
  using add_second_next [of t v] by (cases "add_second t \<le> v") auto

text \<open>
  C15: \<open>Next\<close> always returns (its jumps back to \<open>WRAP\<close> end). A time it returns is later than
  the given one and matches every field of the schedule, and it is the first such time: no valid
  time in between matches. When it returns the zero time, no time up to the end of the fifth
  year after the upcoming second matches the schedule.
\<close>

theorem Next_is_first_match:
  assumes "valid_civil t"
  shows "case Next s t of
      None \<Rightarrow> False
    | Some None \<Rightarrow> \<forall>v. valid_civil v \<and> t < v \<and> cyear v \<le> cyear (add_second t) + 5 \<longrightarrow> \<not> matches s v
    | Some (Some u) \<Rightarrow> valid_civil u \<and> t < u \<and> matches s u \<and>
        (\<forall>v. valid_civil v \<and> t < v \<and> v < u \<longrightarrow> \<not> matches s v)"
proof -
  obtain u a fin where r: "Next s t = Some (if fin then Some u else None)"
    "searching s (add_second t) (u, a, fin)" "\<not> fin \<longrightarrow> cyear u > cyear (add_second t) + 5"
    using Next_search [OF assms, of s] by blast
  then have u: "valid_civil u" "add_second t \<le> u" and passed: "\<And>v. valid_civil v \<Longrightarrow> add_second t \<le> v \<Longrightarrow> v < u \<Longrightarrow> \<not> matches s v"
    by (auto simp: searching_def moved_def passed_def)
  show ?thesis
  proof (cases fin)
    case True
    with r u passed show ?thesis by (auto simp: searching_def after_second [OF assms])
  next
    case False
    have "v < u" if "cyear v \<le> cyear (add_second t) + 5" for v
      using that r(3) False by (simp add: civil_order)
    with False r(1) passed show ?thesis by (auto simp: after_second [OF assms])
  qed
qed

definition leap_day :: SpecSchedule where
  "leap_day = \<lparr>sch_Second = 1, sch_Minute = 1, sch_Hour = 1, sch_Dom = push_bit 29 1, sch_Month = 4, sch_Dow = starBit OR 127\<rparr>"

lemma leap_day_next: "Next leap_day (Civil 2024 1 31 12 30 7) = Some (Some (Civil 2024 2 29 0 0 0))"
  by code_simp

theorem Next_is_first_match_witness:
  "valid_civil (Civil 2024 1 31 12 30 7) \<and> matches leap_day (Civil 2024 2 29 0 0 0) \<and>
   {v. valid_civil v \<and> Civil 2024 1 31 12 30 7 < v \<and> v < Civil 2024 2 29 0 0 0 \<and> matches leap_day v} = {}"
proof -
  have "valid_civil (Civil 2024 1 31 12 30 7)" by code_simp
  then show ?thesis using Next_is_first_match [of "Civil 2024 1 31 12 30 7" leap_day] by (auto simp: leap_day_next)
qed

end
