(* ===== verification/Cron_Parser.thy ===== *)
theory Cron_Parser
  imports Cron_Schedule Go_Strings
begin

unbundle bit_operations_syntax

text \<open>
  The parser of cron expressions (\<open>cron/parser.go\<close>) and the fixed-delay schedules
  (\<open>cron/constantdelay.go\<close>). A panic of the parser is \<open>Panic\<close>, which \<open>Parse\<close> recovers;
  a loop that does not end is \<open>Diverge\<close>.
\<close>

section \<open>Bounds\<close>

record bounds =
  b_min :: uint64
  b_max :: uint64
  b_names :: "(string \<times> uint64) list option"

definition seconds :: bounds where
  "seconds = \<lparr>b_min = 0, b_max = 59, b_names = None\<rparr>"

definition minutes :: bounds where
  "minutes = \<lparr>b_min = 0, b_max = 59, b_names = None\<rparr>"

definition hours :: bounds where
  "hours = \<lparr>b_min = 0, b_max = 23, b_names = None\<rparr>"

definition dom_bounds :: bounds where
  "dom_bounds = \<lparr>b_min = 1, b_max = 31, b_names = None\<rparr>"

definition months :: bounds where
  "months = \<lparr>b_min = 1, b_max = 12, b_names = Some
     [(''jan'', 1), (''feb'', 2), (''mar'', 3), (''apr'', 4), (''may'', 5), (''jun'', 6),
      (''jul'', 7), (''aug'', 8), (''sep'', 9), (''oct'', 10), (''nov'', 11), (''dec'', 12)]\<rparr>"

definition dow :: bounds where
  "dow = \<lparr>b_min = 0, b_max = 6, b_names = Some
     [(''sun'', 0), (''mon'', 1), (''tue'', 2), (''wed'', 3), (''thu'', 4), (''fri'', 5), (''sat'', 6)]\<rparr>"

section \<open>Bit sets\<close>

text \<open>The loop of \<open>getBits\<close>; \<open>None\<close> when it does not end. The addition wraps.\<close>

partial_function (option) bits_loop :: "uint64 \<Rightarrow> uint64 \<Rightarrow> uint64 \<Rightarrow> uint64 \<Rightarrow> uint64 option" where
  "bits_loop i mx step bits =
     (if i \<le> mx then bits_loop (i + step) mx step (bits OR push_bit (unat i) 1) else Some bits)"

declare bits_loop.simps [code]

definition getBits :: "uint64 \<Rightarrow> uint64 \<Rightarrow> uint64 \<Rightarrow> uint64 outcome" where
  "getBits mn mx step =
     (if step = 1 then Ret (NOT (push_bit (unat (mx + 1)) (- 1)) AND push_bit (unat mn) (- 1))
      else case bits_loop mn mx step 0 of Some b \<Rightarrow> Ret b | None \<Rightarrow> Diverge)"

definition all_bits :: "bounds \<Rightarrow> uint64 outcome" where
  "all_bits r = obind (getBits (b_min r) (b_max r) 1) (\<lambda>b. Ret (b OR starBit))"

section \<open>Numbers, ranges and fields\<close>

abbreviation show_uint :: "uint64 \<Rightarrow> string" where
  "show_uint u \<equiv> digits10 (unat u)"

text \<open>The message of a number that does not parse leaves out the text of the \<open>strconv\<close> error.\<close>

definition mustParseInt :: "string \<Rightarrow> uint64 outcome" where
  "mustParseInt expr =
     (case Atoi expr of
        None \<Rightarrow> Panic (''Failed to parse int from '' @ expr)
      | Some num \<Rightarrow> if num < 0 then Panic (''Negative number ('' @ Itoa num @ '') not allowed: '' @ expr)
                    else Ret (of_int num))"

definition parseIntOrName :: "string \<Rightarrow> (string \<times> uint64) list option \<Rightarrow> uint64 outcome" where
  "parseIntOrName expr names =
     (case names of
        None \<Rightarrow> mustParseInt expr
      | Some ns \<Rightarrow> (case map_of ns (ToLower expr) of Some namedInt \<Rightarrow> Ret namedInt | None \<Rightarrow> mustParseInt expr))"

text \<open>The first and the last number of a range, and its star bit; then the step and the last number with it.\<close>

definition range_ends :: "string \<Rightarrow> string list \<Rightarrow> bounds \<Rightarrow> (uint64 \<times> uint64 \<times> uint64) outcome" where
  "range_ends expr lowAndHigh r =
     (if hd lowAndHigh = ''*'' \<or> hd lowAndHigh = ''?'' then Ret (b_min r, b_max r, starBit)
      else obind (parseIntOrName (hd lowAndHigh) (b_names r)) (\<lambda>start.
        if length lowAndHigh = 1 then Ret (start, start, 0)
        else if length lowAndHigh = 2
        then obind (parseIntOrName (lowAndHigh ! 1) (b_names r)) (\<lambda>end. Ret (start, end, 0))
        else Panic (''Too many hyphens: '' @ expr)))"

definition range_step :: "string \<Rightarrow> string list \<Rightarrow> bool \<Rightarrow> uint64 \<Rightarrow> bounds \<Rightarrow> (uint64 \<times> uint64) outcome" where
  "range_step expr rangeAndStep singleDigit end r =
     (if length rangeAndStep = 1 then Ret (1, end)
      else if length rangeAndStep = 2
      then obind (mustParseInt (rangeAndStep ! 1)) (\<lambda>step. Ret (step, if singleDigit then b_max r else end))
      else Panic (''Too many slashes: '' @ expr))"

definition getRange :: "string \<Rightarrow> bounds \<Rightarrow> uint64 outcome" where
  "getRange expr r =
     (let rangeAndStep = strings_Split expr (CHR ''/''); lowAndHigh = strings_Split (hd rangeAndStep) (CHR ''-'');
          singleDigit = length lowAndHigh = 1
      in obind (range_ends expr lowAndHigh r) (\<lambda>(start, end0, extraStar).
         obind (range_step expr rangeAndStep singleDigit end0 r) (\<lambda>(step, end).
           if start < b_min r then Panic (''Beginning of range ('' @ show_uint start @ '') below minimum ('' @ show_uint (b_min r) @ ''): '' @ expr)
           else if end > b_max r then Panic (''End of range ('' @ show_uint end @ '') above maximum ('' @ show_uint (b_max r) @ ''): '' @ expr)
           else if start > end then Panic (''Beginning of range ('' @ show_uint start @ '') beyond end of range ('' @ show_uint end @ ''): '' @ expr)
           else obind (getBits start end step) (\<lambda>b. Ret (b OR extraStar)))))"

fun or_ranges :: "string list \<Rightarrow> bounds \<Rightarrow> uint64 \<Rightarrow> uint64 outcome" where
  "or_ranges [] r bits = Ret bits"
| "or_ranges (e # es) r bits = obind (getRange e r) (\<lambda>b. or_ranges es r (bits OR b))"

definition getField :: "string \<Rightarrow> bounds \<Rightarrow> uint64 outcome" where
  "getField field r = or_ranges (FieldsFunc field (\<lambda>c. c = CHR '','')) r 0"

section \<open>Fixed delays\<close>

text \<open>Durations and times in nanoseconds; \<open>Every\<close> and \<open>ConstantDelaySchedule.Next\<close>.\<close>

abbreviation time_Second :: int where
  "time_Second \<equiv> 1000000000"

definition Every :: "int \<Rightarrow> int" where
  "Every duration = (let d = (if duration < time_Second then time_Second else duration) in d - d mod time_Second)"

definition delay_Next :: "int \<Rightarrow> int \<Rightarrow> int" where
  "delay_Next delay t = t + (delay - t mod time_Second)"

section \<open>Schedules and expressions\<close>

text \<open>
  What the parser asks of the \<open>time\<close> package: the location database, the local zone, and the
  parser of durations (whose fractions are floating point).
\<close>

record 'loc time_env =
  LoadLocation :: "string \<Rightarrow> 'loc option"
  Local :: 'loc
  ParseDuration :: "string \<Rightarrow> int option"

datatype 'loc Schedule = Spec SpecSchedule 'loc | ConstantDelay int

definition one_bit :: "bounds \<Rightarrow> uint64" where
  "one_bit r = push_bit (unat (b_min r)) 1"

definition descriptor_schedule ::
  "'loc \<Rightarrow> uint64 outcome \<Rightarrow> uint64 outcome \<Rightarrow> uint64 outcome \<Rightarrow> uint64 outcome \<Rightarrow> 'loc Schedule outcome" where
  "descriptor_schedule loc hp dp mp wp =
     obind hp (\<lambda>h. obind dp (\<lambda>d. obind mp (\<lambda>m. obind wp (\<lambda>w.
       Ret (Spec \<lparr>sch_Second = one_bit seconds, sch_Minute = one_bit minutes, sch_Hour = h, sch_Dom = d,
                  sch_Month = m, sch_Dow = w\<rparr> loc)))))"

definition parseDescriptor :: "'loc time_env \<Rightarrow> string \<Rightarrow> 'loc \<Rightarrow> 'loc Schedule outcome" where
  "parseDescriptor env spec loc =
     (if spec = ''@yearly'' \<or> spec = ''@annually''
      then descriptor_schedule loc (Ret (one_bit hours)) (Ret (one_bit dom_bounds)) (Ret (one_bit months)) (all_bits dow)
      else if spec = ''@monthly''
      then descriptor_schedule loc (Ret (one_bit hours)) (Ret (one_bit dom_bounds)) (all_bits months) (all_bits dow)
      else if spec = ''@weekly''
      then descriptor_schedule loc (Ret (one_bit hours)) (all_bits dom_bounds) (all_bits months) (Ret (one_bit dow))
      else if spec = ''@daily'' \<or> spec = ''@midnight''
      then descriptor_schedule loc (Ret (one_bit hours)) (all_bits dom_bounds) (all_bits months) (all_bits dow)
      else if spec = ''@hourly''
      then descriptor_schedule loc (all_bits hours) (all_bits dom_bounds) (all_bits months) (all_bits dow)
      else if HasPrefix spec ''@every ''
      then (case ParseDuration env (drop (length ''@every '') spec) of
              None \<Rightarrow> Panic (''Failed to parse duration '' @ spec)
            | Some d \<Rightarrow> Ret (ConstantDelay (Every d)))
      else Panic (''Unrecognized descriptor: '' @ spec))"

definition parse_fields :: "string list \<Rightarrow> 'loc \<Rightarrow> 'loc Schedule outcome" where
  "parse_fields flds loc =
     obind (getField (flds ! 0) seconds) (\<lambda>s.
     obind (getField (flds ! 1) minutes) (\<lambda>mi.
     obind (getField (flds ! 2) hours) (\<lambda>h.
     obind (getField (flds ! 3) dom_bounds) (\<lambda>d.
     obind (getField (flds ! 4) months) (\<lambda>mo.
     obind (getField (flds ! 5) dow) (\<lambda>w.
       Ret (Spec \<lparr>sch_Second = s, sch_Minute = mi, sch_Hour = h, sch_Dom = d, sch_Month = mo, sch_Dow = w\<rparr> loc)))))))"

text \<open>The zone of an expression and what follows it.\<close>

definition parse_zone :: "'loc time_env \<Rightarrow> string \<Rightarrow> ('loc \<times> string) outcome" where
  "parse_zone env spec =
     (if HasPrefix spec ''TZ=''
      then (case index_char (CHR '' '') spec of
              None \<Rightarrow> Panic ''runtime error: slice bounds out of range''
            | Some i \<Rightarrow>
                (case LoadLocation env (drop 3 (take i spec)) of
                   None \<Rightarrow> Panic (''Provided bad location '' @ drop 3 (take i spec))
                 | Some loc \<Rightarrow> Ret (loc, TrimSpace (drop i spec))))
      else Ret (Local env, spec))"

definition parse_spec :: "'loc time_env \<Rightarrow> string \<Rightarrow> 'loc Schedule outcome" where
  "parse_spec env spec0 =
     obind (parse_zone env spec0) (\<lambda>(loc, spec).
       if HasPrefix spec ''@'' then parseDescriptor env spec loc
       else let flds = strings_Fields spec
            in if length flds \<noteq> 5 \<and> length flds \<noteq> 6
               then Panic (''Expected 5 or 6 fields, found '' @ digits10 (length flds) @ '': '' @ spec)
               else parse_fields (if length flds = 5 then ''0'' # flds else flds) loc)"

text \<open>\<open>Parse\<close> turns every panic into its error; \<open>Inl\<close> is the error.\<close>

definition Parse :: "'loc time_env \<Rightarrow> string \<Rightarrow> (string + 'loc Schedule) outcome" where
  "Parse env spec =
     (case parse_spec env spec of
        Ret sch \<Rightarrow> Ret (Inr sch)
      | Panic m \<Rightarrow> Ret (Inl m)
      | Diverge \<Rightarrow> Diverge)"

section \<open>Bit sets are what they mean\<close>

lemma bit_one_at: "bit (push_bit k (1 :: uint64)) n \<longleftrightarrow> n = k \<and> k < 64"
  by (auto simp: bit_exp_iff)

lemma bits_loop_value:
  assumes "unat mx < 64" and "0 < step" and "unat step < 2 ^ 63"
  shows "\<exists>b. bits_loop i mx step bits = Some b \<and>
    (\<forall>n. bit b n \<longleftrightarrow> bit bits n \<or> (\<exists>k. n = unat i + k * unat step \<and> n \<le> unat mx))"
proof (induction "Suc (unat mx) - unat i" arbitrary: i bits rule: less_induct)
  case less
  show ?case
  proof (cases "i \<le> mx")
    case False
    then have "\<not> (\<exists>k. n = unat i + k * unat step \<and> n \<le> unat mx)" for n by (auto simp: word_le_nat_alt)
    with False show ?thesis by (subst bits_loop.simps) auto
  next
    case True
    have i: "unat (i + step) = unat i + unat step" "unat i < 64"
      using True assms by (simp_all add: unat_word_ariths word_le_nat_alt)
    have s: "0 < unat step" using assms(2) by (simp add: word_less_nat_alt)
    have "Suc (unat mx) - unat (i + step) < Suc (unat mx) - unat i"
      using True i s by (simp add: word_le_nat_alt)
    from less [OF this, of "bits OR push_bit (unat i) 1"] obtain b where
      b: "bits_loop (i + step) mx step (bits OR push_bit (unat i) 1) = Some b"
      "\<And>n. bit b n \<longleftrightarrow> bit (bits OR push_bit (unat i) 1) n \<or> (\<exists>k. n = unat (i + step) + k * unat step \<and> n \<le> unat mx)"
      by blast
    have split: "(\<exists>k. n = unat i + k * unat step \<and> n \<le> unat mx) \<longleftrightarrow>
        n = unat i \<or> (\<exists>k. n = unat (i + step) + k * unat step \<and> n \<le> unat mx)" for n
    proof -
      have "(\<exists>k. n = unat i + k * unat step) \<longleftrightarrow> n = unat i \<or> (\<exists>k. n = unat i + Suc k * unat step)"
        by (metis add.right_neutral mult_0 not0_implies_Suc)
      with True i show ?thesis by (auto simp: word_le_nat_alt algebra_simps)
    qed
    have "bit b n \<longleftrightarrow> bit bits n \<or> (\<exists>k. n = unat i + k * unat step \<and> n \<le> unat mx)" for n
      using i(2) by (auto simp only: b(2) split bit_or_iff bit_one_at)
    with b(1) True show ?thesis by (subst bits_loop.simps) simp
  qed
qed

text \<open>The first and the last bit of the set that the shift computes.\<close>

lemma bit_mask_between:
  assumes "mn \<le> (mx :: uint64)" and "unat mx < 64"
  shows "bit (NOT (push_bit (unat (mx + 1)) (- 1)) AND push_bit (unat mn) (- 1 :: uint64)) n \<longleftrightarrow> unat mn \<le> n \<and> n \<le> unat mx"
proof -
  have "unat (mx + 1) = Suc (unat mx)" using assms(2) by (intro word_succ_unat) auto
  then show ?thesis using assms
    by (auto simp: bit_and_iff bit_not_iff bit_push_bit_iff bit_mask_iff word_le_nat_alt)
qed

lemma bits_loop_zero: "bits_loop i mx step bits = Some b \<Longrightarrow> \<not> (i \<le> mx \<and> step = 0)"
  by (erule bits_loop.raw_induct [rotated, where P = "\<lambda>i mx step bits b. \<not> (i \<le> mx \<and> step = 0)"])
    (fastforce split: if_splits)

lemma getBits_zero: "mn \<le> mx \<Longrightarrow> getBits mn mx 0 = Diverge"
  using bits_loop_zero by (fastforce simp: getBits_def split: option.splits)

lemma bits_loop_set:
  assumes "unat mx < 64" and "0 < step" and "unat step < 2 ^ 63"
  obtains b where "bits_loop mn mx step 0 = Some b"
    and "\<And>n. bit b n \<longleftrightarrow> unat mn \<le> n \<and> n \<le> unat mx \<and> unat step dvd n - unat mn"
proof -
  obtain b where b: "bits_loop mn mx step 0 = Some b"
    "\<And>n. bit b n \<longleftrightarrow> (\<exists>k. n = unat mn + k * unat step \<and> n \<le> unat mx)"
    using bits_loop_value [OF assms, of mn 0] by auto
  have "bit b n \<longleftrightarrow> unat mn \<le> n \<and> n \<le> unat mx \<and> unat step dvd n - unat mn" for n
    by (auto simp: b(2) dvd_def) (metis le_add_diff_inverse mult.commute)
  with b(1) show ?thesis by (rule that)
qed

lemma getBits_loop:
  assumes "mn \<le> mx" and "unat mx < 64" and "0 < step" and "unat step < 2 ^ 63" and loop: "bits_loop mn mx step 0 = Some b"
  shows "getBits mn mx step = Ret b"
proof (cases "step = 1")
  case True
  obtain b' where b': "bits_loop mn mx step 0 = Some b'"
    "\<And>n. bit b' n \<longleftrightarrow> unat mn \<le> n \<and> n \<le> unat mx \<and> unat step dvd n - unat mn"
    using bits_loop_set [OF assms(2-4), of mn] by blast
  have "NOT (push_bit (unat (mx + 1)) (- 1)) AND push_bit (unat mn) (- 1) = b'"
    using True by (intro bit_eqI) (simp only: bit_mask_between [OF assms(1,2)] b'(2) unsigned_1 one_dvd simp_thms)
  with True b'(1) loop show ?thesis by (simp add: getBits_def)
qed (simp add: getBits_def loop)

text \<open>
  C34: The bit set of a range: with a step that is not 0, \<open>getBits\<close> returns the set of the
  numbers from \<open>min\<close> to \<open>max\<close> that are a multiple of the step away from \<open>min\<close>. The
  shifts it uses for step 1 and the loop it uses for the other steps compute the same set.
\<close>

theorem getBits_is_range_set:
  assumes "mn \<le> mx" and "unat mx < 64" and "0 < step" and "unat step < 2 ^ 63"
  shows "\<exists>b. getBits mn mx step = Ret b \<and>
           (\<forall>n. bit b n \<longleftrightarrow> unat mn \<le> n \<and> n \<le> unat mx \<and> unat step dvd n - unat mn) \<and>
           bits_loop mn mx step 0 = Some b"
  using getBits_loop [OF assms] bits_loop_set [OF assms(2-4), of mn] by blast

theorem getBits_is_range_set_witness:
  "getBits 0 59 15 = Ret 0x200040008001 \<and> bit (0x200040008001 :: uint64) 45"
proof -
  have v: "bits_loop 0 59 15 0 = Some 0x200040008001" by (subst bits_loop.simps, simp)+
  obtain b where b: "getBits 0 59 15 = Ret b" "\<And>n. bit b n \<longleftrightarrow> n \<le> 59 \<and> 15 dvd n" "bits_loop 0 59 15 0 = Some b"
    using getBits_is_range_set [of 0 59 15] by auto
  have "bit b 45" by (simp add: b(2))
  with b(1,3) v show ?thesis by simp
qed

section \<open>Fields stay within their bounds\<close>

definition field_ok :: "bounds \<Rightarrow> uint64 \<Rightarrow> bool" where
  "field_ok r b \<longleftrightarrow> (\<forall>n < 63. bit b n \<longrightarrow> unat (b_min r) \<le> n \<and> n \<le> unat (b_max r))"

lemma bit_starBit [simp]: "bit starBit n \<longleftrightarrow> n = 63"
  by (auto simp: starBit_def bit_one_at simp del: push_bit_of_1)

lemma field_ok_or [simp]: "field_ok r (a OR b) \<longleftrightarrow> field_ok r a \<and> field_ok r b"
  by (auto simp: field_ok_def bit_or_iff)

lemma or_zero_iff [simp]: "(a :: uint64) OR b = 0 \<longleftrightarrow> a = 0 \<and> b = 0"
  by (auto simp: bit_eq_iff bit_or_iff)

lemma field_ok_star [simp]: "field_ok r 0" "field_ok r starBit"
  by (simp_all add: field_ok_def)

lemma mustParseInt_bound: "mustParseInt e = Ret u \<Longrightarrow> unat u < 2 ^ 63"
  by (auto simp: mustParseInt_def Atoi_def Let_def unat_of_nat split: option.splits if_splits prod.splits)

lemma obind_case_Ret: "obind m (\<lambda>(x, y). f x y) = Ret z \<longleftrightarrow> (\<exists>x y. m = Ret (x, y) \<and> f x y = Ret z)"
  by (cases m) auto

lemma getBits_field_ok:
  assumes "getBits mn mx step = Ret b" and "b_min r \<le> mn" and "mx \<le> b_max r" and "mn \<le> mx"
    and "unat (b_max r) < 63" and "unat step < 2 ^ 63"
  shows "field_ok r b \<and> b \<noteq> 0"
proof -
  have mx: "unat mx < 64" using assms(3,5) by (simp add: word_le_nat_alt)
  have "step \<noteq> 0" using assms(1) getBits_zero [OF assms(4)] by auto
  then have step: "0 < step" by (simp add: word_neq_0_conv)
  obtain c where c: "bits_loop mn mx step 0 = Some c"
    "\<And>n. bit c n \<longleftrightarrow> unat mn \<le> n \<and> n \<le> unat mx \<and> unat step dvd n - unat mn"
    using bits_loop_set [OF mx step assms(6), of mn] by blast
  then have "c = b" using getBits_loop [OF assms(4) mx step assms(6) c(1)] assms(1) by simp
  moreover have "bit c (unat mn)" using assms(4) by (simp add: c(2) word_le_nat_alt)
  moreover have "field_ok r c" using assms(2,3) by (auto simp: field_ok_def c(2) word_le_nat_alt)
  ultimately show ?thesis by auto
qed

lemma range_step_bound:
  "range_step e rs single en r = Ret (step, en') \<Longrightarrow> unat step < 2 ^ 63"
  by (auto simp: range_step_def dest!: mustParseInt_bound split: if_splits)

lemma getRange_field_ok:
  assumes "getRange e r = Ret b" and "unat (b_max r) < 63"
  shows "field_ok r b \<and> b \<noteq> 0"
proof -
  from assms(1) obtain start end0 star step en c where c: "range_step e (strings_Split e (CHR ''/''))
      (length (strings_Split (hd (strings_Split e (CHR ''/''))) (CHR ''-'')) = 1) end0 r = Ret (step, en)"
    "range_ends e (strings_Split (hd (strings_Split e (CHR ''/''))) (CHR ''-'')) r = Ret (start, end0, star)"
    "\<not> start < b_min r" "\<not> en > b_max r" "\<not> start > en" "getBits start en step = Ret c" "b = c OR star"
    by (auto simp: getRange_def Let_def split: if_splits)
  have "star = 0 \<or> star = starBit" using c(2) by (auto simp: range_ends_def split: if_splits)
  moreover have "field_ok r c \<and> c \<noteq> 0"
    by (rule getBits_field_ok [OF c(6)]) (use c(3-5) assms(2) range_step_bound [OF c(1)] in auto)
  ultimately show ?thesis using c(7) by auto
qed

lemma or_ranges_field_ok:
  "or_ranges es r b0 = Ret b \<Longrightarrow> unat (b_max r) < 63 \<Longrightarrow> field_ok r b0 \<Longrightarrow>
   field_ok r b \<and> (b = 0 \<longleftrightarrow> es = [] \<and> b0 = 0)"
proof (induction es arbitrary: b0)
  case (Cons e es)
  then obtain c where c: "getRange e r = Ret c" "or_ranges es r (b0 OR c) = Ret b" by auto
  have "field_ok r c \<and> c \<noteq> 0" using getRange_field_ok [OF c(1) Cons.prems(2)] .
  then show ?case using Cons.IH [OF c(2)] Cons.prems by auto
qed auto

lemma getField_field_ok:
  "getField f r = Ret b \<Longrightarrow> unat (b_max r) < 63 \<Longrightarrow>
   field_ok r b \<and> (b = 0 \<longleftrightarrow> FieldsFunc f (\<lambda>c. c = CHR '','') = [])"
  using or_ranges_field_ok [of "FieldsFunc f (\<lambda>c. c = CHR '','')" r 0 b] by (simp add: getField_def)

lemmas bounds_defs = seconds_def minutes_def hours_def dom_bounds_def months_def dow_def

lemma bounds_max:
  "unat (b_max seconds) < 63" "unat (b_max minutes) < 63" "unat (b_max hours) < 63"
  "unat (b_max dom_bounds) < 63" "unat (b_max months) < 63" "unat (b_max dow) < 63"
  by (simp_all add: bounds_defs)

lemma all_bits_field_ok:
  assumes "unat (b_max r) < 63" and "b_min r \<le> b_max r" and "all_bits r = Ret b"
  shows "field_ok r b"
proof -
  obtain c where c: "getBits (b_min r) (b_max r) 1 = Ret c" "b = c OR starBit"
    using assms(3) by (auto simp: all_bits_def)
  have "field_ok r c \<and> c \<noteq> 0" by (rule getBits_field_ok [OF c(1)]) (use assms in auto)
  with c(2) show ?thesis by simp
qed

lemma one_bit_field_ok: "unat (b_max r) < 63 \<Longrightarrow> b_min r \<le> b_max r \<Longrightarrow> field_ok r (one_bit r)"
  by (auto simp: one_bit_def field_ok_def bit_one_at word_le_nat_alt simp del: push_bit_of_1)

definition schedule_ok :: "'loc Schedule \<Rightarrow> bool" where
  "schedule_ok sch = (case sch of
      Spec s loc \<Rightarrow> field_ok seconds (sch_Second s) \<and> field_ok minutes (sch_Minute s) \<and> field_ok hours (sch_Hour s) \<and>
        field_ok dom_bounds (sch_Dom s) \<and> field_ok months (sch_Month s) \<and> field_ok dow (sch_Dow s)
    | ConstantDelay d \<Rightarrow> time_Second \<le> d \<and> d mod time_Second = 0)"

lemma Every_ok: "time_Second \<le> Every d \<and> Every d mod time_Second = 0"
proof -
  have "time_Second \<le> x - x mod time_Second" if "time_Second \<le> x" for x :: int
  proof -
    have "time_Second div time_Second \<le> x div time_Second" using that by (intro zdiv_mono1) simp_all
    then show ?thesis by (simp add: minus_mod_eq_mult_div)
  qed
  then show ?thesis by (simp add: Every_def Let_def)
qed

lemma bounds_le:
  "b_min seconds \<le> b_max seconds" "b_min minutes \<le> b_max minutes" "b_min hours \<le> b_max hours"
  "b_min dom_bounds \<le> b_max dom_bounds" "b_min months \<le> b_max months" "b_min dow \<le> b_max dow"
  by (simp_all add: bounds_defs)

text \<open>An outcome whose value, if there is one, is a well-formed field.\<close>

definition part_ok :: "bounds \<Rightarrow> uint64 outcome \<Rightarrow> bool" where
  "part_ok r part \<longleftrightarrow> (\<forall>b. part = Ret b \<longrightarrow> field_ok r b)"

lemma parts_ok:
  "r \<in> {seconds, minutes, hours, dom_bounds, months, dow} \<Longrightarrow> part_ok r (all_bits r)"
  "r \<in> {seconds, minutes, hours, dom_bounds, months, dow} \<Longrightarrow> part_ok r (Ret (one_bit r))"
  "r \<in> {seconds, minutes, hours, dom_bounds, months, dow} \<Longrightarrow> part_ok r (getField f r)"
proof -
  assume r: "r \<in> {seconds, minutes, hours, dom_bounds, months, dow}"
  then have b: "unat (b_max r) < 63" "b_min r \<le> b_max r" using bounds_max bounds_le by blast+
  show "part_ok r (all_bits r)" using all_bits_field_ok [OF b] by (simp add: part_ok_def)
  show "part_ok r (Ret (one_bit r))" using one_bit_field_ok [OF b] by (simp add: part_ok_def)
  show "part_ok r (getField f r)" using getField_field_ok [OF _ b(1)] by (simp add: part_ok_def)
qed

lemma descriptor_schedule_ok:
  assumes "descriptor_schedule loc h d m w = Ret sch" and "part_ok hours h" and "part_ok dom_bounds d"
    and "part_ok months m" and "part_ok dow w"
  shows "schedule_ok sch"
  using assms one_bit_field_ok [OF bounds_max(1) bounds_le(1)] one_bit_field_ok [OF bounds_max(2) bounds_le(2)]
  by (auto simp: descriptor_schedule_def schedule_ok_def part_ok_def)

lemma parseDescriptor_ok:
  assumes "parseDescriptor env spec loc = Ret sch"
  shows "schedule_ok sch"
  using assms unfolding parseDescriptor_def
  by (simp only: split: if_splits option.splits)
    ((erule descriptor_schedule_ok; simp add: parts_ok) | simp | (drule sym, simp add: schedule_ok_def Every_ok))+

lemma parse_fields_ok:
  assumes "parse_fields flds loc = Ret sch"
  shows "schedule_ok sch"
proof -
  have ok: "getField f r = Ret b \<Longrightarrow> r \<in> {seconds, minutes, hours, dom_bounds, months, dow} \<Longrightarrow> field_ok r b" for f r b
    using parts_ok(3) [of r f] by (simp add: part_ok_def)
  from assms obtain s mi h d mo w where
    "getField (flds ! 0) seconds = Ret s" "getField (flds ! 1) minutes = Ret mi" "getField (flds ! 2) hours = Ret h"
    "getField (flds ! 3) dom_bounds = Ret d" "getField (flds ! 4) months = Ret mo" "getField (flds ! 5) dow = Ret w"
    "sch = Spec \<lparr>sch_Second = s, sch_Minute = mi, sch_Hour = h, sch_Dom = d, sch_Month = mo, sch_Dow = w\<rparr> loc"
    unfolding parse_fields_def obind_Ret_iff by blast
  then show ?thesis by (simp add: schedule_ok_def ok)
qed

lemma parse_spec_ok:
  assumes "parse_spec env spec0 = Ret sch"
  shows "schedule_ok sch"
proof -
  obtain loc spec where "parse_zone env spec0 = Ret (loc, spec)"
    and r: "(if HasPrefix spec ''@'' then parseDescriptor env spec loc
       else let flds = strings_Fields spec
            in if length flds \<noteq> 5 \<and> length flds \<noteq> 6
               then Panic (''Expected 5 or 6 fields, found '' @ digits10 (length flds) @ '': '' @ spec)
               else parse_fields (if length flds = 5 then ''0'' # flds else flds) loc) = Ret sch"
    using assms by (auto simp only: parse_spec_def obind_case_Ret)
  show ?thesis
    using r parseDescriptor_ok parse_fields_ok by (cases "HasPrefix spec ''@''") (simp_all add: Let_def split: if_splits)
qed

text \<open>
  C35: A schedule that \<open>Parse\<close> accepts is well formed: every number in a field lies within the
  bounds of the field (the star bit apart), and a fixed delay is a whole number of seconds, at
  least one. A field accepted by \<open>getField\<close> is empty exactly when the text has no range, as
  the text of a lone comma.
\<close>

theorem Parse_within_bounds:
  "(Parse env spec = Ret (Inr sch) \<longrightarrow> schedule_ok sch) \<and>
   (getField f r = Ret b \<and> r \<in> {seconds, minutes, hours, dom_bounds, months, dow} \<longrightarrow>
      (b = 0 \<longleftrightarrow> FieldsFunc f (\<lambda>c. c = CHR '','') = []))"
proof (intro conjI impI)
  assume "Parse env spec = Ret (Inr sch)"
  then show "schedule_ok sch" by (auto simp: Parse_def intro: parse_spec_ok split: outcome.splits)
next
  assume "getField f r = Ret b \<and> r \<in> {seconds, minutes, hours, dom_bounds, months, dow}"
  then show "b = 0 \<longleftrightarrow> FieldsFunc f (\<lambda>c. c = CHR '','') = []"
    using getField_field_ok [of f r b] bounds_max by auto
qed

definition utc_env :: "unit time_env" where
  "utc_env = \<lparr>LoadLocation = \<lambda>_. None, Local = (), ParseDuration = \<lambda>_. None\<rparr>"

theorem Parse_within_bounds_witness:
  "(\<exists>sch. Parse utc_env ''@daily'' = Ret (Inr sch) \<and> schedule_ok sch) \<and> getField '','' seconds = Ret 0"
proof -
  obtain sch where sch: "Parse utc_env ''@daily'' = Ret (Inr sch)"
    by (simp add: Parse_def parse_spec_def parse_zone_def HasPrefix_def parseDescriptor_def descriptor_schedule_def
        all_bits_def getBits_def)
  have "FieldsFunc '','' (\<lambda>c. c = CHR '','') = []" by (simp add: FieldsFunc_def)
  then have "getField '','' seconds = Ret 0" by (simp add: getField_def)
  with sch Parse_within_bounds [of utc_env "''@daily''" sch "'',''" seconds 0] show ?thesis by blast
qed

lemma parse_zero: "mustParseInt ''0'' = Ret 0"
  by (simp add: mustParseInt_def Atoi_def digit_val_def)

text \<open>
  A step of 0 is accepted and its loop never ends: the range \<open>*/0\<close> of every field makes
  \<open>getBits\<close> run for ever, so \<open>Parse\<close> of an expression with it does not return, instead of
  returning an error.
\<close>

theorem zero_step_never_returns:
  "getRange ''*/0'' ` {seconds, minutes, hours, dom_bounds, months, dow} = {Diverge} \<and>
   Parse env ''*/0 * * * * *'' = Diverge"
proof -
  have split: "strings_Split ''*/0'' (CHR ''/'') = [''*'', ''0'']" "strings_Split ''*'' (CHR ''-'') = [''*'']"
    by (simp_all add: strings_Split_def)
  have r: "getRange ''*/0'' r = Diverge" if "b_min r \<le> b_max r" for r
    using that getBits_zero [OF that]
    by (simp add: getRange_def split range_ends_def range_step_def parse_zero Let_def)
  have fields: "strings_Fields ''*/0 * * * * *'' = [''*/0'', ''*'', ''*'', ''*'', ''*'', ''*'']"
    by (simp add: strings_Fields_def FieldsFunc_def is_space_def)
  have "getField ''*/0'' seconds = Diverge"
    using r [OF bounds_le(1)] by (simp add: getField_def FieldsFunc_def)
  then have "Parse env ''*/0 * * * * *'' = Diverge"
    by (simp add: Parse_def parse_spec_def parse_zone_def HasPrefix_def fields Let_def parse_fields_def)
  then show ?thesis using r bounds_le by simp
qed

text \<open>
  A job with a fixed delay runs on whole seconds, and from one activation to the next exactly
  the delay passes; the activation is later than the given time.
\<close>

lemma delay_Next_on_the_second:
  "delay_Next (Every d) t mod time_Second = 0 \<and> t < delay_Next (Every d) t \<and>
   delay_Next (Every d) (delay_Next (Every d) t) = delay_Next (Every d) t + Every d"
proof -
  obtain m where m: "Every d = time_Second * m" using Every_ok [of d] by auto
  have n: "delay_Next (Every d) x = time_Second * (x div time_Second + m)" for x
    by (simp add: delay_Next_def m algebra_simps minus_mod_eq_mult_div [symmetric])
  have "t < delay_Next (Every d) t"
  proof -
    have "t mod time_Second < time_Second" by simp
    also have "\<dots> \<le> Every d" using Every_ok [of d] by simp
    finally show ?thesis by (simp add: delay_Next_def)
  qed
  moreover have "delay_Next (Every d) (time_Second * k) = time_Second * k + time_Second * m" for k
    by (simp add: n distrib_left)
  ultimately show ?thesis by (metis n m mod_mult_self1_is_0)
qed

end
