(* ===== verification/Cron_Runner.thy ===== *)
theory Cron_Runner
  imports Cron_Parser "HOL-Library.Multiset"
begin

text \<open>
  The cron runner (\<open>cron/cron.go\<close>): entries behind pointers, the pool of ids, the queue of entries,
  one goroutine per queued entry and the client calls, all interleaved. A time is its nanosecond
  since the epoch. The fields that the goroutines read without a lock are read in a step of their
  own, and a lock or a full channel blocks the step that needs it.
\<close>

section \<open>Data\<close>

record Extra =
  x_RunForce :: bool
  x_TimeOut :: int
  x_Name :: string
  x_Delay :: int

definition new_Extra :: Extra where
  "new_Extra = \<lparr>x_RunForce = False, x_TimeOut = 0, x_Name = [], x_Delay = 0\<rparr>"

text \<open>The schedule of an entry is its method \<open>Next\<close>, the job is a number.\<close>

record Entry =
  e_ID :: string
  e_Schedule :: "int \<Rightarrow> int"
  e_Next :: int
  e_Prev :: int
  e_Job :: nat
  e_locked :: bool
  e_Status :: string
  e_Runtimes :: int
  e_Extra :: Extra

definition Valid :: "Entry \<Rightarrow> bool" where
  "Valid e \<longleftrightarrow> e_ID e \<noteq> []"

text \<open>
  What a goroutine of \<open>run\<close> does with the entry at an address: it has received it; it has seen
  that it is idle; it has marked it \<open>PREPARE\<close>; it sleeps until a time; it has seen \<open>PREPARE\<close> again and
  wants the lock; it holds the lock and has marked the entry \<open>RUNNING\<close>; it runs the job; it holds the lock and moves the next time on; it has unlocked and sends
  the entry back; or it has taken a removed entry out of the map and gives its id back.
\<close>

datatype worker = Got nat | Ready nat | Prepared nat | Waiting nat int | Woken nat | Locked nat | JobRunning nat | Finished nat | Recovering nat
  | Requeue nat | Freeing nat

fun worker_entry :: "worker \<Rightarrow> nat" where
  "worker_entry (Got a) = a"
| "worker_entry (Ready a) = a"
| "worker_entry (Prepared a) = a"
| "worker_entry (Waiting a t) = a"
| "worker_entry (Woken a) = a"
| "worker_entry (Locked a) = a"
| "worker_entry (JobRunning a) = a"
| "worker_entry (Finished a) = a"
| "worker_entry (Recovering a) = a"
| "worker_entry (Requeue a) = a"
| "worker_entry (Freeing a) = a"

text \<open>The loop of \<open>run\<close> or \<open>checkTMout\<close>: before or after its test of \<open>Running\<close>.\<close>

datatype loop = Top | Checked

text \<open>A client call that has found its entry and waits for the lock, and what it still does after it.\<close>

datatype caller = RemoveCall nat | PauseCall nat | RestartCall nat | StopCall string nat | Resend nat | Unmap string

record Cron =
  c_Running :: bool
  c_IDchan :: "string list"
  c_EntriesMap :: "(string \<times> nat) list"
  c_EntryChan :: "nat list"
  c_TimeOutChan :: "nat list"
  c_CheckTMout :: "(nat \<times> int) list"
  c_heap :: "nat \<Rightarrow> Entry"
  c_alloc :: nat
  c_loops :: "loop list"
  c_checkers :: "loop list"
  c_workers :: "worker list"
  c_timers :: "(nat \<times> int \<times> int) list"
  c_callers :: "caller list"
  c_now :: int
  c_started :: "nat list"

abbreviation chan_cap :: nat where
  "chan_cap \<equiv> 10240"

definition zero_Entry :: Entry where
  "zero_Entry = \<lparr>e_ID = [], e_Schedule = (\<lambda>t. t), e_Next = 0, e_Prev = 0, e_Job = 0, e_locked = False, e_Status = [],
     e_Runtimes = 0, e_Extra = new_Extra\<rparr>"

definition New_Cron :: "int \<Rightarrow> Cron" where
  "New_Cron now = \<lparr>c_Running = False, c_IDchan = map (\<lambda>i. Itoa (int i)) [1..<chan_cap + 1], c_EntriesMap = [], c_EntryChan = [],
     c_TimeOutChan = [], c_CheckTMout = [], c_heap = (\<lambda>_. zero_Entry), c_alloc = 0, c_loops = [], c_checkers = [],
     c_workers = [], c_timers = [], c_callers = [], c_now = now, c_started = []\<rparr>"

section \<open>The client calls\<close>

definition unix :: "int \<Rightarrow> int" where
  "unix t = t div time_Second"

text \<open>The loop that counts up to the next multiple (\<open>tmptime%d == 0\<close>); \<open>d\<close> is at least 60 where it is called.\<close>

function align :: "int \<Rightarrow> int \<Rightarrow> int" where
  "align d t = (if d \<le> 0 \<or> t mod d = 0 then t else align d (t + 1))"
  by pat_completeness auto
termination
proof (relation "measure (\<lambda>(d, t). nat ((- t) mod d))", goal_cases)
  case (2 d t)
  then have d: "0 < d" "t mod d \<noteq> 0" "t mod d + 1 \<le> d" using pos_mod_bound [of d t] by linarith+
  have "(t + 1) mod d = (t mod d + 1) mod d" by (simp add: mod_add_left_eq)
  then have "(t + 1) mod d = (if t mod d + 1 = d then 0 else t mod d + 1)" using d by auto
  then have "(- (t + 1)) mod d = (if t mod d + 1 = d then 0 else d - (t mod d + 1))"
    using d unfolding zmod_zminus1_eq_if by (auto simp: add_nonneg_eq_0_iff)
  moreover have "(- t) mod d = d - t mod d" using d by (simp add: zmod_zminus1_eq_if)
  ultimately show ?case using d by auto
qed auto

definition first_Next :: "(int \<Rightarrow> int) \<Rightarrow> int \<Rightarrow> int \<Rightarrow> int" where
  "first_Next schedule delay now =
     (if delay \<ge> 60 then align delay (unix (schedule now)) * time_Second
      else if delay > 0 then align 60 (unix (schedule now)) * time_Second
      else schedule now)"

definition new_Entry :: "string \<Rightarrow> (int \<Rightarrow> int) \<Rightarrow> nat \<Rightarrow> Extra option \<Rightarrow> int \<Rightarrow> Entry" where
  "new_Entry i schedule cmd args now =
     (let x = (case args of None \<Rightarrow> new_Extra | Some x \<Rightarrow> x)
      in \<lparr>e_ID = i, e_Schedule = schedule, e_Next = first_Next schedule (x_Delay x) now, e_Prev = now, e_Job = cmd,
          e_locked = False, e_Status = ''IDLE'', e_Runtimes = 0, e_Extra = x\<rparr>)"

text \<open>\<open>Cron.Schedule\<close>: the id, or the empty string when the pool is empty; blocked on a full queue it never returns.\<close>

definition Schedule_job :: "(int \<Rightarrow> int) \<Rightarrow> nat \<Rightarrow> Extra option \<Rightarrow> Cron \<Rightarrow> (string \<times> Cron) outcome" where
  "Schedule_job schedule cmd args c =
     (case c_IDchan c of
        [] \<Rightarrow> Ret ([], c)
      | i # ids \<Rightarrow>
          let a = c_alloc c;
              c1 = c\<lparr>c_IDchan := ids, c_heap := (c_heap c)(a := new_Entry i schedule cmd args (c_now c)), c_alloc := a + 1,
                     c_EntriesMap := AList.update i a (c_EntriesMap c)\<rparr>
          in if length (c_EntryChan c1) \<ge> chan_cap then Diverge
             else Ret (i, c1\<lparr>c_EntryChan := c_EntryChan c1 @ [a]\<rparr>))"

definition AddJob :: "'loc time_env \<Rightarrow> ('loc Schedule \<Rightarrow> int \<Rightarrow> int) \<Rightarrow> string \<Rightarrow> nat \<Rightarrow> Extra option \<Rightarrow> Cron \<Rightarrow>
    ((string + string) \<times> Cron) outcome" where
  "AddJob env next_of spec cmd args c =
     obind (Parse env spec) (\<lambda>r. case r of
         Inl err \<Rightarrow> Ret (Inl err, c)
       | Inr schedule \<Rightarrow> obind (Schedule_job (next_of schedule) cmd args c) (\<lambda>(entryid, c1).
           Ret (if entryid = [] then Inl ''IDChan is not enough'' else Inr entryid, c1)))"

definition Entry_of :: "string \<Rightarrow> Cron \<Rightarrow> string + nat" where
  "Entry_of i c = (case map_of (c_EntriesMap c) i of
      Some a \<Rightarrow> Inr a
    | None \<Rightarrow> Inl (''This Crontable not contain ID:'' @ i))"

text \<open>
  \<open>RemoveEntry\<close>, \<open>Paused\<close>, \<open>Restart\<close> and the body of \<open>Stop\<close> first load the entry; without one they
  return false. What they do once they hold the entry's lock is one step.
\<close>

definition begin_call :: "(nat \<Rightarrow> caller) \<Rightarrow> string \<Rightarrow> Cron \<Rightarrow> bool \<times> Cron" where
  "begin_call call i c = (case map_of (c_EntriesMap c) i of
      None \<Rightarrow> (False, c)
    | Some a \<Rightarrow> (True, c\<lparr>c_callers := c_callers c @ [call a]\<rparr>))"

abbreviation upd_entry :: "nat \<Rightarrow> (Entry \<Rightarrow> Entry) \<Rightarrow> Cron \<Rightarrow> Cron" where
  "upd_entry a f c \<equiv> c\<lparr>c_heap := (c_heap c)(a := f (c_heap c a))\<rparr>"

definition set_Status :: "string \<Rightarrow> Entry \<Rightarrow> Entry" where
  "set_Status st e = e\<lparr>e_Status := st\<rparr>"

definition restart_entry :: "int \<Rightarrow> Entry \<Rightarrow> Entry" where
  "restart_entry now e = e\<lparr>e_Next := e_Schedule e now, e_Status := ''IDLE''\<rparr>"

text \<open>The part of a call under the lock; what is left of the call afterwards.\<close>

fun locked_call :: "caller \<Rightarrow> Cron \<Rightarrow> (caller list \<times> Cron) option" where
  "locked_call (RemoveCall a) c = (if e_locked (c_heap c a) then None else Some ([], upd_entry a (set_Status ''REMOVE'') c))"
| "locked_call (PauseCall a) c = (if e_locked (c_heap c a) then None else Some ([], upd_entry a (set_Status ''PAUSED'') c))"
| "locked_call (RestartCall a) c =
     (if e_locked (c_heap c a) then None else Some ([Resend a], upd_entry a (restart_entry (c_now c)) c))"
| "locked_call (StopCall i a) c = (if e_locked (c_heap c a) then None else Some ([Unmap i], upd_entry a (set_Status ''REMOVE'') c))"
| "locked_call (Resend a) c =
     (if length (c_EntryChan c) \<ge> chan_cap then None else Some ([], c\<lparr>c_EntryChan := c_EntryChan c @ [a]\<rparr>))"
| "locked_call (Unmap i) c = Some ([], c\<lparr>c_EntriesMap := AList.delete i (c_EntriesMap c)\<rparr>)"

definition Start :: "Cron \<Rightarrow> Cron" where
  "Start c = c\<lparr>c_Running := True, c_loops := c_loops c @ [Top], c_checkers := c_checkers c @ [Top]\<rparr>"

text \<open>The end of \<open>Stop\<close>, after it has removed the entries.\<close>

definition Stop_end :: "Cron \<Rightarrow> Cron" where
  "Stop_end c = c\<lparr>c_Running := False\<rparr>"

section \<open>The goroutines\<close>

text \<open>
  One step of a goroutine that \<open>run\<close> started for an entry; \<open>None\<close> while it is blocked, no worker when it
  ends. \<open>go entry.Job.Run()\<close> and \<open>entry.Job.Run()\<close> add the entry to the jobs started.
\<close>

fun worker_step :: "worker \<Rightarrow> Cron \<Rightarrow> (worker list \<times> Cron) option" where
  "worker_step (Got a) c = Some (if e_Status (c_heap c a) = ''IDLE'' then [Ready a] else [], c)"
| "worker_step (Ready a) c =
     (if e_locked (c_heap c a) then None
      else Some ([Prepared a], upd_entry a (\<lambda>e. e\<lparr>e_Status := ''PREPARE'', e_Runtimes := i64 (e_Runtimes e + 1)\<rparr>) c))"
| "worker_step (Prepared a) c = Some ([Waiting a (e_Next (c_heap c a))], c)"
| "worker_step (Waiting a t) c =
     (if c_now c < t then None
      else if e_Status (c_heap c a) = ''PREPARE'' then Some ([Woken a], c)
      else if e_Status (c_heap c a) = ''REMOVE''
      then Some ([Freeing a], c\<lparr>c_EntriesMap := AList.delete (e_ID (c_heap c a)) (c_EntriesMap c)\<rparr>)
      else Some ([], c))"
| "worker_step (Woken a) c =
     (if e_locked (c_heap c a) then None
      else Some ([Locked a], upd_entry a (\<lambda>e. e\<lparr>e_locked := True, e_Status := ''RUNNING'', e_Prev := e_Next e,
             e_Next := e_Schedule e (e_Next e)\<rparr>) c))"
| "worker_step (Locked a) c =
     (let x = e_Extra (c_heap c a); c1 = c\<lparr>c_started := c_started c @ [a]\<rparr>
      in if x_RunForce x then Some ([Finished a], c1)
         else if x_TimeOut x > 0
         then if length (c_CheckTMout c) \<ge> chan_cap then None
              else Some ([JobRunning a], c1\<lparr>c_CheckTMout := c_CheckTMout c @ [(a, e_Runtimes (c_heap c a))]\<rparr>)
         else Some ([JobRunning a], c1))"
| "worker_step (JobRunning a) c = Some ([Finished a], c)"
| "worker_step (Finished a) c =
     (if unix (c_now c) > unix (e_Next (c_heap c a)) then Some ([Recovering a], c)
      else Some ([Requeue a], upd_entry a (\<lambda>e. e\<lparr>e_Status := ''IDLE'', e_locked := False\<rparr>) c))"
| "worker_step (Recovering a) c =
     (let n = e_Schedule (c_heap c a) (e_Next (c_heap c a)); c1 = upd_entry a (\<lambda>e. e\<lparr>e_Next := n\<rparr>) c
      in if unix (c_now c) < unix n
         then Some ([Requeue a], upd_entry a (\<lambda>e. e\<lparr>e_Status := ''IDLE'', e_locked := False\<rparr>) c1)
         else Some ([Recovering a], c1))"
| "worker_step (Requeue a) c =
     (if length (c_EntryChan c) \<ge> chan_cap then None else Some ([], c\<lparr>c_EntryChan := c_EntryChan c @ [a]\<rparr>))"
| "worker_step (Freeing a) c =
     (if length (c_IDchan c) \<ge> chan_cap then None else Some ([], c\<lparr>c_IDchan := c_IDchan c @ [e_ID (c_heap c a)]\<rparr>))"

text \<open>The loops of \<open>run\<close> and of \<open>checkTMout\<close>.\<close>

fun run_loop :: "loop \<Rightarrow> Cron \<Rightarrow> (loop list \<times> Cron) option" where
  "run_loop Top c = Some (if c_Running c then [Checked] else [], c)"
| "run_loop Checked c = (case c_EntryChan c of
     [] \<Rightarrow> None
   | a # q \<Rightarrow> Some ([Top], c\<lparr>c_EntryChan := q, c_workers := c_workers c @ [Got a]\<rparr>))"

fun check_loop :: "loop \<Rightarrow> Cron \<Rightarrow> (loop list \<times> Cron) option" where
  "check_loop Top c = Some (if c_Running c then [Checked] else [], c)"
| "check_loop Checked c = (case c_CheckTMout c of
     [] \<Rightarrow> None
   | (a, p) # q \<Rightarrow> Some ([Top], c\<lparr>c_CheckTMout := q,
       c_timers := c_timers c @ [(a, p, c_now c + i64 (x_TimeOut (e_Extra (c_heap c a)) * time_Second))]\<rparr>))"

definition fire_timer :: "nat \<times> int \<times> int \<Rightarrow> Cron \<Rightarrow> Cron option" where
  "fire_timer m c = (case m of (a, p, t) \<Rightarrow>
     if c_now c < t then None
     else if e_Runtimes (c_heap c a) = p
     then if length (c_TimeOutChan c) \<ge> chan_cap then None else Some (c\<lparr>c_TimeOutChan := c_TimeOutChan c @ [a]\<rparr>)
     else Some c)"

text \<open>The steps of a program in which the clients' calls named in the set may occur.\<close>

datatype call_kind = Removes | Pauses | Restarts | Stops

inductive cron_step :: "call_kind set \<Rightarrow> Cron \<Rightarrow> Cron \<Rightarrow> bool" for K where
  schedule: "Schedule_job sch cmd args c = Ret (i, c') \<Longrightarrow> cron_step K c c'"
| remove: "Removes \<in> K \<Longrightarrow> begin_call RemoveCall i c = (r, c') \<Longrightarrow> cron_step K c c'"
| pause: "Pauses \<in> K \<Longrightarrow> begin_call PauseCall i c = (r, c') \<Longrightarrow> cron_step K c c'"
| restart: "Restarts \<in> K \<Longrightarrow> begin_call RestartCall i c = (r, c') \<Longrightarrow> cron_step K c c'"
| stop: "Stops \<in> K \<Longrightarrow> begin_call (StopCall i) i c = (r, c') \<Longrightarrow> cron_step K c c'"
| stop_end: "Stops \<in> K \<Longrightarrow> cron_step K c (Stop_end c)"
| start: "cron_step K c (Start c)"
| call: "c_callers c = us @ w # vs \<Longrightarrow> locked_call w c = Some (ws, c') \<Longrightarrow> cron_step K c (c'\<lparr>c_callers := us @ ws @ vs\<rparr>)"
| loop: "c_loops c = us @ l # vs \<Longrightarrow> run_loop l c = Some (ls, c') \<Longrightarrow> cron_step K c (c'\<lparr>c_loops := us @ ls @ vs\<rparr>)"
| checker: "c_checkers c = us @ l # vs \<Longrightarrow> check_loop l c = Some (ls, c') \<Longrightarrow> cron_step K c (c'\<lparr>c_checkers := us @ ls @ vs\<rparr>)"
| timer: "c_timers c = us @ m # vs \<Longrightarrow> fire_timer m c = Some c' \<Longrightarrow> cron_step K c (c'\<lparr>c_timers := us @ vs\<rparr>)"
| timeout_read: "c_TimeOutChan c = a # q \<Longrightarrow> cron_step K c (c\<lparr>c_TimeOutChan := q\<rparr>)"
| worker: "c_workers c = us @ w # vs \<Longrightarrow> worker_step w c = Some (ws, c') \<Longrightarrow> cron_step K c (c'\<lparr>c_workers := us @ ws @ vs\<rparr>)"
| clock: "c_now c \<le> t \<Longrightarrow> cron_step K c (c\<lparr>c_now := t\<rparr>)"

section \<open>Ids and entries have one owner\<close>

definition id_pool :: "string set" where
  "id_pool = (\<lambda>i. Itoa (int i)) ` {1..chan_cap}"

abbreviation id_at :: "Cron \<Rightarrow> nat \<Rightarrow> string" where
  "id_at c a \<equiv> e_ID (c_heap c a)"

definition tokens :: "Cron \<Rightarrow> nat list" where
  "tokens c = c_EntryChan c @ map worker_entry (c_workers c)"

fun no_restart :: "caller \<Rightarrow> bool" where
  "no_restart (RestartCall a) = False"
| "no_restart (Resend a) = False"
| "no_restart _ = True"

text \<open>The free ids and the ids of the entries that are queued or in the hands of a goroutine.\<close>

definition owned :: "Cron \<Rightarrow> string list" where
  "owned c = c_IDchan c @ map (id_at c) (tokens c)"

definition cron_inv :: "Cron \<Rightarrow> bool" where
  "cron_inv c \<longleftrightarrow> distinct (owned c) \<and> set (owned c) \<subseteq> id_pool \<and>
     (\<forall>a \<in> set (tokens c). a < c_alloc c) \<and> distinct (map fst (c_EntriesMap c)) \<and>
     (\<forall>(k, a) \<in> set (c_EntriesMap c). a < c_alloc c \<and> id_at c a = k) \<and>
     set (c_IDchan c) \<inter> fst ` set (c_EntriesMap c) = {} \<and>
     (\<forall>a. Freeing a \<in> set (c_workers c) \<longrightarrow> id_at c a \<notin> fst ` set (c_EntriesMap c)) \<and>
     (\<forall>w \<in> set (c_callers c). no_restart w)"

lemma inj_Itoa: "inj_on (\<lambda>i. Itoa (int i)) A"
  by (rule inj_onI) (simp add: Itoa_def, metis dec_val_digits10)

lemma card_id_pool: "card id_pool = chan_cap"
  by (simp add: id_pool_def card_image inj_Itoa)

lemma finite_id_pool: "finite id_pool"
  by (simp add: id_pool_def)

lemma set_delete_map: "set (AList.delete k xs) = {(k', v) \<in> set xs. k' \<noteq> k}"
  by (auto simp: AList.delete_eq)

lemma keys_delete: "fst ` set (AList.delete k xs) = fst ` set xs - {k}"
  by (force simp: set_delete_map)

lemma delete_subset: "set (AList.delete k xs) \<subseteq> set xs"
  by (auto simp: set_delete_map)

lemma distinct_delete: "distinct (map fst xs) \<Longrightarrow> distinct (map fst (AList.delete k xs))"
  by (simp add: AList.distinct_delete)

lemma set_update_fresh: "k \<notin> fst ` set xs \<Longrightarrow> AList.update k v xs = xs @ [(k, v)]"
  by (induction xs) auto

lemma cron_inv_New: "cron_inv (New_Cron now)"
proof -
  have "distinct (map (\<lambda>i. Itoa (int i)) [1..<chan_cap + 1])"
    by (simp add: distinct_map inj_Itoa del: upt_Suc)
  then show ?thesis by (auto simp: cron_inv_def New_Cron_def owned_def tokens_def id_pool_def simp del: upt_Suc)
qed

lemma distinct_submset:
  assumes "mset ys \<subseteq># mset xs" and "distinct xs"
  shows "distinct ys"
proof -
  have "count (mset xs) a \<le> 1" for a
    using assms(2) by (cases "a \<in> set xs") (auto simp: distinct_count_atmost_1 count_eq_zero_iff)
  then have le: "count (mset ys) a \<le> 1" for a using mset_subset_eq_count [OF assms(1), of a] le_trans by blast
  have "count (mset ys) a = 1" if "a \<in> set ys" for a using le [of a] that by (simp add: le_Suc_eq count_eq_zero_iff)
  then show ?thesis by (auto simp: distinct_count_atmost_1 count_eq_zero_iff)
qed

text \<open>Steps that move ids and entries between the places, or lose some, and shrink the map.\<close>

lemma cron_inv_move:
  assumes "cron_inv c" and "mset (owned c') \<subseteq># mset (owned c)" and "set (tokens c') \<subseteq> set (tokens c)" and "c_alloc c' = c_alloc c"
    and "\<And>a. id_at c' a = id_at c a" and "distinct (map fst (c_EntriesMap c'))" and "set (c_EntriesMap c') \<subseteq> set (c_EntriesMap c)"
    and "set (c_IDchan c') \<inter> fst ` set (c_EntriesMap c') = {}"
    and "\<And>a. Freeing a \<in> set (c_workers c') \<Longrightarrow> id_at c a \<notin> fst ` set (c_EntriesMap c')"
    and "\<And>w. w \<in> set (c_callers c') \<Longrightarrow> no_restart w"
  shows "cron_inv c'"
proof -
  have "set (owned c') \<subseteq> set (owned c)" using set_mset_mono [OF assms(2)] by simp
  moreover have "distinct (owned c')" using assms(1,2) by (auto simp: cron_inv_def intro: distinct_submset)
  moreover have "set (owned c) \<subseteq> id_pool" "\<forall>a \<in> set (tokens c). a < c_alloc c"
    "\<forall>(k, a) \<in> set (c_EntriesMap c). a < c_alloc c \<and> id_at c a = k"
    using assms(1) by (simp_all add: cron_inv_def)
  moreover have "\<forall>(k, a) \<in> set (c_EntriesMap c'). a < c_alloc c \<and> id_at c a = k" using calculation(5) assms(7) by blast
  ultimately show ?thesis using assms(3,6,8,9,10) unfolding cron_inv_def assms(4,5) by auto
qed

text \<open>Steps that leave the ids, the queue, the map and the goroutines alone.\<close>

lemma cron_inv_frame:
  assumes "cron_inv c" and "c_IDchan c' = c_IDchan c" and "c_EntryChan c' = c_EntryChan c" and "c_EntriesMap c' = c_EntriesMap c"
    and "c_alloc c' = c_alloc c" and "c_workers c' = c_workers c" and "\<And>w. w \<in> set (c_callers c') \<Longrightarrow> no_restart w"
    and "\<And>a. id_at c' a = id_at c a"
  shows "cron_inv c'"
  using assms(1,7) by (simp add: cron_inv_def tokens_def owned_def assms(2-6,8))

lemma cron_inv_Schedule:
  assumes "cron_inv c" and "Schedule_job sch cmd args c = Ret (i, c')"
  shows "cron_inv c'"
proof (cases "c_IDchan c")
  case Nil
  with assms show ?thesis by (simp add: Schedule_job_def)
next
  case (Cons k ids)
  let ?a = "c_alloc c"
  have inv: "distinct (owned c)" "set (owned c) \<subseteq> id_pool" "\<forall>a \<in> set (tokens c). a < ?a"
    "\<forall>(k, a) \<in> set (c_EntriesMap c). a < ?a \<and> id_at c a = k" "set (c_IDchan c) \<inter> fst ` set (c_EntriesMap c) = {}"
    using assms(1) by (simp_all add: cron_inv_def)
  have fresh: "k \<notin> fst ` set (c_EntriesMap c)" using inv(5) Cons by auto
  have tok: "?a \<notin> set (tokens c)" using inv(3) by auto
  have same: "id_at c' b = (if b = ?a then k else id_at c b)" for b
    using assms(2) Cons by (auto simp: Schedule_job_def Let_def new_Entry_def split: if_splits)
  have st: "c_IDchan c' = ids" "c_EntriesMap c' = c_EntriesMap c @ [(k, ?a)]" "c_alloc c' = ?a + 1" "c_callers c' = c_callers c"
    "c_workers c' = c_workers c" "c_EntryChan c' = c_EntryChan c @ [?a]"
    using assms(2) Cons fresh by (auto simp: Schedule_job_def Let_def set_update_fresh split: if_splits)
  have "image_mset (id_at c') (mset (tokens c)) = image_mset (id_at c) (mset (tokens c))"
    using tok by (intro image_mset_cong) (auto simp: same)
  moreover have "mset (tokens c') = add_mset ?a (mset (tokens c))" by (simp add: tokens_def st)
  moreover have "id_at c' ?a = k" by (simp add: same)
  ultimately have "mset (map (id_at c') (tokens c')) = add_mset k (mset (map (id_at c) (tokens c)))" by simp
  then have perm: "mset (owned c') = mset (owned c)" using Cons by (simp add: owned_def st)
  then have set: "set (owned c') = set (owned c)" by (rule mset_eq_setD)
  have toks: "set (tokens c') = insert ?a (set (tokens c))" by (auto simp: tokens_def st)
  have k: "k \<notin> id_at c ` set (tokens c)" "k \<notin> set ids" using inv(1) Cons by (auto simp: owned_def)
  have free: "id_at c' a \<notin> fst ` set (c_EntriesMap c @ [(k, ?a)])" if "Freeing a \<in> set (c_workers c)" for a
  proof -
    have "a \<in> set (tokens c)" using that by (force simp: tokens_def)
    then have "a \<noteq> ?a" "id_at c a \<noteq> k" using tok k by auto
    moreover have "id_at c a \<notin> fst ` set (c_EntriesMap c)" using assms(1) that by (simp add: cron_inv_def)
    ultimately show ?thesis by (simp add: same)
  qed
  have "distinct (owned c')" using mset_eq_imp_distinct_iff [OF perm] inv(1) by simp
  moreover have "\<forall>(k', a) \<in> set (c_EntriesMap c @ [(k, ?a)]). a < ?a + 1 \<and> id_at c' a = k'" using inv(4) by (auto simp: same)
  moreover have "distinct (map fst (c_EntriesMap c @ [(k, ?a)]))" using assms(1) fresh by (auto simp: cron_inv_def)
  moreover have "set ids \<inter> fst ` set (c_EntriesMap c @ [(k, ?a)]) = {}" using inv(5) Cons k(2) by auto
  moreover have "\<forall>a \<in> set (tokens c'). a < ?a + 1" using inv(3) toks less_SucI by auto
  moreover have "\<forall>w \<in> set (c_callers c). no_restart w" using assms(1) by (simp add: cron_inv_def)
  ultimately show ?thesis unfolding cron_inv_def st set using inv(2) free by blast
qed

lemma cron_inv_call:
  assumes "cron_inv c" and "c_callers c = us @ w # vs" and "locked_call w c = Some (ws, c')"
  shows "cron_inv (c'\<lparr>c_callers := us @ ws @ vs\<rparr>)"
proof -
  have w: "no_restart w" "\<forall>w \<in> set us \<union> set vs. no_restart w" using assms(1,2) by (simp_all add: cron_inv_def)
  show ?thesis
  proof (cases "\<exists>i. w = Unmap i")
    case True
    then obtain i where i: "ws = []" "c' = c\<lparr>c_EntriesMap := AList.delete i (c_EntriesMap c)\<rparr>" using assms(3) by auto
    have "set (c_IDchan c) \<inter> fst ` set (c_EntriesMap c) = {}" "distinct (map fst (c_EntriesMap c))"
      "\<forall>a. Freeing a \<in> set (c_workers c) \<longrightarrow> id_at c a \<notin> fst ` set (c_EntriesMap c)"
      using assms(1) by (simp_all add: cron_inv_def)
    then show ?thesis
      by (intro cron_inv_move [OF assms(1)]) (use w in \<open>auto simp: i owned_def tokens_def keys_delete delete_subset distinct_delete\<close>)
  next
    case False
    then have "c' = upd_entry a (set_Status st) c \<Longrightarrow> ?thesis" if "\<forall>w \<in> set ws. no_restart w" for a st
      using that w by (intro cron_inv_frame [OF assms(1)]) (auto simp: set_Status_def)
    then show ?thesis using assms(3) False w(1) by (cases w) (auto split: if_splits)
  qed
qed

lemma cron_inv_loop:
  assumes "cron_inv c" and "run_loop l c = Some (ls, c')"
  shows "cron_inv (c'\<lparr>c_loops := us @ ls @ vs\<rparr>)"
proof (cases l)
  case Top
  with assms show ?thesis by (intro cron_inv_frame [OF assms(1)]) (auto simp: cron_inv_def)
next
  case Checked
  with assms(2) obtain a q where q: "c_EntryChan c = a # q" "c' = c\<lparr>c_EntryChan := q, c_workers := c_workers c @ [Got a]\<rparr>"
    by (auto split: list.splits)
  show ?thesis by (rule cron_inv_move [OF assms(1)]) (use assms(1) in \<open>simp_all add: q owned_def tokens_def cron_inv_def\<close>)
qed

lemma cron_inv_begin_call:
  assumes "cron_inv c" and "begin_call f i c = (r, c')" and "\<And>a. no_restart (f a)"
  shows "cron_inv c'"
  using assms by (intro cron_inv_frame [OF assms(1)]) (auto simp: begin_call_def cron_inv_def split: option.splits)

text \<open>A goroutine that goes on with its entry, or gives it up, without touching the ids or the map.\<close>

lemma cron_inv_worker_frame:
  assumes "cron_inv c" and "c_workers c = us @ w # vs" and "c_IDchan c' = c_IDchan c" and "c_EntryChan c' = c_EntryChan c"
    and "c_EntriesMap c' = c_EntriesMap c" and "c_alloc c' = c_alloc c" and "c_callers c' = c_callers c" and "\<And>a. id_at c' a = id_at c a"
    and "ws = [] \<or> (\<exists>w'. ws = [w'] \<and> worker_entry w' = worker_entry w \<and> (\<forall>a. w' \<noteq> Freeing a))"
  shows "cron_inv (c'\<lparr>c_workers := us @ ws @ vs\<rparr>)"
proof (rule cron_inv_move [OF assms(1)])
  show "mset (owned (c'\<lparr>c_workers := us @ ws @ vs\<rparr>)) \<subseteq># mset (owned c)"
    using assms(9) by (auto simp: owned_def tokens_def assms(2-4,8))
  show "set (tokens (c'\<lparr>c_workers := us @ ws @ vs\<rparr>)) \<subseteq> set (tokens c)"
    using assms(9) by (auto simp: tokens_def assms(2,4))
  show "id_at c a \<notin> fst ` set (c_EntriesMap (c'\<lparr>c_workers := us @ ws @ vs\<rparr>))"
    if "Freeing a \<in> set (c_workers (c'\<lparr>c_workers := us @ ws @ vs\<rparr>))" for a
    using that assms(1,9) by (auto simp: cron_inv_def assms(2,5))
qed (use assms(1) in \<open>simp_all add: assms(3-8) cron_inv_def\<close>)

lemma cron_inv_worker:
  assumes "cron_inv c" and "c_workers c = us @ w # vs" and "worker_step w c = Some (ws, c')"
  shows "cron_inv (c'\<lparr>c_workers := us @ ws @ vs\<rparr>)"
proof -
  have inv: "set (c_IDchan c) \<inter> fst ` set (c_EntriesMap c) = {}" "distinct (map fst (c_EntriesMap c))" "\<forall>w \<in> set (c_callers c). no_restart w"
    using assms(1) by (simp_all add: cron_inv_def)
  have *: "id_at c a \<notin> fst ` set (c_EntriesMap c)" if "Freeing a \<in> set (us @ w # vs)" for a
    using assms(1,2) that by (metis cron_inv_def)
  consider (wait) a t where "w = Waiting a t" | (requeue) a where "w = Requeue a" | (free) a where "w = Freeing a"
    | (other) "\<forall>a t. w \<noteq> Waiting a t \<and> w \<noteq> Requeue a \<and> w \<noteq> Freeing a" by blast
  then show ?thesis
  proof cases
    case (wait a t)
    show ?thesis
    proof (cases "ws = [Freeing a]")
      case True
      then have c': "c' = c\<lparr>c_EntriesMap := AList.delete (id_at c a) (c_EntriesMap c)\<rparr>" using assms(3) wait by (auto split: if_splits)
      then show ?thesis using inv *
        by (intro cron_inv_move [OF assms(1)])
          (auto simp: c' True owned_def tokens_def assms(2) wait keys_delete delete_subset distinct_delete simp del: map_of_delete)
    next
      case False
      then have "c' = c" "ws = [] \<or> ws = [Woken a]" using assms(3) wait by (auto split: if_splits)
      then show ?thesis using wait by (intro cron_inv_worker_frame [OF assms(1,2)]) auto
    qed
  next
    case (requeue a)
    then have "ws = []" "c' = c\<lparr>c_EntryChan := c_EntryChan c @ [a]\<rparr>" using assms(3) by (auto split: if_splits)
    then show ?thesis using inv *
      by (intro cron_inv_move [OF assms(1)]) (auto simp: owned_def tokens_def assms(2) requeue)
  next
    case (free a)
    then have c': "ws = []" "c' = c\<lparr>c_IDchan := c_IDchan c @ [id_at c a]\<rparr>" using assms(3) by (auto split: if_splits)
    have "id_at c a \<notin> fst ` set (c_EntriesMap c)" using * free by simp
    then show ?thesis using inv *
      by (intro cron_inv_move [OF assms(1)]) (auto simp: c' owned_def tokens_def assms(2) free)
  next
    case other
    then show ?thesis using assms(3)
      by (intro cron_inv_worker_frame [OF assms(1,2)]; cases w) (auto simp: Let_def split: if_splits)
  qed
qed

lemma cron_inv_step:
  assumes "cron_step K c c'" and "cron_inv c" and "Restarts \<notin> K"
  shows "cron_inv c'"
proof -
  have callers: "no_restart w" if "w \<in> set (c_callers c)" for w using assms(2) that by (simp add: cron_inv_def)
  show ?thesis using assms(1)
  proof cases
    case (schedule sch cmd args i)
    then show ?thesis using assms(2) by (rule cron_inv_Schedule [rotated])
  next
    case (remove i r)
    show ?thesis by (rule cron_inv_begin_call [OF assms(2) remove(2)]) simp
  next
    case (pause i r)
    show ?thesis by (rule cron_inv_begin_call [OF assms(2) pause(2)]) simp
  next
    case (stop i r)
    show ?thesis by (rule cron_inv_begin_call [OF assms(2) stop(2)]) simp
  next
    case (loop us l vs ls c'')
    then show ?thesis using assms(2) cron_inv_loop by blast
  next
    case (call us w vs ws c'')
    then show ?thesis using assms(2) cron_inv_call by blast
  next
    case (worker us w vs ws c'')
    then show ?thesis using assms(2) cron_inv_worker by blast
  next
    case (checker us l vs ls c'')
    then show ?thesis using callers
      by (cases l) (auto intro!: cron_inv_frame [OF assms(2)] split: list.splits)
  next
    case (timer us m vs c'')
    then show ?thesis using callers
      by (auto intro!: cron_inv_frame [OF assms(2)] simp: fire_timer_def split: prod.splits if_splits)
  qed (use assms(2,3) callers in \<open>auto intro!: cron_inv_frame [OF assms(2)] simp: Stop_end_def Start_def\<close>)
qed

lemma cron_inv_reachable:
  assumes "(cron_step K)\<^sup>*\<^sup>* (New_Cron now) c" and "Restarts \<notin> K"
  shows "cron_inv c"
  using assms(1) by induction (auto intro: cron_inv_New cron_inv_step [OF _ _ assms(2)])

lemma owned_le:
  assumes "cron_inv c"
  shows "length (c_IDchan c) + length (c_EntryChan c) + length (c_workers c) \<le> chan_cap"
proof -
  have "card (set (owned c)) = length (owned c)" using assms by (intro distinct_card) (simp add: cron_inv_def)
  moreover have "card (set (owned c)) \<le> chan_cap"
    using assms card_mono [OF finite_id_pool] card_id_pool unfolding cron_inv_def by metis
  ultimately show ?thesis by (simp add: owned_def tokens_def)
qed

text \<open>
  C16: As long as no client calls \<open>Restart\<close>, in every interleaving of the goroutines and the calls: no
  id is at once free and in the map of entries, or twice in either; every entry is in at most one
  place, the queue or the hands of one goroutine, so its job never runs twice at a time through
  the queue; and neither \<open>Schedule\<close> nor a goroutine that returns an entry or an id ever blocks on a
  full channel.
\<close>

theorem entries_have_one_owner:
  assumes "(cron_step K)\<^sup>*\<^sup>* (New_Cron now) c" and "Restarts \<notin> K"
  shows "distinct (c_IDchan c @ map fst (c_EntriesMap c)) \<and> distinct (c_EntryChan c @ map worker_entry (c_workers c)) \<and>
    Schedule_job sch cmd args c \<noteq> Diverge \<and> {w \<in> set (c_workers c). w \<in> range Requeue \<union> range Freeing \<and> worker_step w c = None} = {}"
proof -
  have inv: "cron_inv c" using assms by (rule cron_inv_reachable)
  note le = owned_le [OF inv]
  have "distinct (c_IDchan c)" "distinct (map (id_at c) (tokens c))" using inv by (simp_all add: cron_inv_def owned_def)
  then have d: "distinct (c_IDchan c @ map fst (c_EntriesMap c))" "distinct (tokens c)"
    using inv by (auto simp: cron_inv_def distinct_map)
  have "worker_step w c \<noteq> None" if "w \<in> set (c_workers c)" "w = Requeue a \<or> w = Freeing a" for w a
  proof -
    have "length (c_workers c) \<noteq> 0" using that(1) by auto
    then have "length (c_EntryChan c) < chan_cap" "length (c_IDchan c) < chan_cap" using le by linarith+
    then show ?thesis using that(2) by auto
  qed
  then have "{w \<in> set (c_workers c). w \<in> range Requeue \<union> range Freeing \<and> worker_step w c = None} = {}" by blast
  moreover have "Schedule_job sch cmd args c \<noteq> Diverge"
    using le by (auto simp: Schedule_job_def Let_def split: list.splits)
  ultimately show ?thesis using d by (simp add: tokens_def)
qed

section \<open>Scripted runs\<close>

text \<open>A run given by its events; a goroutine or a call is named by its position.\<close>

datatype cron_event = ESchedule "int \<Rightarrow> int" nat "Extra option" | ERemove string | ERestart string | EStart
  | ECall nat | ELoop nat | EWorker nat | EClock int

definition move_at :: "'a list \<Rightarrow> nat \<Rightarrow> ('a \<Rightarrow> Cron \<Rightarrow> ('a list \<times> Cron) option) \<Rightarrow> ('a list \<Rightarrow> Cron \<Rightarrow> Cron) \<Rightarrow> Cron \<Rightarrow> Cron option" where
  "move_at ws n f upd c =
     (if n < length ws then map_option (\<lambda>(vs, c'). upd (take n ws @ vs @ drop (Suc n) ws) c') (f (ws ! n) c) else None)"

fun do_event :: "cron_event \<Rightarrow> Cron \<Rightarrow> Cron option" where
  "do_event (ESchedule sch cmd args) c = (case Schedule_job sch cmd args c of Ret (i, c') \<Rightarrow> Some c' | _ \<Rightarrow> None)"
| "do_event (ERemove i) c = Some (snd (begin_call RemoveCall i c))"
| "do_event (ERestart i) c = Some (snd (begin_call RestartCall i c))"
| "do_event EStart c = Some (Start c)"
| "do_event (ECall n) c = move_at (c_callers c) n locked_call (\<lambda>ws c'. c'\<lparr>c_callers := ws\<rparr>) c"
| "do_event (ELoop n) c = move_at (c_loops c) n run_loop (\<lambda>ws c'. c'\<lparr>c_loops := ws\<rparr>) c"
| "do_event (EWorker n) c = move_at (c_workers c) n worker_step (\<lambda>ws c'. c'\<lparr>c_workers := ws\<rparr>) c"
| "do_event (EClock t) c = (if c_now c \<le> t then Some (c\<lparr>c_now := t\<rparr>) else None)"

fun run_events :: "cron_event list \<Rightarrow> Cron \<Rightarrow> Cron option" where
  "run_events [] c = Some c"
| "run_events (e # es) c = (case do_event e c of None \<Rightarrow> None | Some c' \<Rightarrow> run_events es c')"

lemma move_at_Some:
  assumes "move_at ws n f upd c = Some c'"
  obtains us w vs rs d where "ws = us @ w # vs" "f w c = Some (rs, d)" "c' = upd (us @ rs @ vs) d"
proof -
  have n: "n < length ws" using assms by (simp add: move_at_def split: if_splits)
  then obtain rs d where "f (ws ! n) c = Some (rs, d)" "c' = upd (take n ws @ rs @ drop (Suc n) ws) d"
    using assms by (auto simp: move_at_def)
  then show thesis using that id_take_nth_drop [OF n] by blast
qed

lemma do_event_step:
  assumes "do_event e c = Some c'" and "\<And>i. e = ERestart i \<Longrightarrow> Restarts \<in> K" and "Removes \<in> K"
  shows "cron_step K c c'"
proof (cases e)
  case (ESchedule sch cmd args)
  then show ?thesis using assms(1) by (auto intro: cron_step.schedule split: outcome.splits)
next
  case (ERemove i)
  then show ?thesis using assms by (auto intro: cron_step.remove [where r = "fst (begin_call RemoveCall i c)"] simp: prod_eq_iff)
next
  case (ERestart i)
  then show ?thesis using assms by (auto intro: cron_step.restart [where r = "fst (begin_call RestartCall i c)"] simp: prod_eq_iff)
next
  case (ECall n)
  with assms(1) show ?thesis by (auto elim!: move_at_Some intro: cron_step.call)
next
  case (ELoop n)
  with assms(1) show ?thesis by (auto elim!: move_at_Some intro: cron_step.loop)
next
  case (EWorker n)
  with assms(1) show ?thesis by (auto elim!: move_at_Some intro: cron_step.worker)
qed (use assms in \<open>auto intro: cron_step.start cron_step.clock split: if_splits\<close>)

lemma run_events_steps:
  assumes "run_events es c = Some c'" and "Removes \<in> K" and "Restarts \<in> K \<or> list_all (\<lambda>e. e \<notin> range ERestart) es"
  shows "(cron_step K)\<^sup>*\<^sup>* c c'"
  using assms(1,3)
proof (induction es arbitrary: c)
  case (Cons e es)
  then obtain d where d: "do_event e c = Some d" "run_events es d = Some c'" by (auto split: option.splits)
  then have "cron_step K c d" using Cons.prems(2) assms(2) by (intro do_event_step) auto
  moreover have "(cron_step K)\<^sup>*\<^sup>* d c'" using Cons.IH [OF d(2)] Cons.prems(2) by auto
  ultimately show ?case by (rule converse_rtranclp_into_rtranclp)
qed simp

definition later_ids :: "string list" where
  "later_ids = map (\<lambda>i. Itoa (int i)) [3..<chan_cap + 1]"

lemma New_Cron_state:
  "New_Cron now = \<lparr>c_Running = False, c_IDchan = ''1'' # ''2'' # later_ids, c_EntriesMap = [], c_EntryChan = [],
     c_TimeOutChan = [], c_CheckTMout = [], c_heap = (\<lambda>_. zero_Entry), c_alloc = 0, c_loops = [], c_checkers = [],
     c_workers = [], c_timers = [], c_callers = [], c_now = now, c_started = []\<rparr>"
proof -
  have "[1..<chan_cap + 1] = 1 # [Suc 1..<chan_cap + 1]" "[Suc 1..<chan_cap + 1] = Suc 1 # [Suc (Suc 1)..<chan_cap + 1]"
    by (rule upt_conv_Cons, simp)+
  moreover have "Suc 1 = 2" "Suc 2 = 3" by simp_all
  ultimately have "[1..<chan_cap + 1] = 1 # 2 # [3..<chan_cap + 1]" by (simp only:)
  moreover have "Itoa 1 = ''1''" "Itoa 2 = ''2''" by code_simp+
  ultimately show ?thesis by (simp only: New_Cron_def later_ids_def list.map of_nat_1 of_nat_numeral)
qed

lemma length_later_ids [simp]: "length later_ids = 10238"
  by (simp only: later_ids_def length_map length_upt)

definition every_minute :: "int \<Rightarrow> int" where
  "every_minute t = t + 60 * time_Second"

text \<open>Two entries, and the goroutine of the first one sleeping until its time.\<close>

definition first_waits :: "cron_event list" where
  "first_waits = [ESchedule every_minute 0 None, ESchedule every_minute 0 None, EStart, ELoop 0, ELoop 0, EWorker 0, EWorker 0, EWorker 0]"

text \<open>\<open>Restart\<close> of that entry, and a second goroutine that sleeps with it.\<close>

definition restarted :: "cron_event list" where
  "restarted = [ERestart ''1'', ECall 0, ECall 0, ELoop 0, ELoop 0, EWorker 1, ELoop 0, ELoop 0, EWorker 2, EWorker 2, EWorker 2]"

lemmas run_simps = New_Cron_state Schedule_job_def new_Entry_def first_Next_def begin_call_def move_at_def Start_def restart_entry_def
  set_Status_def new_Extra_def unix_def Let_def every_minute_def i64_def

text \<open>
  A \<open>Restart\<close> of an entry whose goroutine is still waiting doubles the entry. From then on two
  goroutines serve it: the job is started twice for one due time, although the entry is scheduled
  once; and when the entry is removed its id is given back twice, so that two later entries
  receive the same id.
\<close>

theorem restart_doubles_entry:
  "\<exists>c d. (cron_step UNIV)\<^sup>*\<^sup>* (New_Cron 0) c \<and> c_now c = 60 * time_Second \<and> c_started c = [0, 0] \<and>
     (cron_step UNIV)\<^sup>*\<^sup>* (New_Cron 0) d \<and> \<not> distinct (c_IDchan d)"
proof -
  let ?twice = "first_waits @ restarted @ [EClock (60 * time_Second), EWorker 0, EWorker 2, EWorker 0, EWorker 0, EWorker 0, EWorker 0, EWorker 2, EWorker 2]"
  let ?freed = "first_waits @ restarted @ [ERemove ''1'', ECall 0, EClock (60 * time_Second), EWorker 0, EWorker 2, EWorker 0, EWorker 1]"
  have "\<exists>c. run_events ?twice (New_Cron 0) = Some c \<and> c_now c = 60 * time_Second \<and> c_started c = [0, 0]"
    by (simp add: first_waits_def restarted_def run_simps)
  moreover have "\<exists>d. run_events ?freed (New_Cron 0) = Some d \<and> \<not> distinct (c_IDchan d)"
    by (simp add: first_waits_def restarted_def run_simps)
  ultimately show ?thesis using run_events_steps [of _ "New_Cron 0" _ UNIV] by blast
qed

section \<open>A removed entry can stay for ever\<close>

text \<open>The ids that can still be given to an entry only become fewer.\<close>

lemma owned_shrinks:
  assumes "cron_step K c c'" and "cron_inv c" and "Restarts \<notin> K"
  shows "set (owned c') \<subseteq> set (owned c)"
  using assms(1)
proof cases
  case (schedule sch cmd args i)
  have "c_alloc c \<notin> set (tokens c)" using assms(2) by (auto simp: cron_inv_def)
  with schedule show ?thesis
    by (auto simp: Schedule_job_def Let_def new_Entry_def owned_def tokens_def split: list.splits if_splits)
next
  case (call us w vs ws c'')
  then have "no_restart w" using assms(2) by (simp add: cron_inv_def)
  with call show ?thesis by (cases w) (auto simp: owned_def tokens_def set_Status_def split: if_splits)
next
  case (loop us l vs ls c'')
  then show ?thesis by (cases l) (auto simp: owned_def tokens_def split: list.splits)
next
  case (checker us l vs ls c'')
  then show ?thesis by (cases l) (auto simp: owned_def tokens_def split: list.splits)
next
  case (timer us m vs c'')
  then show ?thesis by (auto simp: owned_def tokens_def fire_timer_def split: prod.splits if_splits)
next
  case (worker us w vs ws c'')
  then show ?thesis by (cases w) (auto simp: owned_def tokens_def Let_def split: if_splits)
qed (use assms(3) in \<open>auto simp: owned_def tokens_def begin_call_def Stop_end_def Start_def split: option.splits\<close>)

definition lost :: "string \<Rightarrow> nat \<Rightarrow> Cron \<Rightarrow> bool" where
  "lost k a c \<longleftrightarrow> cron_inv c \<and> k \<notin> set (owned c) \<and> (k, a) \<in> set (c_EntriesMap c) \<and>
     (\<forall>i b. Unmap i \<notin> set (c_callers c) \<and> StopCall i b \<notin> set (c_callers c))"

lemma lost_step:
  assumes "cron_step K c c'" and "lost k a c" and "Restarts \<notin> K" and "Stops \<notin> K"
  shows "lost k a c'"
proof -
  have inv: "cron_inv c" and k: "k \<notin> set (owned c)" "(k, a) \<in> set (c_EntriesMap c)"
    and stops: "\<And>i b. Unmap i \<notin> set (c_callers c)" "\<And>i b. StopCall i b \<notin> set (c_callers c)" using assms(2) by (auto simp: lost_def)
  have "(k, a) \<in> set (c_EntriesMap c') \<and> (\<forall>i b. Unmap i \<notin> set (c_callers c') \<and> StopCall i b \<notin> set (c_callers c'))"
    using assms(1)
  proof cases
    case (schedule sch cmd args i)
    then have "AList.update i' a' (c_EntriesMap c) = c_EntriesMap c @ [(i', a')]" if "i' \<in> set (c_IDchan c)" for i' a'
      using inv that by (intro set_update_fresh) (auto simp: cron_inv_def)
    with schedule k stops show ?thesis by (auto simp: Schedule_job_def Let_def split: list.splits if_splits)
  next
    case (call us w vs ws c'')
    with k stops show ?thesis by (cases w) (auto simp: inv cron_inv_def split: if_splits)
  next
    case (loop us l vs ls c'')
    with k stops show ?thesis by (cases l) (auto split: list.splits)
  next
    case (checker us l vs ls c'')
    with k stops show ?thesis by (cases l) (auto split: list.splits)
  next
    case (timer us m vs c'')
    with k stops show ?thesis by (auto simp: fire_timer_def split: prod.splits if_splits)
  next
    case (worker us w vs ws c'')
    then have "id_at c (worker_entry w) \<noteq> k" using k by (auto simp: owned_def tokens_def)
    with worker k stops show ?thesis by (cases w) (auto simp: Let_def set_delete_map split: if_splits)
  qed (use k stops assms(3,4) in \<open>auto simp: begin_call_def Stop_end_def Start_def split: option.splits\<close>)
  then show ?thesis
    using cron_inv_step [OF assms(1) inv assms(3)] owned_shrinks [OF assms(1) inv assms(3)] k(1) by (auto simp: lost_def)
qed

lemma lost_reachable:
  assumes "(cron_step K)\<^sup>*\<^sup>* c d" and "lost k a c" and "Restarts \<notin> K" and "Stops \<notin> K"
  shows "lost k a d"
  using assms(1,2) by induction (auto intro: lost_step [OF _ _ assms(3,4)])

lemma lost_facts:
  assumes "lost k a c"
  shows "Entry_of k c = Inr a" and "k \<notin> set (c_IDchan c)"
  using assms by (auto simp: lost_def cron_inv_def owned_def Entry_of_def)

text \<open>
  \<open>RemoveEntry\<close> of an entry whose job has just run and that waits in the queue reports success,
  but the goroutine that takes the marked entry from the queue only looks for \<open>IDLE\<close> and drops it:
  the entry stays in the map and its id never returns to the pool, whatever else happens short of
  \<open>Restart\<close> and \<open>Stop\<close>.
\<close>

theorem removed_entry_stays:
  "\<exists>c. (cron_step {Removes})\<^sup>*\<^sup>* (New_Cron 0) c \<and> e_Status (c_heap c 0) = ''REMOVE'' \<and> c_callers c = [] \<and>
     {d. (cron_step {Removes, Pauses})\<^sup>*\<^sup>* c d \<and> Entry_of ''1'' d \<noteq> Inr 0} = {} \<and>
     {d. (cron_step {Removes, Pauses})\<^sup>*\<^sup>* c d \<and> ''1'' \<in> set (c_IDchan d)} = {}"
proof -
  let ?es = "first_waits @ [EClock (60 * time_Second), EWorker 0, EWorker 0, EWorker 0, EWorker 0, EWorker 0, EWorker 0,
    ERemove ''1'', ECall 0, ELoop 0, ELoop 0, ELoop 0, ELoop 0, EWorker 1]"
  obtain c where c: "run_events ?es (New_Cron 0) = Some c" "e_Status (c_heap c 0) = ''REMOVE''" "c_callers c = []"
    "c_EntriesMap c = [(''1'', 0), (''2'', 1)]" "c_IDchan c = later_ids" "c_EntryChan c = []" "c_workers c = [Got 1]" "id_at c 1 = ''2''"
    by (simp add: first_waits_def run_simps)
  have steps: "(cron_step {Removes})\<^sup>*\<^sup>* (New_Cron 0) c" by (rule run_events_steps [OF c(1)]) (auto simp: first_waits_def)
  then have inv: "cron_inv c" by (rule cron_inv_reachable) simp
  then have "''1'' \<notin> set later_ids" using c(4,5) by (auto simp: cron_inv_def)
  then have "lost ''1'' 0 c" using inv c(3-) by (simp add: lost_def owned_def tokens_def)
  then have "lost ''1'' 0 d" if "(cron_step {Removes, Pauses})\<^sup>*\<^sup>* c d" for d using that by (auto intro: lost_reachable)
  then have "{d. (cron_step {Removes, Pauses})\<^sup>*\<^sup>* c d \<and> Entry_of ''1'' d \<noteq> Inr 0} = {} \<and>
     {d. (cron_step {Removes, Pauses})\<^sup>*\<^sup>* c d \<and> ''1'' \<in> set (c_IDchan d)} = {}"
    using lost_facts by blast
  with steps c(2,3) show ?thesis by blast
qed

theorem entries_have_one_owner_witness:
  "\<exists>c. (cron_step {Removes})\<^sup>*\<^sup>* (New_Cron 0) c \<and> map fst (c_EntriesMap c) = [''1'', ''2''] \<and> ''2'' \<notin> set (c_IDchan c) \<and>
     c_workers c = [Waiting 0 (60 * time_Second)] \<and> c_EntryChan c = [1] \<and> Schedule_job every_minute 7 None c \<noteq> Diverge"
proof -
  obtain c where c: "run_events first_waits (New_Cron 0) = Some c" "map fst (c_EntriesMap c) = [''1'', ''2'']"
    "c_workers c = [Waiting 0 (60 * time_Second)]" "c_EntryChan c = [1]"
    by (simp add: first_waits_def run_simps)
  have "(cron_step {Removes})\<^sup>*\<^sup>* (New_Cron 0) c" by (rule run_events_steps [OF c(1)]) (auto simp: first_waits_def)
  with c entries_have_one_owner [OF this, of every_minute 7 None] show ?thesis by auto
qed

text \<open>The counting loop of \<open>Schedule\<close> stops at the first multiple.\<close>

lemma align_first_multiple:
  assumes "0 < d"
  shows "t \<le> align d t \<and> d dvd align d t \<and> align d t < t + d"
proof -
  have eq: "align d t = t + (- t) mod d"
    using assms
  proof (induction d t rule: align.induct)
    case (1 d t)
    show ?case
    proof (cases "t mod d = 0")
      case True
      then show ?thesis by (simp add: zmod_zminus1_eq_if)
    next
      case False
      then have "align d t = t + 1 + (- (t + 1)) mod d" using 1 by simp
      moreover have "(- (t + 1)) mod d = (- t) mod d - 1"
      proof -
        have "0 \<le> (- t) mod d" "(- t) mod d < d" using 1 by auto
        moreover have "(- t) mod d \<noteq> 0" using False by (simp add: zmod_zminus1_eq_if split: if_splits)
             (metis "1.prems" less_irrefl pos_mod_bound)
        ultimately have "((- t) mod d - 1) mod d = (- t) mod d - 1" by (intro mod_pos_pos_trivial) linarith+
        then show ?thesis by (simp add: mod_diff_left_eq)
      qed
      ultimately show ?thesis by simp
    qed
  qed
  have "d dvd t + (- t) mod d" by (simp add: dvd_eq_mod_eq_0 mod_add_right_eq)
  with eq assms show ?thesis by simp
qed

end
