(* ===== verification/Raft_Client.thy ===== *)
theory Raft_Client
  imports Raft_Server Go_Strings
begin

text \<open>
  The calls of a client on a node (\<open>raft/raft.go\<close>: \<open>Apply\<close>, \<open>Barrier\<close>,
  \<open>VerifyLeader\<close>, \<open>AddPeer\<close>, \<open>RemovePeer\<close>, \<open>SetPeers\<close>, \<open>Snapshot\<close> and the
  readers of the state). A call sends a future to a goroutine of the node, or gives up. The
  number \<open>ch\<close> stands for the channel that \<open>init\<close> makes for the future.
\<close>

section \<open>Sending a future\<close>

text \<open>
  The case that \<open>select\<close> takes: the timer, the closed \<open>shutdownCh\<close>, or the send. A timer
  case exists only with a positive timeout (a nil channel never fires) and the shutdown case only
  when the node was shut down; \<open>None\<close> says that the chosen case cannot be taken.
\<close>

datatype selected = Sel_timer | Sel_shutdown | Sel_sent

definition select_send :: "int \<Rightarrow> bool \<Rightarrow> selected \<Rightarrow> raft_error option option" where
  "select_send timeout down sel =
     (case sel of
        Sel_timer \<Rightarrow> if timeout > 0 then Some (Some ErrEnqueueTimeout) else None
      | Sel_shutdown \<Rightarrow> if down then Some (Some ErrRaftShutdown) else None
      | Sel_sent \<Rightarrow> Some None)"

text \<open>
  The future that the call returns: \<open>Inl\<close> an \<open>errorFuture\<close>, \<open>Inr\<close> the event that the
  node's goroutine receives.
\<close>

definition log_call ::
  "LogType \<Rightarrow> bytes \<Rightarrow> string \<Rightarrow> nat \<Rightarrow> int \<Rightarrow> selected \<Rightarrow> ('ls, 'ss, 'sn, 'ps) Raft \<Rightarrow> (raft_error + event) option" where
  "log_call ty data peer ch timeout sel r =
     (case select_send timeout (r_shutdown r) sel of
        None \<Rightarrow> None
      | Some (Some err) \<Rightarrow> Some (Inl err)
      | Some None \<Rightarrow> Some (Inr (Ev_apply [\<lparr>fut_errCh = Some ch,
          fut_log = \<lparr>log_Index = 0, log_Term = 0, log_Type = ty, log_Data = data, log_peer = peer\<rparr>,
          fut_policy = None\<rparr>])))"

definition Raft_Apply ::
  "bytes \<Rightarrow> int \<Rightarrow> nat \<Rightarrow> selected \<Rightarrow> ('ls, 'ss, 'sn, 'ps) Raft \<Rightarrow> (raft_error + event) option" where
  "Raft_Apply cmd timeout ch sel r = log_call LogCommand cmd [] ch timeout sel r"

definition Raft_Barrier ::
  "int \<Rightarrow> nat \<Rightarrow> selected \<Rightarrow> ('ls, 'ss, 'sn, 'ps) Raft \<Rightarrow> (raft_error + event) option" where
  "Raft_Barrier timeout ch sel r = log_call LogBarrier [] [] ch timeout sel r"

definition Raft_AddPeer ::
  "string \<Rightarrow> nat \<Rightarrow> selected \<Rightarrow> ('ls, 'ss, 'sn, 'ps) Raft \<Rightarrow> (raft_error + event) option" where
  "Raft_AddPeer peer ch sel r = log_call LogAddPeer [] peer ch 0 sel r"

definition Raft_RemovePeer ::
  "string \<Rightarrow> nat \<Rightarrow> selected \<Rightarrow> ('ls, 'ss, 'sn, 'ps) Raft \<Rightarrow> (raft_error + event) option" where
  "Raft_RemovePeer peer ch sel r = log_call LogRemovePeer [] peer ch 0 sel r"

definition Raft_VerifyLeader ::
  "nat \<Rightarrow> selected \<Rightarrow> ('ls, 'ss, 'sn, 'ps) Raft \<Rightarrow> (raft_error + event) option" where
  "Raft_VerifyLeader ch sel r =
     (case select_send 0 (r_shutdown r) sel of
        None \<Rightarrow> None
      | Some (Some err) \<Rightarrow> Some (Inl err)
      | Some None \<Rightarrow> Some (Inr (Ev_verify ch)))"

definition Raft_SetPeers ::
  "string list \<Rightarrow> nat \<Rightarrow> selected \<Rightarrow> ('ls, 'ss, 'sn, 'ps) Raft \<Rightarrow> (raft_error + event) option" where
  "Raft_SetPeers p ch sel r =
     (case select_send 0 (r_shutdown r) sel of
        None \<Rightarrow> None
      | Some (Some err) \<Rightarrow> Some (Inl err)
      | Some None \<Rightarrow> Some (Inr (Ev_peers ch p)))"

text \<open>\<open>Snapshot\<close> sends to the goroutine of \<open>runSnapshots\<close>, which answers the future with the result of \<open>takeSnapshot\<close>.\<close>

definition Raft_Snapshot_call ::
  "('ls, 'ss, 'sn, 'ps) env \<Rightarrow> ('fs, 'fp, 'sn) FSM \<Rightarrow> nat \<Rightarrow> selected \<Rightarrow> ('ls, 'ss, 'sn, 'ps) Raft \<Rightarrow> 'fs fsmThread \<Rightarrow>
   (raft_error + ('ls, 'ss, 'sn, 'ps) Raft outcome) option" where
  "Raft_Snapshot_call E F ch sel r t =
     (case select_send 0 (r_shutdown r) sel of
        None \<Rightarrow> None
      | Some (Some err) \<Rightarrow> Some (Inl err)
      | Some None \<Rightarrow> Some (Inr (obind (takeSnapshot E F r t) (\<lambda>(r1, err). Ret (answer (Some ch) err r1)))))"

section \<open>Reading the state\<close>

definition Raft_Leader :: "('ls, 'ss, 'sn, 'ps) Raft \<Rightarrow> string" where
  "Raft_Leader r = r_leader r"

definition Raft_State :: "('ls, 'ss, 'sn, 'ps) Raft \<Rightarrow> RaftState" where
  "Raft_State r = r_state r"

definition Raft_LastContact :: "('ls, 'ss, 'sn, 'ps) Raft \<Rightarrow> int" where
  "Raft_LastContact r = r_lastContact r"

definition Raft_LastIndex :: "('ls, 'ss, 'sn, 'ps) Raft \<Rightarrow> uint64" where
  "Raft_LastIndex r = getLastIndex r"

definition Raft_AppliedIndex :: "('ls, 'ss, 'sn, 'ps) Raft \<Rightarrow> uint64" where
  "Raft_AppliedIndex r = r_lastApplied r"

fun RaftState_String :: "RaftState \<Rightarrow> string" where
  "RaftState_String Follower = ''Follower''"
| "RaftState_String Candidate = ''Candidate''"
| "RaftState_String Leader = ''Leader''"
| "RaftState_String Shutdown = ''Shutdown''"

text \<open>\<open>Stats\<close>; the zero time of the last contact is 0, and \<open>show_duration\<close> prints a duration.\<close>

definition Raft_Stats :: "(int \<Rightarrow> string) \<Rightarrow> int \<Rightarrow> ('ls, 'ss, 'sn, 'ps) Raft \<Rightarrow> (string \<times> string) list" where
  "Raft_Stats show_duration now r =
     (let toString = (\<lambda>v :: uint64. digits10 (unat v))
      in [(''state'', RaftState_String (r_state r)),
          (''term'', toString (r_currentTerm r)),
          (''last_log_index'', toString (r_lastLogIndex r)),
          (''last_log_term'', toString (r_lastLogTerm r)),
          (''commit_index'', toString (r_commitIndex r)),
          (''applied_index'', toString (r_lastApplied r)),
          (''fsm_pending'', toString (of_nat (length (r_fsmCommitCh r)))),
          (''last_snapshot_index'', toString (r_lastSnapshotIndex r)),
          (''last_snapshot_term'', toString (r_lastSnapshotTerm r)),
          (''num_peers'', toString (of_nat (length (r_peers r)))),
          (''last_contact'',
             if r_lastContact r = 0 then ''never''
             else if r_state r = Leader then ''0''
             else show_duration (now - r_lastContact r))])"

section \<open>What a call gives\<close>

lemma log_call_sent:
  "log_call ty data peer ch timeout sel r = Some (Inr ev) \<longleftrightarrow>
   sel = Sel_sent \<and> ev = Ev_apply [\<lparr>fut_errCh = Some ch,
     fut_log = \<lparr>log_Index = 0, log_Term = 0, log_Type = ty, log_Data = data, log_peer = peer\<rparr>, fut_policy = None\<rparr>]"
  by (auto simp: log_call_def select_send_def split: selected.splits)

lemma log_call_gave_up:
  "log_call ty data peer ch timeout sel r = Some (Inl err) \<Longrightarrow>
   err = ErrEnqueueTimeout \<and> 0 < timeout \<or> err = ErrRaftShutdown \<and> r_shutdown r"
  by (auto simp: log_call_def select_send_def split: selected.splits if_splits)

text \<open>A follower answers a command it is sent with \<open>ErrNotLeader\<close> and changes nothing else.\<close>

lemma follower_rejects_command:
  assumes "Raft_Apply cmd timeout ch sel r = Some (Inr ev)"
  shows "follower_step E F now ev r t = Ret (answer (Some ch) (Some ErrNotLeader) r, t, None, False)"
  using assms by (simp add: Raft_Apply_def log_call_sent follower_step_def reject_all_def answer_def)

end
