(* ===== verification/Kv_Store.thy ===== *)
theory Kv_Store
  imports Raft_Client
begin

text \<open>
  The replicated key-value store of the framework (\<open>raft.go\<close> of the root package): the state
  machine \<open>raftFSM\<close> that the Raft node drives, and the client calls of \<open>raftStore\<close> with the
  forwarding of writes to the leader. What \<open>encoding/gob\<close> and the SSH connection do is an
  argument of the definitions.
\<close>

section \<open>Commands and their encoding\<close>

record sshCommand =
  c_Cmd :: string
  c_Key :: string
  c_Value :: bytes

definition raftCmdWrite :: string where "raftCmdWrite = ''WRITE''"
definition raftCmdDelete :: string where "raftCmdDelete = ''DELETE''"

text \<open>
  The encoder and the decoder of \<open>gob\<close> for a command and for the map of a snapshot, as the
  code uses them (one value per buffer).
\<close>

record gob =
  g_encode :: "sshCommand \<Rightarrow> raft_error + bytes"
  g_decode :: "bytes \<Rightarrow> raft_error + sshCommand"
  g_encode_map :: "(string \<times> bytes) list \<Rightarrow> raft_error + bytes"
  g_decode_map :: "bytes \<Rightarrow> raft_error + (string \<times> bytes) list"

definition sshSerializeCommand :: "gob \<Rightarrow> sshCommand \<Rightarrow> raft_error + bytes" where
  "sshSerializeCommand G c = g_encode G c"

definition sshDeserializeCommand :: "gob \<Rightarrow> bytes \<Rightarrow> raft_error + sshCommand" where
  "sshDeserializeCommand G sc =
     (if length sc < 1 then Inl (ErrOther ''Zero length serialization passed'') else g_decode G sc)"

section \<open>The state machine\<close>

text \<open>The fields that are data; the connections, the log store and the node are kept beside it.\<close>

record raftStore =
  kv_Bind :: string
  kv_Data :: string
  kv_File :: string
  kv_store :: "(string \<times> bytes) list"
  kv_opened :: bool

definition newRaftStore :: "string \<Rightarrow> string \<Rightarrow> raftStore" where
  "newRaftStore dir bind = \<lparr>kv_Bind = bind, kv_Data = dir, kv_File = ''raft.db'', kv_store = [], kv_opened = False\<rparr>"

definition applyWrite :: "string \<Rightarrow> bytes \<Rightarrow> raftStore \<Rightarrow> raftStore" where
  "applyWrite key value f = f\<lparr>kv_store := AList.update key value (kv_store f)\<rparr>"

definition applyDelete :: "string \<Rightarrow> raftStore \<Rightarrow> raftStore" where
  "applyDelete key f = f\<lparr>kv_store := AList.delete key (kv_store f)\<rparr>"

text \<open>A command that does not decode is only logged; the nil pointer is then dereferenced.\<close>

definition raftFSM_Apply :: "gob \<Rightarrow> Log \<Rightarrow> raftStore \<Rightarrow> raftStore outcome" where
  "raftFSM_Apply G l f =
     (case sshDeserializeCommand G (log_Data l) of
        Inl err \<Rightarrow> Panic ''invalid memory address or nil pointer dereference''
      | Inr dsc \<Rightarrow>
          if c_Cmd dsc = raftCmdWrite then Ret (applyWrite (c_Key dsc) (c_Value dsc) f)
          else if c_Cmd dsc = raftCmdDelete then Ret (applyDelete (c_Key dsc) f)
          else Ret f)"

definition raftFSM_Snapshot :: "raftStore \<Rightarrow> raft_error + (string \<times> bytes) list" where
  "raftFSM_Snapshot f = Inr (kv_store f)"

definition raftFSM_Restore :: "gob \<Rightarrow> bytes \<Rightarrow> raftStore \<Rightarrow> raftStore \<times> raft_error option" where
  "raftFSM_Restore G rc f =
     (case g_decode_map G rc of
        Inl err \<Rightarrow> (f, Some err)
      | Inr ob \<Rightarrow> (f\<lparr>kv_store := ob\<rparr>, None))"

text \<open>A writer that reports no error has written all bytes, so the test for a short write never holds.\<close>

definition raftSnapshot_Persist ::
  "gob \<Rightarrow> 'sn SnapshotStore \<Rightarrow> (string \<times> bytes) list \<Rightarrow> 'sn \<Rightarrow> string \<Rightarrow> 'sn \<times> raft_error option" where
  "raftSnapshot_Persist G S snap sn sink =
     (case g_encode_map G snap of
        Inl err \<Rightarrow> (sn_Cancel S sn sink, Some err)
      | Inr buf \<Rightarrow>
          (case sn_Write S sn sink buf of
             (sn1, Some err) \<Rightarrow> (sn_Cancel S sn1 sink, Some err)
           | (sn1, None) \<Rightarrow>
               (case sn_Close S sn1 sink of
                  (sn2, Some err) \<Rightarrow> (sn_Cancel S sn2 sink, Some err)
                | (sn2, None) \<Rightarrow> (sn2, None))))"

text \<open>
  The state machine as the node's goroutine runs it. A panic in \<open>Apply\<close> ends the process: the
  state is then the panic, and later calls do not happen.
\<close>

definition raftFSM :: "gob \<Rightarrow> 'sn SnapshotStore \<Rightarrow> (raftStore outcome, (string \<times> bytes) list, 'sn) FSM" where
  "raftFSM G S =
     \<lparr>fsm_Apply = \<lambda>f l. (obind f (raftFSM_Apply G l), []),
      fsm_Snapshot = \<lambda>f. (case f of Ret s \<Rightarrow> raftFSM_Snapshot s | _ \<Rightarrow> Inl (ErrOther ''stopped'')),
      fsm_Restore = \<lambda>f b. (case f of Ret s \<Rightarrow> (case raftFSM_Restore G b s of (s', err) \<Rightarrow> (Ret s', err))
                          | _ \<Rightarrow> (f, Some (ErrOther ''stopped''))),
      fsm_Persist = raftSnapshot_Persist G S\<rparr>"

section \<open>Client calls\<close>

datatype kv_error = raftErrorShutdown | raftErrorAlreadyOpened | raftErrorKeyNotFound | RaftError raft_error | NetError string

definition checkState :: "('ls, 'ss, 'sn, 'ps) Raft \<Rightarrow> kv_error option" where
  "checkState r = (if Raft_State r = Shutdown then Some raftErrorShutdown else None)"

definition kv_Read :: "('ls, 'ss, 'sn, 'ps) Raft \<Rightarrow> string \<Rightarrow> raftStore \<Rightarrow> bytes \<times> kv_error option" where
  "kv_Read r key s =
     (case checkState r of
        Some err \<Rightarrow> ([], Some err)
      | None \<Rightarrow> (case map_of (kv_store s) key of
                  Some val \<Rightarrow> (val, None)
                | None \<Rightarrow> ([], Some raftErrorKeyNotFound)))"

text \<open>
  A request over the SSH connection to another node: dialling or sending fails, or the other
  side replies. \<open>leaderRequest\<close>, \<open>leaderJoin\<close> and \<open>Join\<close> return \<open>err\<close> also when the
  reply is false, and \<open>err\<close> is nil there.
\<close>

datatype exchange = DialFailed string | SendFailed string | Replied bool

definition leaderRequest :: "gob \<Rightarrow> ('ls, 'ss, 'sn, 'ps) Raft \<Rightarrow> sshCommand \<Rightarrow> exchange \<Rightarrow> kv_error option" where
  "leaderRequest G r c x =
     (case checkState r of
        Some err \<Rightarrow> Some err
      | None \<Rightarrow>
          (case x of
             DialFailed e \<Rightarrow> Some (NetError e)
           | _ \<Rightarrow>
               (case sshSerializeCommand G c of
                  Inl err \<Rightarrow> Some (RaftError err)
                | Inr sc \<Rightarrow> (case x of SendFailed e \<Rightarrow> Some (NetError e) | _ \<Rightarrow> None))))"

definition join_request :: "('ls, 'ss, 'sn, 'ps) Raft \<Rightarrow> exchange \<Rightarrow> kv_error option" where
  "join_request r x =
     (case checkState r of
        Some err \<Rightarrow> Some err
      | None \<Rightarrow>
          (case x of
             DialFailed e \<Rightarrow> Some (NetError e)
           | SendFailed e \<Rightarrow> Some (NetError e)
           | Replied ok \<Rightarrow> None))"

text \<open>
  \<open>s.raft.Apply\<close> and \<open>f.Error()\<close>: the case of the call, and the answer of the future when
  the command was sent. Neither future is an \<open>error\<close> (its method has another type), so the
  type assertion never holds. \<open>None\<close>: the call cannot return this way.
\<close>

definition raftTimeout :: int where "raftTimeout = 10 * Second"

definition apply_and_wait ::
  "bytes \<Rightarrow> ('ls, 'ss, 'sn, 'ps) Raft \<Rightarrow> nat \<Rightarrow> selected \<Rightarrow> raft_error option \<Rightarrow> kv_error option option" where
  "apply_and_wait sc r ch sel ans =
     (case Raft_Apply sc raftTimeout ch sel r of
        None \<Rightarrow> None
      | Some (Inl err) \<Rightarrow> Some (Some (RaftError err))
      | Some (Inr ev) \<Rightarrow> Some (map_option RaftError ans))"

definition submit ::
  "gob \<Rightarrow> ('ls, 'ss, 'sn, 'ps) Raft \<Rightarrow> sshCommand \<Rightarrow> exchange \<Rightarrow> nat \<Rightarrow> selected \<Rightarrow> raft_error option \<Rightarrow> kv_error option option" where
  "submit G r c x ch sel ans =
     (case checkState r of
        Some err \<Rightarrow> Some (Some err)
      | None \<Rightarrow>
          if Raft_State r \<noteq> Leader then Some (leaderRequest G r c x)
          else (case sshSerializeCommand G c of
                  Inl err \<Rightarrow> Some (Some (RaftError err))
                | Inr sc \<Rightarrow> apply_and_wait sc r ch sel ans))"

definition kv_Write ::
  "gob \<Rightarrow> ('ls, 'ss, 'sn, 'ps) Raft \<Rightarrow> string \<Rightarrow> bytes \<Rightarrow> exchange \<Rightarrow> nat \<Rightarrow> selected \<Rightarrow> raft_error option \<Rightarrow> kv_error option option" where
  "kv_Write G r key value x ch sel ans =
     submit G r \<lparr>c_Cmd = raftCmdWrite, c_Key = key, c_Value = value\<rparr> x ch sel ans"

definition kv_Delete ::
  "gob \<Rightarrow> ('ls, 'ss, 'sn, 'ps) Raft \<Rightarrow> string \<Rightarrow> exchange \<Rightarrow> nat \<Rightarrow> selected \<Rightarrow> raft_error option \<Rightarrow> kv_error option option" where
  "kv_Delete G r key x ch sel ans =
     submit G r \<lparr>c_Cmd = raftCmdDelete, c_Key = key, c_Value = []\<rparr> x ch sel ans"

section \<open>Requests of other nodes\<close>

text \<open>
  The goroutine of \<open>Open\<close> that serves forwarded commands: the value sent on \<open>ReturnChan\<close>.
  The command is nil when its payload did not decode (\<open>handleRequests\<close> replies and goes on);
  a leader panics when it encodes the nil pointer, another node at the latest when it logs the
  command.
\<close>

definition serve_command ::
  "gob \<Rightarrow> ('ls, 'ss, 'sn, 'ps) Raft \<Rightarrow> sshCommand option \<Rightarrow> exchange \<Rightarrow> nat \<Rightarrow> selected \<Rightarrow> raft_error option \<Rightarrow> bool outcome option" where
  "serve_command G r cmd x ch sel ans =
     (case cmd of
        None \<Rightarrow> Some (Panic ''nil command'')
      | Some c \<Rightarrow>
          if Raft_State r \<noteq> Leader then Some (Ret (leaderRequest G r c x = None))
          else (case sshSerializeCommand G c of
                  Inl err \<Rightarrow> Some (Ret False)
                | Inr sc \<Rightarrow> map_option (\<lambda>err. Ret (err = None)) (apply_and_wait sc r ch sel ans)))"

text \<open>The goroutine that serves join requests.\<close>

definition join_peer :: "string \<Rightarrow> ('ls, 'ss, 'sn, 'ps) Raft \<Rightarrow> nat \<Rightarrow> selected \<Rightarrow> raft_error option \<Rightarrow> kv_error option option" where
  "join_peer addr r ch sel ans =
     (case Raft_AddPeer addr ch sel r of
        None \<Rightarrow> None
      | Some (Inl err) \<Rightarrow> Some (Some (RaftError err))
      | Some (Inr ev) \<Rightarrow> Some (map_option RaftError ans))"

definition serve_join ::
  "('ls, 'ss, 'sn, 'ps) Raft \<Rightarrow> string \<Rightarrow> exchange \<Rightarrow> nat \<Rightarrow> selected \<Rightarrow> raft_error option \<Rightarrow> bool option" where
  "serve_join r addr x ch sel ans =
     (if Raft_State r \<noteq> Leader then Some (join_request r x = None)
      else map_option (\<lambda>err. err = None) (join_peer addr r ch sel ans))"

text \<open>The configuration that \<open>Open\<close> gives the node.\<close>

definition open_config :: "string list \<Rightarrow> string \<Rightarrow> Config" where
  "open_config peers join =
     (if \<not> (length peers \<le> 1 \<and> join \<noteq> []) then DefaultConfig\<lparr>EnableSingleNode := True, DisableBootstrapAfterElect := False\<rparr>
      else DefaultConfig)"

section \<open>The store is a map\<close>

text \<open>The specification: what a command does to a map.\<close>

definition kv_step :: "(string \<rightharpoonup> bytes) \<Rightarrow> sshCommand \<Rightarrow> (string \<rightharpoonup> bytes)" where
  "kv_step m c =
     (if c_Cmd c = raftCmdWrite then m(c_Key c \<mapsto> c_Value c)
      else if c_Cmd c = raftCmdDelete then m(c_Key c := None)
      else m)"

definition kv_abs :: "raftStore \<Rightarrow> (string \<rightharpoonup> bytes)" where
  "kv_abs s = map_of (kv_store s)"

text \<open>What the code relies on of \<open>gob\<close>: a value that was encoded decodes to itself.\<close>

definition gob_ok :: "gob \<Rightarrow> bool" where
  "gob_ok G \<longleftrightarrow>
     (\<forall>c. \<exists>b. g_encode G c = Inr b \<and> b \<noteq> [] \<and> g_decode G b = Inr c) \<and>
     (\<forall>m. \<exists>b m'. g_encode_map G m = Inr b \<and> g_decode_map G b = Inr m' \<and> map_of m' = map_of m)"

lemma deserialize_serialize: "gob_ok G \<Longrightarrow> sshSerializeCommand G c = Inr b \<Longrightarrow> sshDeserializeCommand G b = Inr c"
  by (auto simp: gob_ok_def sshSerializeCommand_def sshDeserializeCommand_def Suc_le_eq dest!: spec [of _ c])

lemma raftFSM_Apply_refines:
  assumes "gob_ok G" and "sshSerializeCommand G c = Inr (log_Data l)"
  shows "\<exists>s'. raftFSM_Apply G l s = Ret s' \<and> kv_abs s' = kv_step (kv_abs s) c"
  using deserialize_serialize [OF assms]
  by (auto simp: raftFSM_Apply_def kv_step_def kv_abs_def applyWrite_def applyDelete_def update_conv' delete_conv')

lemma fsm_drain_kv:
  assumes "gob_ok G"
    and "list_all2 (\<lambda>l c. sshSerializeCommand G c = Inr (log_Data l)) (filter (\<lambda>l. log_Type l = LogCommand) (map fst es)) cmds"
    and "ft_fsm t = Ret s"
  shows "\<exists>s'. ft_fsm (snd (fsm_drain (raftFSM G S) es r t)) = Ret s' \<and> kv_abs s' = foldl kv_step (kv_abs s) cmds"
  using assms(2,3)
proof (induction es arbitrary: cmds r t s)
  case (Cons e es)
  obtain r1 t1 where c: "fsm_commit (raftFSM G S) e r t = (r1, t1)" by force
  have t1: "ft_fsm t1 = (if log_Type (fst e) = LogCommand then raftFSM_Apply G (fst e) s else Ret s)"
    using fsm_commit_state [of "raftFSM G S" e r t] c Cons.prems(2) by (simp add: raftFSM_def)
  show ?case
  proof (cases "log_Type (fst e) = LogCommand")
    case True
    with Cons.prems(1) obtain c' cs where cmds: "cmds = c' # cs" "sshSerializeCommand G c' = Inr (log_Data (fst e))"
      and rest: "list_all2 (\<lambda>l c. sshSerializeCommand G c = Inr (log_Data l)) (filter (\<lambda>l. log_Type l = LogCommand) (map fst es)) cs"
      by (auto simp: list_all2_Cons1)
    from raftFSM_Apply_refines [OF assms(1) cmds(2)] obtain s1 where
      s1: "raftFSM_Apply G (fst e) s = Ret s1" "kv_abs s1 = kv_step (kv_abs s) c'" by blast
    with True t1 have "ft_fsm t1 = Ret s1" by simp
    from Cons.IH [OF rest this, of r1] s1(2) cmds(1) show ?thesis by (simp add: c)
  next
    case False
    with t1 Cons.prems(1) Cons.IH [of cmds t1 s r1] show ?thesis by (simp add: c)
  qed
qed simp

text \<open>
  C8: The replicated store refines a map: after the node's goroutine has worked off committed
  entries that carry the commands \<open>cmds\<close>, the store holds exactly what the commands, in log
  order, make of the map it started from, and \<open>Read\<close> answers from it on a running node. A snapshot of the store
  that is encoded, written and restored on any node gives the same map.
\<close>

theorem kv_refines_map:
  assumes "gob_ok G"
    and "list_all2 (\<lambda>l c. sshSerializeCommand G c = Inr (log_Data l)) (filter (\<lambda>l. log_Type l = LogCommand) (map fst es)) cmds"
    and "ft_fsm t = Ret s" and "r_state node \<noteq> Shutdown"
  shows "\<exists>s'. ft_fsm (snd (fsm_drain (raftFSM G S) es r t)) = Ret s' \<and> kv_abs s' = foldl kv_step (kv_abs s) cmds \<and>
    (\<forall>key. kv_Read node key s' =
       (case foldl kv_step (kv_abs s) cmds key of Some v \<Rightarrow> (v, None) | None \<Rightarrow> ([], Some raftErrorKeyNotFound))) \<and>
    (\<exists>snap b. fsm_Snapshot (raftFSM G S) (Ret s') = Inr snap \<and> g_encode_map G snap = Inr b \<and>
       (\<forall>s0. \<exists>s1. fsm_Restore (raftFSM G S) (Ret s0) b = (Ret s1, None) \<and> kv_abs s1 = kv_abs s'))"
proof -
  obtain s' where s': "ft_fsm (snd (fsm_drain (raftFSM G S) es r t)) = Ret s'" "kv_abs s' = foldl kv_step (kv_abs s) cmds"
    using fsm_drain_kv [OF assms(1-3)] by blast
  obtain b m' where b: "g_encode_map G (kv_store s') = Inr b" "g_decode_map G b = Inr m'" "map_of m' = map_of (kv_store s')"
    using assms(1) unfolding gob_ok_def by blast
  then have "\<exists>s1. fsm_Restore (raftFSM G S) (Ret s0) b = (Ret s1, None) \<and> kv_abs s1 = kv_abs s'" for s0
    by (simp add: raftFSM_def raftFSM_Restore_def kv_abs_def)
  moreover have "kv_Read node key s' = (case kv_abs s' key of Some v \<Rightarrow> (v, None) | None \<Rightarrow> ([], Some raftErrorKeyNotFound))" for key
    using assms(4) by (auto simp: kv_Read_def checkState_def Raft_State_def kv_abs_def split: option.splits)
  ultimately show ?thesis using s' b(1) by (fastforce simp: raftFSM_def raftFSM_Snapshot_def)
qed

text \<open>An encoding that decodes to itself: every byte behind a mark, every string with an end.\<close>

fun esc :: "string \<Rightarrow> string" where
  "esc [] = ''.''"
| "esc (c # cs) = CHR ''x'' # c # esc cs"

fun unesc :: "string \<Rightarrow> (string \<times> string) option" where
  "unesc [] = None"
| "unesc [x] = (if x = CHR ''.'' then Some ([], []) else None)"
| "unesc (x # c # r) =
     (if x = CHR ''.'' then Some ([], c # r)
      else case unesc r of None \<Rightarrow> None | Some (s, r') \<Rightarrow> Some (c # s, r'))"

fun unesc_pairs :: "nat \<Rightarrow> string \<Rightarrow> (string \<times> string) list" where
  "unesc_pairs 0 b = []"
| "unesc_pairs (Suc n) b =
     (case unesc b of None \<Rightarrow> [] | Some (k, r) \<Rightarrow>
        (case unesc r of None \<Rightarrow> [] | Some (v, r') \<Rightarrow> (k, v) # unesc_pairs n r'))"

definition esc_gob :: gob where
  "esc_gob = \<lparr>
     g_encode = \<lambda>c. Inr (esc (c_Cmd c) @ esc (c_Key c) @ esc (c_Value c)),
     g_decode = \<lambda>b. (case unesc b of Some (c, r) \<Rightarrow>
        (case unesc r of Some (k, r') \<Rightarrow> (case unesc r' of Some (v, _) \<Rightarrow> Inr \<lparr>c_Cmd = c, c_Key = k, c_Value = v\<rparr>
           | None \<Rightarrow> Inl ErrNotFound) | None \<Rightarrow> Inl ErrNotFound) | None \<Rightarrow> Inl ErrNotFound),
     g_encode_map = \<lambda>m. Inr (concat (map (\<lambda>(k, v). esc k @ esc v) m)),
     g_decode_map = \<lambda>b. Inr (unesc_pairs (length b) b)\<rparr>"

lemma unesc_esc [simp]: "unesc (esc s @ r) = Some (s, r)"
proof (induction s)
  case Nil
  show ?case by (cases r) auto
qed simp

lemma unesc_pairs_esc: "length m \<le> n \<Longrightarrow> unesc_pairs n (concat (map (\<lambda>(k, v). esc k @ esc v) m)) = m"
proof (induction m arbitrary: n)
  case Nil
  show ?case by (cases n) auto
next
  case (Cons kv m)
  then show ?case by (cases n; cases kv) auto
qed

lemma esc_gob_ok: "gob_ok esc_gob"
proof -
  have "esc s \<noteq> []" for s by (cases s) auto
  moreover have "length m \<le> length (concat (map (\<lambda>(k, v). esc k @ esc v) m))" for m
  proof (induction m)
    case (Cons kv m)
    obtain k v where kv: "kv = (k, v)" by force
    have "1 \<le> length (esc k)" by (cases k) auto
    with Cons show ?case unfolding kv list.map concat.simps prod.case length_append list.size by linarith
  qed simp
  moreover have "g_decode esc_gob (esc a @ esc b @ esc c) = Inr \<lparr>c_Cmd = a, c_Key = b, c_Value = c\<rparr>" for a b c
    using unesc_esc [of c "[]"] by (simp add: esc_gob_def)
  ultimately show ?thesis by (simp add: gob_ok_def) (simp add: esc_gob_def unesc_pairs_esc)
qed

definition demo_entries :: "commitTuple list" where
  "demo_entries = map (\<lambda>(i, c). (\<lparr>log_Index = i, log_Term = 1, log_Type = LogCommand,
       log_Data = esc (c_Cmd c) @ esc (c_Key c) @ esc (c_Value c), log_peer = []\<rparr>, None))
     [(1, \<lparr>c_Cmd = raftCmdWrite, c_Key = ''a'', c_Value = ''1''\<rparr>), (2, \<lparr>c_Cmd = raftCmdDelete, c_Key = ''a'', c_Value = []\<rparr>),
      (3, \<lparr>c_Cmd = raftCmdWrite, c_Key = ''a'', c_Value = ''2''\<rparr>)]"

definition demo_store :: raftStore where
  "demo_store = newRaftStore ''data'' '':8000''"

theorem kv_refines_map_witness:
  "\<exists>s'. ft_fsm (snd (fsm_drain (raftFSM esc_gob demo_snapshots) demo_entries (demo_node demo_bunt 0 0)
      \<lparr>ft_fsm = Ret demo_store, ft_lastIndex = 0, ft_lastTerm = 0, ft_responses = []\<rparr>)) = Ret s' \<and>
     kv_Read (demo_node demo_bunt 0 0) ''a'' s' = (''2'', None)"
proof -
  define cmds where "cmds = [\<lparr>c_Cmd = raftCmdWrite, c_Key = ''a'', c_Value = ''1''\<rparr>,
    \<lparr>c_Cmd = raftCmdDelete, c_Key = ''a'', c_Value = []\<rparr>, \<lparr>c_Cmd = raftCmdWrite, c_Key = ''a'', c_Value = ''2''\<rparr>]"
  have carried: "list_all2 (\<lambda>l c. sshSerializeCommand esc_gob c = Inr (log_Data l))
      (filter (\<lambda>l. log_Type l = LogCommand) (map fst demo_entries)) cmds"
    by (simp add: demo_entries_def cmds_def sshSerializeCommand_def esc_gob_def)
  have "foldl kv_step (kv_abs demo_store) cmds ''a'' = Some ''2''"
    by (simp add: cmds_def kv_step_def kv_abs_def demo_store_def newRaftStore_def raftCmdWrite_def raftCmdDelete_def)
  moreover have "r_state (demo_node demo_bunt 0 0) \<noteq> Shutdown" by (simp add: demo_node_def)
  ultimately show ?thesis
    using kv_refines_map [OF esc_gob_ok carried, of "\<lparr>ft_fsm = Ret demo_store, ft_lastIndex = 0, ft_lastTerm = 0, ft_responses = []\<rparr>"
        demo_store "demo_node demo_bunt 0 0" demo_snapshots "demo_node demo_bunt 0 0"] by fastforce
qed

text \<open>
  A write that the leader could not carry out is reported as done: the leader answers the
  forwarded request with false when its own call fails, for whatever reason, and
  \<open>leaderRequest\<close> on the follower returns the nil error of the exchange.
\<close>

theorem refused_write_reported_done:
  assumes "r_state follower \<noteq> Shutdown" and "r_state follower \<noteq> Leader" and "r_state leader = Leader"
    and "sshSerializeCommand G \<lparr>c_Cmd = raftCmdWrite, c_Key = key, c_Value = value\<rparr> = Inr sc"
  shows "serve_command G leader (Some \<lparr>c_Cmd = raftCmdWrite, c_Key = key, c_Value = value\<rparr>) x ch Sel_sent (Some err) = Some (Ret False) \<and>
         kv_Write G follower key value (Replied False) ch' sel ans = Some None"
  using assms by (simp add: serve_command_def apply_and_wait_def Raft_Apply_def log_call_def select_send_def Raft_State_def
      kv_Write_def submit_def checkState_def leaderRequest_def)

theorem refused_write_reported_done_witness:
  "kv_Write esc_gob (demo_node demo_bunt 0 0) ''a'' ''1'' (Replied False) 7 Sel_sent None = Some None"
  by (rule refused_write_reported_done [of "demo_node demo_bunt 0 0" "(demo_node demo_bunt 0 0)\<lparr>r_state := Leader\<rparr>", THEN conjunct2])
    (simp_all add: demo_node_def sshSerializeCommand_def esc_gob_def)

end
