(* ===== verification/Fastid.thy ===== *)
theory Fastid
  imports Go_Prelude
begin

unbundle bit_operations_syntax

text \<open>
  Unique numbers of a node (\<open>fastid/fastid.go\<close>): time, sequence and machine in one
  \<open>int64\<close>, advanced by a compare-and-swap that many goroutines race for. The clock is given in
  nanoseconds; finding the machine's address is input and output.
\<close>

section \<open>The generator\<close>

record FastID =
  f_timeStart :: int
  f_timeBits :: nat
  f_seqBits :: nat
  f_machineBits :: nat
  f_timeMask :: int
  f_seqMask :: int
  f_machineID :: int
  f_machineIDMask :: int
  f_lastID :: int

text \<open>\<open>^(int64(-1) << k)\<close>\<close>

definition mask_of :: "nat \<Rightarrow> int" where
  "mask_of k = NOT (i64 (push_bit k (- 1)))"

definition NewFastIDWithConfig :: "nat \<Rightarrow> nat \<Rightarrow> nat \<Rightarrow> int \<Rightarrow> int \<Rightarrow> FastID" where
  "NewFastIDWithConfig timeBits machineBits seqBits timeStart machineID =
     (let machineIDMask = mask_of machineBits
      in \<lparr>f_timeStart = timeStart, f_timeBits = timeBits, f_seqBits = seqBits, f_machineBits = machineBits,
          f_timeMask = mask_of timeBits, f_seqMask = mask_of seqBits,
          f_machineID = machineID AND machineIDMask, f_machineIDMask = machineIDMask, f_lastID = 0\<rparr>)"

definition getCurrentTimestamp :: "FastID \<Rightarrow> int \<Rightarrow> int" where
  "getCurrentTimestamp c nano = drop_bit 20 (i64 (nano - f_timeStart c)) AND f_timeMask c"

definition GetSequence :: "FastID \<Rightarrow> int \<Rightarrow> int" where
  "GetSequence c x = drop_bit (f_machineBits c) x AND f_seqMask c"

definition GetTime :: "FastID \<Rightarrow> int \<Rightarrow> int" where
  "GetTime c x = drop_bit (f_machineBits c + f_seqBits c) x"

text \<open>
  One turn of the loop of \<open>NextID\<close> up to the compare-and-swap: the new id for the last id the
  goroutine loaded, or \<open>None\<close> when the sequence of this tick is used up and it sleeps.
\<close>

definition attempt :: "FastID \<Rightarrow> int \<Rightarrow> int \<Rightarrow> int option" where
  "attempt c localLastID now =
     (let seq = GetSequence c localLastID; lastIDTime = GetTime c localLastID;
          make = (\<lambda>s. i64 (push_bit (f_machineBits c + f_seqBits c) now + push_bit (f_machineBits c) s + f_machineID c))
      in if now > lastIDTime then Some (make 0)
         else if seq \<ge> f_seqMask c then None
         else Some (make (seq + 1)))"

text \<open>
  The clock readings the time field has room for: not before the start, and neither the
  subtraction nor the mask of \<open>getCurrentTimestamp\<close> cuts anything off.
\<close>

definition clock_ok :: "FastID \<Rightarrow> int \<Rightarrow> bool" where
  "clock_ok c nano \<longleftrightarrow> f_timeStart c \<le> nano \<and> nano < f_timeStart c + 2 ^ 63 \<and> nano < f_timeStart c + 2 ^ (f_timeBits c + 20)"

section \<open>Goroutines racing for an id\<close>

text \<open>
  What a goroutine in \<open>NextID\<close> has done: nothing yet, loaded the last id, or computed a new id
  from it. The shared part is the generator, the clock and the ids returned so far, oldest first.
\<close>

datatype phase = Idle | Loaded int | Computed int int

record world =
  w_gen :: FastID
  w_clock :: int
  w_phase :: "nat \<Rightarrow> phase"
  w_issued :: "int list"

inductive fast_step :: "world \<Rightarrow> world \<Rightarrow> bool" where
  load: "w_phase w i = Idle \<Longrightarrow> fast_step w (w\<lparr>w_phase := (w_phase w)(i := Loaded (f_lastID (w_gen w)))\<rparr>)"
| compute: "w_phase w i = Loaded l \<Longrightarrow> attempt (w_gen w) l (getCurrentTimestamp (w_gen w) (w_clock w)) = Some n \<Longrightarrow>
    fast_step w (w\<lparr>w_phase := (w_phase w)(i := Computed l n)\<rparr>)"
| sleep: "w_phase w i = Loaded l \<Longrightarrow> attempt (w_gen w) l (getCurrentTimestamp (w_gen w) (w_clock w)) = None \<Longrightarrow>
    fast_step w (w\<lparr>w_phase := (w_phase w)(i := Idle)\<rparr>)"
| swap_ok: "w_phase w i = Computed l n \<Longrightarrow> f_lastID (w_gen w) = l \<Longrightarrow>
    fast_step w (w\<lparr>w_gen := (w_gen w)\<lparr>f_lastID := n\<rparr>, w_phase := (w_phase w)(i := Idle), w_issued := w_issued w @ [n]\<rparr>)"
| swap_lost: "w_phase w i = Computed l n \<Longrightarrow> f_lastID (w_gen w) \<noteq> l \<Longrightarrow>
    fast_step w (w\<lparr>w_phase := (w_phase w)(i := Idle)\<rparr>)"
| tick: "w_clock w \<le> nano \<Longrightarrow> clock_ok (w_gen w) nano \<Longrightarrow>
    fast_step w (w\<lparr>w_clock := nano\<rparr>)"

definition fast_start :: "FastID \<Rightarrow> int \<Rightarrow> world" where
  "fast_start c nano = \<lparr>w_gen = c, w_clock = nano, w_phase = (\<lambda>_. Idle), w_issued = []\<rparr>"

section \<open>Bits\<close>

text \<open>A configuration whose fields fit in 63 bits, as the constructor makes it.\<close>

definition config_ok :: "FastID \<Rightarrow> bool" where
  "config_ok c \<longleftrightarrow> f_timeBits c + f_machineBits c + f_seqBits c \<le> 63 \<and>
     f_timeMask c = 2 ^ f_timeBits c - 1 \<and> f_seqMask c = 2 ^ f_seqBits c - 1 \<and>
     0 \<le> f_machineID c \<and> f_machineID c < 2 ^ f_machineBits c"

lemma mask_of_eq: "k \<le> 63 \<Longrightarrow> mask_of k = 2 ^ k - 1"
proof -
  assume k: "k \<le> 63"
  have "(2 :: int) ^ k \<le> 2 ^ 63" using k by (intro power_increasing) auto
  moreover have "(0 :: int) < 2 ^ k" by simp
  ultimately have "i64 (- (2 ^ k)) = - (2 ^ k)" by (intro i64_id) linarith+
  then show ?thesis by (simp add: mask_of_def push_bit_eq_mult not_int_def)
qed

lemma NewFastID_ok:
  assumes "tb + mb + sb \<le> 63"
  shows "config_ok (NewFastIDWithConfig tb mb sb start machine)"
proof -
  have m: "mask_of tb = 2 ^ tb - 1" "mask_of sb = 2 ^ sb - 1" "mask_of mb = 2 ^ mb - 1"
    using assms by (simp_all add: mask_of_eq)
  have "machine AND (2 ^ mb - 1) = take_bit mb machine" by (simp add: take_bit_eq_mask mask_eq_exp_minus_1)
  with assms m show ?thesis by (simp add: config_ok_def NewFastIDWithConfig_def Let_def)
qed

lemma and_low_mask: "(x :: int) AND (2 ^ k - 1) = x mod 2 ^ k"
  by (simp add: take_bit_eq_mod flip: take_bit_eq_mask mask_eq_exp_minus_1)

lemma config_parts:
  assumes "config_ok c"
  shows "GetTime c x = x div 2 ^ (f_machineBits c + f_seqBits c)" and "GetSequence c x = x div 2 ^ f_machineBits c mod 2 ^ f_seqBits c"
  using assms by (simp_all add: config_ok_def GetTime_def GetSequence_def drop_bit_eq_div and_low_mask)

definition make_id :: "FastID \<Rightarrow> int \<Rightarrow> int \<Rightarrow> int" where
  "make_id c now s = now * 2 ^ (f_machineBits c + f_seqBits c) + (s * 2 ^ f_machineBits c + f_machineID c)"

lemma make_id_parts:
  assumes c: "config_ok c" and now: "0 \<le> now" "now < 2 ^ f_timeBits c" and s: "0 \<le> s" "s < 2 ^ f_seqBits c"
  shows "0 \<le> make_id c now s" and "make_id c now s < 2 ^ 63" and "GetTime c (make_id c now s) = now"
    and "make_id c now s mod 2 ^ f_machineBits c = f_machineID c"
    and "i64 (push_bit (f_machineBits c + f_seqBits c) now + push_bit (f_machineBits c) s + f_machineID c) = make_id c now s"
proof -
  let ?m = "2 ^ f_machineBits c :: int" and ?q = "2 ^ f_seqBits c :: int" and ?t = "2 ^ f_timeBits c :: int"
  have id: "0 \<le> f_machineID c" "f_machineID c < ?m" using c by (auto simp: config_ok_def)
  have "(s + 1) * ?m \<le> ?q * ?m" using s by (intro mult_right_mono) auto
  then have low: "0 \<le> s * ?m + f_machineID c" "s * ?m + f_machineID c < ?m * ?q"
    using id s by (simp_all add: algebra_simps)
  have e: "make_id c now s = now * (?m * ?q) + (s * ?m + f_machineID c)" by (simp add: make_id_def power_add)
  show "0 \<le> make_id c now s" using now low by (simp add: e)
  have "(now + 1) * (?m * ?q) \<le> ?t * (?m * ?q)" using now by (intro mult_right_mono) auto
  then have "make_id c now s < ?t * (?m * ?q)" using low by (simp add: e algebra_simps)
  also have "\<dots> = 2 ^ (f_timeBits c + (f_machineBits c + f_seqBits c))" by (simp add: power_add)
  also have "\<dots> \<le> 2 ^ 63" using c by (intro power_increasing) (auto simp: config_ok_def)
  finally show small: "make_id c now s < 2 ^ 63" .
  have "make_id c now s div (?m * ?q) = now" using low by (simp add: e)
  then show "GetTime c (make_id c now s) = now" by (simp add: config_parts [OF c] power_add)
  have "make_id c now s = ?m * (now * ?q + s) + f_machineID c" by (simp add: e algebra_simps)
  then show "make_id c now s mod ?m = f_machineID c" using id by simp
  show "i64 (push_bit (f_machineBits c + f_seqBits c) now + push_bit (f_machineBits c) s + f_machineID c) = make_id c now s"
    using small \<open>0 \<le> make_id c now s\<close> by (simp add: push_bit_eq_mult make_id_def i64_def add.assoc)
qed

lemma below_next: "0 < d \<Longrightarrow> (l :: int) < (l div d + 1) * d"
proof -
  assume "0 < d"
  then have "l mod d < d" by simp
  moreover have "l = l div d * d + l mod d" by simp
  ultimately show ?thesis unfolding distrib_right mult_1 by linarith
qed

lemma attempt_increases:
  assumes c: "config_ok c" and l: "0 \<le> l" and now: "GetTime c l \<le> now" "0 \<le> now" "now < 2 ^ f_timeBits c"
    and "attempt c l now = Some n"
  shows "l < n \<and> GetTime c n = now \<and> n mod 2 ^ f_machineBits c = f_machineID c"
proof -
  let ?m = "2 ^ f_machineBits c :: int" and ?q = "2 ^ f_seqBits c :: int"
  define s where "s = (if now > GetTime c l then 0 else GetSequence c l + 1)"
  have seq: "0 \<le> GetSequence c l" by (simp add: config_parts [OF c])
  have mask: "f_seqMask c = ?q - 1" using c by (simp add: config_ok_def)
  have s: "0 \<le> s" "s < ?q" using assms(6) seq mask by (auto simp: s_def attempt_def Let_def split: if_splits)
  note parts = make_id_parts [OF c now(2,3) s]
  have n: "n = make_id c now s" using assms(6) parts(5) by (auto simp: s_def attempt_def Let_def split: if_splits)
  have id: "0 \<le> f_machineID c" using c by (simp add: config_ok_def)
  have "l < make_id c now s"
  proof (cases "now > GetTime c l")
    case True
    have "l < (l div (?m * ?q) + 1) * (?m * ?q)" by (rule below_next) simp
    also have "\<dots> \<le> now * (?m * ?q)"
      using True by (intro mult_right_mono) (auto simp: config_parts [OF c] power_add)
    also have "\<dots> \<le> make_id c now s" using s(1) id by (simp add: make_id_def power_add)
    finally show ?thesis .
  next
    case False
    then have t: "now = l div (?m * ?q)" using now(1) by (simp add: config_parts [OF c] power_add)
    have "l div ?m = now * ?q + GetSequence c l"
      by (simp add: config_parts [OF c] t zdiv_zmult2_eq) (rule div_mult_mod_eq [symmetric])
    then have "l div ?m + 1 = now * ?q + s" using False by (simp add: s_def)
    then have "l < (now * ?q + s) * ?m" using below_next [of ?m l] by simp
    also have "\<dots> \<le> make_id c now s" using id by (simp add: make_id_def power_add algebra_simps)
    finally show ?thesis .
  qed
  with parts n show ?thesis by simp
qed

section \<open>Ids never repeat\<close>

lemma timestamp_value:
  assumes "config_ok c" and "clock_ok c x"
  shows "getCurrentTimestamp c x = (x - f_timeStart c) div 2 ^ 20" and "(x - f_timeStart c) div 2 ^ 20 < 2 ^ f_timeBits c"
proof -
  have lt: "x - f_timeStart c < 2 ^ f_timeBits c * 2 ^ 20" using assms(2) by (simp add: clock_ok_def power_add)
  have "i64 (x - f_timeStart c) = x - f_timeStart c" using assms(2) by (intro i64_id) (auto simp: clock_ok_def)
  moreover show top: "(x - f_timeStart c) div 2 ^ 20 < 2 ^ f_timeBits c"
  proof (rule ccontr)
    assume "\<not> (x - f_timeStart c) div 2 ^ 20 < 2 ^ f_timeBits c"
    then have "2 ^ f_timeBits c * 2 ^ 20 \<le> (x - f_timeStart c) div 2 ^ 20 * 2 ^ 20" by (intro mult_right_mono) auto
    also have "\<dots> \<le> x - f_timeStart c" by (simp add: minus_mod_eq_div_mult [symmetric])
    finally show False using lt by simp
  qed
  ultimately show "getCurrentTimestamp c x = (x - f_timeStart c) div 2 ^ 20"
    using assms by (simp add: getCurrentTimestamp_def config_ok_def clock_ok_def and_low_mask drop_bit_eq_div pos_imp_zdiv_nonneg_iff)
qed

lemma timestamp_mono:
  assumes "config_ok c" and "clock_ok c a" and "clock_ok c b" and "a \<le> b"
  shows "0 \<le> getCurrentTimestamp c a" and "getCurrentTimestamp c a \<le> getCurrentTimestamp c b"
    and "getCurrentTimestamp c b < 2 ^ f_timeBits c"
proof -
  note a = timestamp_value [OF assms(1,2)] and b = timestamp_value [OF assms(1,3)]
  show "0 \<le> getCurrentTimestamp c a" using a assms(2) by (simp add: clock_ok_def pos_imp_zdiv_nonneg_iff)
  show "getCurrentTimestamp c a \<le> getCurrentTimestamp c b" using a b assms(4) by (simp add: zdiv_mono1)
  show "getCurrentTimestamp c b < 2 ^ f_timeBits c" using b by simp
qed

definition phase_ok :: "FastID \<Rightarrow> int \<Rightarrow> phase \<Rightarrow> bool" where
  "phase_ok c now p = (case p of
      Idle \<Rightarrow> True
    | Loaded l \<Rightarrow> 0 \<le> l \<and> GetTime c l \<le> now
    | Computed l n \<Rightarrow> 0 \<le> l \<and> l < n \<and> GetTime c n \<le> now \<and> n mod 2 ^ f_machineBits c = f_machineID c)"

definition fast_inv :: "FastID \<Rightarrow> world \<Rightarrow> bool" where
  "fast_inv c w \<longleftrightarrow> w_gen w = c\<lparr>f_lastID := f_lastID (w_gen w)\<rparr> \<and>
     clock_ok c (w_clock w) \<and>
     0 \<le> f_lastID (w_gen w) \<and> GetTime c (f_lastID (w_gen w)) \<le> getCurrentTimestamp c (w_clock w) \<and>
     (\<forall>i. phase_ok c (getCurrentTimestamp c (w_clock w)) (w_phase w i)) \<and>
     sorted_wrt (<) (w_issued w) \<and> (\<forall>n \<in> set (w_issued w). n \<le> f_lastID (w_gen w) \<and> n mod 2 ^ f_machineBits c = f_machineID c)"

text \<open>Changing the last id changes nothing else that the functions read.\<close>

lemma lastID_irrelevant [simp]:
  "GetTime (c\<lparr>f_lastID := l\<rparr>) = GetTime c" "GetSequence (c\<lparr>f_lastID := l\<rparr>) = GetSequence c"
  "getCurrentTimestamp (c\<lparr>f_lastID := l\<rparr>) = getCurrentTimestamp c" "attempt (c\<lparr>f_lastID := l\<rparr>) = attempt c"
  "clock_ok (c\<lparr>f_lastID := l\<rparr>) = clock_ok c"
  by (simp_all add: fun_eq_iff GetTime_def GetSequence_def getCurrentTimestamp_def attempt_def clock_ok_def Let_def)

lemma gen_reads:
  assumes "w_gen w = c\<lparr>f_lastID := l\<rparr>"
  shows "attempt (w_gen w) = attempt c" "getCurrentTimestamp (w_gen w) = getCurrentTimestamp c"
    "clock_ok (w_gen w) = clock_ok c"
  by (simp_all add: assms)

lemma fast_inv_step:
  assumes "config_ok c" and "fast_inv c w" and "fast_step w w'"
  shows "fast_inv c w'"
  using assms(3,2)
proof (cases rule: fast_step.cases)
  case (load i)
  with assms(2) show ?thesis by (auto simp: fast_inv_def phase_ok_def)
next
  case (compute i l n)
  let ?now = "getCurrentTimestamp c (w_clock w)"
  have g: "w_gen w = c\<lparr>f_lastID := f_lastID (w_gen w)\<rparr>" using assms(2) by (simp add: fast_inv_def)
  have "phase_ok c ?now (Loaded l)" using assms(2) compute(2) by (metis fast_inv_def)
  moreover have "0 \<le> ?now" "?now < 2 ^ f_timeBits c"
    using assms(1,2) timestamp_mono [of c "w_clock w" "w_clock w"] by (auto simp: fast_inv_def)
  ultimately have "phase_ok c ?now (Computed l n)"
    using attempt_increases [OF assms(1), of l ?now n] compute(3) gen_reads [OF g] by (auto simp: phase_ok_def)
  with compute(1) assms(2) show ?thesis by (auto simp: fast_inv_def)
next
  case (sleep i l)
  with assms(2) show ?thesis by (auto simp: fast_inv_def phase_ok_def)
next
  case (swap_ok i l n)
  have "phase_ok c (getCurrentTimestamp c (w_clock w)) (Computed l n)" using assms(2) swap_ok(2) by (metis fast_inv_def)
  then have n: "0 \<le> l" "l < n" "GetTime c n \<le> getCurrentTimestamp c (w_clock w)" "n mod 2 ^ f_machineBits c = f_machineID c"
    by (auto simp: phase_ok_def)
  have "\<forall>m \<in> set (w_issued w). m < n" using assms(2) swap_ok(3) n(2) by (auto simp: fast_inv_def)
  moreover have "(w_gen w)\<lparr>f_lastID := n\<rparr> = c\<lparr>f_lastID := n\<rparr>" using assms(2) by (metis FastID.update_convs(9) FastID.surjective fast_inv_def)
  ultimately show ?thesis using swap_ok(1) assms(2) n by (auto simp: fast_inv_def sorted_wrt_append phase_ok_def)
next
  case (swap_lost i l n)
  with assms(2) show ?thesis by (auto simp: fast_inv_def phase_ok_def)
next
  case (tick nano)
  have g: "w_gen w = c\<lparr>f_lastID := f_lastID (w_gen w)\<rparr>" using assms(2) by (simp add: fast_inv_def)
  then have n: "clock_ok c (w_clock w)" "w_clock w \<le> nano" "clock_ok c nano"
    using tick gen_reads [OF g] assms(2) by (auto simp: fast_inv_def)
  then have le: "getCurrentTimestamp c (w_clock w) \<le> getCurrentTimestamp c nano" using timestamp_mono [OF assms(1)] by blast
  then have "phase_ok c (getCurrentTimestamp c nano) p" if "phase_ok c (getCurrentTimestamp c (w_clock w)) p" for p
    using that by (auto simp: phase_ok_def split: phase.splits)
  with tick(1) assms(2) n le show ?thesis by (auto simp: fast_inv_def)
qed

lemma NewFastID_fields [simp]:
  "f_machineBits (NewFastIDWithConfig tb mb sb start machine) = mb" "f_lastID (NewFastIDWithConfig tb mb sb start machine) = 0"
  "f_timeBits (NewFastIDWithConfig tb mb sb start machine) = tb" "f_seqBits (NewFastIDWithConfig tb mb sb start machine) = sb"
  "f_timeStart (NewFastIDWithConfig tb mb sb start machine) = start"
  by (simp_all add: NewFastIDWithConfig_def Let_def)

lemma machine_of_new: "mb \<le> 63 \<Longrightarrow> f_machineID (NewFastIDWithConfig tb mb sb start machine) = machine mod 2 ^ mb"
  by (simp add: NewFastIDWithConfig_def Let_def mask_of_eq and_low_mask)

lemma fast_inv_start:
  assumes "config_ok c" and "clock_ok c nano" and "f_lastID c = 0"
  shows "fast_inv c (fast_start c nano)"
  using assms timestamp_mono(1) [OF assms(1,2,2)] by (simp add: fast_inv_def fast_start_def phase_ok_def config_parts)

lemma fast_inv_reachable:
  assumes "fast_step\<^sup>*\<^sup>* (fast_start c nano) w" and "config_ok c" and "clock_ok c nano" and "f_lastID c = 0"
  shows "fast_inv c w"
  using assms(1)
proof induction
  case base
  show ?case using assms(2-) by (rule fast_inv_start)
next
  case (step u v)
  then show ?case using fast_inv_step [OF assms(2)] by blast
qed

text \<open>
  C17: However the goroutines of a node interleave, and whatever the clock does as long as it does
  not step back and the time field has room, the ids \<open>NextID\<close> returns strictly increase; and two
  nodes whose machine numbers differ in the bits kept of them never return the same id.
\<close>

theorem ids_unique:
  assumes "tb + mb + sb \<le> 63" and "machine mod 2 ^ mb \<noteq> machine' mod 2 ^ mb"
    and "clock_ok (NewFastIDWithConfig tb mb sb start machine) nano" and "clock_ok (NewFastIDWithConfig tb mb sb start' machine') nano'"
    and "fast_step\<^sup>*\<^sup>* (fast_start (NewFastIDWithConfig tb mb sb start machine) nano) w"
    and "fast_step\<^sup>*\<^sup>* (fast_start (NewFastIDWithConfig tb mb sb start' machine') nano') w'"
  shows "sorted_wrt (<) (w_issued w) \<and> sorted_wrt (<) (w_issued w') \<and> set (w_issued w) \<inter> set (w_issued w') = {}"
proof -
  have "fast_inv (NewFastIDWithConfig tb mb sb start machine) w" "fast_inv (NewFastIDWithConfig tb mb sb start' machine') w'"
    using assms by (auto intro!: fast_inv_reachable NewFastID_ok)
  moreover have "mb \<le> 63" using assms(1) by simp
  ultimately have "sorted_wrt (<) (w_issued w)" "sorted_wrt (<) (w_issued w')"
    "\<forall>n \<in> set (w_issued w). n mod 2 ^ mb = machine mod 2 ^ mb" "\<forall>n \<in> set (w_issued w'). n mod 2 ^ mb = machine' mod 2 ^ mb"
    by (simp_all add: fast_inv_def machine_of_new)
  with assms(2) show ?thesis by force
qed

text \<open>A goroutine alone takes one id: it loads, computes and swaps.\<close>

lemma alone_takes_id:
  assumes "attempt c (f_lastID c) (getCurrentTimestamp c nano) = Some n"
  shows "\<exists>w. fast_step\<^sup>*\<^sup>* (fast_start c nano) w \<and> w_issued w = [n]"
proof -
  let ?a = "fast_start c nano"
  let ?b = "?a\<lparr>w_phase := (w_phase ?a)(0 := Loaded (f_lastID c))\<rparr>"
  let ?c = "?b\<lparr>w_phase := (w_phase ?b)(0 := Computed (f_lastID c) n)\<rparr>"
  let ?d = "?c\<lparr>w_gen := (w_gen ?c)\<lparr>f_lastID := n\<rparr>, w_phase := (w_phase ?c)(0 := Idle), w_issued := w_issued ?c @ [n]\<rparr>"
  have "fast_step ?a ?b" using load [of ?a 0] by (simp add: fast_start_def)
  moreover have "fast_step ?b ?c" using assms by (intro compute) (auto simp: fast_start_def)
  moreover have "fast_step ?c ?d" by (rule swap_ok [where l = "f_lastID c"]) (auto simp: fast_start_def)
  ultimately have "fast_step\<^sup>*\<^sup>* ?a ?d" by (blast intro: rtranclp.rtrancl_into_rtrancl)
  moreover have "w_issued ?d = [n]" by (simp add: fast_start_def)
  ultimately show ?thesis by blast
qed

theorem ids_unique_witness:
  "\<exists>w w' a b. fast_step\<^sup>*\<^sup>* (fast_start (NewFastIDWithConfig 45 6 12 0 1) 3000000) w \<and> w_issued w = [a] \<and>
     fast_step\<^sup>*\<^sup>* (fast_start (NewFastIDWithConfig 45 6 12 0 66) 3000000) w' \<and> w_issued w' = [b] \<and> {a} \<inter> {b} = {}"
proof -
  obtain w where w: "fast_step\<^sup>*\<^sup>* (fast_start (NewFastIDWithConfig 45 6 12 0 1) 3000000) w" "w_issued w = [524289]"
    using alone_takes_id [of "NewFastIDWithConfig 45 6 12 0 1" 3000000 524289]
    by (auto simp: attempt_def getCurrentTimestamp_def NewFastIDWithConfig_def mask_of_eq GetTime_def GetSequence_def i64_def push_bit_eq_mult drop_bit_eq_div and_low_mask [of _ 45, simplified] and_low_mask [of _ 6, simplified] and_low_mask [of _ 12, simplified])
  obtain w' where w': "fast_step\<^sup>*\<^sup>* (fast_start (NewFastIDWithConfig 45 6 12 0 66) 3000000) w'" "w_issued w' = [524290]"
    using alone_takes_id [of "NewFastIDWithConfig 45 6 12 0 66" 3000000 524290]
    by (auto simp: attempt_def getCurrentTimestamp_def NewFastIDWithConfig_def mask_of_eq GetTime_def GetSequence_def i64_def push_bit_eq_mult drop_bit_eq_div and_low_mask [of _ 45, simplified] and_low_mask [of _ 6, simplified] and_low_mask [of _ 12, simplified])
  have "set (w_issued w) \<inter> set (w_issued w') = {}"
    using ids_unique [OF _ _ _ _ w(1) w'(1)] by (simp add: clock_ok_def)
  then have "{524289 :: int} \<inter> {524290} = {}" by (simp only: w(2) w'(2) list.set)
  with w w' show ?thesis by blast
qed

text \<open>
  When the clock steps back by one tick between two calls, the second call takes a number of
  the earlier tick, and as soon as the clock is back a third call returns the id of the first one
  again: \<open>NextID\<close> relies on a clock that never steps back.
\<close>

theorem clock_back_repeats:
  assumes "tb + mb + sb \<le> 63" and "0 < sb" and "0 \<le> t" and "t + 1 < 2 ^ tb"
    and "c = NewFastIDWithConfig tb mb sb start machine"
  shows "\<exists>a b. attempt c (f_lastID c) (t + 1) = Some a \<and> attempt c a t = Some b \<and> attempt c b (t + 1) = Some a"
proof -
  have c: "config_ok c" and l: "f_lastID c = 0" "f_timeBits c = tb" "f_seqBits c = sb" using assms NewFastID_ok by simp_all
  have q: "(1 :: int) < 2 ^ sb" using assms(2) by simp
  then have mask: "\<not> f_seqMask c \<le> 0" using c l(3) by (simp add: config_ok_def)
  have t0: "GetTime c 0 = 0" by (simp add: config_parts [OF c])
  note first = make_id_parts [OF c, of "t + 1" 0] and second = make_id_parts [OF c, of t 1]
  let ?a = "make_id c (t + 1) 0" and ?b = "make_id c t 1"
  have ta: "GetTime c ?a = t + 1" "GetTime c ?b = t" using first(3) second(3) assms(3,4) l q by simp_all
  have "f_machineID c < 2 ^ f_machineBits c" "0 \<le> f_machineID c" using c by (auto simp: config_ok_def)
  moreover have "?a = 2 ^ f_machineBits c * ((t + 1) * 2 ^ f_seqBits c) + f_machineID c"
    by (simp add: make_id_def power_add algebra_simps)
  ultimately have "?a div 2 ^ f_machineBits c = (t + 1) * 2 ^ f_seqBits c" by simp
  then have "GetSequence c ?a = 0" by (simp add: config_parts [OF c])
  moreover have "i64 (push_bit (f_machineBits c + f_seqBits c) (t + 1) + push_bit (f_machineBits c) 0 + f_machineID c) = ?a"
    using first(5) assms(3,4) l by simp
  moreover have "i64 (push_bit (f_machineBits c + f_seqBits c) t + push_bit (f_machineBits c) 1 + f_machineID c) = ?b"
    using second(5) assms(3,4) l q by simp
  moreover have "\<not> t > GetTime c ?a" "t + 1 > GetTime c ?b" "t + 1 > GetTime c 0" using ta t0 assms(3) by linarith+
  ultimately have "attempt c 0 (t + 1) = Some ?a" "attempt c ?a t = Some ?b" "attempt c ?b (t + 1) = Some ?a"
    using mask by (simp_all only: attempt_def Let_def if_True if_False add_0 simp_thms)
  then show ?thesis using l(1) by auto
qed

theorem clock_back_repeats_witness:
  "\<exists>a b. attempt (NewFastIDWithConfig 45 6 12 0 1) 0 6 = Some a \<and> attempt (NewFastIDWithConfig 45 6 12 0 1) a 5 = Some b \<and>
     attempt (NewFastIDWithConfig 45 6 12 0 1) b 6 = Some a"
  using clock_back_repeats [OF _ _ _ _ refl, of 45 6 12 5 0 1] by simp

end
