(* ===== verification/Go_Values.thy ===== *)
theory Go_Values
  imports Go_Strings "HOL-Library.List_Lexorder" "HOL-Library.Char_ord"
begin

text \<open>
  The dynamic values of the framework (\<open>base.go\<close>: \<open>Any\<close>, \<open>Map\<close>; \<open>error.go\<close>): every dynamic type
  that a type switch of the modelled code names is a constructor. A Go map is the association list
  of its entries in the order in which the iteration at hand visits them. A function value is a
  number of its type; what the function does is an argument of the code that calls it.
\<close>

section \<open>Values\<close>

datatype ikind = KInt | KInt8 | KInt16 | KInt32 | KInt64

text \<open>\<open>func(Any,Map) bool\<close>, \<open>func(Any,Map) Any\<close>, \<open>func(Any) Any\<close>, \<open>func(*Context)\<close> as a plain function type or as
  the named type \<open>Funcing\<close>, and the functions without arguments by the type of their result.\<close>

datatype fkind = FValid | FValue | FCrypto | FContext | FFuncing
  | FAutoAny | FAutoTime | FAutoString | FAutoNum ikind | FAutoFloat32 | FAutoFloat64

datatype dataconst = NIL | NOL | RAND | ASC | DESC

text \<open>
  A floating-point value is a mantissa and an exponent, a time its nanoseconds since the epoch and
  its zone (0 is the local zone). The arguments of an error are kept as their texts.
\<close>

type_synonym float_val = "int \<times> int"

record Error =
  er_lang :: string
  er_status :: string
  er_args :: "string list"

datatype Any =
    VNil
  | VBool bool
  | VStr string
  | VNum ikind int
  | VFloat32 float_val
  | VFloat64 float_val
  | VTime int nat
  | VStrs "string list"
  | VNums ikind "int list"
  | VFloats32 "float_val list"
  | VFloats64 "float_val list"
  | VTimes "(int \<times> nat) list"
  | VAnys "Any list"
  | VMap "(string \<times> Any) list"
  | VMaps "(string \<times> Any) list list"
  | VError Error
  | VFunc fkind nat
  | VFuncs fkind "nat list"
  | VConst dataconst
  | VOther nat

type_synonym Map = "(string \<times> Any) list"

abbreviation DEFAULT :: string where
  "DEFAULT \<equiv> ''default''"

definition newError :: "string \<Rightarrow> string list \<Rightarrow> Error" where
  "newError status args = \<lparr>er_lang = DEFAULT, er_status = status, er_args = args\<rparr>"

text \<open>Reading \<open>m[k]\<close> gives \<open>nil\<close> for a missing key.\<close>

definition map_get :: "Map \<Rightarrow> string \<Rightarrow> Any" where
  "map_get m k = (case map_of m k of Some v \<Rightarrow> v | None \<Rightarrow> VNil)"

text \<open>\<open>v.(string)\<close>; a failed assertion is \<open>None\<close>.\<close>

fun as_string :: "Any \<Rightarrow> string option" where
  "as_string (VStr s) = Some s"
| "as_string _ = None"

fun as_Map :: "Any \<Rightarrow> Map option" where
  "as_Map (VMap m) = Some m"
| "as_Map _ = None"

lemma map_get_simps [simp]:
  "map_get [] k = VNil" "map_get ((k', v) # m) k = (if k = k' then v else map_get m k)"
  by (simp_all add: map_get_def)

text \<open>Sizes for the recursion through lists and maps.\<close>

lemma size_list_mem: "x \<in> set xs \<Longrightarrow> f x < size_list f xs"
  by (induction xs) auto

lemma size_map_value: "(k, v) \<in> set m \<Longrightarrow> size v \<le> size_list (size_prod (\<lambda>x. 0) size) m"
  by (induction m) auto

lemma size_maps_member: "m \<in> set ms \<Longrightarrow> Suc (f m) \<le> size_list f ms"
  by (rule Suc_leI) (rule size_list_mem)

section \<open>Printing with \<open>%v\<close>\<close>

fun intersperse_str :: "string \<Rightarrow> string list \<Rightarrow> string" where
  "intersperse_str sep [] = []"
| "intersperse_str sep [x] = x"
| "intersperse_str sep (x # y # xs) = x @ sep @ intersperse_str sep (y # xs)"

text \<open>
  \<open>fmt.Sprintf("%v", v)\<close>. Maps print their keys in order. How floating-point numbers, times,
  errors, functions and values of other types print is an argument.
\<close>

function (sequential) sprint :: "(Any \<Rightarrow> string) \<Rightarrow> Any \<Rightarrow> string" where
  "sprint show VNil = ''<nil>''"
| "sprint show (VBool b) = (if b then ''true'' else ''false'')"
| "sprint show (VStr s) = s"
| "sprint show (VNum k n) = Itoa n"
| "sprint show (VStrs xs) = CHR ''['' # intersperse_str '' '' xs @ '']''"
| "sprint show (VNums k ns) = CHR ''['' # intersperse_str '' '' (map Itoa ns) @ '']''"
| "sprint show (VAnys vs) = CHR ''['' # intersperse_str '' '' (map (sprint show) vs) @ '']''"
| "sprint show (VMap m) = ''map['' @ intersperse_str '' '' (map (\<lambda>(k, s). k @ '':'' @ s) (sort_key fst (map (\<lambda>(k, v). (k, sprint show v)) m))) @ '']''"
| "sprint show (VMaps ms) = CHR ''['' # intersperse_str '' '' (map (\<lambda>m. sprint show (VMap m)) ms) @ '']''"
| "sprint show (VConst c) = ''{}''"
| "sprint show v = show v"
  by pat_completeness auto
termination
  by (relation "measure (\<lambda>(s, v). size v)") (auto simp: less_Suc_eq_le intro!: less_imp_le [OF size_list_mem] size_map_value size_maps_member)

end
