(* ===== verification/Query_Parser.thy ===== *)
theory Query_Parser
  imports Go_Values
begin

text \<open>
  The query language of the data module (\<open>data.go\<close>, functions \<open>Parse\<close> and \<open>parsing\<close>): conditions given
  as maps become SQL with a question mark for each parameter. Texts are ASCII; a Go map is visited in the order
  of its list.
\<close>

section \<open>Conditions\<close>

abbreviation DELIMS :: string where "DELIMS \<equiv> [CHR 0x22]"
abbreviation RANDBY :: string where "RANDBY \<equiv> ''$RANDBY$''"
abbreviation op_IN :: string where "op_IN \<equiv> ''$$IN$$''"
abbreviation op_NIN :: string where "op_NIN \<equiv> ''$$NOTIN$$''"
abbreviation op_ANY :: string where "op_ANY \<equiv> ''$$ANY$$''"
abbreviation op_FULL :: string where "op_FULL \<equiv> ''$$full$$''"
abbreviation op_LEFT :: string where "op_LEFT \<equiv> ''$$left$$''"
abbreviation op_RIGHT :: string where "op_RIGHT \<equiv> ''$$right$$''"

definition quoted_field :: "string \<Rightarrow> string" where
  "quoted_field k = (case strings_Split k (CHR '':'') of
      d0 # d1 # _ \<Rightarrow> DELIMS @ d0 @ DELIMS @ ''['' @ d1 @ '']''
    | _ \<Rightarrow> DELIMS @ k @ DELIMS)"

text \<open>\<open>strings.Replace(s, "'", "''", -1)\<close>\<close>

definition double_quotes :: "string \<Rightarrow> string" where
  "double_quotes s = concat (map (\<lambda>c. if c = CHR 0x27 then [CHR 0x27, CHR 0x27] else [c]) s)"

fun in_values :: "Any \<Rightarrow> Any list" where
  "in_values (VNums KInt ns) = (if ns = [] then [VNum KInt 0] else map (VNum KInt) ns)"
| "in_values (VNums KInt64 ns) = (if ns = [] then [VNum KInt 0] else map (VNum KInt64) ns)"
| "in_values (VStrs ss) = (if ss = [] then [VNum KInt 0] else map VStr ss)"
| "in_values (VAnys vs) = (if vs = [] then [VNum KInt 0] else vs)"
| "in_values v = [v]"

definition join_marks :: "'a list \<Rightarrow> string" where
  "join_marks vs = intersperse_str '','' (map (\<lambda>_. ''?'') vs)"

text \<open>One operator of a field: its condition and its parameters. The constants \<open>LIKE\<close> and \<open>FULL\<close> are the same.\<close>

definition op_cond :: "(Any \<Rightarrow> string) \<Rightarrow> string \<Rightarrow> string \<Rightarrow> Any \<Rightarrow> string \<times> Any list" where
  "op_cond show k opKey opVal =
     (let safe = double_quotes (sprint show opVal); q = [CHR 0x27]
      in if opKey = op_FULL then (k @ '' LIKE '' @ q @ ''%'' @ safe @ ''%'' @ q, [])
         else if opKey = op_LEFT then (k @ '' LIKE '' @ q @ safe @ ''%'' @ q, [])
         else if opKey = op_RIGHT then (k @ '' LIKE '' @ q @ ''%'' @ safe @ q, [])
         else if opKey = op_ANY then (''? = ANY('' @ k @ '')'', [opVal])
         else if opKey = op_IN then (k @ '' IN('' @ join_marks (in_values opVal) @ '')'', in_values opVal)
         else if opKey = op_NIN then (k @ '' NOT IN('' @ join_marks (in_values opVal) @ '')'', in_values opVal)
         else (k @ '' '' @ opKey @ '' ?'', [opVal]))"

definition op_conds :: "(Any \<Rightarrow> string) \<Rightarrow> string \<Rightarrow> Map \<Rightarrow> string \<times> Any list" where
  "op_conds show k ops =
     (let cs = map (\<lambda>(opKey, opVal). op_cond show k opKey opVal) ops
      in (''('' @ intersperse_str '' AND '' (map fst cs) @ '')'', concat (map snd cs)))"

text \<open>The conditions, parameters and orders of one entry of a map; a list of maps is a disjunction.\<close>

type_synonym parsed = "string list \<times> Any list \<times> string list"

abbreviation parens :: "string \<Rightarrow> string list \<Rightarrow> string" where
  "parens sep xs \<equiv> ''('' @ intersperse_str sep xs @ '')''"

function (sequential) parse_cond :: "(Any \<Rightarrow> string) \<Rightarrow> string \<Rightarrow> Any \<Rightarrow> parsed"
  and parse_map :: "(Any \<Rightarrow> string) \<Rightarrow> Map \<Rightarrow> parsed"
  and parsing :: "(Any \<Rightarrow> string) \<Rightarrow> Map list \<Rightarrow> parsed" where
  "parse_cond show k (VConst ASC) = ([], [], [k @ '' ASC''])"
| "parse_cond show k (VConst DESC) = ([], [], [k @ '' DESC''])"
| "parse_cond show k (VConst RAND) = ([], [], [RANDBY @ '' ASC''])"
| "parse_cond show k VNil = ([k @ '' IS NULL''], [], [])"
| "parse_cond show k (VConst NIL) = ([k @ '' IS NULL''], [], [])"
| "parse_cond show k (VConst NOL) = ([k @ '' IS NOT NULL''], [], [])"
| "parse_cond show k (VMaps ms) = (case parsing show ms of (qs, vs, os) \<Rightarrow>
     if qs \<noteq> [] then ([parens '' OR '' qs], vs, os) else ([], [], os))"
| "parse_cond show k (VMap ops) = (case op_conds show k ops of (c, vs) \<Rightarrow> ([c], vs, []))"
| "parse_cond show k v = ([k @ '' = ?''], [v], [])"
| "parse_map show [] = ([], [], [])"
| "parse_map show ((k, v) # m) = (case parse_cond show (quoted_field k) v of (as1, vs, os) \<Rightarrow>
     case parse_map show m of (as2, vs', os') \<Rightarrow> (as1 @ as2, vs @ vs', os @ os'))"
| "parsing show [] = ([], [], [])"
| "parsing show (m # ms) = (case parse_map show m of (ands, vs, os) \<Rightarrow>
     case parsing show ms of (qs, vs', os') \<Rightarrow>
       (if ands \<noteq> [] then parens '' AND '' ands # qs else qs, vs @ vs', os @ os'))"
  by pat_completeness auto
termination
  by (relation "measure (\<lambda>x. case x of
      Inl (s, k, v) \<Rightarrow> size v
    | Inr (Inl (s, m)) \<Rightarrow> size_list (size_prod (\<lambda>x. 0) size) m
    | Inr (Inr (s, ms)) \<Rightarrow> size_list (size_list (size_prod (\<lambda>x. 0) size)) ms)") auto

section \<open>The query\<close>

text \<open>\<open>strings.Index(strings.ToLower(sql), "order by")\<close>\<close>

fun index_sub :: "string \<Rightarrow> string \<Rightarrow> nat option" where
  "index_sub p [] = (if p = [] then Some 0 else None)"
| "index_sub p (c # s) = (if HasPrefix (c # s) p then Some 0 else map_option Suc (index_sub p s))"

definition raw_query :: "string \<Rightarrow> string \<times> string" where
  "raw_query sql = (case index_sub ''order by'' (ToLower sql) of
      Some i \<Rightarrow> (take i sql, drop i sql)
    | None \<Rightarrow> (sql, []))"

text \<open>The SQL, the parameters and the order clause; \<open>Parse\<close> never fails.\<close>

definition Data_Parse :: "(Any \<Rightarrow> string) \<Rightarrow> Any list \<Rightarrow> string \<times> Any list \<times> string" where
  "Data_Parse show args = (case args of
      [] \<Rightarrow> (''1=1'', [], [])
    | VStr sql # params \<Rightarrow> (case raw_query sql of (q, orderBy) \<Rightarrow> (q, params, orderBy))
    | _ \<Rightarrow> (case parsing show (List.map_filter as_Map args) of (querys, values, orders) \<Rightarrow>
        (intersperse_str '' OR '' (if querys = [] then [''1=1''] else querys), values,
         if orders = [] then [] else ''ORDER BY '' @ intersperse_str '','' orders)))"

section \<open>Placeholders and parameters\<close>

abbreviation marks :: "string \<Rightarrow> nat" where
  "marks s \<equiv> count_list s CHR ''?''"

lemma marks_intersperse: "marks sep = 0 \<Longrightarrow> marks (intersperse_str sep xs) = sum_list (map marks xs)"
  by (induction sep xs rule: intersperse_str.induct) auto

lemma marks_join: "marks (join_marks vs) = length vs"
  by (simp add: join_marks_def marks_intersperse comp_def) (induction vs; simp)

text \<open>
  Conditions whose names, operators and texts to search for have no question mark of their own.
\<close>

definition clean_op :: "(Any \<Rightarrow> string) \<Rightarrow> string \<Rightarrow> Any \<Rightarrow> bool" where
  "clean_op show opKey opVal \<longleftrightarrow> CHR ''?'' \<notin> set opKey \<and>
     (opKey \<in> {op_FULL, op_LEFT, op_RIGHT} \<longrightarrow> CHR ''?'' \<notin> set (sprint show opVal))"

function (sequential) clean :: "(Any \<Rightarrow> string) \<Rightarrow> Any \<Rightarrow> bool" where
  "clean show (VMap ops) \<longleftrightarrow> list_all (\<lambda>(opKey, opVal). clean_op show opKey opVal) ops"
| "clean show (VMaps ms) \<longleftrightarrow> list_all (list_all (\<lambda>(k, v). CHR ''?'' \<notin> set k \<and> clean show v)) ms"
| "clean show v \<longleftrightarrow> True"
  by pat_completeness auto
termination
proof (relation "measure (\<lambda>(s, v). size v)", goal_cases)
  case (2 sh ms m kv k v)
  then have "size v \<le> size_list (size_prod (\<lambda>x. 0) size) m" using size_map_value [of k v m] by simp
  then show ?case using size_maps_member [OF 2(1), of "size_list (size_prod (\<lambda>x. 0) size)"] by simp
qed auto

abbreviation clean_map :: "(Any \<Rightarrow> string) \<Rightarrow> Map \<Rightarrow> bool" where
  "clean_map show m \<equiv> list_all (\<lambda>(k, v). CHR ''?'' \<notin> set k \<and> clean show v) m"

lemma set_split_by: "p \<in> set (split_by f s) \<Longrightarrow> set p \<subseteq> set s"
proof (induction f s arbitrary: p rule: split_by.induct)
  case (2 f x xs)
  obtain h r where hr: "split_by f xs = h # r" by (cases xs) (simp, force)
  have "set q \<subseteq> set xs" if "q \<in> set (split_by f xs)" for q using "2.IH" that by (cases "f x") blast+
  then have "set h \<subseteq> set xs" "\<And>q. q \<in> set r \<Longrightarrow> set q \<subseteq> set xs" by (simp_all add: hr)
  with "2.prems" show ?case by (auto simp: hr split: if_splits)
qed simp

lemma marks_0_iff [simp]: "marks s = 0 \<longleftrightarrow> CHR ''?'' \<notin> set s"
  by (simp add: count_list_0_iff)

lemma marks_quoted_field: "CHR ''?'' \<notin> set k \<Longrightarrow> CHR ''?'' \<notin> set (quoted_field k)"
  using set_split_by [of _ "\<lambda>c. c = CHR '':''" k]
  by (fastforce simp: quoted_field_def strings_Split_def split: list.splits)

lemma set_double_quotes: "set (double_quotes s) \<subseteq> set s"
  by (auto simp: double_quotes_def split: if_splits)

lemma marks_op_cond:
  assumes "CHR ''?'' \<notin> set k" and "clean_op show opKey opVal"
  shows "marks (fst (op_cond show k opKey opVal)) = length (snd (op_cond show k opKey opVal))"
proof -
  have k: "marks k = 0" and o: "marks opKey = 0" using assms by (simp_all add: clean_op_def)
  have s: "marks (double_quotes (sprint show opVal)) = 0" if "opKey \<in> {op_FULL, op_LEFT, op_RIGHT}"
    using assms(2) that set_double_quotes by (fastforce simp: clean_op_def)
  show ?thesis using k o s unfolding op_cond_def Let_def
    by (simp add: marks_join del: marks_0_iff)
qed

lemma marks_op_conds:
  assumes "CHR ''?'' \<notin> set k" and "clean show (VMap ops)" and "op_conds show k ops = (c, vs)"
  shows "marks c = length vs"
proof -
  let ?c = "\<lambda>x. op_cond show k (fst x) (snd x)"
  have "sum_list (map (marks \<circ> fst \<circ> ?c) ops) = length (concat (map (snd \<circ> ?c) ops))"
    using assms(1,2) by (induction ops) (auto simp: marks_op_cond)
  then show ?thesis using assms(3) by (auto simp: op_conds_def Let_def marks_intersperse comp_def case_prod_unfold)
qed

definition balanced :: "parsed \<Rightarrow> bool" where
  "balanced r \<longleftrightarrow> sum_list (map marks (fst r)) = length (fst (snd r))"

lemma parsing_balanced:
  "CHR ''?'' \<notin> set k \<Longrightarrow> clean sh v \<Longrightarrow> balanced (parse_cond sh k v)"
  "clean_map sh m \<Longrightarrow> balanced (parse_map sh m)"
  "list_all (clean_map sh) ms \<Longrightarrow> balanced (parsing sh ms)"
proof (induction sh k v and sh m and sh ms rule: parse_cond_parse_map_parsing.induct)
  case (7 sh k ms)
  then show ?case by (auto simp: balanced_def marks_intersperse split: prod.splits)
next
  case (8 sh k ops)
  then show ?case by (auto simp: balanced_def dest: marks_op_conds split: prod.splits)
qed (auto simp: balanced_def marks_quoted_field marks_intersperse split: prod.splits)

text \<open>
  C20: The SQL of a query built from maps has exactly one question mark for each parameter, as long as the names,
  operators and searched texts contain none, whatever values are compared with and however the
  conditions are nested.
\<close>

theorem placeholders_match_parameters:
  assumes "Data_Parse sh args = (sql, params, orders)" and "\<And>s ps. args \<noteq> VStr s # ps"
    and "\<And>m. VMap m \<in> set args \<Longrightarrow> clean_map sh m"
  shows "marks sql = length params"
proof (cases args)
  case Nil
  with assms(1) show ?thesis by (auto simp: Data_Parse_def)
next
  case (Cons a as)
  obtain qs vs os where p: "parsing sh (List.map_filter as_Map args) = (qs, vs, os)" using prod_cases3 by blast
  have "Data_Parse sh args = (intersperse_str '' OR '' (if qs = [] then [''1=1''] else qs), vs,
      if os = [] then [] else ''ORDER BY '' @ intersperse_str '','' os)"
    using assms(2) p Cons unfolding Data_Parse_def by (cases a) auto
  then have q: "sql = intersperse_str '' OR '' (if qs = [] then [''1=1''] else qs)" "params = vs" using assms(1) by auto
  have "set (List.map_filter as_Map args) = {m. VMap m \<in> set args}"
  proof -
    have "as_Map x = Some m \<longleftrightarrow> x = VMap m" for x m by (cases x) auto
    then show ?thesis by (force simp: List.map_filter_def)
  qed
  then have "list_all (clean_map sh) (List.map_filter as_Map args)" using assms(3) by (simp add: list_all_iff)
  then have "balanced (qs, vs, os)" using parsing_balanced(3) p by metis
  then show ?thesis by (auto simp: q balanced_def marks_intersperse)
qed

theorem placeholders_match_parameters_witness:
  "\<exists>sql params orders. Data_Parse (\<lambda>_. ''?'') [VMap [(''views'', VMap [(''>'', VNum KInt 1), (op_IN, VStrs [''?'', ''b''])]), (''id'', VConst ASC)]] =
     (sql, params, orders) \<and> params = [VNum KInt 1, VStr ''?'', VStr ''b''] \<and> marks sql = 3"
proof -
  let ?args = "[VMap [(''views'', VMap [(''>'', VNum KInt 1), (op_IN, VStrs [''?'', ''b''])]), (''id'', VConst ASC)]]"
  obtain sql params orders where p: "Data_Parse (\<lambda>_. ''?'') ?args = (sql, params, orders)" using prod_cases3 by blast
  then have "params = [VNum KInt 1, VStr ''?'', VStr ''b'']"
    by (auto simp: Data_Parse_def List.map_filter_def op_conds_def op_cond_def)
  moreover have "marks sql = length params"
    by (rule placeholders_match_parameters [OF p]) (auto simp: clean_op_def)
  ultimately show ?thesis using p by auto
qed

text \<open>
  The text of a search is not a parameter but part of the SQL. A question mark in it is one more placeholder: the
  query for titles that contain \<open>why?\<close> has a placeholder and no parameter.
\<close>

theorem search_text_adds_placeholder:
  "\<exists>sql orders. Data_Parse sh [VMap [(''title'', VMap [(op_FULL, VStr ''why?'')])]] = (sql, [], orders) \<and> marks sql = 1"
  by (simp add: Data_Parse_def List.map_filter_def op_conds_def op_cond_def quoted_field_def strings_Split_def double_quotes_def)

end
