(* ===== verification/Hashid.thy ===== *)
theory Hashid
  imports Go_Strings "HOL-Library.Multiset"
begin

text \<open>
  Short ids from numbers (\<open>hashid/hashids.go\<close>). Strings are lists of runes (code points), as
  the code converts every string with \<open>[]rune\<close>; only the length of the alphabet is taken in
  bytes. Indexes and the accumulator of the shuffle are sums of a few code points per rune of the
  alphabet, far below \<open>int64\<close>, and are natural numbers; the numbers themselves and their
  running sums wrap at 64 bits. The two quotients in floating point (by 3.5 and by 12) are
  exact to the next integer for lengths below \<open>2^50\<close> and are integer divisions here.
\<close>

section \<open>Data\<close>

type_synonym rune = nat

record HashID =
  h_alphabet :: "rune list"
  h_minLength :: int
  h_maxLengthPerNumber :: int
  h_salt :: "rune list"
  h_seps :: "rune list"
  h_guards :: "rune list"

record HashIDData =
  d_Alphabet :: "rune list"
  d_MinLength :: int
  d_Salt :: "rune list"

definition runes :: "string \<Rightarrow> rune list" where
  "runes = map of_char"

definition rune_len :: "rune \<Rightarrow> nat" where
  "rune_len r = (if r < 128 then 1 else if r < 2048 then 2 else if r < 65536 then 3 else 4)"

definition byte_len :: "rune list \<Rightarrow> nat" where
  "byte_len rs = sum_list (map rune_len rs)"

definition DefaultAlphabet :: "rune list" where
  "DefaultAlphabet = runes ''abcdefghijklmnopqrstuvwxyzABCDEFGHIJKLMNOPQRSTUVWXYZ1234567890''"

definition sepsOriginal :: "rune list" where
  "sepsOriginal = runes ''cfhistuCFHISTU''"

definition minAlphabetLength :: nat where
  "minAlphabetLength = 16"

definition NewData :: HashIDData where
  "NewData = \<lparr>d_Alphabet = DefaultAlphabet, d_MinLength = 0, d_Salt = []\<rparr>"

section \<open>The shuffle\<close>

definition swap :: "'a list \<Rightarrow> nat \<Rightarrow> nat \<Rightarrow> 'a list" where
  "swap xs i j = xs[i := xs ! j, j := xs ! i]"

fun shuffle_loop :: "nat \<Rightarrow> nat \<Rightarrow> nat \<Rightarrow> rune list \<Rightarrow> rune list \<Rightarrow> rune list" where
  "shuffle_loop 0 v p salt xs = xs"
| "shuffle_loop (Suc i) v p salt xs =
     (let p' = p + salt ! v; j = (salt ! v + v + p') mod Suc i
      in shuffle_loop i ((v + 1) mod length salt) p' salt (swap xs (Suc i) j))"

definition consistentShuffleInPlace :: "rune list \<Rightarrow> rune list \<Rightarrow> rune list" where
  "consistentShuffleInPlace alphabet salt =
     (if salt = [] then alphabet else shuffle_loop (length alphabet - 1) 0 0 salt alphabet)"

text \<open>The same on a copy of the alphabet.\<close>

definition consistentShuffle :: "rune list \<Rightarrow> rune list \<Rightarrow> rune list" where
  "consistentShuffle alphabet salt =
     (if salt = [] then alphabet else shuffle_loop (length alphabet - 1) 0 0 salt alphabet)"

section \<open>Numbers to digits and back\<close>

text \<open>The loop of \<open>hash\<close>; \<open>None\<close> when it does not end.\<close>

partial_function (option) hash_loop :: "nat \<Rightarrow> rune list \<Rightarrow> rune list \<Rightarrow> rune list option" where
  "hash_loop input alphabet result =
     (let result' = result @ [alphabet ! (input mod length alphabet)]; input' = input div length alphabet
      in if input' = 0 then Some result' else hash_loop input' alphabet result')"

declare hash_loop.simps [code]

definition hash :: "nat \<Rightarrow> rune list \<Rightarrow> rune list outcome" where
  "hash input alphabet =
     (if alphabet = [] then Panic ''integer divide by zero''
      else case hash_loop input alphabet [] of Some result \<Rightarrow> Ret (rev result) | None \<Rightarrow> Diverge)"

fun unhash_loop :: "int \<Rightarrow> rune list \<Rightarrow> rune list \<Rightarrow> string + int" where
  "unhash_loop result alphabet [] = Inr result"
| "unhash_loop result alphabet (r # input) =
     (case index_char r alphabet of
        None \<Rightarrow> Inl ''alphabet used for hash was different''
      | Some pos \<Rightarrow> unhash_loop (i64 (result * int (length alphabet) + int pos)) alphabet input)"

definition unhash :: "rune list \<Rightarrow> rune list \<Rightarrow> string + int" where
  "unhash input alphabet = unhash_loop 0 alphabet input"

section \<open>Splitting\<close>

definition split_indices :: "rune list \<Rightarrow> rune list \<Rightarrow> nat list" where
  "split_indices input seps =
     concat (map (\<lambda>(i, r). map (\<lambda>_. i) (filter (\<lambda>s. r = s) seps)) (enumerate 0 input))"

fun split_loop :: "nat \<Rightarrow> nat list \<Rightarrow> rune list \<Rightarrow> rune list list outcome" where
  "split_loop n [] left = Ret [left]"
| "split_loop n (idx # idxs) left =
     (if idx + length left < n then Panic ''slice bounds out of range''
      else let k = idx - (n - length left)
           in obind (split_loop n idxs (drop (Suc k) left)) (\<lambda>rest. Ret (take k left # rest)))"

definition splitRunes :: "rune list \<Rightarrow> rune list \<Rightarrow> rune list list outcome" where
  "splitRunes input seps = split_loop (length input) (split_indices input seps) input"

section \<open>Encoding\<close>

text \<open>\<open>numbersHash\<close>: the sum over the numbers from position \<open>i\<close> on, wrapping.\<close>

fun numbers_hash :: "int \<Rightarrow> nat \<Rightarrow> int list \<Rightarrow> int" where
  "numbers_hash acc i [] = acc"
| "numbers_hash acc i (n # ns) = numbers_hash (i64 (acc + n mod (int i + 100))) (Suc i) ns"

definition next_alphabet :: "HashID \<Rightarrow> rune \<Rightarrow> rune list \<Rightarrow> rune list" where
  "next_alphabet h lottery alphabet =
     consistentShuffleInPlace alphabet (take (length alphabet) (lottery # h_salt h @ alphabet))"

text \<open>The loop over the numbers: the runes so far and the alphabet, shuffled in place.\<close>

fun encode_loop :: "HashID \<Rightarrow> rune \<Rightarrow> nat \<Rightarrow> int list \<Rightarrow> rune list \<Rightarrow> rune list \<Rightarrow> (rune list \<times> rune list) outcome" where
  "encode_loop h lottery i [] alphabet result = Ret (result, alphabet)"
| "encode_loop h lottery i (n # ns) alphabet result =
     (let alphabet' = next_alphabet h lottery alphabet
      in obind (hash (nat n) alphabet') (\<lambda>hashBuf.
         if ns = [] then encode_loop h lottery (Suc i) ns alphabet' (result @ hashBuf)
         else let d = hashBuf ! 0 + i
              in if d = 0 \<or> h_seps h = [] then Panic ''integer divide by zero''
              else encode_loop h lottery (Suc i) ns alphabet'
                     (result @ hashBuf @ [h_seps h ! (nat n mod d mod length (h_seps h))])))"

text \<open>\<open>xs[k%len(xs)]\<close> with Go's remainder, which has the sign of \<open>k\<close>.\<close>

definition rem_at :: "rune list \<Rightarrow> int \<Rightarrow> rune outcome" where
  "rem_at xs k =
     (if xs = [] then Panic ''integer divide by zero''
      else if k < 0 \<and> (- k) mod int (length xs) \<noteq> 0 then Panic ''index out of range''
      else Ret (xs ! (nat k mod length xs)))"

text \<open>The guards before and after a short result.\<close>

definition add_guards :: "HashID \<Rightarrow> int \<Rightarrow> rune list \<Rightarrow> rune list outcome" where
  "add_guards h numbersHash result =
     (if int (length result) < h_minLength h
      then obind (rem_at (h_guards h) (i64 (numbersHash + int (result ! 0)))) (\<lambda>g1.
           let result1 = g1 # result
           in if int (length result1) < h_minLength h
              then obind (rem_at (h_guards h) (i64 (numbersHash + int (result1 ! 2)))) (\<lambda>g2. Ret (result1 @ [g2]))
              else Ret result1)
      else Ret result)"

text \<open>The padding with halves of the alphabet; the alphabet is not empty here.\<close>

definition pad_turn :: "int \<Rightarrow> rune list \<Rightarrow> rune list \<Rightarrow> rune list" where
  "pad_turn minLength alphabet result =
     (let halfLength = length alphabet div 2;
          result1 = drop halfLength alphabet @ result @ take halfLength alphabet;
          excess = int (length result1) - minLength
      in if excess > 0 then take (nat minLength) (drop (nat (excess div 2)) result1) else result1)"

function pad_loop :: "int \<Rightarrow> rune list \<Rightarrow> rune list \<Rightarrow> rune list" where
  "pad_loop minLength alphabet result =
     (if int (length result) < minLength \<and> alphabet \<noteq> []
      then let alphabet' = consistentShuffleInPlace alphabet alphabet
           in pad_loop minLength alphabet' (pad_turn minLength alphabet' result)
      else result)"
  by pat_completeness auto

lemma length_swap [simp]: "length (swap xs i j) = length xs"
  by (simp add: swap_def)

lemma length_shuffle_loop [simp]: "length (shuffle_loop i v p salt xs) = length xs"
  by (induction i arbitrary: v p xs) (simp_all add: Let_def)

lemma length_shuffle [simp]: "length (consistentShuffleInPlace xs salt) = length xs"
  by (simp add: consistentShuffleInPlace_def)

lemma length_pad_turn:
  assumes "int (length result) < m" and "alphabet \<noteq> []"
  shows "length result < length (pad_turn m alphabet result)"
proof -
  define r1 where "r1 = drop (length alphabet div 2) alphabet @ result @ take (length alphabet div 2) alphabet"
  define e where "e = int (length r1) - m"
  have l: "length r1 = length result + length alphabet" by (simp add: r1_def)
  have p: "pad_turn m alphabet result = (if e > 0 then take (nat m) (drop (nat (e div 2)) r1) else r1)"
    by (simp add: pad_turn_def Let_def r1_def e_def)
  show ?thesis
  proof (cases "e > 0")
    case True
    then have "nat m + nat (e div 2) \<le> length r1" using assms(1) by (simp add: e_def)
    then have "length (take (nat m) (drop (nat (e div 2)) r1)) = nat m" by simp
    with True p assms(1) show ?thesis by simp
  next
    case False
    with p l assms(2) show ?thesis by simp
  qed
qed

termination pad_loop
proof (relation "measure (\<lambda>(m, alphabet, result). nat (m - int (length result)))", goal_cases)
  case (2 m alphabet result x)
  then have "x \<noteq> []" using length_shuffle [of alphabet alphabet] by (metis length_0_conv)
  with 2 length_pad_turn [of result m x] show ?case by simp
qed simp

declare pad_loop.simps [simp del]

definition EncodeInt64 :: "HashID \<Rightarrow> int list \<Rightarrow> (string + rune list) outcome" where
  "EncodeInt64 h numbers =
     (if numbers = [] then Ret (Inl ''encoding empty array of numbers makes no sense'')
      else if \<exists>n \<in> set numbers. n < 0 then Ret (Inl ''negative number not supported'')
      else let numbersHash = numbers_hash 0 0 numbers
           in obind (rem_at (h_alphabet h) numbersHash) (\<lambda>lottery.
              obind (encode_loop h lottery 0 numbers (h_alphabet h) [lottery]) (\<lambda>(result, alphabet).
              obind (add_guards h numbersHash result) (\<lambda>result1.
                Ret (Inr (pad_loop (h_minLength h) alphabet result1))))))"

definition Encode :: "HashID \<Rightarrow> int list \<Rightarrow> (string + rune list) outcome" where
  "Encode h numbers = EncodeInt64 h numbers"

text \<open>The number of a hexadecimal digit, as the byte arithmetic of the switch computes it.\<close>

definition hex_value :: "rune \<Rightarrow> int option" where
  "hex_value b =
     (if 48 \<le> b \<and> b \<le> 57 then Some (int b - 48)
      else if 97 \<le> b \<and> b \<le> 102 then Some (int b - 32 - 55)
      else if 65 \<le> b \<and> b \<le> 70 then Some (int b - 55)
      else None)"

definition EncodeHex :: "HashID \<Rightarrow> rune list \<Rightarrow> (string + rune list) outcome" where
  "EncodeHex h hex =
     (case those (map hex_value hex) of
        None \<Rightarrow> Ret (Inl ''invalid hex digit'')
      | Some bs \<Rightarrow> Encode h (map (\<lambda>b. 16 + b) bs))"

section \<open>Decoding\<close>

fun decode_loop :: "HashID \<Rightarrow> rune \<Rightarrow> rune list list \<Rightarrow> rune list \<Rightarrow> int list \<Rightarrow> string + int list" where
  "decode_loop h lottery [] alphabet result = Inr result"
| "decode_loop h lottery (subHash # hashes) alphabet result =
     (let alphabet' = next_alphabet h lottery alphabet
      in case unhash subHash alphabet' of
           Inl err \<Rightarrow> Inl err
         | Inr number \<Rightarrow> decode_loop h lottery hashes alphabet' (result @ [number]))"

text \<open>The result and the error; the result is given also with the mismatch error.\<close>

definition check_decoded :: "HashID \<Rightarrow> rune list \<Rightarrow> int list \<Rightarrow> (int list \<times> string option) outcome" where
  "check_decoded h hsh result =
     obind (EncodeInt64 h result) (\<lambda>r.
       let sanityCheck = (case r of Inl _ \<Rightarrow> [] | Inr s \<Rightarrow> s)
       in Ret (result, if sanityCheck \<noteq> hsh then Some ''mismatch between encode and decode'' else None))"

definition DecodeInt64WithError :: "HashID \<Rightarrow> rune list \<Rightarrow> (int list \<times> string option) outcome" where
  "DecodeInt64WithError h hsh =
     obind (splitRunes hsh (h_guards h)) (\<lambda>hashes.
       let hashIndex = (if length hashes = 2 \<or> length hashes = 3 then 1 else 0);
           hashBreakdown = hashes ! hashIndex
       in if hashBreakdown = [] then check_decoded h hsh []
          else obind (splitRunes (tl hashBreakdown) (h_seps h)) (\<lambda>parts.
            case decode_loop h (hd hashBreakdown) parts (h_alphabet h) [] of
              Inl err \<Rightarrow> Ret ([], Some err)
            | Inr result \<Rightarrow> check_decoded h hsh result))"

definition DecodeInt64 :: "HashID \<Rightarrow> rune list \<Rightarrow> int list outcome" where
  "DecodeInt64 h hsh =
     obind (DecodeInt64WithError h hsh) (\<lambda>(result, err). case err of Some e \<Rightarrow> Panic e | None \<Rightarrow> Ret result)"

definition DecodeWithError :: "HashID \<Rightarrow> rune list \<Rightarrow> (int list \<times> string option) outcome" where
  "DecodeWithError h hsh =
     obind (DecodeInt64WithError h hsh) (\<lambda>(result, err). case err of Some e \<Rightarrow> Ret ([], Some e) | None \<Rightarrow> Ret (result, None))"

definition Decode :: "HashID \<Rightarrow> rune list \<Rightarrow> int list outcome" where
  "Decode h hsh = obind (DecodeWithError h hsh) (\<lambda>(result, err). case err of Some e \<Rightarrow> Panic e | None \<Rightarrow> Ret result)"

definition hex_digit :: "int \<Rightarrow> rune option" where
  "hex_digit n = (if n < 16 \<or> 31 < n then None else Some (runes ''0123456789abcdef'' ! nat (n - 16)))"

definition DecodeHex :: "HashID \<Rightarrow> rune list \<Rightarrow> (string + rune list) outcome" where
  "DecodeHex h hsh =
     obind (DecodeInt64WithError h hsh) (\<lambda>(numbers, err).
       case err of
         Some e \<Rightarrow> Ret (Inl e)
       | None \<Rightarrow> (case those (map hex_digit numbers) of
                   None \<Rightarrow> Ret (Inl ''invalid number'')
                 | Some b \<Rightarrow> Ret (Inr b)))"

section \<open>Construction\<close>

text \<open>
  The separators present in the alphabet, and the alphabet without them; then more separators
  taken from the alphabet when it is long against them.
\<close>

definition initial_seps :: "rune list \<Rightarrow> rune list \<times> rune list" where
  "initial_seps alphabet =
     (let seps = filter (\<lambda>r. r \<in> set alphabet) sepsOriginal in (seps, filter (\<lambda>r. r \<notin> set seps) alphabet))"

definition extend_seps :: "rune list \<Rightarrow> rune list \<Rightarrow> rune list \<times> rune list" where
  "extend_seps seps alphabet =
     (if seps = [] \<or> 2 * length alphabet > 7 * length seps
      then let n = (2 * length alphabet + 6) div 7; sepsLength = (if n = 1 then 2 else n)
           in if sepsLength > length seps
              then let diff = sepsLength - length seps in (seps @ take diff alphabet, drop diff alphabet)
              else (take sepsLength seps, alphabet)
      else (seps, alphabet))"

definition take_guards :: "rune list \<Rightarrow> rune list \<Rightarrow> rune list \<times> rune list \<times> rune list" where
  "take_guards seps alphabet =
     (let guardCount = (length alphabet + 11) div 12
      in if length alphabet < 3 then (take guardCount seps, drop guardCount seps, alphabet)
         else (take guardCount alphabet, seps, drop guardCount alphabet))"

definition build_hid :: "HashIDData \<Rightarrow> HashID" where
  "build_hid data =
     (let (seps0, alphabet0) = initial_seps (d_Alphabet data);
          (seps1, alphabet1) = extend_seps (consistentShuffleInPlace seps0 (d_Salt data)) alphabet0;
          (guards, seps, alphabet) = take_guards seps1 (consistentShuffleInPlace alphabet1 (d_Salt data))
      in \<lparr>h_alphabet = alphabet, h_minLength = d_MinLength data, h_maxLengthPerNumber = 0,
          h_salt = d_Salt data, h_seps = seps, h_guards = guards\<rparr>)"

definition NewWithData :: "HashIDData \<Rightarrow> (string + HashID) outcome" where
  "NewWithData data =
     (if byte_len (d_Alphabet data) < minAlphabetLength then Ret (Inl ''alphabet must contain at least 16 characters'')
      else if 32 \<in> set (d_Alphabet data) then Ret (Inl ''alphabet may not contain spaces'')
      else if \<not> distinct (d_Alphabet data) then Ret (Inl ''duplicate character in alphabet'')
      else let hid = build_hid data
           in obind (EncodeInt64 hid [9223372036854775807]) (\<lambda>r.
                case r of
                  Inl err \<Rightarrow> Ret (Inl (''Unable to encode maximum int64 to find max encoded value length: '' @ err))
                | Inr encoded \<Rightarrow> Ret (Inr (hid\<lparr>h_maxLengthPerNumber := int (byte_len encoded)\<rparr>))))"

definition New :: "(string + HashID) outcome" where
  "New = NewWithData NewData"

section \<open>The shuffle permutes\<close>

lemma mset_shuffle_loop: "i < length xs \<Longrightarrow> mset (shuffle_loop i v p salt xs) = mset xs"
proof (induction i arbitrary: v p xs)
  case (Suc i)
  define j where "j = (salt ! v + v + (p + salt ! v)) mod Suc i"
  have "j < length xs" using Suc.prems mod_less_divisor [of "Suc i" "salt ! v + v + (p + salt ! v)"] by (simp add: j_def del: mod_less_divisor)
  then have "mset (swap xs (Suc i) j) = mset xs" using Suc.prems by (simp add: swap_def mset_swap)
  with Suc show ?case by (simp add: Let_def j_def [symmetric])
qed simp

lemma mset_shuffle [simp]: "mset (consistentShuffleInPlace xs salt) = mset xs"
  by (cases xs) (simp_all add: consistentShuffleInPlace_def mset_shuffle_loop)

lemma mset_next_alphabet [simp]: "mset (next_alphabet h l xs) = mset xs"
  by (simp add: next_alphabet_def)

lemma mset_eq_parts: "mset xs = mset ys \<Longrightarrow> set xs = set ys \<and> length xs = length ys \<and> distinct xs = distinct ys"
  using mset_eq_setD mset_eq_length mset_eq_imp_distinct_iff by blast

lemma next_alphabet_parts [simp]:
  "set (next_alphabet h l xs) = set xs" "length (next_alphabet h l xs) = length xs" "distinct (next_alphabet h l xs) = distinct xs"
  using mset_eq_parts [OF mset_next_alphabet [of h l xs]] by auto

lemma shuffle_parts [simp]:
  "set (consistentShuffleInPlace xs salt) = set xs" "distinct (consistentShuffleInPlace xs salt) = distinct xs"
  using mset_eq_parts [OF mset_shuffle [of xs salt]] by auto

section \<open>Digits and back\<close>

lemma hash_loop_value:
  assumes "2 \<le> length al"
  shows "\<exists>ds. hash_loop n al acc = Some (acc @ map (nth al) ds) \<and> ds \<noteq> [] \<and> (\<forall>d \<in> set ds. d < length al) \<and>
           foldr (\<lambda>d v. v * length al + d) ds 0 = n"
proof (induction n arbitrary: acc rule: less_induct)
  case (less n)
  let ?b = "length al"
  show ?case
  proof (cases "n div ?b = 0")
    case True
    then have "hash_loop n al acc = Some (acc @ map (nth al) [n mod ?b])" by (subst hash_loop.simps) (simp add: Let_def)
    moreover have "n mod ?b = n" using True assms by (auto simp: div_eq_0_iff)
    ultimately show ?thesis using True assms by (intro exI [of _ "[n mod ?b]"]) (auto simp: div_eq_0_iff)
  next
    case False
    then have "n div ?b < n" using assms by (cases n) auto
    from less.IH [OF this, of "acc @ [al ! (n mod ?b)]"] obtain ds where
      ds: "hash_loop (n div ?b) al (acc @ [al ! (n mod ?b)]) = Some ((acc @ [al ! (n mod ?b)]) @ map (nth al) ds)"
      "\<forall>d \<in> set ds. d < ?b" "foldr (\<lambda>d v. v * ?b + d) ds 0 = n div ?b" by blast
    have "hash_loop n al acc = Some (acc @ map (nth al) (n mod ?b # ds))"
      using False ds(1) by (subst hash_loop.simps) (simp add: Let_def)
    moreover have "\<forall>d \<in> set (n mod ?b # ds). d < ?b" using ds(2) assms by (auto intro: mod_less_divisor)
    moreover have "foldr (\<lambda>d v. v * ?b + d) (n mod ?b # ds) 0 = n" using ds(3) by simp
    ultimately show ?thesis by blast
  qed
qed

lemma foldl_grows: "0 < b \<Longrightarrow> (acc :: nat) \<le> foldl (\<lambda>v d. v * b + d) acc es"
proof (induction es arbitrary: acc)
  case (Cons e es)
  have "acc \<le> acc * b" using Cons.prems by simp
  then have "acc \<le> acc * b + e" by (rule trans_le_add1)
  also have "\<dots> \<le> foldl (\<lambda>v d. v * b + d) (acc * b + e) es" using Cons by simp
  finally show ?case by simp
qed simp

lemma unhash_loop_value:
  assumes "distinct al" and "\<forall>d \<in> set es. d < length al" and "foldl (\<lambda>v d. v * length al + d) acc es < 2 ^ 63"
  shows "unhash_loop (int acc) al (map (nth al) es) = Inr (int (foldl (\<lambda>v d. v * length al + d) acc es))"
  using assms
proof (induction es arbitrary: acc)
  case (Cons e es)
  have "acc * length al + e \<le> foldl (\<lambda>v d. v * length al + d) (acc * length al + e) es"
    using Cons.prems(2) by (intro foldl_grows) auto
  also have "\<dots> < 2 ^ 63" using Cons.prems(3) by simp
  finally have "i64 (int (acc * length al + e)) = int (acc * length al + e)" by (rule i64_int)
  moreover have "int acc * int (length al) + int e = int (acc * length al + e)" by simp
  ultimately have "i64 (int acc * int (length al) + int e) = int (acc * length al + e)" by (simp only:)
  with Cons.prems have "unhash_loop (int acc) al (map (nth al) (e # es)) = unhash_loop (int (acc * length al + e)) al (map (nth al) es)"
    by (simp add: index_char_nth del: of_nat_add of_nat_mult)
  also have "\<dots> = Inr (int (foldl (\<lambda>v d. v * length al + d) (acc * length al + e) es))"
    using Cons.prems by (intro Cons.IH) simp_all
  finally show ?case by simp
qed simp

lemma hash_unhash:
  assumes "2 \<le> length al" and "distinct al" and "n < 2 ^ 63"
  shows "\<exists>hb. hash n al = Ret hb \<and> hb \<noteq> [] \<and> set hb \<subseteq> set al \<and> unhash hb al = Inr (int n)"
proof -
  obtain ds where ds: "hash_loop n al [] = Some (map (nth al) ds)" "ds \<noteq> []" "\<forall>d \<in> set ds. d < length al"
    "foldr (\<lambda>d v. v * length al + d) ds 0 = n" using hash_loop_value [OF assms(1), of n "[]"] by auto
  have "foldl (\<lambda>v d. v * length al + d) 0 (rev ds) = n" using ds(4) by (simp add: foldr_conv_foldl)
  then have "unhash (rev (map (nth al) ds)) al = Inr (int n)"
    using unhash_loop_value [OF assms(2), of "rev ds" 0] ds(3) assms(3) by (simp add: unhash_def rev_map)
  moreover have "al \<noteq> []" using assms(1) by auto
  ultimately show ?thesis using ds by (auto simp: hash_def)
qed

section \<open>Splitting is splitting\<close>

lemma split_indices_distinct:
  "distinct seps \<Longrightarrow> split_indices input seps = map fst (filter (\<lambda>(i, r). r \<in> set seps) (enumerate 0 input))"
proof -
  assume d: "distinct seps"
  have one: "filter (\<lambda>s. r = s) seps = (if r \<in> set seps then [r] else [])" for r
    using d by (induction seps) auto
  have "concat (map (\<lambda>(i, r). map (\<lambda>_. i) (filter (\<lambda>s. r = s) seps)) xs) = map fst (filter (\<lambda>(i, r). r \<in> set seps) xs)" for xs
    by (induction xs) (auto simp: one)
  then show ?thesis by (simp add: split_indices_def)
qed

lemma split_loop_Cons:
  assumes "\<forall>i \<in> set idxs. Suc k \<le> i" and "n = Suc k + length xs"
  shows "split_loop n idxs (x # xs) = obind (split_loop n idxs xs) (\<lambda>r. Ret ((x # hd r) # tl r))"
proof (cases idxs)
  case (Cons i js)
  with assms obtain m where i: "i = Suc k + m" by (auto simp: le_iff_add)
  have "split_loop n idxs (x # xs) = obind (split_loop n js (drop (Suc m) xs)) (\<lambda>rest. Ret ((x # take m xs) # rest))"
    using Cons i assms(2) by simp
  moreover have "split_loop n idxs xs = obind (split_loop n js (drop (Suc m) xs)) (\<lambda>rest. Ret (take m xs # rest))"
    using Cons i assms(2) by simp
  ultimately show ?thesis by (simp add: obind_assoc)
qed simp

lemma split_loop_split_by:
  "n = k + length xs \<Longrightarrow> split_loop n (map fst (filter (\<lambda>(i, r). p r) (enumerate k xs))) xs = Ret (split_by p xs)"
proof (induction xs arbitrary: k)
  case (Cons x xs)
  let ?idxs = "map fst (filter (\<lambda>(i, r). p r) (enumerate (Suc k) xs))"
  have IH: "split_loop n ?idxs xs = Ret (split_by p xs)" using Cons by simp
  show ?case
  proof (cases "p x")
    case True
    with IH Cons.prems show ?thesis by simp
  next
    case False
    have "\<forall>i \<in> set ?idxs. Suc k \<le> i" by (auto simp: in_set_enumerate_eq)
    then have "split_loop n ?idxs (x # xs) = obind (split_loop n ?idxs xs) (\<lambda>r. Ret ((x # hd r) # tl r))"
      by (rule split_loop_Cons) (use Cons.prems in simp)
    with False IH show ?thesis by simp
  qed
qed simp

lemma splitRunes_split_by: "distinct seps \<Longrightarrow> splitRunes input seps = Ret (split_by (\<lambda>r. r \<in> set seps) input)"
  by (simp add: splitRunes_def split_indices_distinct split_loop_split_by)

section \<open>The body of an id\<close>

lemma encode_decode_loop:
  assumes "ns \<noteq> []" and "\<forall>n \<in> set ns. 0 \<le> n \<and> n < 2 ^ 63"
    and "2 \<le> length al" and "distinct al" and "0 \<notin> set al" and "h_seps h \<noteq> []" and "set al \<inter> set (h_seps h) = {}"
  shows "\<exists>out al'. encode_loop h l i ns al res = Ret (res @ out, al') \<and> mset al' = mset al \<and> out \<noteq> [] \<and>
           hd out \<in> set al \<and> set out \<subseteq> set al \<union> set (h_seps h) \<and>
           (\<forall>acc. decode_loop h l (split_by (\<lambda>r. r \<in> set (h_seps h)) out) al acc = Inr (acc @ ns))"
  using assms
proof (induction ns arbitrary: i al res)
  case (Cons n ns)
  let ?al = "next_alphabet h l al" and ?sep = "\<lambda>r. r \<in> set (h_seps h)"
  obtain hb where hb: "hash (nat n) ?al = Ret hb" "hb \<noteq> []" "set hb \<subseteq> set ?al" "unhash hb ?al = Inr (int (nat n))"
    using hash_unhash [of ?al "nat n"] Cons.prems by (auto simp: nat_less_iff)
  have whole: "split_by ?sep hb = [hb]" using hb(3) Cons.prems(7) by (intro split_by_none) auto
  have hd: "hd hb \<in> set al" using hb(2,3) by auto
  show ?case
  proof (cases "ns = []")
    case True
    then show ?thesis using hb hd whole Cons.prems
      by (intro exI [of _ hb] exI [of _ ?al]) (auto simp: Let_def)
  next
    case False
    define s where "s = h_seps h ! (nat n mod (hb ! 0 + i) mod length (h_seps h))"
    have s: "s \<in> set (h_seps h)" using Cons.prems(6) by (simp add: s_def)
    have "hb ! 0 \<noteq> 0" using hd hb(2) Cons.prems(5) by (metis hd_conv_nth)
    then have enc: "encode_loop h l i (n # ns) al res = encode_loop h l (Suc i) ns ?al (res @ hb @ [s])"
      using hb(1) False Cons.prems(6) by (simp add: Let_def s_def)
    obtain out al' where r: "encode_loop h l (Suc i) ns ?al (res @ hb @ [s]) = Ret ((res @ hb @ [s]) @ out, al')"
      "mset al' = mset ?al" "set out \<subseteq> set ?al \<union> set (h_seps h)"
      "\<And>acc. decode_loop h l (split_by ?sep out) ?al acc = Inr (acc @ ns)"
      using Cons.IH [OF False, of ?al "Suc i" "res @ hb @ [s]"] Cons.prems by auto
    have "split_by ?sep (hb @ s # out) = hb # split_by ?sep out" using s whole by (simp add: split_by_append)
    then have "decode_loop h l (split_by ?sep (hb @ s # out)) al acc = Inr (acc @ n # ns)" for acc
      using hb(4) r(4) Cons.prems(2) by (simp add: Let_def)
    with r(1-3) enc hb s hd show ?thesis
      by (intro exI [of _ "hb @ s # out"] exI [of _ al']) auto
  qed
qed simp

section \<open>Guards and padding\<close>

lemma pad_turn_frame:
  assumes "int (length r) < m" and "al \<noteq> []"
  shows "\<exists>p q. pad_turn m al r = p @ r @ q \<and> set p \<union> set q \<subseteq> set al"
proof -
  define half where "half = length al div 2"
  define A B where "A = drop half al" and "B = take half al"
  define e where "e = int (length (A @ r @ B)) - m"
  have len: "length A = length al - half" "length B = half" by (simp_all add: A_def B_def half_def)
  have pt: "pad_turn m al r = (if e > 0 then take (nat m) (drop (nat (e div 2)) (A @ r @ B)) else A @ r @ B)"
    by (simp add: pad_turn_def Let_def A_def B_def half_def e_def)
  have sub: "set A \<subseteq> set al" "set B \<subseteq> set al" by (simp_all add: A_def B_def set_drop_subset set_take_subset)
  show ?thesis
  proof (cases "e > 0")
    case True
    define x where "x = length al + length r - nat m"
    define k where "k = x div 2"
    have "e = int x" using True assms(1) len by (simp add: e_def x_def half_def)
    then have ke: "nat (e div 2) = k" by (simp add: k_def nat_div_distrib)
    have x: "x < length al" "nat m + x = length al + length r"
      using True assms(1) len by (auto simp: e_def x_def half_def)
    have k: "k \<le> length A" and m: "nat m = length A - k + length r + (nat m - (length A - k + length r))"
      using x len by (auto simp: k_def half_def)
    have "take (nat m) (drop k (A @ r @ B)) = drop k A @ r @ take (nat m - (length A - k + length r)) B"
      using k m by (simp add: drop_append take_append)
    moreover have "set (drop k A) \<subseteq> set al" "set (take (nat m - (length A - k + length r)) B) \<subseteq> set al"
      using sub set_drop_subset [of k A] set_take_subset [of _ B] by blast+
    ultimately show ?thesis using True pt ke by (metis Un_subset_iff)
  next
    case False
    with pt sub show ?thesis by (metis Un_subset_iff)
  qed
qed

lemma pad_loop_frame:
  assumes "al \<noteq> []"
  shows "\<exists>p q. pad_loop m al r = p @ r @ q \<and> set p \<union> set q \<subseteq> set al \<and> m \<le> int (length (pad_loop m al r)) \<and>
           (m \<le> int (length r) \<longrightarrow> p = [] \<and> q = [])"
  using assms
proof (induction m al r rule: pad_loop.induct)
  case (1 m al r)
  let ?al = "consistentShuffleInPlace al al"
  have al: "?al \<noteq> []" "set ?al = set al" using 1(2) length_shuffle [of al al] by (auto simp del: length_shuffle)
  show ?case
  proof (cases "int (length r) < m")
    case True
    obtain p q where t: "pad_turn m ?al r = p @ r @ q" "set p \<union> set q \<subseteq> set ?al" using pad_turn_frame [OF True al(1)] by blast
    obtain p' q' where l: "pad_loop m ?al (pad_turn m ?al r) = p' @ pad_turn m ?al r @ q'" "set p' \<union> set q' \<subseteq> set ?al"
      "m \<le> int (length (pad_loop m ?al (pad_turn m ?al r)))" using 1 True al(1) by metis
    have "pad_loop m al r = pad_loop m ?al (pad_turn m ?al r)" using True 1(2) by (subst pad_loop.simps) (simp add: Let_def)
    with t l have "pad_loop m al r = (p' @ p) @ r @ (q @ q')" "m \<le> int (length (pad_loop m al r))" by simp_all
    moreover have "set (p' @ p) \<union> set (q @ q') \<subseteq> set al" using t(2) l(2) al(2) by auto
    ultimately show ?thesis using True by (metis not_le)
  next
    case False
    then show ?thesis by (subst (1 2) pad_loop.simps) simp
  qed
qed

section \<open>Well-formed encoders\<close>

definition hid_ok :: "HashID \<Rightarrow> bool" where
  "hid_ok h \<longleftrightarrow> distinct (h_alphabet h @ h_seps h @ h_guards h) \<and> 2 \<le> length (h_alphabet h) \<and>
     h_seps h \<noteq> [] \<and> h_guards h \<noteq> []"

definition runes_ok :: "rune list \<Rightarrow> bool" where
  "runes_ok rs \<longleftrightarrow> (\<forall>r \<in> set rs. 0 < r \<and> r < 1114112)"

definition numbers_ok :: "int list \<Rightarrow> bool" where
  "numbers_ok ns \<longleftrightarrow> ns \<noteq> [] \<and> (\<forall>n \<in> set ns. 0 \<le> n \<and> n < 2 ^ 63) \<and> length ns < 2 ^ 30"

lemma numbers_hash_bound:
  assumes "0 \<le> acc" and "\<forall>n \<in> set ns. 0 \<le> n" and "i + length ns < 2 ^ 31" and "acc + int (length ns) * 2 ^ 32 < 2 ^ 63"
  shows "0 \<le> numbers_hash acc i ns \<and> numbers_hash acc i ns \<le> acc + int (length ns) * 2 ^ 32"
  using assms
proof (induction ns arbitrary: acc i)
  case (Cons n ns)
  define d where "d = n mod (int i + 100)"
  have d: "0 \<le> d" "d < int i + 100" by (simp_all add: d_def)
  then have small: "d \<le> 2 ^ 32" using Cons.prems(3) by simp
  then have "i64 (acc + d) = acc + d" using Cons.prems(1,4) d by (intro i64_id) auto
  then have eq: "numbers_hash acc i (n # ns) = numbers_hash (acc + d) (Suc i) ns" by (simp add: d_def)
  have "0 \<le> numbers_hash (acc + d) (Suc i) ns \<and> numbers_hash (acc + d) (Suc i) ns \<le> acc + d + int (length ns) * 2 ^ 32"
    using Cons.prems d small by (intro Cons.IH) auto
  with eq small show ?case by simp
qed simp

lemma rem_at_ok: "xs \<noteq> [] \<Longrightarrow> 0 \<le> k \<Longrightarrow> \<exists>x \<in> set xs. rem_at xs k = Ret x"
  by (simp add: rem_at_def)

lemma add_guards_cases:
  assumes "hid_ok h" and "runes_ok (h_alphabet h)" and "0 \<le> nh" and "nh < 2 ^ 62"
    and "l \<in> set (h_alphabet h)" and "out \<noteq> []" and "hd out \<in> set (h_alphabet h)"
  obtains "add_guards h nh (l # out) = Ret (l # out)" and "h_minLength h \<le> int (length (l # out))"
  | g where "g \<in> set (h_guards h)" "add_guards h nh (l # out) = Ret (g # l # out)" "h_minLength h \<le> int (length (g # l # out))"
  | g g' where "g \<in> set (h_guards h)" "g' \<in> set (h_guards h)" "add_guards h nh (l # out) = Ret (g # l # out @ [g'])"
proof -
  have guards: "h_guards h \<noteq> []" using assms(1) by (simp add: hid_ok_def)
  have wrap: "i64 (nh + int r) = nh + int r" "0 \<le> nh + int r" if "r \<in> set (h_alphabet h)" for r
    using that assms(2-4) by (auto simp: runes_ok_def)
  obtain g where g: "g \<in> set (h_guards h)" "rem_at (h_guards h) (i64 (nh + int l)) = Ret g"
    using rem_at_ok [OF guards wrap(2) [OF assms(5)]] wrap(1) [OF assms(5)] by metis
  have "out ! 0 = hd out" using assms(6) by (simp add: hd_conv_nth)
  then obtain g' where g': "g' \<in> set (h_guards h)" "rem_at (h_guards h) (i64 (nh + int (out ! 0))) = Ret g'"
    using rem_at_ok [OF guards wrap(2) [OF assms(7)]] wrap(1) [OF assms(7)] by metis
  show ?thesis
  proof (cases "int (length (l # out)) < h_minLength h")
    case False
    then show ?thesis using that(1) by (simp add: add_guards_def)
  next
    case short: True
    show ?thesis
    proof (cases "int (length (g # l # out)) < h_minLength h")
      case True
      with short g g' have "add_guards h nh (l # out) = Ret (g # l # out @ [g'])"
        by (simp add: add_guards_def Let_def numeral_2_eq_2)
      with g(1) g'(1) show ?thesis using that(3) by simp
    next
      case False
      with short g have "add_guards h nh (l # out) = Ret (g # l # out)" by (simp add: add_guards_def Let_def)
      with g False show ?thesis using that(2) by simp
    qed
  qed
qed

lemma split_two: "p g \<Longrightarrow> \<forall>x \<in> set body. \<not> p x \<Longrightarrow> split_by p (g # body) = [[], body]"
  by (simp add: split_by_none)

lemma split_three:
  assumes "p g" and "p g'" and "\<forall>x \<in> set a \<union> set body \<union> set b. \<not> p x"
  shows "split_by p (a @ g # body @ g' # b) = [a, body, b]"
  using assms by (simp add: split_by_append split_by_none)

text \<open>The guards frame the body of an id: splitting at them gives it back.\<close>

lemma framed_split:
  assumes "hid_ok h" and "runes_ok (h_alphabet h)" and "0 \<le> nh" and "nh < 2 ^ 62" and "l \<in> set (h_alphabet h)"
    and "out \<noteq> []" and "hd out \<in> set (h_alphabet h)" and "set out \<subseteq> set (h_alphabet h) \<union> set (h_seps h)"
    and al: "mset al = mset (h_alphabet h)"
  shows "\<exists>r s hs. add_guards h nh (l # out) = Ret r \<and> pad_loop (h_minLength h) al r = s \<and> h_minLength h \<le> int (length s) \<and>
           splitRunes s (h_guards h) = Ret hs \<and> hs ! (if length hs = 2 \<or> length hs = 3 then 1 else 0) = l # out"
proof -
  let ?g = "\<lambda>r. r \<in> set (h_guards h)"
  have ok: "distinct (h_guards h)" "set (h_alphabet h) \<inter> set (h_guards h) = {}" "set (h_seps h) \<inter> set (h_guards h) = {}"
    "al \<noteq> []" "set al = set (h_alphabet h)"
    using assms(1) mset_eq_parts [OF al] by (auto simp: hid_ok_def)
  note split = splitRunes_split_by [OF ok(1)]
  have body: "\<forall>x \<in> set (l # out). \<not> ?g x" using ok assms(5,8) by auto
  have pad: "pad_loop (h_minLength h) al r = r" if "h_minLength h \<le> int (length r)" for r
    using that by (subst pad_loop.simps) simp
  show ?thesis
  proof (rule add_guards_cases [OF assms(1-7)], goal_cases)
    case 1
    then show ?thesis using pad body by (auto simp: split split_by_none)
  next
    case (2 g)
    then show ?thesis using pad body split_two [of ?g g "l # out"] by (auto simp: split)
  next
    case (3 g g')
    obtain p q where f: "pad_loop (h_minLength h) al (g # l # out @ [g']) = p @ (g # l # out @ [g']) @ q"
      "set p \<union> set q \<subseteq> set al" "h_minLength h \<le> int (length (pad_loop (h_minLength h) al (g # l # out @ [g'])))"
      using pad_loop_frame [OF ok(4)] by metis
    have "split_by ?g (p @ g # (l # out) @ g' # q) = [p, l # out, q]"
      using 3 f(2) ok body by (intro split_three) auto
    with 3 f show ?thesis by (auto simp: split)
  qed
qed

lemma encode_decode:
  assumes "hid_ok h" and "runes_ok (h_alphabet h)" and "numbers_ok ns"
  shows "\<exists>s. EncodeInt64 h ns = Ret (Inr s) \<and> DecodeInt64WithError h s = Ret (ns, None) \<and> h_minLength h \<le> int (length s)"
proof -
  define nh where "nh = numbers_hash 0 0 ns"
  have "0 \<le> nh \<and> nh \<le> 0 + int (length ns) * 2 ^ 32"
    unfolding nh_def using assms(3) by (intro numbers_hash_bound) (auto simp: numbers_ok_def)
  moreover have "int (length ns) < 2 ^ 30" using assms(3) by (simp add: numbers_ok_def)
  ultimately have nh: "0 \<le> nh" "nh < 2 ^ 62" by auto
  have ok: "2 \<le> length (h_alphabet h)" "distinct (h_alphabet h)" "0 \<notin> set (h_alphabet h)" "h_seps h \<noteq> []" "distinct (h_seps h)"
    "set (h_alphabet h) \<inter> set (h_seps h) = {}" "h_alphabet h \<noteq> []"
    using assms(1,2) by (auto simp: hid_ok_def runes_ok_def)
  have ns: "ns \<noteq> []" "\<forall>n \<in> set ns. 0 \<le> n \<and> n < 2 ^ 63" using assms(3) by (auto simp: numbers_ok_def)
  obtain l where l: "l \<in> set (h_alphabet h)" "rem_at (h_alphabet h) nh = Ret l" using rem_at_ok [OF ok(7) nh(1)] by blast
  obtain out al where out: "encode_loop h l 0 ns (h_alphabet h) [l] = Ret ([l] @ out, al)" "mset al = mset (h_alphabet h)"
    "out \<noteq> []" "hd out \<in> set (h_alphabet h)" "set out \<subseteq> set (h_alphabet h) \<union> set (h_seps h)"
    "\<forall>acc. decode_loop h l (split_by (\<lambda>r. r \<in> set (h_seps h)) out) (h_alphabet h) acc = Inr (acc @ ns)"
    using encode_decode_loop [OF ns ok(1-4,6)] by blast
  obtain r s hs where s: "add_guards h nh (l # out) = Ret r" "pad_loop (h_minLength h) al r = s" "h_minLength h \<le> int (length s)"
    "splitRunes s (h_guards h) = Ret hs" "hs ! (if length hs = 2 \<or> length hs = 3 then 1 else 0) = l # out"
    using framed_split [OF assms(1,2) nh l(1) out(3-5,2)] by blast
  have "\<not> (\<exists>n \<in> set ns. n < 0)" using ns(2) by auto
  then have enc: "EncodeInt64 h ns = Ret (Inr s)"
    using ns(1) l(2) out(1) s(1,2) by (simp add: EncodeInt64_def nh_def [symmetric] Let_def)
  have "DecodeInt64WithError h s = check_decoded h s ns"
    using s(4,5) out(6) splitRunes_split_by [OF ok(5)] by (simp add: DecodeInt64WithError_def Let_def)
  also have "\<dots> = Ret (ns, None)" using enc by (simp add: check_decoded_def)
  finally show ?thesis using enc s(3) by blast
qed

text \<open>Hexadecimal strings come back in lower case.\<close>

definition hex_ok :: "rune list \<Rightarrow> bool" where
  "hex_ok hex \<longleftrightarrow> hex \<noteq> [] \<and> length hex < 2 ^ 30 \<and>
     (\<forall>b \<in> set hex. 48 \<le> b \<and> b \<le> 57 \<or> 97 \<le> b \<and> b \<le> 102 \<or> 65 \<le> b \<and> b \<le> 70)"

definition lower_rune :: "rune \<Rightarrow> rune" where
  "lower_rune b = (if 65 \<le> b \<and> b \<le> 90 then b + 32 else b)"

lemma hex_digit_value:
  assumes "48 \<le> b \<and> b \<le> 57 \<or> 97 \<le> b \<and> b \<le> 102 \<or> 65 \<le> b \<and> b \<le> 70"
  shows "\<exists>v. hex_value b = Some v \<and> 0 \<le> v \<and> v < 16 \<and> hex_digit (16 + v) = Some (lower_rune b)"
proof -
  have "\<forall>b \<in> {48..57} \<union> {97..102} \<union> {65..70}. case hex_value b of None \<Rightarrow> False
      | Some v \<Rightarrow> 0 \<le> v \<and> v < 16 \<and> hex_digit (16 + v) = Some (lower_rune b)"
    by code_simp
  moreover have "b \<in> {48..57} \<union> {97..102} \<union> {65..70}" using assms by auto
  ultimately have "case hex_value b of None \<Rightarrow> False
      | Some v \<Rightarrow> 0 \<le> v \<and> v < 16 \<and> hex_digit (16 + v) = Some (lower_rune b)" by blast
  then show ?thesis by (auto split: option.splits)
qed

lemma hex_values:
  assumes "hex_ok hex"
  shows "\<exists>bs. those (map hex_value hex) = Some bs \<and> numbers_ok (map (\<lambda>b. 16 + b) bs) \<and>
           those (map hex_digit (map (\<lambda>b. 16 + b) bs)) = Some (map lower_rune hex)"
proof -
  have each: "\<exists>bs. those (map hex_value xs) = Some bs \<and> length bs = length xs \<and> (\<forall>b \<in> set bs. 0 \<le> b \<and> b < 16) \<and>
      those (map hex_digit (map (\<lambda>b. 16 + b) bs)) = Some (map lower_rune xs)"
    if "\<forall>b \<in> set xs. 48 \<le> b \<and> b \<le> 57 \<or> 97 \<le> b \<and> b \<le> 102 \<or> 65 \<le> b \<and> b \<le> 70" for xs
    using that
  proof (induction xs)
    case (Cons x xs)
    then obtain bs where bs: "those (map hex_value xs) = Some bs" "length bs = length xs" "\<forall>b \<in> set bs. 0 \<le> b \<and> b < 16"
      "those (map hex_digit (map (\<lambda>b. 16 + b) bs)) = Some (map lower_rune xs)" by auto
    obtain v where v: "hex_value x = Some v" "0 \<le> v \<and> v < 16" "hex_digit (16 + v) = Some (lower_rune x)"
      using Cons.prems hex_digit_value [of x] by auto
    from bs v show ?case by (intro exI [of _ "v # bs"]) simp
  qed simp
  have "\<forall>b \<in> set hex. 48 \<le> b \<and> b \<le> 57 \<or> 97 \<le> b \<and> b \<le> 102 \<or> 65 \<le> b \<and> b \<le> 70"
    using assms by (simp add: hex_ok_def)
  from each [OF this] obtain bs where bs: "those (map hex_value hex) = Some bs" "length bs = length hex" "\<forall>b \<in> set bs. 0 \<le> b \<and> b < 16"
    "those (map hex_digit (map (\<lambda>b. 16 + b) bs)) = Some (map lower_rune hex)" by blast
  moreover have "numbers_ok (map (\<lambda>b. 16 + b) bs)" using bs(2,3) assms by (fastforce simp: numbers_ok_def hex_ok_def)
  ultimately show ?thesis by blast
qed

lemma encode_decode_hex:
  assumes "hid_ok h" and "runes_ok (h_alphabet h)" and "hex_ok hex"
  shows "\<exists>s. EncodeHex h hex = Ret (Inr s) \<and> DecodeHex h s = Ret (Inr (map lower_rune hex))"
proof -
  obtain bs where bs: "those (map hex_value hex) = Some bs" "numbers_ok (map (\<lambda>b. 16 + b) bs)"
    "those (map hex_digit (map (\<lambda>b. 16 + b) bs)) = Some (map lower_rune hex)" using hex_values [OF assms(3)] by blast
  from encode_decode [OF assms(1,2) bs(2)] bs show ?thesis by (fastforce simp: EncodeHex_def Encode_def DecodeHex_def)
qed

section \<open>Construction\<close>

lemma sepsOriginal_facts: "distinct sepsOriginal" "length sepsOriginal = 14" "r \<in> set sepsOriginal \<Longrightarrow> rune_len r = 1"
  by (auto simp: sepsOriginal_def runes_def rune_len_def)

lemma initial_seps_facts:
  assumes "distinct alphabet" and "initial_seps alphabet = (seps, al)"
  shows "distinct (seps @ al)" and "set (seps @ al) = set alphabet" and "length seps + length al = length alphabet"
    and "byte_len alphabet \<le> length seps + 4 * length al" and "length seps \<le> 14"
proof -
  have seps: "seps = filter (\<lambda>r. r \<in> set alphabet) sepsOriginal" and al: "al = filter (\<lambda>r. r \<notin> set seps) alphabet"
    using assms(2) by (auto simp: initial_seps_def Let_def)
  have dist: "distinct seps" "set seps \<subseteq> set alphabet" "set seps \<subseteq> set sepsOriginal" using sepsOriginal_facts(1) by (auto simp: seps)
  show "distinct (seps @ al)" using dist assms(1) by (auto simp: al)
  show "set (seps @ al) = set alphabet" using dist by (auto simp: al)
  have "length (filter (\<lambda>r. r \<in> set seps) alphabet) = card (set seps)"
    using dist(2) assms(1) by (subst distinct_card [symmetric]) (auto intro!: arg_cong [where f = card])
  then have n: "length (filter (\<lambda>r. r \<in> set seps) alphabet) = length seps" using dist(1) by (simp add: distinct_card)
  then show "length seps + length al = length alphabet"
    using sum_length_filter_compl [of "\<lambda>r. r \<in> set seps" alphabet] by (simp add: al)
  have split: "byte_len alphabet = byte_len (filter (\<lambda>r. r \<in> set seps) alphabet) + byte_len al"
    unfolding al byte_len_def by (induction alphabet) auto
  have "byte_len xs \<le> length xs" if "set xs \<subseteq> set sepsOriginal" for xs
    using that by (induction xs) (auto simp: byte_len_def sepsOriginal_facts)
  then have "byte_len (filter (\<lambda>r. r \<in> set seps) alphabet) \<le> length seps" using n dist(3)
    by (metis (no_types, lifting) filter_is_subset mem_Collect_eq set_filter subset_eq)
  moreover have "byte_len xs \<le> 4 * length xs" for xs by (induction xs) (auto simp: byte_len_def rune_len_def)
  ultimately show "byte_len alphabet \<le> length seps + 4 * length al" using split by (metis add_mono)
  show "length seps \<le> 14" using sepsOriginal_facts(2) length_filter_le [of _ sepsOriginal] by (simp add: seps)
qed

lemma extend_seps_facts:
  assumes "distinct (seps @ al)" and "16 \<le> length seps + 4 * length al" and "length seps \<le> 14"
    and ext: "extend_seps seps al = (seps', al')"
  shows "distinct (seps' @ al') \<and> set (seps' @ al') \<subseteq> set (seps @ al) \<and> 1 \<le> length al' \<and> 1 \<le> length seps' \<and>
    (length al' < 3 \<longrightarrow> 2 \<le> length seps') \<and> (2 \<le> length al \<longrightarrow> 2 \<le> length al')"
proof (cases "seps = [] \<or> 2 * length al > 7 * length seps")
  case False
  with ext have "seps' = seps" "al' = al" by (auto simp: extend_seps_def)
  with assms(1-3) False show ?thesis by (cases seps) auto
next
  case True
  define n where "n = (2 * length al + 6) div 7"
  have a: "4 \<le> length al" using True assms(2) by (cases seps) auto
  then have n: "2 \<le> n" "n + 2 \<le> length al" by (simp_all add: n_def)
  show ?thesis
  proof (cases "n > length seps")
    case more: True
    with True n ext have "seps' = seps @ take (n - length seps) al" "al' = drop (n - length seps) al"
      by (auto simp: extend_seps_def n_def [symmetric] Let_def)
    moreover from this have "seps' @ al' = seps @ al" by simp
    ultimately show ?thesis using assms(1) n more by (simp only: append_assoc) auto
  next
    case False
    with True n ext have "seps' = take n seps" "al' = al" by (auto simp: extend_seps_def n_def [symmetric] Let_def)
    with assms(1) n a False show ?thesis by (auto dest: in_set_takeD)
  qed
qed

lemma take_guards_facts:
  assumes "distinct (seps @ al)" and "1 \<le> length al" and "1 \<le> length seps" and "length al < 3 \<longrightarrow> 2 \<le> length seps"
    and g: "take_guards seps al = (guards, seps', al')"
  shows "distinct (al' @ seps' @ guards) \<and> set al' \<subseteq> set (seps @ al) \<and> 1 \<le> length al' \<and> seps' \<noteq> [] \<and> guards \<noteq> [] \<and>
    (2 \<le> length al \<longrightarrow> 2 \<le> length al')"
proof -
  define c where "c = (length al + 11) div 12"
  have c: "1 \<le> c" using assms(2) by (simp add: c_def)
  have halves: "distinct (take c xs @ drop c xs)" if "distinct xs" for xs :: "rune list" using that by simp
  show ?thesis
  proof (cases "length al < 3")
    case True
    then have "c = 1" using assms(2) by (simp add: c_def)
    with True g have "guards = take 1 seps" "seps' = drop 1 seps" "al' = al" by (auto simp: take_guards_def c_def)
    with True assms show ?thesis using halves [of seps] by (cases seps) auto
  next
    case False
    then have c2: "c + 2 \<le> length al" by (simp add: c_def)
    from False g have "guards = take c al" "seps' = seps" "al' = drop c al" by (auto simp: take_guards_def c_def Let_def)
    with assms(1,3) c c2 show ?thesis using set_take_subset [of c al] set_drop_subset [of c al]
        set_take_disj_set_drop_if_distinct [of al c c] by (auto simp: Int_commute)
  qed
qed

lemma build_hid_facts:
  assumes "16 \<le> byte_len (d_Alphabet d)" and "distinct (d_Alphabet d)"
  defines "h \<equiv> build_hid d"
  shows "distinct (h_alphabet h @ h_seps h @ h_guards h) \<and> set (h_alphabet h) \<subseteq> set (d_Alphabet d) \<and>
    1 \<le> length (h_alphabet h) \<and> h_seps h \<noteq> [] \<and> h_guards h \<noteq> [] \<and> h_minLength h = d_MinLength d \<and>
    (16 \<le> length (d_Alphabet d) \<longrightarrow> 2 \<le> length (h_alphabet h))"
proof -
  obtain s0 a0 where 0: "initial_seps (d_Alphabet d) = (s0, a0)" by fastforce
  let ?s0 = "consistentShuffleInPlace s0 (d_Salt d)"
  obtain s1 a1 where 1: "extend_seps ?s0 a0 = (s1, a1)" by fastforce
  let ?a1 = "consistentShuffleInPlace a1 (d_Salt d)"
  obtain g s a where 2: "take_guards s1 ?a1 = (g, s, a)" by (metis prod_cases3)
  have h: "h_alphabet h = a" "h_seps h = s" "h_guards h = g" "h_minLength h = d_MinLength d"
    using 0 1 2 by (simp_all add: h_def build_hid_def)
  note i = initial_seps_facts [OF assms(2) 0]
  have e: "distinct (s1 @ a1) \<and> set (s1 @ a1) \<subseteq> set (?s0 @ a0) \<and> 1 \<le> length a1 \<and> 1 \<le> length s1 \<and>
      (length a1 < 3 \<longrightarrow> 2 \<le> length s1) \<and> (2 \<le> length a0 \<longrightarrow> 2 \<le> length a1)"
    using i assms(1) by (intro extend_seps_facts [OF _ _ _ 1]) auto
  have t: "distinct (a @ s @ g) \<and> set a \<subseteq> set (s1 @ ?a1) \<and> 1 \<le> length a \<and> s \<noteq> [] \<and> g \<noteq> [] \<and>
      (2 \<le> length ?a1 \<longrightarrow> 2 \<le> length a)"
    using e by (intro take_guards_facts [OF _ _ _ _ 2]) auto
  have "set a \<subseteq> set (d_Alphabet d)" using t e i(2) by auto
  moreover have "16 \<le> length (d_Alphabet d) \<longrightarrow> 2 \<le> length a" using t e i(3,5) by auto
  ultimately show ?thesis using t h by simp
qed

lemma hash_loop_single: "hash_loop n al acc = Some r \<Longrightarrow> \<not> (length al = 1 \<and> n \<noteq> 0)"
  by (erule hash_loop.raw_induct [rotated, where P = "\<lambda>n al acc r. \<not> (length al = 1 \<and> n \<noteq> 0)"])
    (fastforce simp: Let_def split: if_splits)

lemma encode_single:
  assumes "length (h_alphabet h) = 1"
  shows "EncodeInt64 h [9223372036854775807] = Diverge"
proof -
  have "hash (nat 9223372036854775807) (next_alphabet h l (h_alphabet h)) = Diverge" for l
  proof -
    have "next_alphabet h l (h_alphabet h) \<noteq> []" using assms by (metis length_0_conv next_alphabet_parts(2) zero_neq_one)
    then show ?thesis
      using hash_loop_single [of "nat 9223372036854775807" "next_alphabet h l (h_alphabet h)" "[]"] assms
      by (fastforce simp: hash_def split: option.splits)
  qed
  then have "encode_loop h l 0 [9223372036854775807] (h_alphabet h) [l] = Diverge" for l by (simp add: Let_def)
  moreover have "\<exists>l \<in> set (h_alphabet h). rem_at (h_alphabet h) (numbers_hash 0 0 [9223372036854775807]) = Ret l"
    using assms by (intro rem_at_ok) (auto simp: i64_def)
  ultimately show ?thesis by (auto simp: EncodeInt64_def Let_def)
qed

lemma max_length_irrelevant:
  "hid_ok (h\<lparr>h_maxLengthPerNumber := m\<rparr>) = hid_ok h" "h_alphabet (h\<lparr>h_maxLengthPerNumber := m\<rparr>) = h_alphabet h"
  by (simp_all add: hid_ok_def)

lemma NewWithData_ok:
  assumes "NewWithData d = Ret (Inr h)"
  shows "hid_ok h \<and> set (h_alphabet h) \<subseteq> set (d_Alphabet d) \<and> h_minLength h = d_MinLength d"
proof -
  have d: "16 \<le> byte_len (d_Alphabet d)" "distinct (d_Alphabet d)"
    using assms by (auto simp: NewWithData_def minAlphabetLength_def split: if_splits)
  obtain x where x: "EncodeInt64 (build_hid d) [9223372036854775807] = Ret x" by (cases "EncodeInt64 (build_hid d) [9223372036854775807]")
    (use assms d in \<open>auto simp: NewWithData_def Let_def split: if_splits\<close>)
  with assms d obtain s where s: "EncodeInt64 (build_hid d) [9223372036854775807] = Ret (Inr s)"
    and h: "h = (build_hid d)\<lparr>h_maxLengthPerNumber := int (byte_len s)\<rparr>"
    by (cases x) (auto simp: NewWithData_def minAlphabetLength_def split: if_splits)
  have "length (h_alphabet (build_hid d)) \<noteq> 1" using s encode_single by force
  with build_hid_facts [OF d] show ?thesis by (simp add: h max_length_irrelevant) (simp add: hid_ok_def)
qed

lemma NewWithData_returns:
  assumes d: "16 \<le> length (d_Alphabet d)" "distinct (d_Alphabet d)" "32 \<notin> set (d_Alphabet d)" "runes_ok (d_Alphabet d)"
  shows "\<exists>h. NewWithData d = Ret (Inr h)"
proof -
  have "length xs \<le> byte_len xs" for xs by (induction xs) (auto simp: byte_len_def rune_len_def)
  then have len: "16 \<le> byte_len (d_Alphabet d)" using d(1) order_trans by blast
  have "hid_ok (build_hid d)" "runes_ok (h_alphabet (build_hid d))"
    using build_hid_facts [OF len d(2)] d by (auto simp: hid_ok_def runes_ok_def)
  moreover have "numbers_ok [9223372036854775807]" by (simp add: numbers_ok_def)
  ultimately obtain s where "EncodeInt64 (build_hid d) [9223372036854775807] = Ret (Inr s)"
    using encode_decode by blast
  with d len show ?thesis by (simp add: NewWithData_def minAlphabetLength_def)
qed

lemma DefaultAlphabet_facts:
  "16 \<le> length DefaultAlphabet" "distinct DefaultAlphabet" "32 \<notin> set DefaultAlphabet" "runes_ok DefaultAlphabet"
  by (simp_all add: DefaultAlphabet_def runes_def runes_ok_def)

text \<open>
  C36: An encoder that \<open>NewWithData\<close> returns is well formed: its alphabet has at least two
  runes, separators and guards are not empty, and no rune is in two of them or twice in one. For
  every alphabet of at least 16 distinct runes without space and NUL an encoder is returned.
\<close>

theorem NewWithData_well_formed:
  "(NewWithData d = Ret (Inr h) \<longrightarrow> hid_ok h) \<and>
   (16 \<le> length (d_Alphabet d) \<and> distinct (d_Alphabet d) \<and> 32 \<notin> set (d_Alphabet d) \<and> runes_ok (d_Alphabet d) \<longrightarrow>
     (\<exists>h'. NewWithData d = Ret (Inr h')))"
  using NewWithData_ok NewWithData_returns by blast

theorem NewWithData_well_formed_witness: "\<exists>h. New = Ret (Inr h) \<and> hid_ok h"
proof -
  obtain h where h: "NewWithData NewData = Ret (Inr h)"
    using NewWithData_well_formed [of NewData] DefaultAlphabet_facts by (auto simp: NewData_def)
  then show ?thesis using NewWithData_well_formed [of NewData h] by (simp add: New_def)
qed

text \<open>
  C19: With an encoder made by \<open>NewWithData\<close>, every list of numbers in range is encoded, the id
  has at least the minimum length, and decoding it gives the numbers back without an error. A
  string of hexadecimal digits comes back in lower case.
\<close>

theorem hashid_roundtrip:
  assumes "NewWithData d = Ret (Inr h)" and "runes_ok (d_Alphabet d)" and "numbers_ok ns"
  shows "(\<exists>s. EncodeInt64 h ns = Ret (Inr s) \<and> d_MinLength d \<le> int (length s) \<and>
           DecodeInt64WithError h s = Ret (ns, None) \<and> DecodeInt64 h s = Ret ns) \<and>
         (hex_ok hex \<longrightarrow> (\<exists>s. EncodeHex h hex = Ret (Inr s) \<and> DecodeHex h s = Ret (Inr (map lower_rune hex))))"
proof -
  have h: "hid_ok h" "runes_ok (h_alphabet h)" "h_minLength h = d_MinLength d"
    using NewWithData_ok [OF assms(1)] assms(2) by (auto simp: runes_ok_def)
  with encode_decode [OF _ _ assms(3)]
  have "\<exists>s. EncodeInt64 h ns = Ret (Inr s) \<and> d_MinLength d \<le> int (length s) \<and>
      DecodeInt64WithError h s = Ret (ns, None) \<and> DecodeInt64 h s = Ret ns"
    by (fastforce simp: DecodeInt64_def)
  with encode_decode_hex [OF h(1,2)] show ?thesis by blast
qed

theorem hashid_roundtrip_witness:
  "\<exists>h s t. New = Ret (Inr h) \<and> EncodeInt64 h [45, 434, 0] = Ret (Inr s) \<and> DecodeInt64 h s = Ret [45, 434, 0] \<and>
     EncodeHex h (runes ''c0FFee'') = Ret (Inr t) \<and> DecodeHex h t = Ret (Inr (runes ''c0ffee''))"
proof -
  obtain h where h: "NewWithData NewData = Ret (Inr h)"
    using NewWithData_returns [of NewData] DefaultAlphabet_facts by (auto simp: NewData_def)
  moreover have "runes_ok (d_Alphabet NewData)" using DefaultAlphabet_facts by (simp add: NewData_def)
  moreover have "numbers_ok [45, 434, 0]" by (simp add: numbers_ok_def)
  moreover have "hex_ok (runes ''c0FFee'')" "map lower_rune (runes ''c0FFee'') = runes ''c0ffee''"
    by (simp_all add: hex_ok_def runes_def lower_rune_def)
  ultimately show ?thesis using hashid_roundtrip [of NewData h "[45, 434, 0]" "runes ''c0FFee''"] by (auto simp: New_def)
qed

text \<open>
  The length of the alphabet is checked in bytes: the 14 separators and one rune of two bytes
  pass as 16 characters, leave an alphabet of one rune, and \<open>NewWithData\<close> never returns, since
  dividing by 1 never ends the loop of \<open>hash\<close>.
\<close>

theorem short_alphabet_never_returns:
  "NewWithData \<lparr>d_Alphabet = sepsOriginal @ [233], d_MinLength = m, d_Salt = salt\<rparr> = Diverge"
proof -
  define d where "d = \<lparr>d_Alphabet = sepsOriginal @ [233], d_MinLength = m, d_Salt = salt\<rparr>"
  have new: "233 \<notin> set sepsOriginal" "32 \<notin> set sepsOriginal" by (auto simp: sepsOriginal_def runes_def)
  have i: "initial_seps (d_Alphabet d) = (sepsOriginal, [233])"
    using new by (simp add: initial_seps_def d_def)
  have "extend_seps (consistentShuffleInPlace sepsOriginal salt) [233] = (consistentShuffleInPlace sepsOriginal salt, [233])"
    using sepsOriginal_facts(2) by (auto simp: extend_seps_def simp flip: length_0_conv)
  then have "length (h_alphabet (build_hid d)) = 1"
    using i by (simp add: build_hid_def take_guards_def Let_def) (simp add: d_def)
  then have "EncodeInt64 (build_hid d) [9223372036854775807] = Diverge" by (rule encode_single)
  moreover have "byte_len (d_Alphabet d) = 16"
    by (simp add: d_def sepsOriginal_def runes_def byte_len_def rune_len_def)
  moreover have "distinct (d_Alphabet d)" "32 \<notin> set (d_Alphabet d)"
    using new sepsOriginal_facts(1) by (auto simp: d_def)
  ultimately show ?thesis unfolding d_def [symmetric] by (simp add: NewWithData_def minAlphabetLength_def)
qed

end
