(* ===== verification/Core_Registry.thy ===== *)
theory Core_Registry
  imports Go_Values
begin

text \<open>
  The registry of the framework (\<open>core.go\<close>) and the constants kept in it (\<open>const.go\<close>). Every module
  registers its drivers, types, routers and so on as chunks under a branch and a name; a new
  registration under the same name replaces the old one. A pointer to a block is its position in the list of blocks.
\<close>

section \<open>Blocks and chunks\<close>

record coreChunk =
  ch_time :: int
  ch_name :: string
  ch_data :: Any

record coreBlock =
  bl_branch :: string
  bl_block :: string
  bl_chunks :: "coreChunk list"
  bl_last :: int
  bl_current :: int

record coreKernel =
  k_blocks :: "(string \<times> nat) list"
  k_indexs :: "coreBlock list"
  k_newbies :: "(string \<times> string) list"

definition new_coreKernel :: coreKernel where
  "new_coreKernel = \<lparr>k_blocks = [], k_indexs = [], k_newbies = []\<rparr>"

definition block_key :: "string \<Rightarrow> string \<Rightarrow> string" where
  "block_key branch block = ToLower (branch @ ''.'' @ block)"

definition chunking_block :: "string \<Rightarrow> string \<Rightarrow> coreKernel \<Rightarrow> coreKernel" where
  "chunking_block branch block k =
     (let key = block_key branch block
      in if map_of (k_blocks k) key = None
         then k\<lparr>k_blocks := AList.update key (length (k_indexs k)) (k_blocks k),
                k_indexs := k_indexs k @ [\<lparr>bl_branch = branch, bl_block = block, bl_chunks = [], bl_last = - 1, bl_current = - 1\<rparr>]\<rparr>
         else k)"

definition add_chunk :: "coreChunk \<Rightarrow> coreBlock \<Rightarrow> coreBlock" where
  "add_chunk c b = b\<lparr>bl_chunks := bl_chunks b @ [c], bl_last := bl_current b, bl_current := int (length (bl_chunks b))\<rparr>"

text \<open>\<open>running\<close> is \<open>Bigger.running\<close>, \<open>now\<close> the time.\<close>

definition chunking :: "bool \<Rightarrow> int \<Rightarrow> string \<Rightarrow> string \<Rightarrow> Any \<Rightarrow> coreKernel \<Rightarrow> coreKernel" where
  "chunking running now branch block chunk k =
     (let k1 = chunking_block branch block k;
          k2 = (if running then k1\<lparr>k_newbies := k_newbies k1 @ [(branch, block)]\<rparr> else k1)
      in case map_of (k_blocks k2) (block_key branch block) of
           None \<Rightarrow> k2
         | Some i \<Rightarrow> k2\<lparr>k_indexs := (k_indexs k2)[i := add_chunk \<lparr>ch_time = now, ch_name = block, ch_data = chunk\<rparr> (k_indexs k2 ! i)]\<rparr>)"

text \<open>\<open>&block.chunks[block.current]\<close>: out of range panics.\<close>

definition at_current :: "coreBlock \<Rightarrow> coreChunk outcome" where
  "at_current b = (if 0 \<le> bl_current b \<and> bl_current b < int (length (bl_chunks b)) then Ret (bl_chunks b ! nat (bl_current b))
     else Panic ''index out of range'')"

text \<open>The method \<open>chunk\<close> of a block, with \<open>None\<close> for the nil pointer, and of the kernel.\<close>

definition block_chunk :: "coreBlock \<Rightarrow> coreChunk option outcome" where
  "block_chunk b = (if bl_chunks b \<noteq> [] then obind (at_current b) (\<lambda>c. Ret (Some c)) else Ret None)"

definition kernel_chunk :: "string \<Rightarrow> string \<Rightarrow> coreKernel \<Rightarrow> coreChunk option outcome" where
  "kernel_chunk branch block k = (case map_of (k_blocks k) (block_key branch block) of
      Some i \<Rightarrow> obind (at_current (k_indexs k ! i)) (\<lambda>c. Ret (Some c))
    | None \<Rightarrow> Ret None)"

fun chunks_loop :: "string \<Rightarrow> string list \<Rightarrow> coreBlock list \<Rightarrow> coreChunk option list outcome" where
  "chunks_loop branch prefixs [] = Ret []"
| "chunks_loop branch prefixs (b # bs) =
     (let times = (if bl_branch b = branch
                   then if prefixs = [] then 1 else length (filter (HasPrefix (bl_block b)) prefixs)
                   else 0)
      in if times = 0 then chunks_loop branch prefixs bs
         else obind (block_chunk b) (\<lambda>c. obind (chunks_loop branch prefixs bs) (\<lambda>cs. Ret (replicate times c @ cs))))"

definition kernel_chunks :: "string \<Rightarrow> string list \<Rightarrow> coreKernel \<Rightarrow> coreChunk option list outcome" where
  "kernel_chunks branch prefixs k = chunks_loop branch prefixs (k_indexs k)"

definition chunkdata :: "string \<Rightarrow> string \<Rightarrow> coreKernel \<Rightarrow> Any outcome" where
  "chunkdata branch block k = obind (kernel_chunk branch block k) (\<lambda>c. Ret (case c of Some c \<Rightarrow> ch_data c | None \<Rightarrow> VNil))"

definition lastNewbies :: "coreKernel \<Rightarrow> (string \<times> string) list \<times> coreKernel" where
  "lastNewbies k = (k_newbies k, k\<lparr>k_newbies := []\<rparr>)"

text \<open>The functions under a key of the chunks of a branch; a chunk whose data is no map has none.\<close>

fun funcs_of :: "Any \<Rightarrow> nat list" where
  "funcs_of (VFunc FContext f) = [f]"
| "funcs_of (VFuncs FContext fs) = fs"
| "funcs_of (VFunc FFuncing f) = [f]"
| "funcs_of (VFuncs FFuncing fs) = fs"
| "funcs_of _ = []"

fun funcings_loop :: "string \<Rightarrow> coreChunk option list \<Rightarrow> nat list outcome" where
  "funcings_loop key [] = Ret []"
| "funcings_loop key (None # cs) = Panic ''nil pointer dereference''"
| "funcings_loop key (Some c # cs) = obind (funcings_loop key cs) (\<lambda>fs.
     Ret ((case as_Map (ch_data c) of Some config \<Rightarrow> funcs_of (map_get config key) | None \<Rightarrow> []) @ fs))"

definition funcings :: "string \<Rightarrow> string \<Rightarrow> string list \<Rightarrow> coreKernel \<Rightarrow> nat list outcome" where
  "funcings branch key prefixs k = obind (kernel_chunks branch prefixs k) (funcings_loop key)"

section \<open>The registry as a history\<close>

text \<open>
  What the registry stands for: the list of all registrations, oldest first. The history of a name
  is the registrations under its key; the keys are ordered by their first registration.
\<close>

record registration =
  rg_running :: bool
  rg_now :: int
  rg_branch :: string
  rg_block :: string
  rg_data :: Any

definition register :: "registration \<Rightarrow> coreKernel \<Rightarrow> coreKernel" where
  "register r = chunking (rg_running r) (rg_now r) (rg_branch r) (rg_block r) (rg_data r)"

definition registered :: "registration list \<Rightarrow> coreKernel" where
  "registered rs = fold register rs new_coreKernel"

definition reg_key :: "registration \<Rightarrow> string" where
  "reg_key r = block_key (rg_branch r) (rg_block r)"

definition reg_chunk :: "registration \<Rightarrow> coreChunk" where
  "reg_chunk r = \<lparr>ch_time = rg_now r, ch_name = rg_block r, ch_data = rg_data r\<rparr>"

definition history :: "registration list \<Rightarrow> string \<Rightarrow> registration list" where
  "history rs key = filter (\<lambda>r. reg_key r = key) rs"

fun first_keys :: "string list \<Rightarrow> string list" where
  "first_keys [] = []"
| "first_keys (k # ks) = k # filter (\<lambda>k'. k' \<noteq> k) (first_keys ks)"

definition block_of :: "registration list \<Rightarrow> string \<Rightarrow> coreBlock" where
  "block_of rs key = (let h = history rs key in
     \<lparr>bl_branch = rg_branch (hd h), bl_block = rg_block (hd h), bl_chunks = map reg_chunk h,
      bl_last = int (length h) - 2, bl_current = int (length h) - 1\<rparr>)"

lemma set_first_keys [simp]: "set (first_keys ks) = set ks"
  by (induction ks) auto

lemma distinct_first_keys [simp]: "distinct (first_keys ks)"
  by (induction ks) auto

lemma first_keys_snoc: "first_keys (ks @ [k]) = (if k \<in> set ks then first_keys ks else first_keys ks @ [k])"
  by (induction ks) (auto simp: filter_empty_conv)

lemma history_snoc: "history (rs @ [r]) key = history rs key @ (if reg_key r = key then [r] else [])"
  by (simp add: history_def)

lemma history_Nil_iff: "history rs key = [] \<longleftrightarrow> key \<notin> set (map reg_key rs)"
  by (auto simp: history_def filter_empty_conv)

lemma block_of_snoc:
  "block_of (rs @ [r]) key = (if reg_key r \<noteq> key then block_of rs key
     else add_chunk (reg_chunk r) (if history rs key = []
       then \<lparr>bl_branch = rg_branch r, bl_block = rg_block r, bl_chunks = [], bl_last = - 1, bl_current = - 1\<rparr>
       else block_of rs key))"
  by (auto simp: block_of_def history_snoc add_chunk_def Let_def neq_Nil_conv)

definition reg_inv :: "registration list \<Rightarrow> coreKernel \<Rightarrow> bool" where
  "reg_inv rs k \<longleftrightarrow> (let ks = first_keys (map reg_key rs) in
     k_blocks k = zip ks [0..<length ks] \<and> k_indexs k = map (block_of rs) ks \<and>
     k_newbies k = map (\<lambda>r. (rg_branch r, rg_block r)) (filter rg_running rs))"

lemma map_of_position: "distinct ks \<Longrightarrow> i < length ks \<Longrightarrow> map_of (zip ks [0..<length ks]) (ks ! i) = Some i"
  using map_of_zip_nth [of ks "[0..<length ks]" i] by simp

lemma keys_zip [simp]: "fst ` set (zip ks [0..<length ks]) = set ks"
  by (metis add_0 diff_zero length_upt list.set_map map_fst_zip)

lemma update_missing: "k \<notin> fst ` set xs \<Longrightarrow> AList.update k v xs = xs @ [(k, v)]"
  by (induction xs) auto

lemma reg_inv_snoc:
  assumes "reg_inv rs k"
  shows "reg_inv (rs @ [r]) (register r k)"
proof -
  define ks where "ks = first_keys (map reg_key rs)"
  let ?K = "reg_key r"
  have k: "k_blocks k = zip ks [0..<length ks]" "k_indexs k = map (block_of rs) ks"
    "k_newbies k = map (\<lambda>r. (rg_branch r, rg_block r)) (filter rg_running rs)" and d: "distinct ks" and s: "set ks = set (map reg_key rs)"
    using assms by (simp_all add: reg_inv_def ks_def Let_def)
  show ?thesis
  proof (cases "?K \<in> set ks")
    case False
    then have none: "map_of (zip ks [0..<length ks]) ?K = None" by (simp add: map_of_eq_None_iff)
    have kb: "k_blocks (register r k) = zip (ks @ [?K]) [0..<length (ks @ [?K])]"
      "k_indexs (register r k) = map (block_of rs) ks @ [block_of (rs @ [r]) ?K]"
      "k_newbies (register r k) = k_newbies k @ (if rg_running r then [(rg_branch r, rg_block r)] else [])"
      using False s unfolding register_def chunking_def chunking_block_def reg_key_def [symmetric]
      by (simp_all add: Let_def k none update_missing map_add_def block_of_snoc history_Nil_iff reg_chunk_def list_update_append nth_append)
    moreover have "map (block_of rs) ks = map (block_of (rs @ [r])) ks" using False by (auto simp: block_of_snoc)
    ultimately show ?thesis using False s
      by (simp add: reg_inv_def first_keys_snoc ks_def [symmetric] Let_def k(3))
  next
    case True
    then obtain i where i: "i < length ks" "ks ! i = ?K" by (auto simp: in_set_conv_nth)
    then have m: "map_of (k_blocks k) ?K = Some i" using map_of_position [OF d i(1)] by (simp add: k)
    then have kb: "k_blocks (register r k) = k_blocks k" "k_indexs (register r k) = (map (block_of rs) ks)[i := add_chunk (reg_chunk r) (block_of rs ?K)]"
      "k_newbies (register r k) = k_newbies k @ (if rg_running r then [(rg_branch r, rg_block r)] else [])"
      using i True unfolding register_def chunking_def chunking_block_def reg_key_def [symmetric] by (simp_all add: Let_def k reg_chunk_def)
    have "history rs ?K \<noteq> []" using True s by (simp add: history_Nil_iff)
    then have new: "block_of (rs @ [r]) ?K = add_chunk (reg_chunk r) (block_of rs ?K)" by (simp add: block_of_snoc)
    have "(map (block_of rs) ks)[i := add_chunk (reg_chunk r) (block_of rs ?K)] = map (block_of (rs @ [r])) ks"
    proof (rule nth_equalityI)
      fix j assume "j < length ((map (block_of rs) ks)[i := add_chunk (reg_chunk r) (block_of rs ?K)])"
      then have j: "j < length ks" by simp
      then have "j \<noteq> i \<Longrightarrow> ?K \<noteq> ks ! j" using d i nth_eq_iff_index_eq by metis
      then show "(map (block_of rs) ks)[i := add_chunk (reg_chunk r) (block_of rs ?K)] ! j = map (block_of (rs @ [r])) ks ! j"
        using i(2) j new by (cases "j = i") (simp_all add: block_of_snoc [of rs r "ks ! j"])
    qed simp
    with kb True s show ?thesis by (simp add: reg_inv_def first_keys_snoc ks_def [symmetric] Let_def k)
  qed
qed

lemma reg_inv_registered: "reg_inv rs (registered rs)"
proof (induction rs rule: rev_induct)
  case Nil
  show ?case by (simp add: registered_def new_coreKernel_def reg_inv_def Let_def)
next
  case (snoc r rs)
  then show ?case using reg_inv_snoc by (simp add: registered_def)
qed

text \<open>The chunk that is current under a name, if it was ever registered.\<close>

definition latest :: "registration list \<Rightarrow> string \<Rightarrow> coreChunk option" where
  "latest rs key = (if history rs key = [] then None else Some (reg_chunk (last (history rs key))))"

lemma at_current_block_of: "history rs key \<noteq> [] \<Longrightarrow> at_current (block_of rs key) = Ret (reg_chunk (last (history rs key)))"
  by (simp add: at_current_def block_of_def Let_def last_conv_nth nat_diff_distrib' Suc_leI)

lemma block_chunk_block_of: "history rs key \<noteq> [] \<Longrightarrow> block_chunk (block_of rs key) = Ret (latest rs key)"
  using at_current_block_of [of rs key] by (simp add: block_chunk_def latest_def) (simp add: block_of_def Let_def)

lemma kernel_chunk_registered: "kernel_chunk branch block (registered rs) = Ret (latest rs (block_key branch block))"
proof -
  define ks where "ks = first_keys (map reg_key rs)"
  let ?K = "block_key branch block" and ?k = "registered rs"
  have k: "k_blocks ?k = zip ks [0..<length ks]" "k_indexs ?k = map (block_of rs) ks" "distinct ks" "set ks = set (map reg_key rs)"
    using reg_inv_registered [of rs] by (simp_all add: reg_inv_def ks_def Let_def)
  show ?thesis
  proof (cases "?K \<in> set ks")
    case True
    then obtain i where i: "i < length ks" "ks ! i = ?K" by (auto simp: in_set_conv_nth)
    then have "map_of (k_blocks ?k) ?K = Some i" using map_of_position [OF k(3) i(1)] by (simp add: k)
    moreover have "history rs ?K \<noteq> []" using True k(4) by (simp add: history_Nil_iff)
    ultimately show ?thesis using i by (simp add: kernel_chunk_def k at_current_block_of latest_def)
  next
    case False
    then have "map_of (k_blocks ?k) ?K = None" by (simp add: k map_of_eq_None_iff)
    moreover have "history rs ?K = []" using False k(4) by (simp add: history_Nil_iff)
    ultimately show ?thesis by (simp add: kernel_chunk_def latest_def)
  qed
qed

lemma chunks_loop_blocks:
  "set ks \<subseteq> set (map reg_key rs) \<Longrightarrow> chunks_loop branch [] (map (block_of rs) ks) =
     Ret (map (latest rs) (filter (\<lambda>key. rg_branch (hd (history rs key)) = branch) ks))"
proof (induction ks)
  case (Cons key ks)
  then have "history rs key \<noteq> []" by (simp add: history_Nil_iff)
  then have "block_chunk (block_of rs key) = Ret (latest rs key)" by (rule block_chunk_block_of)
  moreover have "bl_branch (block_of rs key) = rg_branch (hd (history rs key))" by (simp add: block_of_def Let_def)
  ultimately show ?case using Cons by simp
qed simp

text \<open>
  C14: The registry behaves as the history of its registrations. Whatever was registered, a lookup
  by branch and name gives the data of the latest registration whose branch and name agree up to
  case, or nil; the list of a branch gives, in the order of their first registration, the latest
  chunk of every name first registered in that branch; and neither ever panics.
\<close>

theorem registry_is_history:
  "chunkdata branch block (registered rs) =
     Ret (case latest rs (block_key branch block) of Some c \<Rightarrow> ch_data c | None \<Rightarrow> VNil) \<and>
   kernel_chunks branch [] (registered rs) =
     Ret (map (latest rs) (filter (\<lambda>key. rg_branch (hd (history rs key)) = branch) (first_keys (map reg_key rs))))"
proof
  show "chunkdata branch block (registered rs) =
     Ret (case latest rs (block_key branch block) of Some c \<Rightarrow> ch_data c | None \<Rightarrow> VNil)"
    by (simp add: chunkdata_def kernel_chunk_registered)
  have "k_indexs (registered rs) = map (block_of rs) (first_keys (map reg_key rs))"
    using reg_inv_registered [of rs] by (simp add: reg_inv_def Let_def)
  then show "kernel_chunks branch [] (registered rs) =
     Ret (map (latest rs) (filter (\<lambda>key. rg_branch (hd (history rs key)) = branch) (first_keys (map reg_key rs))))"
    using chunks_loop_blocks [of "first_keys (map reg_key rs)" rs branch] by (simp add: kernel_chunks_def)
qed

text \<open>
  The key joins branch and name with a dot, so names of two branches can be the same key: a helper
  registered in the branch \<open>view.helper\<close> answers for a driver of the branch \<open>view\<close> (\<open>base.go\<close>).
\<close>

lemma branches_share_keys:
  "chunkdata ''view'' ''helper.date'' (registered [\<lparr>rg_running = False, rg_now = 0, rg_branch = ''view.helper'', rg_block = ''date'', rg_data = VStr v\<rparr>]) = Ret (VStr v)"
  by (simp add: chunkdata_def kernel_chunk_registered latest_def history_def reg_key_def block_key_def reg_chunk_def)

end
