(* ===== verification/Const_Module.thy ===== *)
theory Const_Module
  imports Core_Registry
begin

text \<open>
  The constants of the framework (\<open>const.go\<close>): MIME types, status codes, regular expressions and the
  texts of each language, kept in the registry. Regular expressions and \<open>fmt.Sprintf\<close> with the arguments of
  a message are arguments of the functions that use them.
\<close>

section \<open>Registration\<close>

text \<open>What every registering function of the modules does with one name: override, or only when the name is free.\<close>

definition put_chunk :: "bool \<Rightarrow> int \<Rightarrow> bool \<Rightarrow> string \<Rightarrow> string \<Rightarrow> Any \<Rightarrow> coreKernel \<Rightarrow> coreKernel outcome" where
  "put_chunk running now override branch name v k =
     (if override then Ret (chunking running now branch name v k)
      else obind (chunkdata branch name k) (\<lambda>d. Ret (if d = VNil then chunking running now branch name v k else k)))"

fun put_all :: "bool \<Rightarrow> int \<Rightarrow> bool \<Rightarrow> string \<Rightarrow> (string \<times> Any) list \<Rightarrow> coreKernel \<Rightarrow> coreKernel outcome" where
  "put_all running now override branch [] k = Ret k"
| "put_all running now override branch ((name, v) # xs) k =
     obind (put_chunk running now override branch name v k) (put_all running now override branch xs)"

fun is_string :: "Any \<Rightarrow> bool" where
  "is_string (VStr s) = True"
| "is_string _ = False"

fun is_int :: "Any \<Rightarrow> bool" where
  "is_int (VNum KInt n) = True"
| "is_int _ = False"

abbreviation override_of :: "bool list \<Rightarrow> bool" where
  "override_of overrides \<equiv> (case overrides of [] \<Rightarrow> True | b # _ \<Rightarrow> b)"

definition Mime :: "bool \<Rightarrow> int \<Rightarrow> Map \<Rightarrow> bool list \<Rightarrow> coreKernel \<Rightarrow> coreKernel outcome" where
  "Mime running now config overrides =
     put_all running now (override_of overrides) ''const.mime'' (filter (\<lambda>(k, v). is_string v) config)"

definition Status :: "bool \<Rightarrow> int \<Rightarrow> Map \<Rightarrow> bool list \<Rightarrow> coreKernel \<Rightarrow> coreKernel outcome" where
  "Status running now config overrides =
     put_all running now (override_of overrides) ''const.status'' (filter (\<lambda>(k, v). is_int v) config)"

fun regular_strings :: "Any \<Rightarrow> string list" where
  "regular_strings (VStr s) = [s]"
| "regular_strings (VStrs ss) = ss"
| "regular_strings _ = []"

definition Regular :: "bool \<Rightarrow> int \<Rightarrow> Map \<Rightarrow> bool list \<Rightarrow> coreKernel \<Rightarrow> coreKernel outcome" where
  "Regular running now config overrides =
     put_all running now (override_of overrides) ''const.regular''
       (map (\<lambda>(k, v). (k, VStrs (regular_strings v))) (filter (\<lambda>(k, v). regular_strings v \<noteq> []) config))"

definition Lang :: "bool \<Rightarrow> int \<Rightarrow> string \<Rightarrow> Map \<Rightarrow> bool list \<Rightarrow> coreKernel \<Rightarrow> coreKernel outcome" where
  "Lang running now lang config overrides =
     put_all running now (override_of overrides) ''const.lang''
       (map (\<lambda>(k, v). (lang @ ''.'' @ k, v)) (filter (\<lambda>(k, v). is_string v) config))"

section \<open>Lookups\<close>

abbreviation default_of :: "'a \<Rightarrow> 'a list \<Rightarrow> 'a" where
  "default_of d defs \<equiv> (case defs of [] \<Rightarrow> d | x # _ \<Rightarrow> x)"

definition MimeType :: "string \<Rightarrow> string list \<Rightarrow> coreKernel \<Rightarrow> string outcome" where
  "MimeType name defs k =
     (if CHR ''/'' \<in> set name then Ret name
      else obind (chunkdata ''const.mime'' (filter (\<lambda>c. c \<noteq> CHR ''.'') name) k) (\<lambda>v. case as_string v of
          Some s \<Rightarrow> Ret s
        | None \<Rightarrow> obind (chunkdata ''const.mime'' ''*'' k) (\<lambda>v. Ret (case as_string v of
            Some s \<Rightarrow> s
          | None \<Rightarrow> default_of ''application/octet-stream'' defs))))"

text \<open>The name of the first chunk whose data is the given value; a nil chunk would be dereferenced.\<close>

fun find_name :: "Any \<Rightarrow> coreChunk option list \<Rightarrow> string option outcome" where
  "find_name v [] = Ret None"
| "find_name v (None # cs) = Panic ''nil pointer dereference''"
| "find_name v (Some c # cs) = (if ch_data c = v then Ret (Some (ch_name c)) else find_name v cs)"

definition TypeMime :: "string \<Rightarrow> string list \<Rightarrow> coreKernel \<Rightarrow> string outcome" where
  "TypeMime mime defs k =
     (if CHR ''/'' \<notin> set mime then Ret mime
      else obind (kernel_chunks ''const.mime'' [] k) (\<lambda>cs. obind (find_name (VStr mime) cs) (\<lambda>r.
        Ret (case r of Some n \<Rightarrow> n | None \<Rightarrow> default_of [] defs))))"

definition StatusCode :: "string \<Rightarrow> int list \<Rightarrow> coreKernel \<Rightarrow> int outcome" where
  "StatusCode name defs k = obind (chunkdata ''const.status'' name k) (\<lambda>v. Ret (case v of
      VNum KInt n \<Rightarrow> n
    | _ \<Rightarrow> default_of (- 1) defs))"

definition CodeStatus :: "int \<Rightarrow> string list \<Rightarrow> coreKernel \<Rightarrow> string outcome" where
  "CodeStatus code defs k =
     obind (kernel_chunks ''const.status'' [] k) (\<lambda>cs. obind (find_name (VNum KInt code) cs) (\<lambda>r.
        Ret (case r of Some n \<Rightarrow> n | None \<Rightarrow> default_of [] defs)))"

definition RegularExpress :: "string \<Rightarrow> string list \<Rightarrow> coreKernel \<Rightarrow> string list outcome" where
  "RegularExpress name defs k = obind (chunkdata ''const.regular'' name k) (\<lambda>v. Ret (case v of
      VStr s \<Rightarrow> [s]
    | VStrs ss \<Rightarrow> ss
    | _ \<Rightarrow> defs))"

text \<open>\<open>match\<close> is \<open>regexp.MustCompile(v).MatchString(value)\<close>: \<open>None\<close> for a pattern that does not compile, which panics.\<close>

fun match_any :: "(string \<Rightarrow> string \<Rightarrow> bool option) \<Rightarrow> string \<Rightarrow> string list \<Rightarrow> bool outcome" where
  "match_any match value [] = Ret False"
| "match_any match value (v # vs) = (case match v value of
      None \<Rightarrow> Panic ''regexp: Compile''
    | Some True \<Rightarrow> Ret True
    | Some False \<Rightarrow> match_any match value vs)"

definition RegularMatch :: "(string \<Rightarrow> string \<Rightarrow> bool option) \<Rightarrow> string \<Rightarrow> string \<Rightarrow> coreKernel \<Rightarrow> bool outcome" where
  "RegularMatch match value regular k = obind (RegularExpress regular [] k) (match_any match value)"

definition LangString :: "(string \<Rightarrow> string list \<Rightarrow> string) \<Rightarrow> string \<Rightarrow> string \<Rightarrow> string list \<Rightarrow> coreKernel \<Rightarrow> string outcome" where
  "LangString sprintf lang0 name args k =
     (let lang = (if lang0 = [] then DEFAULT else lang0);
          text = (\<lambda>v. case as_string v of Some s \<Rightarrow> s | None \<Rightarrow> [])
      in obind (chunkdata ''const.lang'' (lang @ ''.'' @ name) k) (\<lambda>v.
         obind (if text v \<noteq> [] then Ret (text v)
                else obind (chunkdata ''const.lang'' (DEFAULT @ ''.'' @ name) k) (\<lambda>d.
                       Ret (if text d \<noteq> [] then text d else name)))
           (\<lambda>langStr. Ret (if args \<noteq> [] then sprintf langStr args else langStr))))"

fun results_loop :: "(Any \<Rightarrow> string) \<Rightarrow> (string \<Rightarrow> string list \<Rightarrow> string) \<Rightarrow> coreKernel \<Rightarrow> coreChunk option list \<Rightarrow> Map \<Rightarrow> Map outcome" where
  "results_loop show sprintf k [] codes = Ret codes"
| "results_loop show sprintf k (None # cs) codes = Panic ''nil pointer dereference''"
| "results_loop show sprintf k (Some c # cs) codes =
     obind (LangString sprintf DEFAULT (ch_name c) [] k) (\<lambda>s.
       results_loop show sprintf k cs (AList.update (sprint show (ch_data c)) (VStr s) codes))"

definition Results :: "(Any \<Rightarrow> string) \<Rightarrow> (string \<Rightarrow> string list \<Rightarrow> string) \<Rightarrow> coreKernel \<Rightarrow> Map outcome" where
  "Results show sprintf k = obind (kernel_chunks ''const.status'' [] k) (\<lambda>cs. results_loop show sprintf k cs [])"

definition Error_Code :: "Error \<Rightarrow> coreKernel \<Rightarrow> int outcome" where
  "Error_Code e k = StatusCode (er_status e) [] k"

definition Error_String :: "(string \<Rightarrow> string list \<Rightarrow> string) \<Rightarrow> Error \<Rightarrow> coreKernel \<Rightarrow> string outcome" where
  "Error_String sprintf e k = LangString sprintf (er_lang e) (er_status e) (er_args e) k"

section \<open>What a registration changes\<close>

definition data_at :: "registration list \<Rightarrow> string \<Rightarrow> Any" where
  "data_at rs key = (case latest rs key of Some c \<Rightarrow> ch_data c | None \<Rightarrow> VNil)"

lemma chunkdata_registered: "chunkdata branch name (registered rs) = Ret (data_at rs (block_key branch name))"
  by (simp add: chunkdata_def kernel_chunk_registered data_at_def)

lemma data_at_snoc: "data_at (rs @ [r]) key = (if reg_key r = key then rg_data r else data_at rs key)"
  by (simp add: data_at_def latest_def history_snoc reg_chunk_def)

fun put_regs :: "bool \<Rightarrow> int \<Rightarrow> bool \<Rightarrow> string \<Rightarrow> (string \<times> Any) list \<Rightarrow> registration list \<Rightarrow> registration list" where
  "put_regs running now override branch [] rs = rs"
| "put_regs running now override branch ((name, v) # xs) rs =
     put_regs running now override branch xs
       (if override \<or> data_at rs (block_key branch name) = VNil
        then rs @ [\<lparr>rg_running = running, rg_now = now, rg_branch = branch, rg_block = name, rg_data = v\<rparr>] else rs)"

lemma chunking_registered:
  "chunking running now branch name v (registered rs) =
     registered (rs @ [\<lparr>rg_running = running, rg_now = now, rg_branch = branch, rg_block = name, rg_data = v\<rparr>])"
  by (simp add: registered_def register_def)

lemma put_all_registered: "put_all running now override branch xs (registered rs) = Ret (registered (put_regs running now override branch xs rs))"
  by (induction xs arbitrary: rs) (auto simp: put_chunk_def chunking_registered chunkdata_registered)

lemma data_put_regs_other:
  "key \<notin> block_key branch ` fst ` set xs \<Longrightarrow> data_at (put_regs running now override branch xs rs) key = data_at rs key"
  by (induction xs arbitrary: rs) (auto simp: data_at_snoc reg_key_def)

lemma data_put_regs:
  "distinct (map (block_key branch \<circ> fst) xs) \<Longrightarrow> (name, v) \<in> set xs \<Longrightarrow>
     data_at (put_regs running now override branch xs rs) (block_key branch name) =
       (if override \<or> data_at rs (block_key branch name) = VNil then v else data_at rs (block_key branch name))"
proof (induction xs arbitrary: rs)
  case (Cons x xs)
  obtain n w where x: "x = (n, w)" by force
  show ?case
  proof (cases "(name, v) = x")
    case True
    then have "block_key branch name \<notin> block_key branch ` fst ` set xs" using Cons.prems(1) by (force simp: image_comp)
    then show ?thesis using True x by (simp add: data_put_regs_other data_at_snoc reg_key_def)
  next
    case False
    then have mem: "(name, v) \<in> set xs" using Cons.prems(2) by auto
    have "block_key branch name \<in> set (map (block_key branch \<circ> fst) xs)"
      unfolding set_map by (rule image_eqI [OF _ mem]) simp
    moreover have "block_key branch n \<notin> set (map (block_key branch \<circ> fst) xs)" using Cons.prems(1) x by simp
    ultimately have "block_key branch n \<noteq> block_key branch name" by metis
    then show ?thesis using Cons.IH [OF _ mem] Cons.prems(1) x by (simp add: data_at_snoc reg_key_def)
  qed
qed simp

text \<open>
  Registering status codes: whatever the registry held, \<open>Status\<close> returns, afterwards every name of
  the configuration has its new code when it overrides or the name was free, and otherwise keeps the code it had;
  every name outside the configuration, in any branch, is looked up as before.
\<close>

theorem Status_registers:
  assumes "distinct (map (block_key ''const.status'' \<circ> fst) config)" and "(name, VNum KInt code) \<in> set config"
    and "block_key branch other \<notin> block_key ''const.status'' ` fst ` set config"
  shows "\<exists>k. Status running now config [override] (registered rs) = Ret k \<and>
    StatusCode name [] k = (if override \<or> chunkdata ''const.status'' name (registered rs) = Ret VNil then Ret code
      else StatusCode name [] (registered rs)) \<and>
    chunkdata branch other k = chunkdata branch other (registered rs)"
proof -
  let ?xs = "filter (\<lambda>(k, v). is_int v) config" and ?b = "''const.status''"
  let ?rs = "put_regs running now override ?b ?xs rs"
  have k: "Status running now config [override] (registered rs) = Ret (registered ?rs)"
    by (simp add: Status_def put_all_registered)
  have "distinct (map (block_key ?b \<circ> fst) ?xs)" using assms(1) by (rule distinct_map_filter)
  moreover have "(name, VNum KInt code) \<in> set ?xs" using assms(2) by simp
  ultimately have "data_at ?rs (block_key ?b name) =
      (if override \<or> data_at rs (block_key ?b name) = VNil then VNum KInt code else data_at rs (block_key ?b name))"
    by (rule data_put_regs)
  then have "StatusCode name [] (registered ?rs) = (if override \<or> chunkdata ?b name (registered rs) = Ret VNil then Ret code
      else StatusCode name [] (registered rs))"
    by (simp add: StatusCode_def chunkdata_registered)
  moreover have "block_key branch other \<notin> block_key ?b ` fst ` set ?xs" using assms(3) by auto
  then have "chunkdata branch other (registered ?rs) = chunkdata branch other (registered rs)"
    by (simp add: chunkdata_registered data_put_regs_other)
  ultimately show ?thesis using k by blast
qed

theorem Status_registers_witness:
  "\<exists>k. Status True 7 [(''OK'', VNum KInt 0), (''fail'', VNum KInt 1)] [True] (registered []) = Ret k \<and> StatusCode ''fail'' [] k = Ret 1 \<and>
     chunkdata ''const.mime'' ''txt'' k = Ret VNil"
  using Status_registers [of "[(''OK'', VNum KInt 0), (''fail'', VNum KInt 1)]" "''fail''" 1 "''const.mime''" "''txt''" True 7 True "[]"]
  by (simp add: block_key_def lower_char_def ToLower_def chunkdata_registered data_at_def latest_def history_def)

end
