(* ===== verification/Mapping_Module.thy ===== *)
theory Mapping_Module
  imports Const_Module "HOL-Library.Multiset"
begin

text \<open>
  Checking and converting input (\<open>mapping.go\<close>): the arguments of a request, the fields of a record and the
  replies of a service all go through \<open>Parse\<close>, driven by a configuration. The functions named in the configuration
  and in the registered types and codecs are code of the application: what they do is an argument.
  A function value is never a nil function.
\<close>

section \<open>Types and codecs\<close>

record mapping_env =
  call_valid :: "nat \<Rightarrow> Any \<Rightarrow> Map \<Rightarrow> bool"
  call_value :: "nat \<Rightarrow> Any \<Rightarrow> Map \<Rightarrow> Any"
  call_crypto :: "nat \<Rightarrow> Any \<Rightarrow> Any"
  call_auto :: "nat \<Rightarrow> Any"
  show_v :: "Any \<Rightarrow> string"
  show_s :: "Any \<Rightarrow> string"
  regexp_match :: "string \<Rightarrow> string \<Rightarrow> bool option"

text \<open>\<open>fmt.Sprintf("%s", v)\<close>\<close>

definition sprint_s :: "mapping_env \<Rightarrow> Any \<Rightarrow> string" where
  "sprint_s env v = (case v of VStr s \<Rightarrow> s | _ \<Rightarrow> show_s env v)"

definition names_of :: "string \<Rightarrow> string \<Rightarrow> string \<Rightarrow> Map \<Rightarrow> string list" where
  "names_of one many name config = (case map_get config one of
      VStr (c # s) \<Rightarrow> [c # s]
    | _ \<Rightarrow> (case map_get config many of VStrs vs \<Rightarrow> vs | _ \<Rightarrow> [name]))"

definition Type_register :: "bool \<Rightarrow> int \<Rightarrow> string \<Rightarrow> Map \<Rightarrow> bool list \<Rightarrow> coreKernel \<Rightarrow> coreKernel outcome" where
  "Type_register running now name config overrides =
     put_all running now (override_of overrides) ''mapping.type'' (map (\<lambda>real. (real, VMap config)) (names_of ''type'' ''types'' name config))"

definition Crypto :: "bool \<Rightarrow> int \<Rightarrow> string \<Rightarrow> Map \<Rightarrow> bool list \<Rightarrow> coreKernel \<Rightarrow> coreKernel outcome" where
  "Crypto running now name config overrides =
     put_all running now (override_of overrides) ''mapping.crypto'' (map (\<lambda>real. (real, VMap config)) (names_of ''crypto'' ''cryptos'' name config))"

fun collect_chunks :: "coreChunk option list \<Rightarrow> Map \<Rightarrow> Map outcome" where
  "collect_chunks [] m = Ret m"
| "collect_chunks (None # cs) m = Panic ''nil pointer dereference''"
| "collect_chunks (Some c # cs) m = collect_chunks cs (AList.update (ch_name c) (ch_data c) m)"

definition Cryptos :: "coreKernel \<Rightarrow> Map outcome" where
  "Cryptos k = obind (kernel_chunks ''mapping.crypto'' [] k) (\<lambda>cs. collect_chunks cs [])"

definition typeDefaultValid :: "mapping_env \<Rightarrow> coreKernel \<Rightarrow> Any \<Rightarrow> Map \<Rightarrow> bool outcome" where
  "typeDefaultValid env k value config = (case map_of config ''type'' of
      Some t \<Rightarrow> RegularMatch (regexp_match env) (sprint_s env value) (sprint (show_v env) t) k
    | None \<Rightarrow> Ret False)"

definition typeDefaultValue :: "mapping_env \<Rightarrow> Any \<Rightarrow> Map \<Rightarrow> Any" where
  "typeDefaultValue env value config = VStr (sprint_s env value)"

text \<open>The function under a key of a registered chunk; \<open>None\<close> selects the default of the module.\<close>

fun as_func :: "fkind \<Rightarrow> Any \<Rightarrow> nat option" where
  "as_func kind (VFunc kind' f) = (if kind' = kind then Some f else None)"
| "as_func kind _ = None"

definition registered_func :: "string \<Rightarrow> string \<Rightarrow> fkind \<Rightarrow> string \<Rightarrow> coreKernel \<Rightarrow> nat option outcome" where
  "registered_func branch key kind name k = obind (chunkdata branch name k) (\<lambda>d.
     Ret (case as_Map d of Some config \<Rightarrow> as_func kind (map_get config key) | None \<Rightarrow> None))"

definition typeValid :: "string \<Rightarrow> coreKernel \<Rightarrow> nat option outcome" where
  "typeValid = registered_func ''mapping.type'' ''valid'' FValid"

definition typeValue :: "string \<Rightarrow> coreKernel \<Rightarrow> nat option outcome" where
  "typeValue = registered_func ''mapping.type'' ''value'' FValue"

definition cryptoEncode :: "string \<Rightarrow> coreKernel \<Rightarrow> nat option outcome" where
  "cryptoEncode = registered_func ''mapping.crypto'' ''encode'' FCrypto"

definition cryptoDecode :: "string \<Rightarrow> coreKernel \<Rightarrow> nat option outcome" where
  "cryptoDecode = registered_func ''mapping.crypto'' ''decode'' FCrypto"

text \<open>Calling a method: the function of the field's own configuration goes before the registered one.\<close>

definition own_func :: "fkind \<Rightarrow> Any \<Rightarrow> nat option \<Rightarrow> nat option" where
  "own_func kind v f = (case as_func kind v of Some g \<Rightarrow> Some g | None \<Rightarrow> f)"

definition run_valid :: "mapping_env \<Rightarrow> coreKernel \<Rightarrow> nat option \<Rightarrow> Any \<Rightarrow> Map \<Rightarrow> bool outcome" where
  "run_valid env k f v config = (case f of Some f \<Rightarrow> Ret (call_valid env f v config) | None \<Rightarrow> typeDefaultValid env k v config)"

definition run_value :: "mapping_env \<Rightarrow> nat option \<Rightarrow> Any \<Rightarrow> Map \<Rightarrow> Any" where
  "run_value env f v config = (case f of Some f \<Rightarrow> call_value env f v config | None \<Rightarrow> typeDefaultValue env v config)"

definition run_crypto :: "mapping_env \<Rightarrow> nat option \<Rightarrow> Any \<Rightarrow> Any" where
  "run_crypto env f v = (case f of Some f \<Rightarrow> call_crypto env f v | None \<Rightarrow> v)"

section \<open>One field\<close>

fun to_int64 :: "Any \<Rightarrow> Any" where
  "to_int64 (VNum k n) = VNum KInt64 n"
| "to_int64 v = v"

fun to_float64 :: "Any \<Rightarrow> Any" where
  "to_float64 (VFloat32 x) = VFloat64 x"
| "to_float64 v = v"

text \<open>The default value of a field: functions are called, numbers widened.\<close>

fun auto_value :: "mapping_env \<Rightarrow> Any \<Rightarrow> Any" where
  "auto_value env (VFunc FAutoAny f) = call_auto env f"
| "auto_value env (VFunc FAutoTime f) = call_auto env f"
| "auto_value env (VFunc FAutoString f) = call_auto env f"
| "auto_value env (VFunc (FAutoNum k) f) = to_int64 (call_auto env f)"
| "auto_value env (VFunc FAutoFloat32 f) = to_float64 (call_auto env f)"
| "auto_value env (VFunc FAutoFloat64 f) = call_auto env f"
| "auto_value env (VNum k n) = VNum KInt64 n"
| "auto_value env (VFloat32 x) = VFloat64 x"
| "auto_value env (VNums k ns) = VNums KInt64 ns"
| "auto_value env (VFloats32 xs) = VFloats64 xs"
| "auto_value env v = v"

text \<open>The error of an empty or invalid field: one of the configuration's own, or the module's with the name of the field.\<close>

definition field_error :: "string \<Rightarrow> string \<Rightarrow> string \<Rightarrow> Map \<Rightarrow> Error" where
  "field_error key status fieldName config = (case map_get config key of
      VStr (c # s) \<Rightarrow> newError (c # s) []
    | VError e \<Rightarrow> e
    | _ \<Rightarrow> (case map_get config ''name'' of VStr (c # s) \<Rightarrow> newError status [c # s] | _ \<Rightarrow> newError status [fieldName]))"

fun in_zone :: "nat option \<Rightarrow> Any \<Rightarrow> Any" where
  "in_zone (Some z) (VTime t z') = (if z = 0 then VTime t z' else VTime t z)"
| "in_zone (Some z) (VTimes ts) = (if z = 0 then VTimes ts else VTimes (map (\<lambda>(t, _). (t, z)) ts))"
| "in_zone _ v = v"

text \<open>
  What the first half of the loop makes of a field: an error that ends \<open>Parse\<close>, no field at all (\<open>continue\<close>),
  or a value, with whether it was decoded and whether it was let pass although empty or invalid.
\<close>

datatype field_result = FieldError Error | FieldSkip | FieldValue Any bool bool

definition default_value :: "mapping_env \<Rightarrow> coreKernel \<Rightarrow> Map \<Rightarrow> Any \<Rightarrow> field_result outcome" where
  "default_value env k fieldConfig fieldAuto =
     (let v = auto_value env fieldAuto
      in case as_string (map_get fieldConfig ''type'') of
           None \<Rightarrow> Ret (FieldValue v False False)
         | Some fieldType \<Rightarrow> obind (typeValue fieldType k) (\<lambda>f.
             Ret (FieldValue (run_value env (own_func FValue (map_get fieldConfig ''value'') f) v fieldConfig) False False)))"

definition decode_value :: "mapping_env \<Rightarrow> coreKernel \<Rightarrow> Map \<Rightarrow> Any \<Rightarrow> (Any \<times> bool) outcome" where
  "decode_value env k fieldConfig v = (case map_get fieldConfig ''decode'' of
      VStr (c # s) \<Rightarrow> obind (cryptoDecode (c # s) k) (\<lambda>f.
        let val = run_crypto env f v in Ret (if val \<noteq> VNil then (val, True) else (v, False)))
    | _ \<Rightarrow> Ret (v, False))"

definition checked_value :: "mapping_env \<Rightarrow> coreKernel \<Rightarrow> nat option \<Rightarrow> bool \<Rightarrow> string \<Rightarrow> Map \<Rightarrow> Any \<Rightarrow> bool \<Rightarrow> field_result outcome" where
  "checked_value env k zone pass fieldName fieldConfig v decoded = (case map_get fieldConfig ''type'' of
      VStr (c # s) \<Rightarrow>
        obind (typeValid (c # s) k) (\<lambda>fv. obind (typeValue (c # s) k) (\<lambda>fw.
        obind (run_valid env k (own_func FValid (map_get fieldConfig ''valid'') fv) v fieldConfig) (\<lambda>ok.
          Ret (if ok then FieldValue (run_value env (own_func FValue (map_get fieldConfig ''value'') fw) (in_zone zone v) fieldConfig) decoded False
               else if pass then FieldValue v decoded True
               else FieldError (field_error ''error'' ''.mapping.error'' fieldName fieldConfig)))))
    | _ \<Rightarrow> Ret (FieldValue v decoded False))"

definition field_must :: "Map \<Rightarrow> bool" where
  "field_must fieldConfig \<longleftrightarrow> map_of fieldConfig ''must'' = Some (VBool True)"

definition field_given :: "mapping_env \<Rightarrow> Map \<Rightarrow> Map \<Rightarrow> string \<Rightarrow> Any" where
  "field_given env fieldConfig data fieldName =
     (let v = map_get data fieldName; strVal = sprint (show_v env) v
      in if strVal = [] \<or> v = VNil \<or> (\<not> field_must fieldConfig \<and> strVal = ''map[]'') then VNil else v)"

definition field_value :: "mapping_env \<Rightarrow> coreKernel \<Rightarrow> nat option \<Rightarrow> bool \<Rightarrow> bool \<Rightarrow> Map \<Rightarrow> string \<Rightarrow> Map \<Rightarrow> field_result outcome" where
  "field_value env k zone argn pass data fieldName fieldConfig =
     (let fieldMust = field_must fieldConfig;
          fieldEmpty = (map_of fieldConfig ''must'' = Some VNil);
          fieldExist = (map_of data fieldName \<noteq> None);
          fieldAuto = map_get fieldConfig ''auto'';
          fieldJson = map_get fieldConfig ''json'';
          v = field_given env fieldConfig data fieldName
      in if fieldMust \<and> \<not> fieldEmpty \<and> v = VNil \<and> fieldAuto = VNil \<and> fieldJson = VNil \<and> \<not> argn
         then if pass then Ret (FieldValue v False True)
              else Ret (FieldError (field_error ''empty'' ''.mapping.empty'' fieldName fieldConfig))
         else if v = VNil
         then if fieldAuto \<noteq> VNil \<and> \<not> argn then default_value env k fieldConfig fieldAuto
              else if (fieldEmpty \<or> argn) \<and> \<not> (argn \<and> fieldExist) then Ret FieldSkip
              else Ret (FieldValue v False False)
         else obind (decode_value env k fieldConfig v) (\<lambda>(v, decoded).
                checked_value env k zone pass fieldName fieldConfig v decoded))"

definition encode_value :: "mapping_env \<Rightarrow> coreKernel \<Rightarrow> Map \<Rightarrow> Any \<Rightarrow> bool \<Rightarrow> bool \<Rightarrow> Any outcome" where
  "encode_value env k fieldConfig v decoded passed =
     (if passed \<or> decoded then Ret v
      else case as_string (map_get fieldConfig ''encode'') of
        None \<Rightarrow> Ret v
      | Some ct \<Rightarrow> obind (cryptoEncode ct k) (\<lambda>f. let val = run_crypto env f v in Ret (if val \<noteq> VNil then val else v)))"

text \<open>The records of a value with a sub-configuration.\<close>

fun json_data :: "Any \<Rightarrow> Map list" where
  "json_data (VMap m) = [m]"
| "json_data (VMaps ms) = ms"
| "json_data _ = []"

definition json_result :: "Any \<Rightarrow> Map list \<Rightarrow> Any" where
  "json_result v values = (case v of
      VMaps ms \<Rightarrow> VMaps values
    | _ \<Rightarrow> (case values of m # _ \<Rightarrow> VMap m | [] \<Rightarrow> VMap []))"

section \<open>The loop over the configuration\<close>

text \<open>
  The sub-configuration to apply, if any: the key is there, and the field is required or has a value.
  A sub-configuration of another type counts as an empty one.
\<close>

definition json_config :: "Map \<Rightarrow> Any \<Rightarrow> Map option" where
  "json_config fieldConfig v = (case map_of fieldConfig ''json'' of
      Some m \<Rightarrow> if \<not> field_must fieldConfig \<and> v = VNil then None else Some (case m of VMap c \<Rightarrow> c | _ \<Rightarrow> [])
    | None \<Rightarrow> None)"

abbreviation map_size :: "Map \<Rightarrow> nat" where
  "map_size m \<equiv> size_list (size_prod (\<lambda>x. 0) size) m"

lemma json_config_smaller:
  assumes "json_config fieldConfig v = Some c" and "fv = VMap fieldConfig"
  shows "map_size c < size fv"
proof -
  obtain m where m: "map_of fieldConfig ''json'' = Some m" "c = (case m of VMap c \<Rightarrow> c | _ \<Rightarrow> [])"
    using assms(1) by (auto simp: json_config_def split: option.splits if_splits)
  have "size m \<le> map_size fieldConfig" using map_of_SomeD [OF m(1)] by (rule size_map_value)
  moreover have "map_size c \<le> size m" using m(2) by (cases m) auto
  ultimately show ?thesis using assms(2) by simp
qed

function (sequential) Parse_loop ::
    "mapping_env \<Rightarrow> coreKernel \<Rightarrow> nat option \<Rightarrow> bool \<Rightarrow> bool \<Rightarrow> Map \<Rightarrow> Map \<Rightarrow> Map \<Rightarrow> (Error option \<times> Map) outcome"
  and parse_records ::
    "mapping_env \<Rightarrow> coreKernel \<Rightarrow> bool \<Rightarrow> bool \<Rightarrow> Map \<Rightarrow> Map list \<Rightarrow> (Error + Map list) outcome" where
  "Parse_loop env k zone argn pass data [] value = Ret (None, value)"
| "Parse_loop env k zone argn pass data ((fieldName, VMap fieldConfig) # config) value =
     obind (field_value env k zone argn pass data fieldName fieldConfig) (\<lambda>r. case r of
        FieldError e \<Rightarrow> Ret (Some e, value)
      | FieldSkip \<Rightarrow> Parse_loop env k zone argn pass data config value
      | FieldValue v decoded passed \<Rightarrow>
          obind (case json_config fieldConfig v of
              None \<Rightarrow> Ret (Inr v)
            | Some c \<Rightarrow> obind (parse_records env k argn pass c (json_data v)) (\<lambda>r.
                Ret (case r of Inl e \<Rightarrow> Inl e | Inr values \<Rightarrow> Inr (json_result v values))))
            (\<lambda>r. case r of
                Inl e \<Rightarrow> Ret (Some e, value)
              | Inr w \<Rightarrow> obind (encode_value env k fieldConfig w decoded passed) (\<lambda>w.
                  Parse_loop env k zone argn pass data config (AList.update fieldName w value))))"
| "Parse_loop env k zone argn pass data ((fieldName, fv) # config) value = Parse_loop env k zone argn pass data config value"
| "parse_records env k argn pass c [] = Ret (Inr [])"
| "parse_records env k argn pass c (d # ds) =
     obind (Parse_loop env k None argn pass d c []) (\<lambda>(err, v). case err of
        Some e \<Rightarrow> Ret (Inl e)
      | None \<Rightarrow> obind (parse_records env k argn pass c ds) (\<lambda>r. Ret (map_sum (\<lambda>e. e) ((#) v) r)))"
  by pat_completeness auto
termination
  by (relation "inv_image (less_than <*lex*> less_than) (\<lambda>x. case x of
      Inl (env, k, zone, argn, pass, data, config, value) \<Rightarrow> (map_size config, 0)
    | Inr (env, k, argn, pass, c, ds) \<Rightarrow> (map_size c, Suc (length ds)))")
    (auto dest: json_config_smaller [OF _ refl])

text \<open>\<open>Parse\<close>: the zone is that of the context, if one is given.\<close>

definition Mapping_Parse :: "mapping_env \<Rightarrow> coreKernel \<Rightarrow> Map \<Rightarrow> Map \<Rightarrow> Map \<Rightarrow> bool \<Rightarrow> bool \<Rightarrow> nat list \<Rightarrow> (Error option \<times> Map) outcome" where
  "Mapping_Parse env k config data value argn pass ctxs =
     Parse_loop env k (case ctxs of [] \<Rightarrow> None | z # _ \<Rightarrow> Some z) argn pass data config value"

section \<open>Fields one by one\<close>

text \<open>All that one turn of the loop does for a field: end with an error, write nothing, or write a value.\<close>

datatype step_result = StepError Error | StepNone | StepWrite Any

definition field_step :: "mapping_env \<Rightarrow> coreKernel \<Rightarrow> nat option \<Rightarrow> bool \<Rightarrow> bool \<Rightarrow> Map \<Rightarrow> string \<Rightarrow> Any \<Rightarrow> step_result outcome" where
  "field_step env k zone argn pass data fieldName fv = (case fv of
      VMap fieldConfig \<Rightarrow> obind (field_value env k zone argn pass data fieldName fieldConfig) (\<lambda>r. case r of
          FieldError e \<Rightarrow> Ret (StepError e)
        | FieldSkip \<Rightarrow> Ret StepNone
        | FieldValue v decoded passed \<Rightarrow>
            obind (case json_config fieldConfig v of
                None \<Rightarrow> Ret (Inr v)
              | Some c \<Rightarrow> obind (parse_records env k argn pass c (json_data v)) (\<lambda>r.
                  Ret (case r of Inl e \<Rightarrow> Inl e | Inr values \<Rightarrow> Inr (json_result v values))))
              (\<lambda>r. case r of
                  Inl e \<Rightarrow> Ret (StepError e)
                | Inr w \<Rightarrow> obind (encode_value env k fieldConfig w decoded passed) (\<lambda>w. Ret (StepWrite w))))
    | _ \<Rightarrow> Ret StepNone)"

lemma obind_case_sum: "obind (case r of Inl e \<Rightarrow> f e | Inr w \<Rightarrow> g w) h = (case r of Inl e \<Rightarrow> obind (f e) h | Inr w \<Rightarrow> obind (g w) h)"
  by (cases r) auto

lemma obind_case_field: "obind (case r of FieldError e \<Rightarrow> f e | FieldSkip \<Rightarrow> s | FieldValue v d p \<Rightarrow> g v d p) h =
    (case r of FieldError e \<Rightarrow> obind (f e) h | FieldSkip \<Rightarrow> obind s h | FieldValue v d p \<Rightarrow> obind (g v d p) h)"
  by (cases r) auto

lemma Parse_loop_step:
  "Parse_loop env k zone argn pass data ((fieldName, fv) # config) value =
     obind (field_step env k zone argn pass data fieldName fv) (\<lambda>s. case s of
        StepError e \<Rightarrow> Ret (Some e, value)
      | StepNone \<Rightarrow> Parse_loop env k zone argn pass data config value
      | StepWrite w \<Rightarrow> Parse_loop env k zone argn pass data config (AList.update fieldName w value))"
  by (cases fv) (simp_all add: field_step_def obind_assoc obind_case_sum obind_case_field cong: sum.case_cong field_result.case_cong)

fun write_step :: "(string \<Rightarrow> Any \<Rightarrow> step_result outcome) \<Rightarrow> string \<times> Any \<Rightarrow> Map \<Rightarrow> Map" where
  "write_step f (n, fv) value = (case f n fv of Ret (StepWrite w) \<Rightarrow> AList.update n w value | _ \<Rightarrow> value)"

definition step_ok :: "(string \<Rightarrow> Any \<Rightarrow> step_result outcome) \<Rightarrow> string \<times> Any \<Rightarrow> bool" where
  "step_ok f x \<longleftrightarrow> (\<exists>s. f (fst x) (snd x) = Ret s \<and> (\<forall>e. s \<noteq> StepError e))"

text \<open>\<open>Parse\<close> succeeds when every field does, and its result is that of the fields in turn.\<close>

lemma Parse_loop_ok_iff:
  "Parse_loop env k zone argn pass data config out = Ret (None, out') \<longleftrightarrow>
     (\<forall>x \<in> set config. step_ok (field_step env k zone argn pass data) x) \<and>
     out' = fold (write_step (field_step env k zone argn pass data)) config out"
proof (induction config arbitrary: out)
  case (Cons x config)
  obtain n fv where x: "x = (n, fv)" by force
  show ?case
  proof (cases "field_step env k zone argn pass data n fv")
    case (Ret s)
    then show ?thesis using Cons.IH by (cases s) (auto simp: Parse_loop_step x step_ok_def)
  qed (auto simp: Parse_loop_step x step_ok_def)
qed auto

lemma fold_write_lookup:
  "distinct (map fst config) \<Longrightarrow> map_of (fold (write_step f) config out) n =
     (case map_of config n of
        Some fv \<Rightarrow> (case f n fv of Ret (StepWrite w) \<Rightarrow> Some w | _ \<Rightarrow> map_of out n)
      | None \<Rightarrow> map_of out n)"
proof (induction config arbitrary: out)
  case (Cons x config)
  obtain m fv where x: "x = (m, fv)" by force
  have "map_of config m = None" using Cons.prems x by (simp add: map_of_eq_None_iff)
  with Cons x show ?case
    by (auto simp: update_conv' split: option.splits outcome.splits step_result.splits)
qed simp

text \<open>
  C37: Go visits the entries of a map in any order. When \<open>Parse\<close> succeeds with one order of the
  configuration, it succeeds with every other order, and the resulting map has the same entries.
\<close>

theorem Parse_order_irrelevant:
  assumes "Mapping_Parse env k config data value argn pass ctxs = Ret (None, value1)"
    and "distinct (map fst config)" and "mset config' = mset config"
  shows "\<exists>value2. Mapping_Parse env k config' data value argn pass ctxs = Ret (None, value2) \<and> map_of value2 = map_of value1"
proof -
  let ?z = "case ctxs of [] \<Rightarrow> None | z # _ \<Rightarrow> Some z"
  let ?f = "field_step env k ?z argn pass data"
  have set: "set config' = set config" using assms(3) by (rule mset_eq_setD)
  have d: "distinct (map fst config')" using assms(2,3) by (metis mset_eq_imp_distinct_iff mset_map)
  have "map_of config' = map_of config" using assms(2) d set by (simp add: map_of_inject_set)
  then have "map_of (fold (write_step ?f) config' value) = map_of (fold (write_step ?f) config value)"
    using assms(2) d by (simp add: fun_eq_iff fold_write_lookup)
  moreover have "\<forall>x \<in> set config. step_ok ?f x" "value1 = fold (write_step ?f) config value"
    using assms(1) by (simp_all add: Mapping_Parse_def Parse_loop_ok_iff)
  ultimately show ?thesis using set by (auto simp: Mapping_Parse_def Parse_loop_ok_iff)
qed

text \<open>A registry that was filled by registrations, and functions that accept numbers from one on.\<close>

definition sample_env :: mapping_env where
  "sample_env = \<lparr>call_valid = (\<lambda>f v c. case v of VNum k n \<Rightarrow> 1 \<le> n | _ \<Rightarrow> False), call_value = (\<lambda>f v c. v), call_crypto = (\<lambda>f v. v),
     call_auto = (\<lambda>f. VNil), show_v = (\<lambda>v. ''?''), show_s = (\<lambda>v. ''?''), regexp_match = (\<lambda>r s. Some False)\<rparr>"

definition sample_field :: Map where
  "sample_field = [(''type'', VStr ''int''), (''must'', VBool True), (''valid'', VFunc FValid 0), (''value'', VFunc FValue 0)]"

lemmas parse_simps = Mapping_Parse_def field_value_def field_must_def field_given_def decode_value_def checked_value_def encode_value_def
  json_config_def typeValid_def typeValue_def registered_func_def chunkdata_registered own_func_def run_valid_def run_value_def

theorem Parse_order_irrelevant_witness:
  "\<exists>out. Mapping_Parse sample_env (registered []) [(''b'', VMap sample_field), (''a'', VMap sample_field)]
      [(''a'', VNum KInt 3), (''b'', VNum KInt 5)] [] False False [] = Ret (None, out) \<and> map_of out ''a'' = Some (VNum KInt 3)"
proof -
  have "Mapping_Parse sample_env (registered []) [(''a'', VMap sample_field), (''b'', VMap sample_field)]
      [(''a'', VNum KInt 3), (''b'', VNum KInt 5)] [] False False [] = Ret (None, [(''a'', VNum KInt 3), (''b'', VNum KInt 5)])"
    by (simp add: parse_simps sample_field_def sample_env_def Itoa_def)
  from Parse_order_irrelevant [OF this, of "[(''b'', VMap sample_field), (''a'', VMap sample_field)]"] show ?thesis by auto
qed

section \<open>What a successful Parse guarantees\<close>

lemma field_value_given:
  assumes "field_given env cfg data f \<noteq> VNil"
  shows "field_value env k zone argn pass data f cfg = obind (decode_value env k cfg (field_given env cfg data f))
    (\<lambda>(v, decoded). checked_value env k zone pass f cfg v decoded)"
  using assms by (simp add: field_value_def Let_def)

lemma step_ok_field:
  assumes "step_ok (field_step env k zone argn pass data) (f, VMap cfg)"
  shows "\<exists>r. field_value env k zone argn pass data f cfg = Ret r \<and> (\<forall>e. r \<noteq> FieldError e)"
proof (cases "field_value env k zone argn pass data f cfg")
  case (Ret r)
  with assms have "r \<noteq> FieldError e" for e by (auto simp: step_ok_def field_step_def)
  with Ret show ?thesis by blast
qed (use assms in \<open>simp_all add: step_ok_def field_step_def\<close>)

text \<open>
  C13: When \<open>Parse\<close> succeeds without the modes that let fields pass: every required field that has neither a default nor
  a sub-configuration was given a value; every given value of a typed field was accepted by the validator of the
  field, or of its type, after decoding; and fields that the configuration does not name are left as they were.
\<close>

theorem Parse_checks_fields:
  assumes "Mapping_Parse env k config data out False False ctxs = Ret (None, out')" and "(f, VMap cfg) \<in> set config"
  shows "(field_must cfg \<and> map_get cfg ''auto'' = VNil \<and> map_get cfg ''json'' = VNil \<longrightarrow> field_given env cfg data f \<noteq> VNil) \<and>
    (field_given env cfg data f \<noteq> VNil \<and> map_get cfg ''type'' = VStr t \<and> t \<noteq> [] \<longrightarrow>
       (\<exists>v decoded g. decode_value env k cfg (field_given env cfg data f) = Ret (v, decoded) \<and> typeValid t k = Ret g \<and>
          run_valid env k (own_func FValid (map_get cfg ''valid'') g) v cfg = Ret True)) \<and>
    (h \<notin> fst ` set config \<longrightarrow> map_of out' h = map_of out h)"
proof -
  let ?z = "case ctxs of [] \<Rightarrow> None | z # _ \<Rightarrow> Some z"
  let ?f = "field_step env k ?z False False data"
  have ok: "\<forall>x \<in> set config. step_ok ?f x" and out: "out' = fold (write_step ?f) config out"
    using assms(1) by (simp_all add: Mapping_Parse_def Parse_loop_ok_iff)
  obtain r where r: "field_value env k ?z False False data f cfg = Ret r" "\<forall>e. r \<noteq> FieldError e"
    using ok assms(2) step_ok_field by blast
  have "field_must cfg \<Longrightarrow> map_of cfg ''must'' \<noteq> Some VNil" by (simp add: field_must_def)
  then have required: "field_must cfg \<and> map_get cfg ''auto'' = VNil \<and> map_get cfg ''json'' = VNil \<longrightarrow> field_given env cfg data f \<noteq> VNil"
    using r by (auto simp: field_value_def Let_def)
  have valid: "\<exists>v decoded g. decode_value env k cfg (field_given env cfg data f) = Ret (v, decoded) \<and> typeValid t k = Ret g \<and>
      run_valid env k (own_func FValid (map_get cfg ''valid'') g) v cfg = Ret True"
    if "field_given env cfg data f \<noteq> VNil" "map_get cfg ''type'' = VStr t" "t \<noteq> []"
  proof -
    note given = that
    obtain v decoded where v: "decode_value env k cfg (field_given env cfg data f) = Ret (v, decoded)"
      "checked_value env k ?z False f cfg v decoded = Ret r"
      using r(1) unfolding field_value_given [OF given(1)] obind_pair_Ret_iff by blast
    obtain c s where "t = c # s" using given(3) by (cases t) auto
    then have "\<exists>g. typeValid t k = Ret g \<and> run_valid env k (own_func FValid (map_get cfg ''valid'') g) v cfg = Ret True"
      using v(2) given(2) r(2) by (auto simp: checked_value_def split: if_splits)
    with v(1) show ?thesis by blast
  qed
  have "h \<notin> fst ` set config \<Longrightarrow> map_of (fold (write_step ?f) config m) h = map_of m h" for m
  proof (induction config arbitrary: m)
    case (Cons x config)
    then show ?case by (cases x) (auto simp: update_conv' split: outcome.splits step_result.splits)
  qed simp
  with required valid out show ?thesis by blast
qed

theorem Parse_checks_fields_witness:
  "Mapping_Parse sample_env (registered []) [(''a'', VMap sample_field)] [(''a'', VNum KInt 3)] [(''h'', VNil)] False False [] =
     Ret (None, [(''h'', VNil), (''a'', VNum KInt 3)]) \<and> field_given sample_env sample_field [(''a'', VNum KInt 3)] ''a'' \<noteq> VNil \<and>
   map_of [(''h'', VNil), (''a'', VNum KInt 3)] ''h'' = Some VNil"
proof -
  have p: "Mapping_Parse sample_env (registered []) [(''a'', VMap sample_field)] [(''a'', VNum KInt 3)] [(''h'', VNil)] False False [] =
     Ret (None, [(''h'', VNil), (''a'', VNum KInt 3)])"
    by (simp add: parse_simps sample_field_def sample_env_def Itoa_def)
  have "field_given sample_env sample_field [(''a'', VNum KInt 3)] ''a'' \<noteq> VNil"
    using Parse_checks_fields [OF p, of "''a''" sample_field "''int''" "''h''"] by (simp add: field_must_def sample_field_def)
  with p show ?thesis by simp
qed

section \<open>What it does not guarantee\<close>

text \<open>
  A required field with a sub-configuration may be missing: \<open>Parse\<close> accepts the empty input and writes an empty
  record, whatever the sub-configuration requires of the record.
\<close>

theorem required_record_may_be_missing:
  "Mapping_Parse env k [(f, VMap [(''must'', VBool True), (''json'', VMap sub)])] [] [] False False ctxs = Ret (None, [(f, VMap [])])"
  by (simp add: parse_simps json_result_def)

text \<open>
  With \<open>pass\<close> set, a value that its validator rejects is written to the result unchanged; the comment at
  the end of the loop says that nothing is written then.
\<close>

theorem pass_writes_invalid:
  assumes "call_valid env g v [(''type'', VStr t), (''valid'', VFunc FValid g)] = False" and "t \<noteq> []"
    and "v \<noteq> VNil" and "sprint (show_v env) v \<noteq> []" and "sprint (show_v env) v \<noteq> ''map[]''"
  shows "Mapping_Parse env (registered rs) [(f, VMap [(''type'', VStr t), (''valid'', VFunc FValid g)])] [(f, v)] [] argn True ctxs =
    Ret (None, [(f, v)])"
  using assms by (cases t) (simp_all add: parse_simps)

theorem pass_writes_invalid_witness:
  "Mapping_Parse sample_env (registered []) [(''age'', VMap [(''type'', VStr ''int''), (''valid'', VFunc FValid 0)])] [(''age'', VNum KInt (- 5))] []
     False True [] = Ret (None, [(''age'', VNum KInt (- 5))])"
  by (rule pass_writes_invalid) (simp_all add: sample_env_def Itoa_def)

end
