(* ===== verification/App_Codes.thy ===== *)
theory App_Codes
  imports Hashid Mapping_Module
begin

text \<open>
  The codes of the framework (\<open>bigger.go\<close>, \<open>builtin.go\<close>, \<open>initBigger\<close> of \<open>index.go\<close>): texts as base64 in an alphabet of its
  own, numbers as hash ids, and the codecs built on them that the mapping module registers.
  \<open>json.Marshal\<close> is an argument.
\<close>

section \<open>Base64 with an alphabet\<close>

text \<open>\<open>base64.NewEncoding(alphabet)\<close> with \<open>EncodeToString\<close> and \<open>DecodeString\<close>, which skips line breaks; \<open>None\<close> is a decoding error.\<close>

abbreviation byte_of :: "char \<Rightarrow> nat" where
  "byte_of c \<equiv> of_char c"

fun b64_encode :: "string \<Rightarrow> bytes \<Rightarrow> string" where
  "b64_encode al [] = []"
| "b64_encode al [a] = [al ! (byte_of a div 4), al ! (byte_of a mod 4 * 16), CHR ''='', CHR ''='']"
| "b64_encode al [a, b] = [al ! (byte_of a div 4), al ! (byte_of a mod 4 * 16 + byte_of b div 16), al ! (byte_of b mod 16 * 4), CHR ''='']"
| "b64_encode al (a # b # c # s) =
     [al ! (byte_of a div 4), al ! (byte_of a mod 4 * 16 + byte_of b div 16), al ! (byte_of b mod 16 * 4 + byte_of c div 64), al ! (byte_of c mod 64)]
       @ b64_encode al s"

definition low_byte :: "nat \<Rightarrow> char" where
  "low_byte n = char_of (n mod 256)"

fun b64_quads :: "string \<Rightarrow> string \<Rightarrow> bytes option" where
  "b64_quads al [] = Some []"
| "b64_quads al (c0 # c1 # c2 # c3 # s) =
     (case (index_char c0 al, index_char c1 al) of
        (Some i, Some j) \<Rightarrow>
          if c2 = CHR ''='' then (if c3 = CHR ''='' \<and> s = [] then Some [low_byte (i * 4 + j div 16)] else None)
          else (case index_char c2 al of
              None \<Rightarrow> None
            | Some k \<Rightarrow>
                if c3 = CHR ''='' then (if s = [] then Some [low_byte (i * 4 + j div 16), low_byte (j * 16 + k div 4)] else None)
                else (case index_char c3 al of
                    None \<Rightarrow> None
                  | Some l \<Rightarrow> map_option (\<lambda>r. [low_byte (i * 4 + j div 16), low_byte (j * 16 + k div 4), low_byte (k * 64 + l)] @ r) (b64_quads al s)))
      | _ \<Rightarrow> None)"
| "b64_quads al _ = None"

definition b64_decode :: "string \<Rightarrow> string \<Rightarrow> bytes option" where
  "b64_decode al s = b64_quads al (filter (\<lambda>c. c \<noteq> CHR 0x0A \<and> c \<noteq> CHR 0x0D) s)"

section \<open>The codes of the framework\<close>

definition encodeTextAlphabet :: string where
  "encodeTextAlphabet = ''01234AaBbCcDdEeFfGgHhIiJjKkLlMmNnOoPpQqRrSsTtUuVvWwXxYyZz56789+/''"

definition encodeDigitAlphabet :: string where
  "encodeDigitAlphabet = ''abcdefghijkmnpqrstuvwxyz123456789ACDEFGHJKLMNPQRSTUVWXYZ''"

definition encodeDigitSalt :: string where
  "encodeDigitSalt = ''bigger.digit.salt''"

abbreviation encodeDigitLength :: int where
  "encodeDigitLength \<equiv> 7"

definition digit_data :: "int \<Rightarrow> HashIDData" where
  "digit_data l = NewData\<lparr>d_Alphabet := runes encodeDigitAlphabet, d_Salt := runes encodeDigitSalt,
     d_MinLength := (if l > 0 then l else d_MinLength NewData)\<rparr>"

text \<open>The coder of \<open>initBigger\<close>; \<open>None\<close> is the nil pointer it keeps after an error.\<close>

definition new_digitCoder :: "HashID option outcome" where
  "new_digitCoder = obind (NewWithData (digit_data encodeDigitLength)) (\<lambda>r. Ret (case r of Inr h \<Rightarrow> Some h | Inl e \<Rightarrow> None))"

definition Encrypt :: "string \<Rightarrow> string" where
  "Encrypt = b64_encode encodeTextAlphabet"

definition Decrypt :: "string \<Rightarrow> string" where
  "Decrypt code = (case b64_decode encodeTextAlphabet code of Some d \<Rightarrow> d | None \<Rightarrow> [])"

abbreviation newline :: char where
  "newline \<equiv> CHR 0x0A"

definition Encrypts :: "string list \<Rightarrow> string" where
  "Encrypts texts = b64_encode encodeTextAlphabet (intersperse_str [newline] texts)"

definition Decrypts :: "string \<Rightarrow> string list" where
  "Decrypts code = (case b64_decode encodeTextAlphabet code of Some d \<Rightarrow> strings_Split d newline | None \<Rightarrow> [])"

text \<open>
  The coder for the length asked for: that of the framework, or a new one. \<open>coder,_ =\<close> leaves a nil pointer when the
  construction fails.
\<close>

definition coder_for :: "HashID option \<Rightarrow> int list \<Rightarrow> HashID option outcome" where
  "coder_for digitCoder lengths = (case lengths of
      [] \<Rightarrow> Ret digitCoder
    | l # _ \<Rightarrow> obind (NewWithData (digit_data l)) (\<lambda>r. Ret (case r of Inr h \<Rightarrow> Some h | Inl e \<Rightarrow> None)))"

definition Enhashs :: "HashID option \<Rightarrow> int list \<Rightarrow> int list \<Rightarrow> rune list outcome" where
  "Enhashs digitCoder digits lengths = obind (coder_for digitCoder lengths) (\<lambda>coder. case coder of
      Some h \<Rightarrow> obind (EncodeInt64 h digits) (\<lambda>r. Ret (case r of Inr code \<Rightarrow> code | Inl e \<Rightarrow> []))
    | None \<Rightarrow> Ret [])"

definition Dehashs :: "HashID option \<Rightarrow> rune list \<Rightarrow> int list \<Rightarrow> int list outcome" where
  "Dehashs digitCoder code lengths = obind (coder_for digitCoder lengths) (\<lambda>coder. case coder of
      Some h \<Rightarrow> obind (DecodeInt64WithError h code) (\<lambda>(digits, err). Ret (if err = None then digits else []))
    | None \<Rightarrow> Panic ''nil pointer dereference'')"

definition Enhash :: "HashID option \<Rightarrow> int \<Rightarrow> int list \<Rightarrow> rune list outcome" where
  "Enhash digitCoder digit lengths = Enhashs digitCoder [digit] lengths"

definition Dehash :: "HashID option \<Rightarrow> rune list \<Rightarrow> int list \<Rightarrow> int outcome" where
  "Dehash digitCoder code lengths = obind (Dehashs digitCoder code lengths) (\<lambda>digits. Ret (case digits of d # _ \<Rightarrow> d | [] \<Rightarrow> - 1))"

text \<open>\<open>Unique\<close>, with the number \<open>NextID\<close> returned.\<close>

definition Unique :: "HashID option \<Rightarrow> int \<Rightarrow> string list \<Rightarrow> rune list outcome" where
  "Unique digitCoder n prefixs = obind (Enhash digitCoder n []) (\<lambda>code. Ret (case prefixs of p # _ \<Rightarrow> runes p @ code | [] \<Rightarrow> code))"

text \<open>\<open>ToString\<close>; \<open>json\<close> is \<open>json.Marshal\<close>, \<open>None\<close> its error.\<close>

definition ToString :: "(Any \<Rightarrow> string option) \<Rightarrow> (Any \<Rightarrow> string) \<Rightarrow> Any \<Rightarrow> string" where
  "ToString json sh v = (case v of
      VStr s \<Rightarrow> s
    | VNum KInt n \<Rightarrow> Itoa n
    | VNum KInt64 n \<Rightarrow> Itoa n
    | VBool b \<Rightarrow> (if b then ''true'' else ''false'')
    | VMap m \<Rightarrow> (case json v of Some s \<Rightarrow> s | None \<Rightarrow> ''{}'')
    | VMaps ms \<Rightarrow> (case json v of Some s \<Rightarrow> s | None \<Rightarrow> ''[]'')
    | VNums k ns \<Rightarrow> (case json v of Some s \<Rightarrow> s | None \<Rightarrow> ''[]'')
    | VFloats32 xs \<Rightarrow> (case json v of Some s \<Rightarrow> s | None \<Rightarrow> ''[]'')
    | VFloats64 xs \<Rightarrow> (case json v of Some s \<Rightarrow> s | None \<Rightarrow> ''[]'')
    | VStrs ss \<Rightarrow> (case json v of Some s \<Rightarrow> s | None \<Rightarrow> ''[]'')
    | VAnys vs \<Rightarrow> (case json v of Some s \<Rightarrow> s | None \<Rightarrow> ''[]'')
    | _ \<Rightarrow> sprint sh v)"

text \<open>The codecs of \<open>builtin\<close>: the functions registered under \<open>encode\<close> and \<open>decode\<close>. Hash ids are ASCII.\<close>

definition text_of :: "rune list \<Rightarrow> string" where
  "text_of = map (char_of :: nat \<Rightarrow> char)"

definition string_encode :: "(Any \<Rightarrow> string option) \<Rightarrow> (Any \<Rightarrow> string) \<Rightarrow> Any \<Rightarrow> Any" where
  "string_encode json sh v = VStr (Decrypt (ToString json sh v))"

definition string_decode :: "(Any \<Rightarrow> string option) \<Rightarrow> (Any \<Rightarrow> string) \<Rightarrow> Any \<Rightarrow> Any" where
  "string_decode json sh v = VStr (Decrypt (ToString json sh v))"

definition strings_encode :: "Any \<Rightarrow> Any" where
  "strings_encode v = (case v of VStrs vv \<Rightarrow> VStr (Encrypts vv) | _ \<Rightarrow> VNil)"

definition strings_decode :: "(Any \<Rightarrow> string option) \<Rightarrow> (Any \<Rightarrow> string) \<Rightarrow> Any \<Rightarrow> Any" where
  "strings_decode json sh v = VStrs (Decrypts (ToString json sh v))"

definition number_encode :: "HashID option \<Rightarrow> Any \<Rightarrow> Any outcome" where
  "number_encode coder v = (case v of VNum KInt64 n \<Rightarrow> obind (Enhash coder n []) (\<lambda>c. Ret (VStr (text_of c))) | _ \<Rightarrow> Ret VNil)"

definition number_decode :: "HashID option \<Rightarrow> Any \<Rightarrow> Any outcome" where
  "number_decode coder v = (case v of VStr s \<Rightarrow> obind (Dehash coder (runes s) []) (\<lambda>n. Ret (VNum KInt64 n)) | _ \<Rightarrow> Ret VNil)"

definition numbers_encode :: "HashID option \<Rightarrow> Any \<Rightarrow> Any outcome" where
  "numbers_encode coder v = (case v of VNums KInt64 ns \<Rightarrow> obind (Enhashs coder ns []) (\<lambda>c. Ret (VStr (text_of c))) | _ \<Rightarrow> Ret VNil)"

definition numbers_decode :: "HashID option \<Rightarrow> Any \<Rightarrow> Any outcome" where
  "numbers_decode coder v = (case v of VStr s \<Rightarrow> obind (Dehashs coder (runes s) []) (\<lambda>ns. Ret (VNums KInt64 ns)) | _ \<Rightarrow> Ret VNil)"

section \<open>Round trips\<close>

lemma byte_less: "byte_of c < 256"
  by (cases c) (simp add: of_char_def horner_sum_simps split: bool.splits)

definition alphabet_ok :: "string \<Rightarrow> bool" where
  "alphabet_ok al \<longleftrightarrow> distinct al \<and> length al = 64 \<and> CHR ''='' \<notin> set al \<and> CHR 0x0A \<notin> set al \<and> CHR 0x0D \<notin> set al"

lemma encodeTextAlphabet_ok: "alphabet_ok encodeTextAlphabet"
  by (simp add: alphabet_ok_def encodeTextAlphabet_def)

lemma alphabet_nth:
  assumes "alphabet_ok al" and "i < 64"
  shows "index_char (al ! i) al = Some i" and "al ! i \<noteq> CHR ''=''" and "al ! i \<noteq> CHR 0x0A" and "al ! i \<noteq> CHR 0x0D"
proof -
  have "al ! i \<in> set al" using assms by (simp add: alphabet_ok_def)
  then show "al ! i \<noteq> CHR ''=''" "al ! i \<noteq> CHR 0x0A" "al ! i \<noteq> CHR 0x0D" using assms(1) unfolding alphabet_ok_def by metis+
  show "index_char (al ! i) al = Some i" using assms by (simp add: alphabet_ok_def index_char_nth)
qed

lemma sextets:
  assumes "a < 256" and "b < 256" and "c < (256 :: nat)"
  shows "a div 4 < 64" "a mod 4 * 16 + b div 16 < 64" "a mod 4 * 16 < 64" "b mod 16 * 4 + c div 64 < 64" "b mod 16 * 4 < 64" "c mod 64 < 64"
    "a div 4 * 4 + (a mod 4 * 16 + b div 16) div 16 = a" "a div 4 * 4 + a mod 4 * 16 div 16 = a"
    "((a mod 4 * 16 + b div 16) * 16 + (b mod 16 * 4 + c div 64) div 4) mod 256 = b"
    "((a mod 4 * 16 + b div 16) * 16 + b mod 16 * 4 div 4) mod 256 = b"
    "((b mod 16 * 4 + c div 64) * 64 + c mod 64) mod 256 = c"
proof -
  define p q r s u v where d: "p = a div 4" "q = a mod 4" "r = b div 16" "s = b mod 16" "u = c div 64" "v = c mod 64"
  have e: "p * 4 + q = a" "r * 16 + s = b" "u * 64 + v = c" by (simp_all add: d div_mult_mod_eq)
  have l: "p < 64" "q < 4" "r < 16" "s < 16" "u < 4" "v < 64" using assms by (auto simp: d less_mult_imp_div_less)
  show "a div 4 < 64" "a mod 4 * 16 + b div 16 < 64" "a mod 4 * 16 < 64" "b mod 16 * 4 + c div 64 < 64" "b mod 16 * 4 < 64" "c mod 64 < 64"
    using l by (simp_all add: d [symmetric])
  have h: "(q * 16 + r) div 16 = q" "(s * 4 + u) div 4 = s" using l by simp_all
  show "a div 4 * 4 + (a mod 4 * 16 + b div 16) div 16 = a" "a div 4 * 4 + a mod 4 * 16 div 16 = a"
    using h e by (simp_all add: d [symmetric])
  have "(q * 16 + r) * 16 + s = q * 256 + b" using e by simp
  then have b: "((q * 16 + r) * 16 + s) mod 256 = b" using assms(2) by (metis mod_less mod_mult_self3)
  then show "((a mod 4 * 16 + b div 16) * 16 + (b mod 16 * 4 + c div 64) div 4) mod 256 = b"
    "((a mod 4 * 16 + b div 16) * 16 + b mod 16 * 4 div 4) mod 256 = b"
    using h(2) by (simp_all add: d [symmetric])
  have "(s * 4 + u) * 64 + v = s * 256 + c" using e by simp
  then show "((b mod 16 * 4 + c div 64) * 64 + c mod 64) mod 256 = c" using assms(3) unfolding d [symmetric] by (metis mod_less mod_mult_self3)
qed

lemma b64_encode_clean: "alphabet_ok al \<Longrightarrow> filter (\<lambda>c. c \<noteq> CHR 0x0A \<and> c \<noteq> CHR 0x0D) (b64_encode al s) = b64_encode al s"
  by (induction al s rule: b64_encode.induct)
    (simp_all add: alphabet_nth sextets [OF byte_less byte_less byte_less])

lemma low_byte_of [simp]: "n mod 256 = byte_of c \<Longrightarrow> low_byte n = c"
  by (simp add: low_byte_def)

lemma byte_parts [simp]: "byte_of c div 16 div 16 = 0" "byte_of c div 64 div 4 = 0"
  using byte_less [of c] by (simp_all add: div_mult2_eq [symmetric])

lemma b64_quads_encode: "alphabet_ok al \<Longrightarrow> b64_quads al (b64_encode al s) = Some s"
  by (induction al s rule: b64_encode.induct)
    (simp_all add: alphabet_nth sextets [OF byte_less byte_less byte_less] byte_less)

lemma b64_decode_encode: "alphabet_ok al \<Longrightarrow> b64_decode al (b64_encode al s) = Some s"
  by (simp add: b64_decode_def b64_encode_clean b64_quads_encode)

lemma split_joined: "ts \<noteq> [] \<Longrightarrow> \<forall>t \<in> set ts. c \<notin> set t \<Longrightarrow> strings_Split (intersperse_str [c] ts) c = ts"
proof (induction "[c]" ts rule: intersperse_str.induct)
  case (2 x)
  then show ?case by (auto simp: strings_Split_def intro: split_by_none)
next
  case (3 x y ts)
  then have "split_by (\<lambda>d. d = c) x = [x]" by (intro split_by_none) auto
  with 3 show ?case by (simp add: strings_Split_def split_by_append)
qed simp

lemma digit_data_facts:
  "16 \<le> length (d_Alphabet (digit_data l))" "distinct (d_Alphabet (digit_data l))" "32 \<notin> set (d_Alphabet (digit_data l))" "runes_ok (d_Alphabet (digit_data l))"
  by (simp_all add: digit_data_def encodeDigitAlphabet_def runes_def runes_ok_def)

lemma digit_coder: "\<exists>h. NewWithData (digit_data l) = Ret (Inr h) \<and> hid_ok h \<and> runes_ok (h_alphabet h)"
proof -
  obtain h where h: "NewWithData (digit_data l) = Ret (Inr h)" using NewWithData_returns [OF digit_data_facts] by blast
  then have "hid_ok h" "set (h_alphabet h) \<subseteq> set (d_Alphabet (digit_data l))" using NewWithData_ok by blast+
  with h digit_data_facts(4) [of l] show ?thesis by (auto simp: runes_ok_def)
qed

lemma coder_for_ok:
  assumes "new_digitCoder = Ret coder"
  shows "\<exists>h. coder_for coder lengths = Ret (Some h) \<and> hid_ok h \<and> runes_ok (h_alphabet h)"
proof (cases lengths)
  case Nil
  then show ?thesis using assms digit_coder [of encodeDigitLength] by (auto simp: new_digitCoder_def coder_for_def)
next
  case (Cons l ls)
  then show ?thesis using digit_coder [of l] by (auto simp: coder_for_def)
qed

text \<open>
  C18: The codes of the framework can be read back. \<open>initBigger\<close> makes a coder for numbers; with it every text comes back from
  \<open>Decrypt\<close>, every list of texts without line breaks, unless empty, from \<open>Decrypts\<close>, and every list of
  numbers that are not negative from \<open>Dehashs\<close>, for whatever length is asked for.
\<close>

theorem codes_roundtrip:
  assumes "ts \<noteq> []" and "\<forall>t \<in> set ts. newline \<notin> set t" and "numbers_ok ns"
  shows "Decrypt (Encrypt text) = text \<and> Decrypts (Encrypts ts) = ts \<and>
    (\<exists>coder code. new_digitCoder = Ret coder \<and> Enhashs coder ns lengths = Ret code \<and> Dehashs coder code lengths = Ret ns)"
proof -
  note dec = b64_decode_encode [OF encodeTextAlphabet_ok]
  obtain coder where coder: "new_digitCoder = Ret coder" using digit_coder [of encodeDigitLength] by (auto simp: new_digitCoder_def)
  then obtain h where h: "coder_for coder lengths = Ret (Some h)" "hid_ok h" "runes_ok (h_alphabet h)" using coder_for_ok by blast
  obtain s where "EncodeInt64 h ns = Ret (Inr s)" "DecodeInt64WithError h s = Ret (ns, None)"
    using encode_decode [OF h(2,3) assms(3)] by blast
  then have "Enhashs coder ns lengths = Ret s" "Dehashs coder s lengths = Ret ns" by (simp_all add: Enhashs_def Dehashs_def h(1))
  with coder dec split_joined [OF assms(1,2)] show ?thesis
    by (auto simp: Encrypt_def Decrypt_def Encrypts_def Decrypts_def)
qed

theorem codes_roundtrip_witness:
  "Decrypts (Encrypts [''one'', ''two'']) = [''one'', ''two''] \<and>
   (\<exists>coder code. new_digitCoder = Ret coder \<and> Enhashs coder [7, 0] [12] = Ret code \<and> Dehashs coder code [12] = Ret [7, 0])"
proof -
  have "numbers_ok [7, 0]" by (simp add: numbers_ok_def)
  with codes_roundtrip [of "[''one'', ''two'']" "[7, 0]" "[]" "[12]"] show ?thesis by simp
qed

section \<open>The codec for texts\<close>

lemma b64_quads_length: "b64_quads al s = Some r \<Longrightarrow> length s mod 4 = 0"
proof (induction al s arbitrary: r rule: b64_quads.induct)
  case (2 al c0 c1 c2 c3 s)
  then show ?case by (auto split: option.splits if_splits)
qed auto

text \<open>
  The codec \<open>string\<close> encodes with \<open>Decrypt\<close>: a text that is no base64, as every text whose length is not a
  multiple of four, is encoded as the empty text and lost, and encoding never applies \<open>Encrypt\<close>.
\<close>

theorem string_codec_loses_text:
  assumes "length t mod 4 \<noteq> 0" and "newline \<notin> set t" and "CHR 0x0D \<notin> set t"
  shows "string_encode json sh (VStr t) = VStr [] \<and> string_encode json sh (VStr (Encrypt text)) = VStr text"
proof -
  have "filter (\<lambda>c. c \<noteq> CHR 0x0A \<and> c \<noteq> CHR 0x0D) t = t" using assms(2,3) by (auto intro!: filter_True)
  then have "b64_decode encodeTextAlphabet t = None"
    using assms(1) b64_quads_length [of encodeTextAlphabet t] by (cases "b64_quads encodeTextAlphabet t") (auto simp: b64_decode_def)
  then show ?thesis using b64_decode_encode [OF encodeTextAlphabet_ok]
    by (simp add: string_encode_def ToString_def Decrypt_def Encrypt_def)
qed

theorem string_codec_loses_text_witness:
  "string_encode (\<lambda>_. None) (\<lambda>_. []) (VStr ''hello'') = VStr []"
  using string_codec_loses_text [of "''hello''" "\<lambda>_. None" "\<lambda>_. []" "[]"] by simp

end
