(* ===== verification/Raft_File_Snapshot.thy ===== *)
theory Raft_File_Snapshot
  imports Raft_Snapshot "HOL-Library.List_Lexorder" "HOL-Library.Char_ord" "HOL-Library.Product_Lexorder"
begin

text \<open>
  Snapshots on disk (\<open>raft/file_snapshot.go\<close>): the snapshot directory with one directory per snapshot, the sinks that
  are being written, and every system call that can fail. \<open>encoding/json\<close> for the metadata and the CRC are
  arguments. Plain files in the directory, which the code skips, are not modelled; a sink is known by the name of its snapshot, so
  that two sinks of one name, which need two snapshots of one index and term in one millisecond, are not told apart; reading a
  state file that is there does not fail.
\<close>

section \<open>The disk\<close>

record fileSnapshotMeta =
  fm_meta :: SnapshotMeta
  fm_CRC :: "bytes option"

record json_meta =
  jm_enc :: "fileSnapshotMeta \<Rightarrow> bytes"
  jm_dec :: "bytes \<Rightarrow> fileSnapshotMeta option"

text \<open>The files \<open>meta.json\<close> and \<open>state.bin\<close> of a snapshot directory; \<open>None\<close> when the file is not there.\<close>

record snap_dir =
  sd_meta :: "bytes option"
  sd_state :: "bytes option"

text \<open>
  Whether the next system call works; one that fails has written so many bytes first, or has left the two
  files of a directory it was to remove.
\<close>

datatype fault = Works | Fails nat bool bool

record FileSnapshotSink =
  sk_dir :: string
  sk_meta :: fileSnapshotMeta
  sk_hashed :: bytes
  sk_buffered :: bytes
  sk_err :: bool
  sk_closed :: bool

text \<open>
  The store: the names are unique; \<open>fs_faults\<close> answers the system calls by their number; \<open>fs_unreadable\<close> says which
  directories, or with the empty name the snapshot directory itself, cannot be read at the moment.
\<close>

record FileSnapshotStore =
  fs_dirs :: "(string \<times> snap_dir) list"
  fs_sinks :: "(string \<times> FileSnapshotSink) list"
  fs_retain :: nat
  fs_now :: int
  fs_calls :: nat
  fs_faults :: "nat \<Rightarrow> fault"
  fs_unreadable :: "string \<Rightarrow> bool"

abbreviation tmpSuffix :: string where
  "tmpSuffix \<equiv> ''.tmp''"

definition HasSuffix :: "string \<Rightarrow> string \<Rightarrow> bool" where
  "HasSuffix s p \<longleftrightarrow> length p \<le> length s \<and> drop (length s - length p) s = p"

definition TrimSuffix :: "string \<Rightarrow> string \<Rightarrow> string" where
  "TrimSuffix s p = (if HasSuffix s p then take (length s - length p) s else s)"

definition syscall :: "FileSnapshotStore \<Rightarrow> fault \<times> FileSnapshotStore" where
  "syscall fs = (fs_faults fs (fs_calls fs), fs\<lparr>fs_calls := fs_calls fs + 1\<rparr>)"

definition set_dir :: "string \<Rightarrow> snap_dir \<Rightarrow> FileSnapshotStore \<Rightarrow> FileSnapshotStore" where
  "set_dir name d fs = fs\<lparr>fs_dirs := AList.update name d (fs_dirs fs)\<rparr>"

definition upd_dir :: "string \<Rightarrow> (snap_dir \<Rightarrow> snap_dir) \<Rightarrow> FileSnapshotStore \<Rightarrow> FileSnapshotStore" where
  "upd_dir name f fs = (case map_of (fs_dirs fs) name of Some d \<Rightarrow> set_dir name (f d) fs | None \<Rightarrow> fs)"

definition os_MkdirAll :: "string \<Rightarrow> FileSnapshotStore \<Rightarrow> FileSnapshotStore \<times> raft_error option" where
  "os_MkdirAll name fs0 = (case syscall fs0 of
      (Works, fs) \<Rightarrow> (if map_of (fs_dirs fs) name = None then set_dir name \<lparr>sd_meta = None, sd_state = None\<rparr> fs else fs, None)
    | (_, fs) \<Rightarrow> (fs, Some (ErrOther ''mkdir'')))"

definition os_RemoveAll :: "string \<Rightarrow> FileSnapshotStore \<Rightarrow> FileSnapshotStore \<times> raft_error option" where
  "os_RemoveAll name fs0 = (case syscall fs0 of
      (Works, fs) \<Rightarrow> (fs\<lparr>fs_dirs := AList.delete name (fs_dirs fs)\<rparr>, None)
    | (Fails n meta state, fs) \<Rightarrow>
        (upd_dir name (\<lambda>d. \<lparr>sd_meta = if meta then sd_meta d else None, sd_state = if state then sd_state d else None\<rparr>) fs,
         Some (ErrOther ''remove'')))"

text \<open>Go's \<open>os.Rename\<close> refuses a new name that is already a directory, also an empty one (\<open>EEXIST\<close>).\<close>

definition os_Rename :: "string \<Rightarrow> string \<Rightarrow> FileSnapshotStore \<Rightarrow> FileSnapshotStore \<times> raft_error option" where
  "os_Rename old new fs0 = (case syscall fs0 of
      (Works, fs) \<Rightarrow> (case (map_of (fs_dirs fs) old, map_of (fs_dirs fs) new) of
          (Some d, None) \<Rightarrow> (set_dir new d (fs\<lparr>fs_dirs := AList.delete old (fs_dirs fs)\<rparr>), None)
        | _ \<Rightarrow> (fs, Some (ErrOther ''rename'')))
    | (_, fs) \<Rightarrow> (fs, Some (ErrOther ''rename'')))"

text \<open>A call that only works or fails: \<open>Sync\<close>, \<open>Stat\<close>, \<open>Close\<close>, opening a directory.\<close>

definition os_plain :: "string \<Rightarrow> FileSnapshotStore \<Rightarrow> FileSnapshotStore \<times> raft_error option" where
  "os_plain what fs0 = (case syscall fs0 of (Works, fs) \<Rightarrow> (fs, None) | (_, fs) \<Rightarrow> (fs, Some (ErrOther what)))"

text \<open>
  \<open>NewFileSnapshotStore\<close> makes the directory, and creates, closes and removes a file in it. The file is not a
  directory, so that one left behind is never listed.
\<close>

fun all_plain :: "string list \<Rightarrow> FileSnapshotStore \<Rightarrow> FileSnapshotStore \<times> raft_error option" where
  "all_plain [] fs = (fs, None)"
| "all_plain (w # ws) fs = (case os_plain w fs of (fs1, Some e) \<Rightarrow> (fs1, Some e) | (fs1, None) \<Rightarrow> all_plain ws fs1)"

definition testPermissions :: "FileSnapshotStore \<Rightarrow> FileSnapshotStore \<times> raft_error option" where
  "testPermissions = all_plain [''create'', ''close'', ''remove'']"

definition NewFileSnapshotStore :: "nat \<Rightarrow> FileSnapshotStore \<Rightarrow> FileSnapshotStore \<times> raft_error option" where
  "NewFileSnapshotStore retain disk =
     (if retain < 1 then (disk, Some (ErrOther ''must retain at least one snapshot''))
      else case os_plain ''mkdir'' disk of
        (fs1, Some e) \<Rightarrow> (fs1, Some (ErrOther ''snapshot path not accessible''))
      | (fs1, None) \<Rightarrow> (case testPermissions fs1 of
          (fs2, Some e) \<Rightarrow> (fs2, Some (ErrOther ''permissions test failed''))
        | (fs2, None) \<Rightarrow> (fs2\<lparr>fs_retain := retain, fs_sinks := []\<rparr>, None)))"

section \<open>Writing a snapshot\<close>

definition millis :: "int \<Rightarrow> int" where
  "millis now = (if now < 0 then - (- now div 1000000) else now div 1000000)"

definition snapshotName :: "uint64 \<Rightarrow> uint64 \<Rightarrow> int \<Rightarrow> string" where
  "snapshotName term index now = digits10 (unat term) @ ''-'' @ digits10 (unat index) @ ''-'' @ Itoa (millis now)"

text \<open>\<open>writeMeta\<close>: the file is created empty, then written, then synced.\<close>

definition writeMeta :: "json_meta \<Rightarrow> string \<Rightarrow> fileSnapshotMeta \<Rightarrow> FileSnapshotStore \<Rightarrow> FileSnapshotStore \<times> raft_error option" where
  "writeMeta J dir m fs0 = (case syscall fs0 of
      (Fails _ _ _, fs) \<Rightarrow> (fs, Some (ErrOther ''create''))
    | (Works, fs) \<Rightarrow>
        if map_of (fs_dirs fs) dir = None then (fs, Some (ErrOther ''create''))
        else (case syscall (upd_dir dir (\<lambda>d. d\<lparr>sd_meta := Some []\<rparr>) fs) of
          (Fails n _ _, fs) \<Rightarrow> (upd_dir dir (\<lambda>d. d\<lparr>sd_meta := Some (take n (jm_enc J m))\<rparr>) fs, Some (ErrOther ''write''))
        | (Works, fs) \<Rightarrow> os_plain ''sync'' (upd_dir dir (\<lambda>d. d\<lparr>sd_meta := Some (jm_enc J m)\<rparr>) fs)))"

definition Create :: "json_meta \<Rightarrow> FileSnapshotStore \<Rightarrow> uint64 \<Rightarrow> uint64 \<Rightarrow> bytes \<Rightarrow> FileSnapshotStore \<times> (raft_error + string)" where
  "Create J fs0 index term peers =
     (let name = snapshotName term index (fs_now fs0); dir = name @ tmpSuffix;
          m = \<lparr>fm_meta = \<lparr>sm_ID = name, sm_Index = index, sm_Term = term, sm_Peers = peers, sm_Size = 0\<rparr>, fm_CRC = None\<rparr>
      in case os_MkdirAll dir fs0 of
           (fs1, Some e) \<Rightarrow> (fs1, Inl e)
         | (fs1, None) \<Rightarrow> (case writeMeta J dir m fs1 of
             (fs2, Some e) \<Rightarrow> (fs2, Inl e)
           | (fs2, None) \<Rightarrow> (case syscall fs2 of
               (Fails _ _ _, fs3) \<Rightarrow> (fs3, Inl (ErrOther ''create''))
             | (Works, fs3) \<Rightarrow>
                 (let fs4 = upd_dir dir (\<lambda>d. d\<lparr>sd_state := Some []\<rparr>) fs3
                  in (fs4\<lparr>fs_sinks := AList.update name \<lparr>sk_dir = dir, sk_meta = m, sk_hashed = [], sk_buffered = [], sk_err = False,
                        sk_closed = False\<rparr> (fs_sinks fs4)\<rparr>, Inr name)))))"

text \<open>
  The writer under the buffer: the file, then the hash; after a failure the hash has not seen the bytes and the buffer keeps the error.
\<close>

definition multi_write :: "bytes \<Rightarrow> FileSnapshotSink \<times> FileSnapshotStore \<Rightarrow> FileSnapshotSink \<times> FileSnapshotStore" where
  "multi_write b x = (case x of (sk, fs0) \<Rightarrow> (case syscall fs0 of
      (Works, fs) \<Rightarrow> (sk\<lparr>sk_hashed := sk_hashed sk @ b\<rparr>, upd_dir (sk_dir sk) (\<lambda>d. d\<lparr>sd_state := map_option (\<lambda>s. s @ b) (sd_state d)\<rparr>) fs)
    | (Fails n _ _, fs) \<Rightarrow>
        (sk\<lparr>sk_err := True\<rparr>, upd_dir (sk_dir sk) (\<lambda>d. d\<lparr>sd_state := map_option (\<lambda>s. s @ take n b) (sd_state d)\<rparr>) fs)))"

definition Flush :: "FileSnapshotSink \<times> FileSnapshotStore \<Rightarrow> FileSnapshotSink \<times> FileSnapshotStore" where
  "Flush x = (case x of (sk, fs) \<Rightarrow>
     if sk_err sk \<or> sk_buffered sk = [] then (sk, fs)
     else (case multi_write (sk_buffered sk) (sk, fs) of (sk1, fs1) \<Rightarrow> (if sk_err sk1 then sk1 else sk1\<lparr>sk_buffered := []\<rparr>, fs1)))"

abbreviation buf_size :: nat where
  "buf_size \<equiv> 4096"

definition put_buffer :: "bytes \<Rightarrow> FileSnapshotSink \<times> FileSnapshotStore \<Rightarrow> FileSnapshotSink \<times> FileSnapshotStore" where
  "put_buffer b x = (case x of (sk, fs) \<Rightarrow> if sk_err sk then (sk, fs) else (sk\<lparr>sk_buffered := sk_buffered sk @ b\<rparr>, fs))"

text \<open>
  \<open>bufio.Writer.Write\<close>: what fits is buffered; otherwise a full buffer is written out, and what is left is written directly
  when it does not fit into the empty buffer.
\<close>

definition bufio_Write :: "bytes \<Rightarrow> FileSnapshotSink \<times> FileSnapshotStore \<Rightarrow> FileSnapshotSink \<times> FileSnapshotStore" where
  "bufio_Write b x =
     (let avail = (\<lambda>y. buf_size - length (sk_buffered (fst y)))
      in if sk_err (fst x) then x
         else if length b \<le> avail x then put_buffer b x
         else let y = (if sk_buffered (fst x) = [] then x else Flush (put_buffer (take (avail x) b) x));
                  r = (if sk_buffered (fst x) = [] then b else drop (avail x) b)
              in if sk_err (fst y) then y
                 else if length r \<le> buf_size \<and> sk_buffered (fst x) \<noteq> [] then put_buffer r y
                 else multi_write r y)"

definition set_sink :: "string \<Rightarrow> FileSnapshotSink \<times> FileSnapshotStore \<Rightarrow> FileSnapshotStore" where
  "set_sink i x = (snd x)\<lparr>fs_sinks := AList.update i (fst x) (fs_sinks (snd x))\<rparr>"

text \<open>A sink is known by the name of its snapshot; a name without a sink does not occur in the code.\<close>

definition Sink_Write :: "FileSnapshotStore \<Rightarrow> string \<Rightarrow> bytes \<Rightarrow> FileSnapshotStore \<times> raft_error option" where
  "Sink_Write fs i b = (case map_of (fs_sinks fs) i of
      None \<Rightarrow> (fs, Some (ErrOther ''no sink''))
    | Some sk \<Rightarrow> (let y = bufio_Write b (sk, fs) in (set_sink i y, if sk_err (fst y) then Some (ErrOther ''write'') else None)))"

text \<open>\<open>finalize\<close>: flush, sync, stat, close, and the size and checksum into the metadata.\<close>

definition finalize :: "(bytes \<Rightarrow> bytes) \<Rightarrow> FileSnapshotSink \<times> FileSnapshotStore \<Rightarrow> (FileSnapshotSink \<times> FileSnapshotStore) \<times> raft_error option" where
  "finalize crc x = (case Flush x of (sk, fs) \<Rightarrow>
     if sk_err sk then ((sk, fs), Some (ErrOther ''write''))
     else (case os_plain ''sync'' fs of
        (fs1, Some e) \<Rightarrow> ((sk, fs1), Some e)
      | (fs1, None) \<Rightarrow> (case os_plain ''stat'' fs1 of (fs2, statErr) \<Rightarrow> (case os_plain ''close'' fs2 of
          (fs3, Some e) \<Rightarrow> ((sk, fs3), Some e)
        | (fs3, None) \<Rightarrow> (case statErr of
            Some e \<Rightarrow> ((sk, fs3), Some e)
          | None \<Rightarrow>
              let size = (case map_of (fs_dirs fs3) (sk_dir sk) of Some d \<Rightarrow> (case sd_state d of Some s \<Rightarrow> int (length s) | None \<Rightarrow> 0) | None \<Rightarrow> 0)
              in ((sk\<lparr>sk_meta := \<lparr>fm_meta = (fm_meta (sk_meta sk))\<lparr>sm_Size := size\<rparr>, fm_CRC = Some (crc (sk_hashed sk))\<rparr>\<rparr>, fs3), None))))))"

section \<open>Reading snapshots\<close>

definition readMeta :: "json_meta \<Rightarrow> FileSnapshotStore \<Rightarrow> string \<Rightarrow> fileSnapshotMeta option" where
  "readMeta J fs name = (if fs_unreadable fs name then None else Option.bind (map_of (fs_dirs fs) name) (\<lambda>d. Option.bind (sd_meta d) (jm_dec J)))"

text \<open>\<open>snapMetaSlice.Less\<close> orders by term, index and name; \<open>sort.Reverse\<close> puts the newest first.\<close>

definition snap_key :: "fileSnapshotMeta \<Rightarrow> uint64 \<times> uint64 \<times> string" where
  "snap_key m = (sm_Term (fm_meta m), sm_Index (fm_meta m), sm_ID (fm_meta m))"

definition getSnapshots :: "json_meta \<Rightarrow> FileSnapshotStore \<Rightarrow> raft_error + fileSnapshotMeta list" where
  "getSnapshots J fs =
     (if fs_unreadable fs [] then Inl (ErrOther ''readdir'')
      else Inr (rev (sort_key snap_key (List.map_filter (readMeta J fs) (filter (\<lambda>n. \<not> HasSuffix n tmpSuffix) (map fst (fs_dirs fs)))))))"

definition List_snapshots :: "json_meta \<Rightarrow> FileSnapshotStore \<Rightarrow> raft_error + SnapshotMeta list" where
  "List_snapshots J fs = (case getSnapshots J fs of
      Inl e \<Rightarrow> Inl e
    | Inr ms \<Rightarrow> Inr (map fm_meta (if fs_retain fs = 0 then ms else take (fs_retain fs) ms)))"

definition Open_snapshot :: "json_meta \<Rightarrow> (bytes \<Rightarrow> bytes) \<Rightarrow> FileSnapshotStore \<Rightarrow> string \<Rightarrow> raft_error + (SnapshotMeta \<times> bytes)" where
  "Open_snapshot J crc fs i = (case readMeta J fs i of
      None \<Rightarrow> Inl (ErrOther ''meta'')
    | Some m \<Rightarrow> (case Option.bind (map_of (fs_dirs fs) i) sd_state of
        None \<Rightarrow> Inl (ErrOther ''open'')
      | Some s \<Rightarrow> if (case fm_CRC m of Some c \<Rightarrow> c | None \<Rightarrow> []) = crc s then Inr (fm_meta m, s) else Inl (ErrOther ''CRC mismatch'')))"

section \<open>Closing and cancelling\<close>

fun reap_loop :: "string list \<Rightarrow> FileSnapshotStore \<Rightarrow> FileSnapshotStore \<times> raft_error option" where
  "reap_loop [] fs = (fs, None)"
| "reap_loop (i # is) fs = (case os_RemoveAll i fs of
      (fs1, Some e) \<Rightarrow> (fs1, Some e)
    | (fs1, None) \<Rightarrow> reap_loop is fs1)"

definition ReapSnapshots :: "json_meta \<Rightarrow> FileSnapshotStore \<Rightarrow> FileSnapshotStore \<times> raft_error option" where
  "ReapSnapshots J fs = (case getSnapshots J fs of
      Inl e \<Rightarrow> (fs, Some e)
    | Inr ms \<Rightarrow> reap_loop (map (\<lambda>m. sm_ID (fm_meta m)) (drop (fs_retain fs) ms)) fs)"

definition publish :: "json_meta \<Rightarrow> FileSnapshotSink \<Rightarrow> FileSnapshotStore \<Rightarrow> FileSnapshotStore \<times> raft_error option" where
  "publish J sk fs = (case writeMeta J (sk_dir sk) (sk_meta sk) fs of
      (fs1, Some e) \<Rightarrow> (fs1, Some e)
    | (fs1, None) \<Rightarrow> (case os_Rename (sk_dir sk) (TrimSuffix (sk_dir sk) tmpSuffix) fs1 of
        (fs2, Some e) \<Rightarrow> (fs2, Some e)
      | (fs2, None) \<Rightarrow> (case os_plain ''open parent'' fs2 of
          (fs3, Some e) \<Rightarrow> (fs3, Some e)
        | (fs3, None) \<Rightarrow> (case os_plain ''sync parent'' fs3 of
            (fs4, Some e) \<Rightarrow> (fs4, Some e)
          | (fs4, None) \<Rightarrow> ReapSnapshots J fs4))))"

definition Sink_Close :: "json_meta \<Rightarrow> (bytes \<Rightarrow> bytes) \<Rightarrow> FileSnapshotStore \<Rightarrow> string \<Rightarrow> FileSnapshotStore \<times> raft_error option" where
  "Sink_Close J crc fs i = (case map_of (fs_sinks fs) i of
      None \<Rightarrow> (fs, Some (ErrOther ''no sink''))
    | Some sk \<Rightarrow>
        if sk_closed sk then (fs, None)
        else (case finalize crc (sk\<lparr>sk_closed := True\<rparr>, fs) of
            (y, Some e) \<Rightarrow> (case os_RemoveAll (sk_dir sk) (set_sink i y) of (fs1, Some delErr) \<Rightarrow> (fs1, Some delErr) | (fs1, None) \<Rightarrow> (fs1, Some e))
          | (y, None) \<Rightarrow> publish J (fst y) (set_sink i y)))"

definition Sink_Cancel :: "(bytes \<Rightarrow> bytes) \<Rightarrow> FileSnapshotStore \<Rightarrow> string \<Rightarrow> FileSnapshotStore" where
  "Sink_Cancel crc fs i = (case map_of (fs_sinks fs) i of
      None \<Rightarrow> fs
    | Some sk \<Rightarrow>
        if sk_closed sk then fs
        else (case finalize crc (sk\<lparr>sk_closed := True\<rparr>, fs) of
            (y, Some e) \<Rightarrow> set_sink i y
          | (y, None) \<Rightarrow> fst (os_RemoveAll (sk_dir sk) (set_sink i y))))"

text \<open>The interface of a node on the files.\<close>

definition file_snapshots :: "json_meta \<Rightarrow> (bytes \<Rightarrow> bytes) \<Rightarrow> FileSnapshotStore SnapshotStore" where
  "file_snapshots J crc = \<lparr>sn_Create = Create J, sn_Write = Sink_Write, sn_Close = Sink_Close J crc, sn_Cancel = Sink_Cancel crc,
     sn_List = List_snapshots J, sn_Open = Open_snapshot J crc\<rparr>"

section \<open>What the calls leave alone\<close>

abbreviation dirs :: "FileSnapshotStore \<Rightarrow> string \<rightharpoonup> snap_dir" where
  "dirs fs \<equiv> map_of (fs_dirs fs)"

abbreviation uniq :: "FileSnapshotStore \<Rightarrow> bool" where
  "uniq fs \<equiv> distinct (map fst (fs_dirs fs))"

text \<open>Calls that change at most the directories in a set, and neither the number to retain nor what can be read.\<close>

definition only :: "string set \<Rightarrow> FileSnapshotStore \<Rightarrow> FileSnapshotStore \<Rightarrow> bool" where
  "only N fs fs' \<longleftrightarrow> (\<forall>n. n \<notin> N \<longrightarrow> dirs fs' n = dirs fs n) \<and> fs_retain fs' = fs_retain fs \<and> fs_unreadable fs' = fs_unreadable fs \<and>
     (uniq fs \<longrightarrow> uniq fs')"

lemma only_refl [simp]: "only N fs fs"
  by (simp add: only_def)

lemma only_trans: "only N fs fs1 \<Longrightarrow> only N fs1 fs2 \<Longrightarrow> only N fs fs2"
  by (simp add: only_def)

lemma only_mono: "only N fs fs' \<Longrightarrow> N \<subseteq> M \<Longrightarrow> only M fs fs'"
  by (auto simp: only_def)

lemma dirs_set_dir [simp]: "dirs (set_dir n d fs) = (dirs fs)(n \<mapsto> d)"
  by (simp add: set_dir_def update_conv')

lemma set_dir_fields [simp]: "fs_retain (set_dir n d fs) = fs_retain fs" "fs_unreadable (set_dir n d fs) = fs_unreadable fs"
  "fs_sinks (set_dir n d fs) = fs_sinks fs"
  by (simp_all add: set_dir_def)

lemma dirs_upd_dir: "dirs (upd_dir n f fs) = (case dirs fs n of None \<Rightarrow> dirs fs | Some d \<Rightarrow> (dirs fs)(n \<mapsto> f d))"
  by (simp add: upd_dir_def split: option.splits)

lemma upd_dir_fields [simp]: "fs_retain (upd_dir n f fs) = fs_retain fs" "fs_unreadable (upd_dir n f fs) = fs_unreadable fs"
  "fs_sinks (upd_dir n f fs) = fs_sinks fs"
  by (simp_all add: upd_dir_def split: option.splits)

lemma upd_dir_uniq [simp]: "uniq fs \<Longrightarrow> uniq (upd_dir n f fs)"
  by (simp add: upd_dir_def set_dir_def distinct_update split: option.splits)

lemma only_upd_dir: "only {n} fs (upd_dir n f fs)"
  by (simp add: only_def dirs_upd_dir split: option.splits)

lemma syscall_same:
  assumes "syscall fs = (r, fs')"
  shows "fs_dirs fs' = fs_dirs fs" "fs_sinks fs' = fs_sinks fs" "fs_retain fs' = fs_retain fs" "fs_unreadable fs' = fs_unreadable fs"
  using assms by (auto simp: syscall_def)

lemma os_plain_same:
  assumes "os_plain w fs = (fs', e)"
  shows "fs_dirs fs' = fs_dirs fs" "fs_sinks fs' = fs_sinks fs" "fs_retain fs' = fs_retain fs" "fs_unreadable fs' = fs_unreadable fs"
  using assms by (auto simp: os_plain_def dest: syscall_same split: prod.splits fault.splits)

lemma os_plain_only: "os_plain w fs = (fs', e) \<Longrightarrow> only N fs fs'"
  using os_plain_same by (simp add: only_def)

lemma writeMeta_only:
  assumes "writeMeta J n m fs = (fs', e)"
  shows "only {n} fs fs' \<and> fs_sinks fs' = fs_sinks fs"
  using assms
  by (auto simp: writeMeta_def only_def dirs_upd_dir os_plain_same syscall_same split: prod.splits fault.splits option.splits if_splits)

lemma writeMeta_ok:
  assumes "writeMeta J n m fs = (fs', None)" and "dirs fs n = Some d"
  shows "dirs fs' n = Some (d\<lparr>sd_meta := Some (jm_enc J m)\<rparr>)"
  using assms by (auto simp: writeMeta_def dirs_upd_dir os_plain_same(1) syscall_same(1) split: prod.splits fault.splits if_splits)

section \<open>The buffer and the file\<close>

text \<open>
  A sink without an error, after some bytes: those that went through the buffer are in the file and in the hash.
\<close>

definition holds :: "FileSnapshotSink \<times> FileSnapshotStore \<Rightarrow> bytes \<Rightarrow> bool" where
  "holds x b \<longleftrightarrow> \<not> sk_err (fst x) \<and> sk_hashed (fst x) @ sk_buffered (fst x) = b \<and>
     (\<exists>d. dirs (snd x) (sk_dir (fst x)) = Some d \<and> sd_state d = Some (sk_hashed (fst x)))"

definition same_sink :: "FileSnapshotSink \<Rightarrow> FileSnapshotSink \<Rightarrow> bool" where
  "same_sink sk sk' \<longleftrightarrow> sk_dir sk' = sk_dir sk \<and> sk_meta sk' = sk_meta sk \<and> sk_closed sk' = sk_closed sk"

text \<open>What every operation on the buffer keeps.\<close>

definition sink_step :: "FileSnapshotSink \<times> FileSnapshotStore \<Rightarrow> FileSnapshotSink \<times> FileSnapshotStore \<Rightarrow> bool" where
  "sink_step x y \<longleftrightarrow> same_sink (fst x) (fst y) \<and> only {sk_dir (fst x)} (snd x) (snd y) \<and> fs_sinks (snd y) = fs_sinks (snd x)"

lemma sink_step_refl [simp]: "sink_step x x"
  by (simp add: sink_step_def same_sink_def)

lemma sink_step_trans: "sink_step x y \<Longrightarrow> sink_step y z \<Longrightarrow> sink_step x z"
  by (auto simp: sink_step_def same_sink_def intro: only_trans)

lemma multi_write_step: "sink_step x (multi_write b x)"
proof (cases x)
  case (Pair sk fs)
  obtain r fs1 where s: "syscall fs = (r, fs1)" by force
  show ?thesis using Pair s syscall_same [OF s]
    by (cases r) (auto simp: sink_step_def same_sink_def multi_write_def only_def dirs_upd_dir split: option.splits)
qed

lemma multi_write_holds:
  assumes "\<not> sk_err (fst (multi_write b x))" and "holds x c" and "sk_buffered (fst x) = []"
  shows "holds (multi_write b x) (c @ b)"
proof (cases x)
  case (Pair sk fs)
  obtain r fs1 where s: "syscall fs = (r, fs1)" by force
  show ?thesis using assms Pair s syscall_same [OF s] by (cases r) (auto simp: holds_def multi_write_def dirs_upd_dir)
qed

lemma put_buffer_step: "sink_step x (put_buffer b x)"
  by (cases x) (simp add: put_buffer_def sink_step_def same_sink_def)

lemma put_buffer_holds: "holds x c \<Longrightarrow> holds (put_buffer b x) (c @ b)"
  by (cases x) (auto simp: put_buffer_def holds_def)

lemma Flush_step: "sink_step x (Flush x)"
proof (cases x)
  case (Pair sk fs)
  obtain sk1 fs1 where m: "multi_write (sk_buffered sk) (sk, fs) = (sk1, fs1)" by force
  then have "sink_step (sk, fs) (sk1, fs1)" using multi_write_step by metis
  then show ?thesis using Pair m by (auto simp: Flush_def sink_step_def same_sink_def)
qed

lemma Flush_holds:
  assumes "\<not> sk_err (fst (Flush x))" and "holds x c"
  shows "holds (Flush x) c \<and> sk_buffered (fst (Flush x)) = []"
proof (cases x)
  case (Pair sk fs)
  obtain r fs1 where s: "syscall fs = (r, fs1)" by force
  show ?thesis using assms Pair s syscall_same [OF s]
    by (cases r) (auto simp: Flush_def holds_def multi_write_def dirs_upd_dir split: if_splits)
qed

lemmas sink_steps = sink_step_trans [OF _ multi_write_step] sink_step_trans [OF _ put_buffer_step] sink_step_trans [OF _ Flush_step]

lemma bufio_Write_step: "sink_step x (bufio_Write b x)"
  by (simp add: bufio_Write_def Let_def sink_steps)

lemma bufio_Write_holds:
  assumes "\<not> sk_err (fst (bufio_Write b x))" and "holds x c"
  shows "holds (bufio_Write b x) (c @ b)"
proof -
  let ?a = "buf_size - length (sk_buffered (fst x))"
  let ?y = "Flush (put_buffer (take ?a b) x)"
  have e: "\<not> sk_err (fst x)" using assms(2) by (simp add: holds_def)
  consider (fits) "length b \<le> ?a" | (direct) "\<not> length b \<le> ?a" "sk_buffered (fst x) = []"
    | (full) "\<not> length b \<le> ?a" "sk_buffered (fst x) \<noteq> []" by blast
  then show ?thesis
  proof cases
    case fits
    then show ?thesis using assms(2) e by (simp add: bufio_Write_def put_buffer_holds)
  next
    case direct
    then have "bufio_Write b x = multi_write b x" using e by (simp add: bufio_Write_def)
    then show ?thesis using assms direct multi_write_holds by metis
  next
    case full
    then have w: "bufio_Write b x = (if sk_err (fst ?y) then ?y else if length (drop ?a b) \<le> buf_size then put_buffer (drop ?a b) ?y
        else multi_write (drop ?a b) ?y)"
      using e by (simp add: bufio_Write_def Let_def)
    have "holds (put_buffer (take ?a b) x) (c @ take ?a b)" using assms(2) by (rule put_buffer_holds)
    moreover have ne: "\<not> sk_err (fst ?y)" using assms(1) w by auto
    ultimately have y: "holds ?y (c @ take ?a b)" "sk_buffered (fst ?y) = []" using Flush_holds by blast+
    show ?thesis
    proof (cases "length (drop ?a b) \<le> buf_size")
      case True
      then show ?thesis using w ne put_buffer_holds [OF y(1), of "drop ?a b"] by simp
    next
      case False
      then show ?thesis using w ne multi_write_holds [OF _ y, of "drop ?a b"] assms(1) by simp
    qed
  qed
qed

text \<open>A sink of the store that is open, for a snapshot of some index, term and peers, and has received some bytes.\<close>

definition pending :: "FileSnapshotStore \<Rightarrow> string \<Rightarrow> uint64 \<Rightarrow> uint64 \<Rightarrow> bytes \<Rightarrow> bytes \<Rightarrow> bool" where
  "pending fs i index trm peers b \<longleftrightarrow> (\<exists>sk. map_of (fs_sinks fs) i = Some sk \<and> \<not> sk_closed sk \<and> sk_dir sk = i @ tmpSuffix \<and>
     fm_meta (sk_meta sk) = \<lparr>sm_ID = i, sm_Index = index, sm_Term = trm, sm_Peers = peers, sm_Size = 0\<rparr> \<and> holds (sk, fs) b)"

lemma set_sink_dirs [simp]: "fs_dirs (set_sink i x) = fs_dirs (snd x)" "fs_retain (set_sink i x) = fs_retain (snd x)"
  "fs_unreadable (set_sink i x) = fs_unreadable (snd x)" "map_of (fs_sinks (set_sink i x)) = (map_of (fs_sinks (snd x)))(i \<mapsto> fst x)"
  by (simp_all add: set_sink_def update_conv')

lemma Write_pending:
  assumes "pending fs i index trm peers b" and "Sink_Write fs i c = (fs', None)"
  shows "pending fs' i index trm peers (b @ c) \<and> only {i @ tmpSuffix} fs fs'"
proof -
  obtain sk where sk: "map_of (fs_sinks fs) i = Some sk" "\<not> sk_closed sk" "sk_dir sk = i @ tmpSuffix"
    "fm_meta (sk_meta sk) = \<lparr>sm_ID = i, sm_Index = index, sm_Term = trm, sm_Peers = peers, sm_Size = 0\<rparr>" "holds (sk, fs) b"
    using assms(1) by (auto simp: pending_def)
  define y where "y = bufio_Write c (sk, fs)"
  have y: "fs' = set_sink i y" "\<not> sk_err (fst y)" using assms(2) sk(1) by (auto simp: Sink_Write_def Let_def y_def split: if_splits)
  have st: "sink_step (sk, fs) y" and h: "holds y (b @ c)"
    using bufio_Write_step bufio_Write_holds [OF _ sk(5)] y(2) by (simp_all add: y_def)
  have "holds (fst y, fs') (b @ c)" using h by (simp add: holds_def y(1))
  then show ?thesis using sk st by (auto simp: pending_def y(1) sink_step_def same_sink_def only_def)
qed

lemma finalize_step:
  assumes "finalize crc x = (y, e)"
  shows "sk_dir (fst y) = sk_dir (fst x)" "only {sk_dir (fst x)} (snd x) (snd y)" "fs_sinks (snd y) = fs_sinks (snd x)"
proof -
  obtain sk fs where f: "Flush x = (sk, fs)" by force
  have "sink_step x (Flush x)" by (rule Flush_step)
  moreover have "sk_dir (fst y) = sk_dir (fst (Flush x))" "fs_dirs (snd y) = fs_dirs (snd (Flush x))" "fs_sinks (snd y) = fs_sinks (snd (Flush x))"
    "fs_retain (snd y) = fs_retain (snd (Flush x))" "fs_unreadable (snd y) = fs_unreadable (snd (Flush x))"
    using assms by (auto simp: f finalize_def os_plain_same Let_def split: prod.splits if_splits option.splits)
  ultimately show "sk_dir (fst y) = sk_dir (fst x)" "only {sk_dir (fst x)} (snd x) (snd y)" "fs_sinks (snd y) = fs_sinks (snd x)"
    by (simp_all add: sink_step_def same_sink_def only_def)
qed

lemma finalize_holds:
  assumes "finalize crc x = (y, None)" and "holds x b"
  shows "\<exists>d. dirs (snd y) (sk_dir (fst x)) = Some d \<and> sd_state d = Some b \<and>
    sk_meta (fst y) = \<lparr>fm_meta = (fm_meta (sk_meta (fst x)))\<lparr>sm_Size := int (length b)\<rparr>, fm_CRC = Some (crc b)\<rparr>"
proof -
  have st: "sink_step x (Flush x)" by (rule Flush_step)
  obtain sk fs where f: "Flush x = (sk, fs)" by force
  have e: "\<not> sk_err (fst (Flush x))" using assms(1) by (auto simp: finalize_def split: prod.splits if_splits)
  then have h: "holds (Flush x) b" "sk_buffered (fst (Flush x)) = []" using Flush_holds assms(2) by blast+
  then obtain d where d: "dirs (snd (Flush x)) (sk_dir (fst (Flush x))) = Some d" "sd_state d = Some b" "sk_hashed (fst (Flush x)) = b"
    by (auto simp: holds_def)
  have "fs_dirs (snd y) = fs_dirs (snd (Flush x))" "sk_meta (fst y) = \<lparr>fm_meta = (fm_meta (sk_meta (fst (Flush x))))\<lparr>sm_Size := int (length b)\<rparr>, fm_CRC = Some (crc b)\<rparr>"
    using assms(1) e d by (auto simp: f finalize_def os_plain_same Let_def split: prod.splits option.splits)
  then show ?thesis using d st by (simp add: sink_step_def same_sink_def)
qed

section \<open>Reaping\<close>

definition meta_at :: "json_meta \<Rightarrow> FileSnapshotStore \<Rightarrow> string \<Rightarrow> fileSnapshotMeta option" where
  "meta_at J fs n = Option.bind (dirs fs n) (\<lambda>d. Option.bind (sd_meta d) (jm_dec J))"

lemma readMeta_meta_at: "readMeta J fs n = (if fs_unreadable fs n then None else meta_at J fs n)"
  by (simp add: readMeta_def meta_at_def)

text \<open>A store whose directories have different names and whose finished snapshots carry their own name.\<close>

definition store_ok :: "json_meta \<Rightarrow> FileSnapshotStore \<Rightarrow> bool" where
  "store_ok J fs \<longleftrightarrow> uniq fs \<and> 0 < fs_retain fs \<and>
     (\<forall>n m. \<not> HasSuffix n tmpSuffix \<and> meta_at J fs n = Some m \<longrightarrow> sm_ID (fm_meta m) = n)"

definition reaped :: "json_meta \<Rightarrow> string set \<Rightarrow> FileSnapshotStore \<Rightarrow> FileSnapshotStore \<Rightarrow> bool" where
  "reaped J R fs fs' \<longleftrightarrow> map fst (fs_dirs fs') = filter (\<lambda>n. dirs fs' n \<noteq> None) (map fst (fs_dirs fs)) \<and> only R fs fs' \<and>
     (\<forall>n. meta_at J fs' n = None \<or> meta_at J fs' n = meta_at J fs n)"

lemma map_fst_delete: "map fst (AList.delete k xs) = filter (\<lambda>n. n \<noteq> k) (map fst xs)"
  by (induction xs) auto

lemma dirs_Some_iff: "dirs fs n \<noteq> None \<longleftrightarrow> n \<in> set (map fst (fs_dirs fs))"
  by (simp add: map_of_eq_None_iff)

lemma reaped_refl [simp]: "reaped J R fs fs"
  unfolding reaped_def dirs_Some_iff by (simp add: filter_id_conv [THEN iffD2])

lemma reapedD:
  assumes "reaped J R fs fs'"
  shows "map fst (fs_dirs fs') = filter (\<lambda>n. dirs fs' n \<noteq> None) (map fst (fs_dirs fs))" "only R fs fs'"
    "meta_at J fs' n = None \<or> meta_at J fs' n = meta_at J fs n"
  using assms unfolding reaped_def by blast+

lemma reapedI:
  assumes "map fst (fs_dirs fs') = filter (\<lambda>n. dirs fs' n \<noteq> None) (map fst (fs_dirs fs))" and "only R fs fs'"
    and "\<And>n. meta_at J fs' n = None \<or> meta_at J fs' n = meta_at J fs n"
  shows "reaped J R fs fs'"
  using assms unfolding reaped_def by blast

lemma reaped_trans:
  assumes "reaped J R fs fs1" and "reaped J R fs1 fs2"
  shows "reaped J R fs fs2"
proof (rule reapedI)
  note one = reapedD [OF assms(1)] and two = reapedD [OF assms(2)]
  have still: "dirs fs1 n \<noteq> None" if "dirs fs2 n \<noteq> None" for n
  proof -
    have "n \<in> set (map fst (fs_dirs fs2))" using that dirs_Some_iff by blast
    then have "n \<in> set (map fst (fs_dirs fs1))" unfolding two(1) by (rule subsetD [OF filter_is_subset])
    then show ?thesis using dirs_Some_iff by blast
  qed
  show "map fst (fs_dirs fs2) = filter (\<lambda>n. dirs fs2 n \<noteq> None) (map fst (fs_dirs fs))"
    unfolding two(1) one(1) filter_filter by (intro filter_cong refl) (use still in blast)
  show "only R fs fs2" using one(2) two(2) by (rule only_trans)
  show "meta_at J fs2 n = None \<or> meta_at J fs2 n = meta_at J fs n" for n using one(3) [of n] two(3) [of n] by metis
qed

lemma reaped_mono: "reaped J R fs fs' \<Longrightarrow> R \<subseteq> S \<Longrightarrow> reaped J S fs fs'"
  unfolding reaped_def using only_mono by blast

lemma os_RemoveAll_reaped:
  assumes "os_RemoveAll i fs = (fs', e)"
  shows "reaped J {i} fs fs'" "fs_sinks fs' = fs_sinks fs" "e = None \<Longrightarrow> dirs fs' i = None"
proof -
  obtain r fs1 where s: "syscall fs = (r, fs1)" by force
  note same = syscall_same [OF s]
  have "reaped J {i} fs fs' \<and> fs_sinks fs' = fs_sinks fs \<and> (e = None \<longrightarrow> dirs fs' i = None)"
  proof (cases r)
    case Works
    then have fs': "fs' = fs1\<lparr>fs_dirs := AList.delete i (fs_dirs fs1)\<rparr>" using assms s by (simp add: os_RemoveAll_def)
    then have d: "dirs fs' = (dirs fs)(i := None)" by (simp add: delete_conv' same)
    have "map fst (fs_dirs fs') = filter (\<lambda>n. n \<noteq> i) (map fst (fs_dirs fs))" by (simp add: fs' same map_fst_delete)
    also have "\<dots> = filter (\<lambda>n. dirs fs' n \<noteq> None) (map fst (fs_dirs fs))"
    proof (rule filter_cong [OF refl])
      fix n assume "n \<in> set (map fst (fs_dirs fs))"
      then have "dirs fs n \<noteq> None" using dirs_Some_iff by blast
      then show "(n \<noteq> i) = (dirs fs' n \<noteq> None)" by (simp add: d)
    qed
    finally have "reaped J {i} fs fs'"
      by (rule reapedI) (simp_all add: only_def meta_at_def d, simp_all add: fs' same map_fst_delete)
    then show ?thesis using d by (simp add: fs' same)
  next
    case (Fails n a b)
    let ?f = "\<lambda>d. \<lparr>sd_meta = if a then sd_meta d else None, sd_state = if b then sd_state d else None\<rparr>"
    have fs': "fs' = upd_dir i ?f fs1" "e \<noteq> None" using assms s Fails by (auto simp: os_RemoveAll_def)
    have names: "map fst (fs_dirs fs') = map fst (fs_dirs fs)"
    proof (cases "dirs fs i")
      case None
      then show ?thesis by (simp add: fs' upd_dir_def same)
    next
      case (Some d)
      then have "i \<in> set (map fst (fs_dirs fs))" using dirs_Some_iff by blast
      then show ?thesis using Some by (simp add: fs' upd_dir_def set_dir_def same update_keys)
    qed
    have "reaped J {i} fs fs'"
    proof (rule reapedI)
      show "map fst (fs_dirs fs') = filter (\<lambda>n. dirs fs' n \<noteq> None) (map fst (fs_dirs fs))"
        unfolding dirs_Some_iff names by (simp add: filter_id_conv)
      show "only {i} fs fs'" using only_upd_dir [of i fs1 ?f] by (simp add: only_def fs' same)
      show "meta_at J fs' k = None \<or> meta_at J fs' k = meta_at J fs k" for k
        by (cases "dirs fs i") (simp_all add: meta_at_def fs' dirs_upd_dir same)
    qed
    then show ?thesis using fs'(2) by (auto simp: fs'(1) same)
  qed
  then show "reaped J {i} fs fs'" "fs_sinks fs' = fs_sinks fs" "e = None \<Longrightarrow> dirs fs' i = None" by blast+
qed

lemma reaped_none: "reaped J R fs fs' \<Longrightarrow> dirs fs n = None \<Longrightarrow> dirs fs' n = None"
proof (rule ccontr)
  assume r: "reaped J R fs fs'" and n: "dirs fs n = None" and "dirs fs' n \<noteq> None"
  then have "n \<in> set (map fst (fs_dirs fs'))" using dirs_Some_iff by blast
  then have "n \<in> set (map fst (fs_dirs fs))" unfolding reapedD(1) [OF r] by (rule subsetD [OF filter_is_subset])
  then show False using n dirs_Some_iff by blast
qed

lemma reap_loop_reaped:
  assumes "reap_loop is fs = (fs', e)"
  shows "reaped J (set is) fs fs' \<and> fs_sinks fs' = fs_sinks fs \<and> (e = None \<longrightarrow> (\<forall>i \<in> set is. dirs fs' i = None))"
  using assms
proof (induction "is" arbitrary: fs)
  case Nil
  then show ?case by simp
next
  case (Cons i "is")
  obtain fs1 e1 where r: "os_RemoveAll i fs = (fs1, e1)" by force
  note one = os_RemoveAll_reaped [OF r]
  have R: "reaped J (set (i # is)) fs fs1" using one(1) by (rule reaped_mono) simp
  show ?case
  proof (cases e1)
    case (Some x)
    then show ?thesis using Cons.prems r R one(2) by auto
  next
    case None
    then have IH: "reaped J (set is) fs1 fs'" "fs_sinks fs' = fs_sinks fs1" "e = None \<longrightarrow> (\<forall>i \<in> set is. dirs fs' i = None)"
      using Cons.IH [of fs1] Cons.prems r by simp_all
    have "reaped J (set (i # is)) fs1 fs'" using IH(1) by (rule reaped_mono) auto
    moreover have "dirs fs' i = None" using one(3) None reaped_none [OF IH(1)] by blast
    ultimately show ?thesis using R reaped_trans IH one(2) by auto
  qed
qed

section \<open>The listing\<close>

definition snaps :: "json_meta \<Rightarrow> FileSnapshotStore \<Rightarrow> fileSnapshotMeta list" where
  "snaps J fs = rev (sort_key snap_key (List.map_filter (readMeta J fs) (filter (\<lambda>n. \<not> HasSuffix n tmpSuffix) (map fst (fs_dirs fs)))))"

abbreviation snap_id :: "fileSnapshotMeta \<Rightarrow> string" where
  "snap_id m \<equiv> sm_ID (fm_meta m)"

lemma getSnapshots_snaps: "getSnapshots J fs = (if fs_unreadable fs [] then Inl (ErrOther ''readdir'') else Inr (snaps J fs))"
  by (simp add: getSnapshots_def snaps_def)

lemma readMeta_name:
  assumes "readMeta J fs n = Some m"
  shows "n \<in> set (map fst (fs_dirs fs))"
proof -
  have "dirs fs n \<noteq> None" using assms by (cases "dirs fs n") (auto simp: readMeta_def split: if_splits)
  then show ?thesis using dirs_Some_iff by blast
qed

lemma set_snaps: "set (snaps J fs) = {m. \<exists>n. \<not> HasSuffix n tmpSuffix \<and> readMeta J fs n = Some m}"
proof -
  have "set (snaps J fs) = {m. \<exists>n \<in> set (map fst (fs_dirs fs)). \<not> HasSuffix n tmpSuffix \<and> readMeta J fs n = Some m}"
    by (force simp: snaps_def map_filter_def)
  then show ?thesis using readMeta_name by blast
qed

lemma store_ok_id: "store_ok J fs \<Longrightarrow> \<not> HasSuffix n tmpSuffix \<Longrightarrow> readMeta J fs n = Some m \<Longrightarrow> snap_id m = n"
  by (auto simp: store_ok_def readMeta_meta_at split: if_splits)

lemma in_snaps: "store_ok J fs \<Longrightarrow> m \<in> set (snaps J fs) \<longleftrightarrow> \<not> HasSuffix (snap_id m) tmpSuffix \<and> readMeta J fs (snap_id m) = Some m"
  unfolding set_snaps using store_ok_id by blast

lemma snaps_inj: "store_ok J fs \<Longrightarrow> inj_on snap_id (set (snaps J fs))"
  by (rule inj_onI) (metis in_snaps option.inject)

lemma snap_key_inj: "inj_on snap_id A \<Longrightarrow> inj_on snap_key A"
  by (auto simp: inj_on_def snap_key_def)

lemma map_filter_distinct:
  assumes "distinct ns" and "\<And>n m. n \<in> set ns \<Longrightarrow> f n = Some m \<Longrightarrow> g m = n"
  shows "distinct (List.map_filter f ns)"
  using assms
proof (induction ns)
  case Nil
  then show ?case by (simp add: map_filter_def)
next
  case (Cons n ns)
  show ?case
  proof (cases "f n")
    case None
    then show ?thesis using Cons by (simp add: map_filter_simps)
  next
    case (Some m)
    have "m \<notin> set (List.map_filter f ns)"
    proof
      assume "m \<in> set (List.map_filter f ns)"
      then obtain k where "k \<in> set ns" "f k = Some m" by (auto simp: map_filter_def)
      then show False using Cons.prems Some by (metis distinct.simps(2) list.set_intros(1) list.set_intros(2))
    qed
    then show ?thesis using Cons Some by (simp add: map_filter_simps)
  qed
qed

lemma snaps_distinct: "store_ok J fs \<Longrightarrow> distinct (snaps J fs)"
proof -
  assume ok: "store_ok J fs"
  let ?ns = "filter (\<lambda>n. \<not> HasSuffix n tmpSuffix) (map fst (fs_dirs fs))"
  have "distinct (List.map_filter (readMeta J fs) ?ns)"
    by (rule map_filter_distinct [where g = snap_id]) (use ok store_ok_id [OF ok] in \<open>auto simp: store_ok_def\<close>)
  then show ?thesis by (simp add: snaps_def)
qed

lemma snaps_sorted: "sorted (map snap_key (rev (snaps J fs)))"
  by (simp add: snaps_def)

text \<open>Newest first, without repetition: the order of the directories does not matter.\<close>

lemma snaps_unique:
  assumes "store_ok J fs" and "sorted (map snap_key (rev ms))" and "distinct ms" and "set ms = set (snaps J fs)"
  shows "ms = snaps J fs"
proof -
  have i: "inj_on snap_key (set (snaps J fs))" using assms(1) by (rule snap_key_inj [OF snaps_inj])
  have "rev ms = rev (snaps J fs)"
    by (rule map_sorted_distinct_set_unique [where f = snap_key])
      (use i assms snaps_sorted snaps_distinct in \<open>simp_all add: distinct_map\<close>)
  then show ?thesis by simp
qed

lemma take_filter_prefix:
  assumes "\<And>x. x \<in> set (take k xs) \<Longrightarrow> Q x"
  shows "take k (filter Q xs) = take k xs"
proof -
  have "filter Q xs = filter Q (take k xs) @ filter Q (drop k xs)" by (metis append_take_drop_id filter_append)
  also have "filter Q (take k xs) = take k xs" using assms by (simp add: filter_id_conv)
  finally show ?thesis by (cases "length xs \<le> k") auto
qed

lemma length_filter_prefix:
  assumes "filter Q (drop k xs) = []"
  shows "length (filter Q xs) \<le> k"
proof -
  have "filter Q xs = filter Q (take k xs) @ filter Q (drop k xs)" by (metis append_take_drop_id filter_append)
  then have "length (filter Q xs) = length (filter Q (take k xs))" by (simp add: assms)
  also have "\<dots> \<le> length (take k xs)" by (rule length_filter_le)
  finally show ?thesis by simp
qed

lemma reaped_readMeta: "reaped J R fs fs' \<Longrightarrow> readMeta J fs' n = None \<or> readMeta J fs' n = readMeta J fs n"
  using reapedD(2,3) by (fastforce simp: readMeta_meta_at only_def)

lemma reaped_store_ok:
  assumes "store_ok J fs" and "reaped J R fs fs'"
  shows "store_ok J fs'"
proof -
  have "uniq fs'" "fs_retain fs' = fs_retain fs" using assms reapedD(2) [OF assms(2)] by (simp_all add: store_ok_def only_def)
  moreover have "snap_id m = n" if "\<not> HasSuffix n tmpSuffix" "meta_at J fs' n = Some m" for n m
    using assms(1) that reapedD(3) [OF assms(2), of n] by (auto simp: store_ok_def)
  ultimately show ?thesis using assms(1) by (auto simp: store_ok_def)
qed

lemma reaped_snaps:
  assumes "store_ok J fs" and "reaped J R fs fs'"
  shows "snaps J fs' = filter (\<lambda>m. readMeta J fs' (snap_id m) \<noteq> None) (snaps J fs)" (is "_ = filter ?Q _")
proof -
  have ok: "store_ok J fs'" using assms by (rule reaped_store_ok)
  have "filter ?Q (snaps J fs) = snaps J fs'"
  proof (rule snaps_unique [OF ok])
    show "sorted (map snap_key (rev (filter ?Q (snaps J fs))))" unfolding rev_filter by (rule sorted_filter [OF snaps_sorted])
    show "distinct (filter ?Q (snaps J fs))" using snaps_distinct [OF assms(1)] by simp
    show "set (filter ?Q (snaps J fs)) = set (snaps J fs')"
    proof (intro set_eqI)
      fix m show "m \<in> set (filter ?Q (snaps J fs)) \<longleftrightarrow> m \<in> set (snaps J fs')"
        using reaped_readMeta [OF assms(2), of "snap_id m"] by (auto simp: in_snaps [OF ok] in_snaps [OF assms(1)])
    qed
  qed
  then show ?thesis by simp
qed

lemma List_snaps:
  assumes "store_ok J fs"
  shows "List_snapshots J fs = (if fs_unreadable fs [] then Inl (ErrOther ''readdir'') else Inr (map fm_meta (take (fs_retain fs) (snaps J fs))))"
  using assms by (simp add: List_snapshots_def getSnapshots_snaps store_ok_def)

text \<open>What reaping leaves: the newest snapshots, as they were, whatever fails.\<close>

lemma ReapSnapshots_keeps:
  assumes "store_ok J fs" and "ReapSnapshots J fs = (fs', e)"
  shows "store_ok J fs' \<and> fs_sinks fs' = fs_sinks fs \<and> fs_retain fs' = fs_retain fs \<and> fs_unreadable fs' = fs_unreadable fs \<and>
    take (fs_retain fs) (snaps J fs') = take (fs_retain fs) (snaps J fs) \<and>
    (\<forall>m \<in> set (take (fs_retain fs) (snaps J fs)). dirs fs' (snap_id m) = dirs fs (snap_id m)) \<and>
    (e = None \<longrightarrow> snaps J fs' = take (fs_retain fs) (snaps J fs))"
proof (cases "fs_unreadable fs []")
  case True
  then show ?thesis using assms by (auto simp: ReapSnapshots_def getSnapshots_snaps)
next
  case False
  let ?k = "fs_retain fs" and ?old = "map snap_id (drop (fs_retain fs) (snaps J fs))"
  have l: "reap_loop ?old fs = (fs', e)" using assms(2) False by (simp add: ReapSnapshots_def getSnapshots_snaps)
  note R = reap_loop_reaped [OF l, where J = J]
  then have r: "reaped J (set ?old) fs fs'" by blast
  have apart: "snap_id m \<notin> set ?old" if "m \<in> set (take ?k (snaps J fs))" for m
  proof
    assume "snap_id m \<in> set ?old"
    then obtain m' where "m' \<in> set (drop ?k (snaps J fs))" "snap_id m' = snap_id m" by auto
    then have "m' = m" using that snaps_inj [OF assms(1)] by (meson in_set_dropD in_set_takeD inj_onD)
    then show False using \<open>m' \<in> _\<close> that set_take_disj_set_drop_if_distinct [OF snaps_distinct [OF assms(1)], of ?k ?k] by blast
  qed
  have same: "dirs fs' (snap_id m) = dirs fs (snap_id m)" if "m \<in> set (take ?k (snaps J fs))" for m
    using apart [OF that] reapedD(2) [OF r] unfolding only_def by blast
  have fields: "fs_retain fs' = ?k" "fs_unreadable fs' = fs_unreadable fs" using reapedD(2) [OF r] by (simp_all only: only_def)
  have kept: "readMeta J fs' (snap_id m) \<noteq> None" if "m \<in> set (take ?k (snaps J fs))" for m
  proof -
    have "readMeta J fs (snap_id m) = Some m" using in_snaps [OF assms(1)] that in_set_takeD by metis
    then show ?thesis using same [OF that] fields(2) by (simp add: readMeta_def split: if_splits)
  qed
  have f: "snaps J fs' = filter (\<lambda>m. readMeta J fs' (snap_id m) \<noteq> None) (snaps J fs)" using assms(1) r by (rule reaped_snaps)
  have top: "take ?k (snaps J fs') = take ?k (snaps J fs)" unfolding f using kept by (rule take_filter_prefix)
  have "snaps J fs' = take ?k (snaps J fs)" if "e = None"
  proof -
    have "filter (\<lambda>m. readMeta J fs' (snap_id m) \<noteq> None) (drop ?k (snaps J fs)) = []"
      using that R by (auto simp: filter_empty_conv readMeta_def)
    then have "length (snaps J fs') \<le> ?k" unfolding f by (rule length_filter_prefix)
    then show ?thesis using top by simp
  qed
  moreover have "store_ok J fs'" using assms(1) r by (rule reaped_store_ok)
  moreover have "fs_sinks fs' = fs_sinks fs" using R by (elim conjE)
  ultimately show ?thesis using same fields top by (intro conjI ballI impI)
qed

section \<open>Names\<close>

lemma TrimSuffix_append [simp]: "TrimSuffix (s @ p) p = s" and HasSuffix_append [simp]: "HasSuffix (s @ p) p"
  by (simp_all add: TrimSuffix_def HasSuffix_def)

lemma HasSuffix_last: "HasSuffix s p \<Longrightarrow> p \<noteq> [] \<Longrightarrow> last s = last p"
  by (metis HasSuffix_def last_drop linorder_not_le drop_eq_Nil)

lemma digits10_no_p: "CHR ''p'' \<notin> set (digits10 n)"
proof -
  have "of_char c \<le> (57::nat)" if "c \<in> set s" "is_digits s" for c s using that by (induction s) auto
  from this [of "CHR ''p''", OF _ is_digits_digits10] show ?thesis by fastforce
qed

lemma snapshotName_final: "\<not> HasSuffix (snapshotName t x now) tmpSuffix"
proof
  assume "HasSuffix (snapshotName t x now) tmpSuffix"
  then have "last (snapshotName t x now) = CHR ''p''" using HasSuffix_last by fastforce
  moreover obtain n where "last (Itoa (millis now)) = last (digits10 n)" "Itoa (millis now) \<noteq> []"
    by (cases "millis now < 0") (auto simp: Itoa_def)
  then have "last (snapshotName t x now) \<in> set (digits10 n)" by (simp add: snapshotName_def)
  ultimately show False using digits10_no_p by metis
qed

text \<open>\<open>encoding/json\<close> reads back the metadata of a snapshot, whose name is ASCII.\<close>

definition json_ok :: "json_meta \<Rightarrow> bool" where
  "json_ok J \<longleftrightarrow> (\<forall>t x now m. snap_id m = snapshotName t x now \<longrightarrow> jm_dec J (jm_enc J m) = Some m)"

definition sink_ok :: "string \<Rightarrow> FileSnapshotSink \<Rightarrow> bool" where
  "sink_ok i sk \<longleftrightarrow> sk_dir sk = i @ tmpSuffix \<and> snap_id (sk_meta sk) = i \<and> (\<exists>t x now. i = snapshotName t x now)"

definition sinks_ok :: "FileSnapshotStore \<Rightarrow> bool" where
  "sinks_ok fs \<longleftrightarrow> (\<forall>i sk. map_of (fs_sinks fs) i = Some sk \<longrightarrow> sink_ok i sk)"

definition snap_inv :: "json_meta \<Rightarrow> FileSnapshotStore \<Rightarrow> bool" where
  "snap_inv J fs \<longleftrightarrow> store_ok J fs \<and> sinks_ok fs"

lemma sink_ok_final: "sink_ok i sk \<Longrightarrow> \<not> HasSuffix i tmpSuffix"
  using snapshotName_final by (auto simp: sink_ok_def)

section \<open>Calls on a temporary directory\<close>

lemma only_meta_at: "only N fs fs' \<Longrightarrow> n \<notin> N \<Longrightarrow> meta_at J fs' n = meta_at J fs n"
  by (simp add: only_def meta_at_def)

lemma tmp_readMeta:
  assumes "only {i @ tmpSuffix} fs fs'" and "\<not> HasSuffix n tmpSuffix"
  shows "dirs fs' n = dirs fs n" "readMeta J fs' n = readMeta J fs n"
proof -
  have "n \<noteq> i @ tmpSuffix" using assms(2) HasSuffix_append by blast
  then show "dirs fs' n = dirs fs n" using assms(1) by (simp add: only_def)
  then show "readMeta J fs' n = readMeta J fs n" using assms(1) by (simp add: only_def readMeta_def)
qed

lemma tmp_store:
  assumes "store_ok J fs" and "only {i @ tmpSuffix} fs fs'"
  shows "store_ok J fs' \<and> snaps J fs' = snaps J fs"
proof -
  have same: "dirs fs' n = dirs fs n" "readMeta J fs' n = readMeta J fs n" if "\<not> HasSuffix n tmpSuffix" for n
    using tmp_readMeta [OF assms(2) that] by blast+
  then have ok: "store_ok J fs'" using assms by (auto simp: store_ok_def only_def meta_at_def)
  have "set (snaps J fs) = set (snaps J fs')" unfolding set_snaps using same(2) by metis
  then show ?thesis using ok snaps_unique [OF ok snaps_sorted snaps_distinct] assms(1) by metis
qed

section \<open>Moving a snapshot into place\<close>

lemma os_Rename_result:
  assumes "os_Rename old new fs = (fs', e)" and "old \<noteq> new"
  shows "fs_sinks fs' = fs_sinks fs \<and>
    (if e = None then only {old, new} fs fs' \<and> dirs fs new = None \<and> dirs fs old \<noteq> None \<and> dirs fs' new = dirs fs old else only {} fs fs')"
proof -
  obtain r fs1 where s: "syscall fs = (r, fs1)" by force
  note same = syscall_same [OF s]
  have base: "only {} fs fs1 \<and> fs_sinks fs1 = fs_sinks fs" by (simp add: only_def same)
  consider (moved) d where "r = Works" "dirs fs old = Some d" "dirs fs new = None"
    | (no_call) "r \<noteq> Works" | (none) "r = Works" "dirs fs old = None" | (there) "r = Works" "dirs fs new \<noteq> None"
    by fastforce
  then show ?thesis
  proof cases
    case moved
    then have fs': "fs' = set_dir new d (fs1\<lparr>fs_dirs := AList.delete old (fs_dirs fs1)\<rparr>)" "e = None"
      using assms(1) s by (simp_all add: os_Rename_def same)
    have "uniq fs \<longrightarrow> uniq fs'" by (simp add: fs' set_dir_def distinct_update map_fst_delete same)
    then show ?thesis using moved assms(2) by (simp add: fs' only_def delete_conv' same)
  next
    case no_call
    then have "fs' = fs1 \<and> e \<noteq> None" using assms(1) s by (cases r) (auto simp: os_Rename_def)
    then show ?thesis using base by auto
  next
    case none
    then have "fs' = fs1 \<and> e \<noteq> None" using assms(1) s by (auto simp: os_Rename_def same)
    then show ?thesis using base by auto
  next
    case there
    then have "fs' = fs1 \<and> e \<noteq> None" using assms(1) s by (auto simp: os_Rename_def same split: option.splits)
    then show ?thesis using base by auto
  qed
qed

lemma publish_cases:
  assumes "publish J sk fs = (fs', e)" and "sk_dir sk = i @ tmpSuffix"
  obtains (not_moved) "e \<noteq> None" "only {i @ tmpSuffix} fs fs'" "fs_sinks fs' = fs_sinks fs"
    | (moved) fs4 d where "dirs fs (i @ tmpSuffix) = Some d" "dirs fs i = None"
      "dirs fs4 i = Some (d\<lparr>sd_meta := Some (jm_enc J (sk_meta sk))\<rparr>)" "only {i, i @ tmpSuffix} fs fs4" "fs_sinks fs4 = fs_sinks fs"
      "fs' = fs4 \<and> e \<noteq> None \<or> ReapSnapshots J fs4 = (fs', e)"
proof -
  obtain fs1 e1 where w: "writeMeta J (i @ tmpSuffix) (sk_meta sk) fs = (fs1, e1)" by force
  note w1 = writeMeta_only [OF w]
  show thesis
  proof (cases e1)
    case (Some x)
    then have "fs' = fs1" "e \<noteq> None" using assms w by (auto simp: publish_def)
    then show thesis using not_moved w1 by simp
  next
    case w_ok: None
    obtain fs2 e2 where r: "os_Rename (i @ tmpSuffix) i fs1 = (fs2, e2)" by force
    note r1 = os_Rename_result [OF r]
    show thesis
    proof (cases e2)
      case (Some x)
      then have "fs' = fs2" "e \<noteq> None" using assms w w_ok r by (auto simp: publish_def)
      moreover have "only {i @ tmpSuffix} fs fs2" using w1 r1 Some only_trans [OF _ only_mono [of "{}"]] by auto
      ultimately show thesis using not_moved r1 w1 by simp
    next
      case r_ok: None
      then have mv: "only {i @ tmpSuffix, i} fs1 fs2" "dirs fs1 i = None" "dirs fs1 (i @ tmpSuffix) \<noteq> None" "dirs fs2 i = dirs fs1 (i @ tmpSuffix)"
        "fs_sinks fs2 = fs_sinks fs1" using r1 by simp_all
      have d0: "dirs fs (i @ tmpSuffix) \<noteq> None"
      proof
        assume "dirs fs (i @ tmpSuffix) = None"
        then show False using w w_ok by (auto simp: writeMeta_def syscall_same split: prod.splits fault.splits if_splits)
      qed
      then obtain d where d: "dirs fs (i @ tmpSuffix) = Some d" by blast
      have d1: "dirs fs1 (i @ tmpSuffix) = Some (d\<lparr>sd_meta := Some (jm_enc J (sk_meta sk))\<rparr>)"
        using writeMeta_ok [OF _ d] w w_ok by blast
      have i0: "dirs fs i = None" using mv(2) w1 by (simp add: only_def)
      obtain fs3 e3 where p1: "os_plain ''open parent'' fs2 = (fs3, e3)" by force
      obtain fs4 e4 where p2: "os_plain ''sync parent'' fs3 = (fs4, e4)" by force
      have "only {i, i @ tmpSuffix} fs fs1" "only {i, i @ tmpSuffix} fs1 fs2" using w1 mv(1) by (auto elim: only_mono)
      then have o2: "only {i, i @ tmpSuffix} fs fs2" by (rule only_trans)
      then have o3: "only {i, i @ tmpSuffix} fs fs3" using os_plain_only [OF p1] by (rule only_trans)
      then have o4: "only {i, i @ tmpSuffix} fs fs4" using os_plain_only [OF p2] by (rule only_trans)
      have "fs' = fs3 \<and> e \<noteq> None \<or> fs' = fs4 \<and> e \<noteq> None \<or> ReapSnapshots J fs4 = (fs', e)"
        using assms w w_ok r r_ok p1 p2 by (cases e3; cases e4) (auto simp: publish_def)
      moreover have "dirs fs3 i = dirs fs2 i" "dirs fs4 i = dirs fs2 i" "fs_sinks fs3 = fs_sinks fs" "fs_sinks fs4 = fs_sinks fs"
        using os_plain_same(1,2) [OF p1] os_plain_same(1,2) [OF p2] mv(5) w1 by simp_all
      ultimately show thesis using moved [OF d i0] o3 o4 mv(4) d1 by metis
    qed
  qed
qed

lemma insort_key_split: "\<exists>us vs. insort_key f x xs = us @ x # vs \<and> xs = us @ vs"
proof (induction xs)
  case Nil
  then show ?case by simp
next
  case (Cons y xs)
  then obtain us vs where "insort_key f x xs = us @ x # vs" "xs = us @ vs" by blast
  then have "insort_key f x (y # xs) = [] @ x # (y # xs) \<or> insort_key f x (y # xs) = (y # us) @ x # vs \<and> y # xs = (y # us) @ vs" by simp
  then show ?case by (metis append_Nil)
qed

lemma take_insort: "set (take k (rev (insort_key f x xs))) \<subseteq> insert x (set (take k (rev xs)))"
proof -
  from insort_key_split [of f x xs] obtain us vs where s: "insort_key f x xs = us @ x # vs" "xs = us @ vs" by (elim exE conjE)
  have "set (take j (x # zs)) \<subseteq> insert x (set (take j zs))" for j zs
  proof (cases j)
    case (Suc n)
    then show ?thesis using set_take_subset_set_take [of n j zs] by auto
  qed simp
  from this [of "k - length vs" "rev us"] show ?thesis unfolding s(1) unfolding s(2) by auto
qed

lemma placed:
  assumes "store_ok J fs" and "\<not> HasSuffix i tmpSuffix" and "dirs fs i = None" and "only {i, i @ tmpSuffix} fs fs'"
    and "meta_at J fs' i = Some m" and "snap_id m = i"
  shows "store_ok J fs' \<and> snaps J fs' = (if fs_unreadable fs i then snaps J fs else rev (insort_key snap_key m (rev (snaps J fs))))"
proof -
  have same: "meta_at J fs' n = meta_at J fs n" "readMeta J fs' n = readMeta J fs n" if "\<not> HasSuffix n tmpSuffix" "n \<noteq> i" for n
  proof -
    have "n \<notin> {i, i @ tmpSuffix}" using that HasSuffix_append by blast
    then show "meta_at J fs' n = meta_at J fs n" using only_meta_at assms(4) by blast
    then show "readMeta J fs' n = readMeta J fs n" using assms(4) by (simp add: readMeta_meta_at only_def)
  qed
  have ok: "store_ok J fs'"
  proof -
    have "snap_id m' = n" if "\<not> HasSuffix n tmpSuffix" "meta_at J fs' n = Some m'" for n m'
      using that same(1) [of n] assms(1,5,6) by (cases "n = i") (auto simp: store_ok_def)
    then show ?thesis using assms(1,4) by (auto simp: store_ok_def only_def)
  qed
  have i0: "readMeta J fs i = None" using assms(3) by (simp add: readMeta_def)
  have i1: "readMeta J fs' i = (if fs_unreadable fs i then None else Some m)" using assms(4,5) by (simp add: readMeta_meta_at only_def)
  have new: "m \<notin> set (snaps J fs)" using i0 assms(6) by (simp add: in_snaps [OF assms(1)])
  have set': "set (snaps J fs') = (if fs_unreadable fs i then set (snaps J fs) else insert m (set (snaps J fs)))"
  proof (rule set_eqI)
    fix x show "x \<in> set (snaps J fs') \<longleftrightarrow> x \<in> (if fs_unreadable fs i then set (snaps J fs) else insert m (set (snaps J fs)))"
      using same(2) [of "snap_id x"] i0 i1 assms(2,6) by (cases "snap_id x = i") (auto simp: in_snaps [OF ok] in_snaps [OF assms(1)])
  qed
  show ?thesis
  proof (cases "fs_unreadable fs i")
    case True
    then have "set (snaps J fs) = set (snaps J fs')" using set' by simp
    then have "snaps J fs = snaps J fs'" by (rule snaps_unique [OF ok snaps_sorted snaps_distinct [OF assms(1)]])
    then show ?thesis using ok True by simp
  next
    case False
    have "rev (insort_key snap_key m (rev (snaps J fs))) = snaps J fs'"
      by (rule snaps_unique [OF ok])
        (use False set' new snaps_sorted snaps_distinct [OF assms(1)] in \<open>simp_all add: sorted_insort_key distinct_insort set_insort_key\<close>)
    then show ?thesis using ok False by simp
  qed
qed

section \<open>Closing a sink\<close>

lemma finalize_id:
  assumes "finalize crc x = (y, e)"
  shows "snap_id (sk_meta (fst y)) = snap_id (sk_meta (fst x))"
proof -
  obtain sk fs where f: "Flush x = (sk, fs)" by force
  have "sink_step x (Flush x)" by (rule Flush_step)
  moreover have "snap_id (sk_meta (fst y)) = snap_id (sk_meta (fst (Flush x)))"
    using assms by (auto simp: f finalize_def Let_def split: prod.splits if_splits option.splits)
  ultimately show ?thesis by (simp add: sink_step_def same_sink_def)
qed

lemma sinks_ok_set_sink: "sinks_ok fs \<Longrightarrow> fs_sinks (snd y) = fs_sinks fs \<Longrightarrow> sink_ok i (fst y) \<Longrightarrow> sinks_ok (set_sink i y)"
  by (simp add: sinks_ok_def)

lemma sinks_ok_cong: "fs_sinks fs' = fs_sinks fs \<Longrightarrow> sinks_ok fs' = sinks_ok fs"
  by (simp add: sinks_ok_def)

lemma finalize_sinks:
  assumes "finalize crc (sk\<lparr>sk_closed := True\<rparr>, fs) = (y, e)" and "sinks_ok fs" and "sink_ok i sk"
  shows "sinks_ok (set_sink i y)" "only {i @ tmpSuffix} fs (set_sink i y)" "sk_dir (fst y) = i @ tmpSuffix" "snap_id (sk_meta (fst y)) = i"
proof -
  note st = finalize_step [OF assms(1)] and m = finalize_id [OF assms(1)]
  show d: "sk_dir (fst y) = i @ tmpSuffix" and n: "snap_id (sk_meta (fst y)) = i" using st(1) m assms(3) by (simp_all add: sink_ok_def)
  show "only {i @ tmpSuffix} fs (set_sink i y)" using st(2) assms(3) by (simp add: sink_ok_def only_def)
  show "sinks_ok (set_sink i y)" using sinks_ok_set_sink [OF assms(2) _, of y i] st(3) d n assms(3) by (auto simp: sink_ok_def)
qed

lemma Sink_Close_cases:
  assumes "Sink_Close J crc fs i = (fs', e)" and "map_of (fs_sinks fs) i = Some sk" and "\<not> sk_closed sk" and "sinks_ok fs"
  obtains (not_moved) "only {i @ tmpSuffix} fs fs'" "sinks_ok fs'" "e \<noteq> None"
    | (moved) y fs4 d where "finalize crc (sk\<lparr>sk_closed := True\<rparr>, fs) = (y, None)" "dirs (snd y) (i @ tmpSuffix) = Some d" "dirs fs i = None"
      "dirs fs4 i = Some (d\<lparr>sd_meta := Some (jm_enc J (sk_meta (fst y)))\<rparr>)" "only {i, i @ tmpSuffix} fs fs4" "sinks_ok fs4"
      "fs' = fs4 \<and> e \<noteq> None \<or> ReapSnapshots J fs4 = (fs', e)"
proof -
  have sk: "sink_ok i sk" using assms(2,4) by (simp add: sinks_ok_def)
  obtain y f where fin: "finalize crc (sk\<lparr>sk_closed := True\<rparr>, fs) = (y, f)" using prod.exhaust by blast
  note fs1 = finalize_sinks [OF fin assms(4) sk]
  show thesis
  proof (cases f)
    case (Some x)
    obtain fs1 e1 where r: "os_RemoveAll (i @ tmpSuffix) (set_sink i y) = (fs1, e1)" by force
    have "fs' = fs1" "e \<noteq> None" using assms(1-3) fin Some r sk by (auto simp: Sink_Close_def sink_ok_def split: option.splits)
    moreover have "only {i @ tmpSuffix} fs fs1" using fs1(2) reapedD(2) [OF os_RemoveAll_reaped(1) [OF r]] by (rule only_trans)
    moreover have "sinks_ok fs1" using fs1(1) os_RemoveAll_reaped(2) [OF r] sinks_ok_cong by blast
    ultimately show thesis using not_moved by simp
  next
    case None
    have p: "publish J (fst y) (set_sink i y) = (fs', e)" using assms(1-3) fin None by (simp add: Sink_Close_def)
    from p fs1(3) show thesis
    proof (cases rule: publish_cases)
      case not_moved': not_moved
      show thesis by (rule not_moved) (use not_moved' fs1 only_trans sinks_ok_cong in blast)+
    next
      case moved': (moved fs4 d)
      have "only {i, i @ tmpSuffix} fs (set_sink i y)" using fs1(2) by (rule only_mono) simp
      then have o: "only {i, i @ tmpSuffix} fs fs4" using moved'(4) by (rule only_trans)
      have "i \<noteq> i @ tmpSuffix" by simp
      then have "dirs fs i = None" using moved'(2) fs1(2) by (simp add: only_def)
      moreover have "sinks_ok fs4" using fs1(1) moved'(5) sinks_ok_cong by blast
      ultimately show thesis using moved [of y d fs4] fin None moved' o by simp
    qed
  qed
qed

lemma ReapSnapshots_sinks: "ReapSnapshots J fs = (fs', e) \<Longrightarrow> sinks_ok fs \<Longrightarrow> store_ok J fs \<Longrightarrow> sinks_ok fs'"
  using ReapSnapshots_keeps sinks_ok_cong by blast

text \<open>The moved snapshot is in the store, and reaping can only take snapshots that are not listed.\<close>

lemma moved_result:
  assumes "store_ok J fs" and "json_ok J" and "sink_ok i sk" and "finalize crc (sk\<lparr>sk_closed := True\<rparr>, fs) = (y, None)" and "dirs fs i = None"
    and "dirs fs4 i = Some (d\<lparr>sd_meta := Some (jm_enc J (sk_meta (fst y)))\<rparr>)" and "only {i, i @ tmpSuffix} fs fs4"
    and "fs' = fs4 \<and> e \<noteq> None \<or> ReapSnapshots J fs4 = (fs', e)"
  defines "m \<equiv> sk_meta (fst y)"
  shows "store_ok J fs4" "store_ok J fs'" "meta_at J fs4 i = Some m" "snap_id m = i"
    "snaps J fs4 = (if fs_unreadable fs i then snaps J fs else rev (insort_key snap_key m (rev (snaps J fs))))"
    "take (fs_retain fs) (snaps J fs') = take (fs_retain fs) (snaps J fs4)"
    "x \<in> set (take (fs_retain fs) (snaps J fs4)) \<Longrightarrow> dirs fs' (snap_id x) = dirs fs4 (snap_id x)"
    "fs_retain fs' = fs_retain fs" "fs_unreadable fs' = fs_unreadable fs"
proof -
  show n: "snap_id m = i" using finalize_id [OF assms(4)] assms(3) by (simp add: m_def sink_ok_def)
  obtain t idx now where "i = snapshotName t idx now" using assms(3) by (auto simp: sink_ok_def)
  then have "jm_dec J (jm_enc J m) = Some m" using assms(2) n by (simp add: json_ok_def)
  then show ma: "meta_at J fs4 i = Some m" using assms(6) by (simp add: meta_at_def m_def)
  note pl = placed [OF assms(1) sink_ok_final [OF assms(3)] assms(5,7) ma n]
  show ok: "store_ok J fs4" using pl by (rule conjunct1)
  show "snaps J fs4 = (if fs_unreadable fs i then snaps J fs else rev (insort_key snap_key m (rev (snaps J fs))))" using pl by (rule conjunct2)
  have rt: "fs_retain fs4 = fs_retain fs" "fs_unreadable fs4 = fs_unreadable fs" using assms(7) by (simp_all add: only_def)
  have "store_ok J fs' \<and> take (fs_retain fs) (snaps J fs') = take (fs_retain fs) (snaps J fs4) \<and>
    (\<forall>x \<in> set (take (fs_retain fs) (snaps J fs4)). dirs fs' (snap_id x) = dirs fs4 (snap_id x)) \<and> fs_retain fs' = fs_retain fs \<and> fs_unreadable fs' = fs_unreadable fs"
    using assms(8)
  proof (elim disjE)
    assume "ReapSnapshots J fs4 = (fs', e)"
    note k = ReapSnapshots_keeps [OF ok this]
    show ?thesis using k unfolding rt by (elim conjE) (intro conjI)
  next
    assume "fs' = fs4 \<and> e \<noteq> None"
    then show ?thesis using ok rt by simp
  qed
  then show "store_ok J fs'" "take (fs_retain fs) (snaps J fs') = take (fs_retain fs) (snaps J fs4)" "fs_retain fs' = fs_retain fs"
    "fs_unreadable fs' = fs_unreadable fs" "x \<in> set (take (fs_retain fs) (snaps J fs4)) \<Longrightarrow> dirs fs' (snap_id x) = dirs fs4 (snap_id x)"
    by blast+
qed

lemma Open_cong:
  assumes "dirs fs' n = dirs fs n" and "fs_unreadable fs' = fs_unreadable fs"
  shows "Open_snapshot J crc fs' n = Open_snapshot J crc fs n"
  unfolding Open_snapshot_def readMeta_def assms by (rule refl)

lemma only_Open: "only N fs fs' \<Longrightarrow> n \<notin> N \<Longrightarrow> Open_snapshot J crc fs' n = Open_snapshot J crc fs n"
  by (rule Open_cong) (simp_all add: only_def)

text \<open>How closing a sink changes the listing: not at all, or by the new snapshot, which may take the last place.\<close>

definition exchanged :: "json_meta \<Rightarrow> (bytes \<Rightarrow> bytes) \<Rightarrow> string \<Rightarrow> FileSnapshotStore \<Rightarrow> FileSnapshotStore \<Rightarrow> bool" where
  "exchanged J crc i fs fs' \<longleftrightarrow> fs_retain fs' = fs_retain fs \<and> fs_unreadable fs' = fs_unreadable fs \<and>
     length (take (fs_retain fs) (snaps J fs)) \<le> length (take (fs_retain fs) (snaps J fs')) \<and>
     (\<forall>m \<in> set (take (fs_retain fs) (snaps J fs')). snap_id m \<noteq> i \<longrightarrow>
        m \<in> set (take (fs_retain fs) (snaps J fs)) \<and> Open_snapshot J crc fs' (snap_id m) = Open_snapshot J crc fs (snap_id m))"

lemma tmp_exchanged:
  assumes "store_ok J fs" and "only {i @ tmpSuffix} fs fs'"
  shows "exchanged J crc i fs fs'"
proof -
  have s: "snaps J fs' = snaps J fs" using tmp_store [OF assms] by (rule conjunct2)
  have "Open_snapshot J crc fs' (snap_id m) = Open_snapshot J crc fs (snap_id m)" if "m \<in> set (take (fs_retain fs) (snaps J fs))" for m
  proof -
    have "\<not> HasSuffix (snap_id m) tmpSuffix" using in_set_takeD [OF that] in_snaps [OF assms(1)] by blast
    then have "snap_id m \<notin> {i @ tmpSuffix}" by auto
    then show ?thesis using assms(2) only_Open by blast
  qed
  then show ?thesis using assms(2) by (simp add: exchanged_def s only_def)
qed

lemma Sink_Close_exchanged:
  assumes "snap_inv J fs" and "json_ok J" and "Sink_Close J crc fs i = (fs', e)"
  shows "snap_inv J fs' \<and> exchanged J crc i fs fs'"
proof -
  have ok: "store_ok J fs" and sinks: "sinks_ok fs" using assms(1) by (simp_all add: snap_inv_def)
  consider (noop) "fs' = fs" | (open_sink) sk where "map_of (fs_sinks fs) i = Some sk" "\<not> sk_closed sk"
    using assms(3) by (cases "map_of (fs_sinks fs) i") (auto simp: Sink_Close_def split: if_splits)
  then show ?thesis
  proof cases
    case noop
    then show ?thesis using assms(1) by (simp add: exchanged_def)
  next
    case open_sink
    have sk: "sink_ok i sk" using open_sink(1) sinks by (simp add: sinks_ok_def)
    from assms(3) open_sink sinks show ?thesis
    proof (cases rule: Sink_Close_cases)
      case not_moved
      then show ?thesis using tmp_store [OF ok not_moved(1)] tmp_exchanged [OF ok not_moved(1)] by (simp add: snap_inv_def)
    next
      case (moved y fs4 d)
      note res = moved_result [OF ok assms(2) sk moved(1,3,4,5,7)]
      let ?k = "fs_retain fs" and ?m = "sk_meta (fst y)"
      have sub: "set (take ?k (snaps J fs4)) \<subseteq> insert ?m (set (take ?k (snaps J fs)))"
        using take_insort [of ?k snap_key ?m "rev (snaps J fs)"] by (auto simp: res(5))
      have len: "length (snaps J fs) \<le> length (snaps J fs4)" by (simp add: res(5) length_insort)
      have other: "m \<in> set (take ?k (snaps J fs)) \<and> Open_snapshot J crc fs' (snap_id m) = Open_snapshot J crc fs (snap_id m)"
        if m: "m \<in> set (take ?k (snaps J fs'))" "snap_id m \<noteq> i" for m
      proof -
        have m4: "m \<in> set (take ?k (snaps J fs4))" using m(1) by (simp only: res(6))
        then have m0: "m \<in> set (take ?k (snaps J fs))" using sub m(2) res(4) by auto
        then have "\<not> HasSuffix (snap_id m) tmpSuffix" using in_set_takeD in_snaps [OF ok] by metis
        then have "snap_id m \<notin> {i, i @ tmpSuffix}" using m(2) by auto
        then have "dirs fs' (snap_id m) = dirs fs (snap_id m)" using res(7) [OF m4] moved(5) by (simp add: only_def)
        then show ?thesis using m0 Open_cong res(9) by blast
      qed
      have "sinks_ok fs'" using moved(6,7) ReapSnapshots_sinks [OF _ moved(6) res(1)] by blast
      moreover have "length (take ?k (snaps J fs)) \<le> length (take ?k (snaps J fs'))" unfolding res(6) using len by simp
      ultimately show ?thesis using res(2,8,9) other unfolding snap_inv_def exchanged_def by blast
    qed
  qed
qed

section \<open>Taking a snapshot\<close>

lemma os_MkdirAll_result:
  assumes "os_MkdirAll n fs = (fs', e)"
  shows "only {n} fs fs'" "fs_sinks fs' = fs_sinks fs" "e = None \<Longrightarrow> dirs fs' n \<noteq> None"
proof -
  obtain r fs1 where s: "syscall fs = (r, fs1)" by force
  note same = syscall_same [OF s]
  have base: "only {n} fs fs1" by (simp add: only_def same)
  have new: "only {n} fs (set_dir n d fs1)" for d by (simp add: only_def same set_dir_def update_conv' distinct_update)
  have "fs' = fs1 \<and> (e = None \<longrightarrow> dirs fs n \<noteq> None) \<or> fs' = set_dir n \<lparr>sd_meta = None, sd_state = None\<rparr> fs1"
    using assms s by (cases r) (auto simp: os_MkdirAll_def same split: if_splits)
  then show "only {n} fs fs'" "fs_sinks fs' = fs_sinks fs" "e = None \<Longrightarrow> dirs fs' n \<noteq> None" using base new by (auto simp: same)
qed

text \<open>What \<open>Create\<close> does in every case, and in the good one.\<close>

lemma Create_result:
  assumes "Create J fs index trm peers = (fs', r)" and "sinks_ok fs"
  defines "i \<equiv> snapshotName trm index (fs_now fs)"
  shows "only {i @ tmpSuffix} fs fs' \<and> sinks_ok fs' \<and> (\<forall>j. r = Inr j \<longrightarrow> j = i \<and> pending fs' i index trm peers [])"
proof -
  let ?dir = "i @ tmpSuffix" and ?m = "\<lparr>fm_meta = \<lparr>sm_ID = i, sm_Index = index, sm_Term = trm, sm_Peers = peers, sm_Size = 0\<rparr>, fm_CRC = None\<rparr>"
  obtain fs1 e1 where k: "os_MkdirAll ?dir fs = (fs1, e1)" by force
  note k1 = os_MkdirAll_result [OF k]
  have s1: "sinks_ok fs1" using k1(2) assms(2) sinks_ok_cong by blast
  show ?thesis
  proof (cases e1)
    case (Some x)
    then have "fs' = fs1" "r = Inl x" using assms(1) k by (simp_all add: Create_def Let_def i_def)
    then show ?thesis using k1(1) s1 by simp
  next
    case ok1: None
    obtain fs2 e2 where w: "writeMeta J ?dir ?m fs1 = (fs2, e2)" by force
    note w1 = writeMeta_only [OF w]
    have o2: "only {?dir} fs fs2" using k1(1) w1 only_trans by blast
    have s2: "sinks_ok fs2" using w1 s1 sinks_ok_cong by blast
    show ?thesis
    proof (cases e2)
      case (Some x)
      then have "fs' = fs2" "r = Inl x" using assms(1) k ok1 w by (simp_all add: Create_def Let_def i_def)
      then show ?thesis using o2 s2 by simp
    next
      case ok2: None
      obtain c fs3 where s: "syscall fs2 = (c, fs3)" by force
      note same = syscall_same [OF s]
      obtain d where "dirs fs1 ?dir = Some d" using k1(3) ok1 by blast
      then have d: "dirs fs2 ?dir = Some (d\<lparr>sd_meta := Some (jm_enc J ?m)\<rparr>)" using writeMeta_ok w ok2 by blast
      let ?sk = "\<lparr>sk_dir = ?dir, sk_meta = ?m, sk_hashed = [], sk_buffered = [], sk_err = False, sk_closed = False\<rparr>"
      let ?fs4 = "upd_dir ?dir (\<lambda>d. d\<lparr>sd_state := Some []\<rparr>) fs3"
      show ?thesis
      proof (cases c)
        case (Fails n a b)
        then have "fs' = fs3" "\<exists>x. r = Inl x" using assms(1) k ok1 w ok2 s by (auto simp: Create_def Let_def i_def)
        then show ?thesis using o2 s2 by (auto simp: only_def same sinks_ok_def)
      next
        case Works
        then have fs': "fs' = ?fs4\<lparr>fs_sinks := AList.update i ?sk (fs_sinks fs3)\<rparr>" "r = Inr i"
          using assms(1) k ok1 w ok2 s by (auto simp: Create_def Let_def i_def)
        have "only {?dir} fs ?fs4" using o2 by (auto simp: only_def dirs_upd_dir same split: option.splits)
        then have o: "only {?dir} fs fs'" by (simp add: only_def fs')
        have "sink_ok i ?sk" unfolding sink_ok_def i_def by auto
        then have "sinks_ok fs'" using s2 by (simp add: sinks_ok_def fs' update_conv' same)
        moreover have "pending fs' i index trm peers []" using d by (simp add: pending_def holds_def fs' update_conv' dirs_upd_dir same)
        ultimately show ?thesis using o fs'(2) by simp
      qed
    qed
  qed
qed

lemma Sink_Write_result:
  assumes "Sink_Write fs i b = (fs', e)" and "sinks_ok fs"
  shows "only {i @ tmpSuffix} fs fs' \<and> sinks_ok fs'"
proof (cases "map_of (fs_sinks fs) i")
  case None
  then show ?thesis using assms by (simp add: Sink_Write_def)
next
  case (Some sk)
  have sk: "sink_ok i sk" using Some assms(2) by (simp add: sinks_ok_def)
  define y where "y = bufio_Write b (sk, fs)"
  have fs': "fs' = set_sink i y" using assms(1) Some by (simp add: Sink_Write_def Let_def y_def)
  have st: "sink_step (sk, fs) y" unfolding y_def by (rule bufio_Write_step)
  then have "sink_ok i (fst y)" "fs_sinks (snd y) = fs_sinks fs" using sk by (simp_all add: sink_ok_def sink_step_def same_sink_def)
  then have "sinks_ok fs'" unfolding fs' using assms(2) by (intro sinks_ok_set_sink) simp_all
  then show ?thesis using st sk by (simp add: fs' sink_step_def only_def sink_ok_def)
qed

lemma Sink_Cancel_result:
  assumes "sinks_ok fs"
  shows "only {i @ tmpSuffix} fs (Sink_Cancel crc fs i) \<and> sinks_ok (Sink_Cancel crc fs i)"
proof (cases "\<exists>sk. map_of (fs_sinks fs) i = Some sk \<and> \<not> sk_closed sk")
  case False
  then have "Sink_Cancel crc fs i = fs" by (cases "map_of (fs_sinks fs) i") (auto simp: Sink_Cancel_def)
  then show ?thesis using assms by simp
next
  case True
  then obtain sk where sk: "map_of (fs_sinks fs) i = Some sk" "\<not> sk_closed sk" by blast
  have ok: "sink_ok i sk" using sk(1) assms by (simp add: sinks_ok_def)
  obtain y f where fin: "finalize crc (sk\<lparr>sk_closed := True\<rparr>, fs) = (y, f)" using prod.exhaust by blast
  note fs1 = finalize_sinks [OF fin assms ok]
  obtain fs2 e where r: "os_RemoveAll (i @ tmpSuffix) (set_sink i y) = (fs2, e)" by force
  have "only {i @ tmpSuffix} fs fs2" using fs1(2) reapedD(2) [OF os_RemoveAll_reaped(1) [OF r]] by (rule only_trans)
  moreover have "sinks_ok fs2" using fs1(1) os_RemoveAll_reaped(2) [OF r] sinks_ok_cong by blast
  moreover have "Sink_Cancel crc fs i = (if f = None then fs2 else set_sink i y)"
    using sk fin r ok by (cases f) (simp_all add: Sink_Cancel_def sink_ok_def)
  ultimately show ?thesis using fs1 by simp
qed

lemma tmp_snap_inv: "snap_inv J fs \<Longrightarrow> only {i @ tmpSuffix} fs fs' \<and> sinks_ok fs' \<Longrightarrow> snap_inv J fs' \<and> snaps J fs' = snaps J fs"
  using tmp_store unfolding snap_inv_def by blast

text \<open>The pieces a snapshot is written in.\<close>

fun write_all :: "FileSnapshotStore \<Rightarrow> string \<Rightarrow> bytes list \<Rightarrow> FileSnapshotStore \<times> raft_error option" where
  "write_all fs i [] = (fs, None)"
| "write_all fs i (b # bs) = (case Sink_Write fs i b of (fs1, Some e) \<Rightarrow> (fs1, Some e) | (fs1, None) \<Rightarrow> write_all fs1 i bs)"

lemma write_all_result:
  assumes "write_all fs i bs = (fs', e)" and "snap_inv J fs"
  shows "snap_inv J fs' \<and> only {i @ tmpSuffix} fs fs'"
  using assms
proof (induction bs arbitrary: fs)
  case (Cons b bs)
  obtain fs1 e1 where w: "Sink_Write fs i b = (fs1, e1)" by force
  have s: "only {i @ tmpSuffix} fs fs1 \<and> sinks_ok fs1" using Sink_Write_result [OF w] Cons.prems(2) by (simp add: snap_inv_def)
  have inv: "snap_inv J fs1" using tmp_snap_inv [OF Cons.prems(2) s] by (rule conjunct1)
  show ?case
  proof (cases e1)
    case None
    then show ?thesis using Cons.IH [of fs1] Cons.prems w inv s only_trans by auto
  next
    case (Some x)
    then show ?thesis using Cons.prems w inv s by simp
  qed
qed simp

lemma write_all_pending:
  assumes "pending fs i index trm peers b" and "write_all fs i bs = (fs', None)"
  shows "pending fs' i index trm peers (b @ concat bs)"
  using assms
proof (induction bs arbitrary: fs b)
  case (Cons c bs)
  obtain fs1 where w: "Sink_Write fs i c = (fs1, None)" using Cons.prems(2) by (auto split: prod.splits option.splits)
  then have "pending fs1 i index trm peers (b @ c)" using Write_pending Cons.prems(1) by blast
  then show ?case using Cons.IH [of fs1 "b @ c"] Cons.prems(2) w by simp
qed simp

lemma closed_opens:
  assumes "snap_inv J fs" and "json_ok J" and "pending fs i index trm peers b" and "dirs fs i = None"
    and "Sink_Close J crc fs i = (fs', e)" and "readMeta J fs' i = Some m" and "m \<in> set (take (fs_retain fs') (snaps J fs'))"
  shows "Open_snapshot J crc fs' i = Inr (\<lparr>sm_ID = i, sm_Index = index, sm_Term = trm, sm_Peers = peers, sm_Size = int (length b)\<rparr>, b)"
proof -
  have ok: "store_ok J fs" and sinks: "sinks_ok fs" using assms(1) by (simp_all add: snap_inv_def)
  obtain sk where sk: "map_of (fs_sinks fs) i = Some sk" "\<not> sk_closed sk" "sk_dir sk = i @ tmpSuffix"
    "fm_meta (sk_meta sk) = \<lparr>sm_ID = i, sm_Index = index, sm_Term = trm, sm_Peers = peers, sm_Size = 0\<rparr>" "holds (sk, fs) b"
    using assms(3) unfolding pending_def by blast
  have sok: "sink_ok i sk" using sk(1) sinks by (simp add: sinks_ok_def)
  from assms(5) sk(1,2) sinks show ?thesis
  proof (cases rule: Sink_Close_cases)
    case not_moved
    then have "dirs fs' i = None" using assms(4) by (simp add: only_def)
    then show ?thesis using assms(6) by (simp add: readMeta_def split: if_splits)
  next
    case (moved y fs4 d)
    note res = moved_result [OF ok assms(2) sok moved(1,3,4,5,7)]
    have "holds (sk\<lparr>sk_closed := True\<rparr>, fs) b" using sk(5) by (simp add: holds_def)
    from finalize_holds [OF moved(1) this]
    have d: "sd_state d = Some b" "sk_meta (fst y) = \<lparr>fm_meta = (fm_meta (sk_meta sk))\<lparr>sm_Size := int (length b)\<rparr>, fm_CRC = Some (crc b)\<rparr>"
      using sk(3) moved(2) by auto
    have m': "\<not> HasSuffix (snap_id m) tmpSuffix" "readMeta J fs' (snap_id m) = Some m"
      using assms(7) in_set_takeD in_snaps [OF res(2)] by metis+
    have n: "snap_id m = i" using store_ok_id [OF res(2) sink_ok_final [OF sok] assms(6)] .
    have "m \<in> set (take (fs_retain fs) (snaps J fs4))" using assms(7) by (simp only: res(6,8))
    from res(7) [OF this] have dir: "dirs fs' i = Some (d\<lparr>sd_meta := Some (jm_enc J (sk_meta (fst y)))\<rparr>)" using moved(4) n by simp
    have "meta_at J fs' i = meta_at J fs4 i" using dir moved(4) by (simp add: meta_at_def)
    then have "m = sk_meta (fst y)" using res(3) assms(6) by (simp add: readMeta_meta_at split: if_splits)
    then show ?thesis using assms(6) dir d sk(4) by (simp add: Open_snapshot_def)
  qed
qed

lemma listed_snaps:
  assumes "snap_inv J fs" and "List_snapshots J fs = Inr xs"
  shows "xs = map fm_meta (take (fs_retain fs) (snaps J fs))"
  using assms List_snaps [of J fs] by (simp add: snap_inv_def split: if_splits)

text \<open>
  C9: A snapshot is listed only when it is complete, whatever fails. A sink is created under a name that is not in use, written in
  pieces and closed; any system call on the way may fail, and one that fails may have written a part or removed a part. If the
  snapshot is listed afterwards, even after a \<open>Close\<close> with an error, then opening it gives its index, term, peers and size and
  exactly the bytes that were written.
\<close>

theorem listed_snapshot_is_complete:
  assumes "snap_inv J fs" and "json_ok J" and "Create J fs index trm peers = (fs1, Inr i)" and "map_of (fs_dirs fs) i = None"
    and "write_all fs1 i bs = (fs2, None)" and "Sink_Close J crc fs2 i = (fs3, e)" and "List_snapshots J fs3 = Inr ms"
    and "m \<in> set ms" and "sm_ID m = i"
  shows "m = \<lparr>sm_ID = i, sm_Index = index, sm_Term = trm, sm_Peers = peers, sm_Size = int (length (concat bs))\<rparr> \<and>
    Open_snapshot J crc fs3 i = Inr (m, concat bs)"
proof -
  have c: "only {i @ tmpSuffix} fs fs1" "sinks_ok fs1" "pending fs1 i index trm peers []"
    using Create_result [OF assms(3)] assms(1) by (auto simp: snap_inv_def)
  have inv1: "snap_inv J fs1" using tmp_snap_inv [OF assms(1)] c(1,2) by blast
  have inv2: "snap_inv J fs2" and o: "only {i @ tmpSuffix} fs1 fs2" using write_all_result [OF assms(5) inv1] by blast+
  have p: "pending fs2 i index trm peers (concat bs)" using write_all_pending [OF c(3) assms(5)] by simp
  have free: "dirs fs2 i = None" using c(1) o assms(4) by (simp add: only_def)
  have inv3: "snap_inv J fs3" using Sink_Close_exchanged [OF inv2 assms(2,6)] by (rule conjunct1)
  then have ok3: "store_ok J fs3" by (simp add: snap_inv_def)
  obtain fm where fm: "fm \<in> set (take (fs_retain fs3) (snaps J fs3))" "m = fm_meta fm"
    using assms(8) listed_snaps [OF inv3 assms(7)] by auto
  then have r: "readMeta J fs3 i = Some fm" using in_snaps [OF ok3] in_set_takeD assms(9) by metis
  have op: "Open_snapshot J crc fs3 i =
      Inr (\<lparr>sm_ID = i, sm_Index = index, sm_Term = trm, sm_Peers = peers, sm_Size = int (length (concat bs))\<rparr>, concat bs)"
    by (rule closed_opens [OF inv2 assms(2) p free assms(6) r fm(1)])
  then show ?thesis using r fm(2) by (auto simp: Open_snapshot_def split: option.splits if_splits)
qed

text \<open>
  C10: Closing a sink keeps the other snapshots, whatever fails. Every snapshot other than the new one that is listed after \<open>Close\<close>
  was listed before it and opens with the same metadata and bytes, and the list has not become shorter: an older snapshot
  disappears only in exchange for the new one. The consistency of the store holds again.
\<close>

theorem Close_keeps_other_snapshots:
  assumes "snap_inv J fs" and "json_ok J" and "Sink_Close J crc fs i = (fs', e)" and "List_snapshots J fs = Inr xs"
  shows "snap_inv J fs' \<and> (\<exists>ys. List_snapshots J fs' = Inr ys \<and> length xs \<le> length ys \<and>
    (\<forall>m \<in> set ys. sm_ID m \<noteq> i \<longrightarrow> m \<in> set xs \<and> Open_snapshot J crc fs' (sm_ID m) = Open_snapshot J crc fs (sm_ID m)))"
proof -
  have inv: "snap_inv J fs'" and ex: "exchanged J crc i fs fs'" using Sink_Close_exchanged [OF assms(1-3)] by blast+
  have xs: "xs = map fm_meta (take (fs_retain fs) (snaps J fs))" by (rule listed_snaps [OF assms(1,4)])
  have "\<not> fs_unreadable fs []" using assms(4) by (auto simp: List_snapshots_def getSnapshots_snaps split: if_splits)
  then have ys: "List_snapshots J fs' = Inr (map fm_meta (take (fs_retain fs) (snaps J fs')))"
    using inv ex by (simp add: snap_inv_def List_snaps exchanged_def)
  have "length xs \<le> length (map fm_meta (take (fs_retain fs) (snaps J fs')))" using ex by (simp add: xs exchanged_def)
  moreover have "m \<in> set xs \<and> Open_snapshot J crc fs' (sm_ID m) = Open_snapshot J crc fs (sm_ID m)"
    if m: "m \<in> set (map fm_meta (take (fs_retain fs) (snaps J fs')))" "sm_ID m \<noteq> i" for m
    using m ex unfolding exchanged_def xs by auto
  ultimately show ?thesis using inv ys by blast
qed

section \<open>When nothing fails\<close>

definition faultless :: "FileSnapshotStore \<Rightarrow> bool" where
  "faultless fs \<longleftrightarrow> (\<forall>n. fs_faults fs n = Works)"

lemma syscall_faultless: "faultless fs \<Longrightarrow> syscall fs = (Works, fs\<lparr>fs_calls := fs_calls fs + 1\<rparr>)"
  by (simp add: syscall_def faultless_def)

lemma faultless_upd [simp]:
  "faultless (fs\<lparr>fs_calls := n\<rparr>) = faultless fs" "faultless (fs\<lparr>fs_dirs := ds\<rparr>) = faultless fs" "faultless (fs\<lparr>fs_sinks := ss\<rparr>) = faultless fs"
  "faultless (set_dir i d fs) = faultless fs" "faultless (upd_dir i f fs) = faultless fs" "faultless (set_sink i x) = faultless (snd x)"
  by (simp_all add: faultless_def set_dir_def upd_dir_def set_sink_def split: option.splits)

lemma os_plain_faultless: "faultless fs \<Longrightarrow> os_plain w fs = (fs\<lparr>fs_calls := fs_calls fs + 1\<rparr>, None)"
  by (simp add: os_plain_def syscall_faultless)

lemma os_RemoveAll_faultless: "faultless fs \<Longrightarrow> \<exists>fs'. os_RemoveAll i fs = (fs', None) \<and> faultless fs'"
  by (simp add: os_RemoveAll_def syscall_faultless)

lemma reap_loop_faultless: "faultless fs \<Longrightarrow> \<exists>fs'. reap_loop is fs = (fs', None) \<and> faultless fs'"
proof (induction "is" arbitrary: fs)
  case (Cons i "is")
  obtain fs1 where "os_RemoveAll i fs = (fs1, None)" "faultless fs1" using os_RemoveAll_faultless Cons.prems by blast
  then show ?case using Cons.IH [of fs1] by simp
qed simp

lemma multi_write_faultless: "faultless (snd x) \<Longrightarrow> faultless (snd (multi_write b x)) \<and> sk_err (fst (multi_write b x)) = sk_err (fst x)"
  by (cases x) (simp add: multi_write_def syscall_faultless)

lemma put_buffer_faultless: "faultless (snd (put_buffer b x)) = faultless (snd x)" "sk_err (fst (put_buffer b x)) = sk_err (fst x)"
  by (cases x; simp add: put_buffer_def)+

lemma Flush_faultless: "faultless (snd x) \<Longrightarrow> faultless (snd (Flush x)) \<and> sk_err (fst (Flush x)) = sk_err (fst x)"
  using multi_write_faultless [of x "sk_buffered (fst x)"] by (cases x) (auto simp: Flush_def split: prod.splits)

lemma bufio_Write_faultless: "faultless (snd x) \<Longrightarrow> faultless (snd (bufio_Write b x)) \<and> sk_err (fst (bufio_Write b x)) = sk_err (fst x)"
  by (simp add: bufio_Write_def Let_def multi_write_faultless put_buffer_faultless Flush_faultless)

lemma write_all_faultless:
  assumes "pending fs i index trm peers b" and "faultless fs"
  shows "\<exists>fs'. write_all fs i bs = (fs', None) \<and> faultless fs'"
  using assms
proof (induction bs arbitrary: fs b)
  case (Cons c bs)
  obtain sk where sk: "map_of (fs_sinks fs) i = Some sk" "\<not> sk_err sk" using Cons.prems(1) by (auto simp: pending_def holds_def)
  obtain fs1 where w: "Sink_Write fs i c = (fs1, None)" "faultless fs1"
    using sk bufio_Write_faultless [of "(sk, fs)" c] Cons.prems(2) by (simp add: Sink_Write_def Let_def)
  then have "pending fs1 i index trm peers (b @ c)" using Write_pending Cons.prems(1) by blast
  then show ?case using Cons.IH w by simp
qed simp

lemma writeMeta_faultless:
  assumes "faultless fs" and "dirs fs n \<noteq> None"
  shows "\<exists>fs'. writeMeta J n m fs = (fs', None) \<and> faultless fs'"
  using assms by (auto simp: writeMeta_def syscall_faultless os_plain_faultless)

lemma Create_faultless:
  assumes "faultless fs"
  shows "\<exists>fs'. Create J fs index trm peers = (fs', Inr (snapshotName trm index (fs_now fs))) \<and> faultless fs'"
proof -
  let ?i = "snapshotName trm index (fs_now fs)"
  obtain fs1 where k: "os_MkdirAll (?i @ tmpSuffix) fs = (fs1, None)" "faultless fs1"
    using assms by (simp add: os_MkdirAll_def syscall_faultless)
  have "dirs fs1 (?i @ tmpSuffix) \<noteq> None" using os_MkdirAll_result(3) [OF k(1)] by simp
  then obtain fs2 where "writeMeta J (?i @ tmpSuffix) \<lparr>fm_meta = \<lparr>sm_ID = ?i, sm_Index = index, sm_Term = trm, sm_Peers = peers, sm_Size = 0\<rparr>,
      fm_CRC = None\<rparr> fs1 = (fs2, None)" "faultless fs2"
    using writeMeta_faultless [OF k(2)] by blast
  then show ?thesis using k by (simp add: Create_def Let_def syscall_faultless)
qed

lemma finalize_faultless:
  assumes "faultless (snd x)" and "\<not> sk_err (fst x)"
  shows "\<exists>y. finalize crc x = (y, None) \<and> faultless (snd y)"
  using Flush_faultless [OF assms(1)] assms(2) by (cases "Flush x") (simp add: finalize_def os_plain_faultless Let_def)

lemma ReapSnapshots_faultless: "faultless fs \<Longrightarrow> \<not> fs_unreadable fs [] \<Longrightarrow> \<exists>fs'. ReapSnapshots J fs = (fs', None)"
  using reap_loop_faultless by (fastforce simp: ReapSnapshots_def getSnapshots_snaps)

lemma publish_faultless:
  assumes "faultless fs" and "sk_dir sk = i @ tmpSuffix" and "dirs fs (i @ tmpSuffix) \<noteq> None" and "dirs fs i = None" and "\<not> fs_unreadable fs []"
  shows "\<exists>fs'. publish J sk fs = (fs', None)"
proof -
  obtain fs1 where w: "writeMeta J (i @ tmpSuffix) (sk_meta sk) fs = (fs1, None)" "faultless fs1"
    using writeMeta_faultless [OF assms(1,3)] by blast
  note w1 = writeMeta_only [OF w(1)]
  have "dirs fs1 (i @ tmpSuffix) \<noteq> None" using writeMeta_ok [OF w(1)] assms(3) by fastforce
  moreover have "dirs fs1 i = None" using w1 assms(4) by (simp add: only_def)
  ultimately obtain fs2 where r: "os_Rename (i @ tmpSuffix) i fs1 = (fs2, None)" "faultless fs2" "fs_unreadable fs2 = fs_unreadable fs1"
    using w(2) by (auto simp: os_Rename_def syscall_faultless)
  have "\<not> fs_unreadable fs2 []" using r(3) w1 assms(5) by (simp add: only_def)
  then show ?thesis using w r assms(2) ReapSnapshots_faultless [of "fs2\<lparr>fs_calls := fs_calls fs2 + 1 + 1\<rparr>" J]
    by (simp add: publish_def os_plain_faultless)
qed

lemma Close_faultless:
  assumes "faultless fs" and "pending fs i index trm peers b" and "dirs fs i = None" and "\<not> fs_unreadable fs []"
  shows "\<exists>fs'. Sink_Close J crc fs i = (fs', None)"
proof -
  obtain sk where sk: "map_of (fs_sinks fs) i = Some sk" "\<not> sk_closed sk" "sk_dir sk = i @ tmpSuffix" "holds (sk, fs) b"
    using assms(2) unfolding pending_def by blast
  have h: "holds (sk\<lparr>sk_closed := True\<rparr>, fs) b" "\<not> sk_err sk" using sk(4) by (simp_all add: holds_def)
  then obtain y where y: "finalize crc (sk\<lparr>sk_closed := True\<rparr>, fs) = (y, None)" "faultless (snd y)"
    using finalize_faultless [of "(sk\<lparr>sk_closed := True\<rparr>, fs)" crc] assms(1) by auto
  note st = finalize_step [OF y(1)]
  have "dirs (snd y) (i @ tmpSuffix) \<noteq> None" using finalize_holds [OF y(1) h(1)] sk(3) by auto
  moreover have "dirs (snd y) i = None" "\<not> fs_unreadable (snd y) []" using st(2) sk(3) assms(3,4) by (simp_all add: only_def)
  ultimately have "\<exists>fs'. publish J (fst y) (set_sink i y) = (fs', None)"
    using publish_faultless [of "set_sink i y" "fst y" i J] y(2) st(1) sk(3) by simp
  then show ?thesis using sk(1,2) y(1) by (simp add: Sink_Close_def)
qed

lemma insort_greatest: "\<forall>x \<in> set xs. f x < f m \<Longrightarrow> insort_key f m xs = xs @ [m]"
  by (induction xs) (auto simp: not_le)

lemma all_older:
  assumes "store_ok J fs" and "\<And>x. x \<in> set (take (fs_retain fs) (snaps J fs)) \<Longrightarrow> snap_key x < k" and "y \<in> set (snaps J fs)"
  shows "snap_key y < k"
proof (cases "snaps J fs")
  case Nil
  then show ?thesis using assms(3) by simp
next
  case (Cons x xs)
  have "0 < fs_retain fs" using assms(1) by (simp add: store_ok_def)
  then have "x \<in> set (take (fs_retain fs) (snaps J fs))" by (simp add: Cons take_Cons')
  then have "snap_key x < k" by (rule assms(2))
  moreover have "snap_key y \<le> snap_key x" using snaps_sorted [of J fs] assms(3) by (auto simp: Cons sorted_append)
  ultimately show ?thesis by simp
qed

text \<open>
  C38: When no system call fails, taking a snapshot succeeds: the sink is created, every piece is written, \<open>Close\<close> returns no error, and,
  when the snapshot is newer than those that are listed, the list begins with it and goes on with the earlier list, cut at the number
  of snapshots to retain.
\<close>

theorem snapshot_is_taken:
  assumes "snap_inv J fs" and "json_ok J" and "faultless fs" and "\<And>n. \<not> fs_unreadable fs n" and "List_snapshots J fs = Inr xs"
    and "map_of (fs_dirs fs) (snapshotName trm index (fs_now fs)) = None"
    and "\<forall>m \<in> set xs. (sm_Term m, sm_Index m, sm_ID m) < (trm, index, snapshotName trm index (fs_now fs))"
  shows "\<exists>i fs1 fs2 fs3. Create J fs index trm peers = (fs1, Inr i) \<and> write_all fs1 i bs = (fs2, None) \<and> Sink_Close J crc fs2 i = (fs3, None) \<and>
    List_snapshots J fs3 = Inr (take (fs_retain fs)
      (\<lparr>sm_ID = i, sm_Index = index, sm_Term = trm, sm_Peers = peers, sm_Size = int (length (concat bs))\<rparr> # xs))"
proof -
  let ?i = "snapshotName trm index (fs_now fs)" and ?k = "fs_retain fs"
  have sinks: "sinks_ok fs" using assms(1) by (simp add: snap_inv_def)
  obtain fs1 where c: "Create J fs index trm peers = (fs1, Inr ?i)" "faultless fs1" using Create_faultless [OF assms(3)] by blast
  have c1: "only {?i @ tmpSuffix} fs fs1" "sinks_ok fs1" "pending fs1 ?i index trm peers []" using Create_result [OF c(1) sinks] by simp_all
  have inv1: "snap_inv J fs1" "snaps J fs1 = snaps J fs" using tmp_snap_inv [OF assms(1)] c1(1,2) by blast+
  obtain fs2 where w: "write_all fs1 ?i bs = (fs2, None)" "faultless fs2" using write_all_faultless [OF c1(3) c(2)] by blast
  have inv2: "snap_inv J fs2" and o2: "only {?i @ tmpSuffix} fs1 fs2" using write_all_result [OF w(1) inv1(1)] by blast+
  have ok2: "store_ok J fs2" and sinks2: "sinks_ok fs2" using inv2 by (simp_all add: snap_inv_def)
  have sn2: "snaps J fs2 = snaps J fs" using tmp_store [of J fs1, OF _ o2] inv1 by (simp add: snap_inv_def)
  have p2: "pending fs2 ?i index trm peers (concat bs)" using write_all_pending [OF c1(3) w(1)] by simp
  have f2: "dirs fs2 ?i = None" "fs_retain fs2 = ?k" "fs_unreadable fs2 = fs_unreadable fs" using o2 c1(1) assms(6) by (simp_all add: only_def)
  obtain fs3 where cl: "Sink_Close J crc fs2 ?i = (fs3, None)" using Close_faultless [OF w(2) p2 f2(1), of J crc] f2(3) assms(4) by auto
  obtain sk where sk: "map_of (fs_sinks fs2) ?i = Some sk" "\<not> sk_closed sk" "sk_dir sk = ?i @ tmpSuffix"
    "fm_meta (sk_meta sk) = \<lparr>sm_ID = ?i, sm_Index = index, sm_Term = trm, sm_Peers = peers, sm_Size = 0\<rparr>" "holds (sk, fs2) (concat bs)"
    using p2 unfolding pending_def by blast
  have sok: "sink_ok ?i sk" using sk(1) sinks2 by (simp add: sinks_ok_def)
  have xs: "xs = map fm_meta (take ?k (snaps J fs))" by (rule listed_snaps [OF assms(1,5)])
  from cl sk(1,2) sinks2
  have "List_snapshots J fs3 = Inr (take ?k
      (\<lparr>sm_ID = ?i, sm_Index = index, sm_Term = trm, sm_Peers = peers, sm_Size = int (length (concat bs))\<rparr> # xs))"
  proof (cases rule: Sink_Close_cases)
    case not_moved
    then show ?thesis by simp
  next
    case (moved y fs4 d)
    note res = moved_result [OF ok2 assms(2) sok moved(1,3,4,5,7)]
    have "holds (sk\<lparr>sk_closed := True\<rparr>, fs2) (concat bs)" using sk(5) by (simp add: holds_def)
    from finalize_holds [OF moved(1) this] sk(4)
    have m: "fm_meta (sk_meta (fst y)) = \<lparr>sm_ID = ?i, sm_Index = index, sm_Term = trm, sm_Peers = peers, sm_Size = int (length (concat bs))\<rparr>" by auto
    have older: "\<forall>x \<in> set (rev (snaps J fs2)). snap_key x < snap_key (sk_meta (fst y))"
    proof (rule ballI, rule all_older [OF ok2])
      show "x \<in> set (snaps J fs2)" if "x \<in> set (rev (snaps J fs2))" for x using that by simp
      show "snap_key z < snap_key (sk_meta (fst y))" if "z \<in> set (take (fs_retain fs2) (snaps J fs2))" for z
        using that assms(7) m by (simp add: xs sn2 f2(2) snap_key_def)
    qed
    then have "snaps J fs4 = sk_meta (fst y) # snaps J fs" using res(5) f2(3) assms(4) by (simp add: insort_greatest [OF older, unfolded sn2] sn2)
    then have "take ?k (snaps J fs3) = take ?k (sk_meta (fst y) # take ?k (snaps J fs))" using res(6) by (simp add: f2(2) take_Cons')
    then have "map fm_meta (take ?k (snaps J fs3)) = take ?k (fm_meta (sk_meta (fst y)) # xs)" by (simp only: xs take_map [symmetric] list.map)
    then show ?thesis using List_snaps [OF res(2)] res(8,9) f2(2,3) assms(4) m by simp
  qed
  then show ?thesis using c(1) w(1) cl by blast
qed

text \<open>
  Creating a sink, writing to it and cancelling it keep the store consistent and change neither the list of snapshots nor what any of
  them contains, whatever fails: the work happens in a directory that is not listed.
\<close>

theorem unfinished_snapshots_are_invisible:
  assumes "snap_inv J fs"
  shows "\<forall>fs' \<in> {fst (Create J fs index trm peers), fst (Sink_Write fs i b), Sink_Cancel crc fs i}.
    snap_inv J fs' \<and> List_snapshots J fs' = List_snapshots J fs \<and>
    (\<forall>n. \<not> HasSuffix n tmpSuffix \<longrightarrow> Open_snapshot J crc fs' n = Open_snapshot J crc fs n)"
proof
  fix fs' assume "fs' \<in> {fst (Create J fs index trm peers), fst (Sink_Write fs i b), Sink_Cancel crc fs i}"
  then consider (create) "fs' = fst (Create J fs index trm peers)" | (wrote) "fs' = fst (Sink_Write fs i b)" | (cancelled) "fs' = Sink_Cancel crc fs i"
    by blast
  moreover have sinks: "sinks_ok fs" and ok: "store_ok J fs" using assms by (simp_all add: snap_inv_def)
  ultimately have "\<exists>j. only {j @ tmpSuffix} fs fs' \<and> sinks_ok fs'"
  proof cases
    case create
    then show ?thesis using Create_result [of J fs index trm peers fs', OF _ sinks] by (metis prod.collapse)
  next
    case wrote
    then show ?thesis using Sink_Write_result [of fs i b fs', OF _ sinks] by (metis prod.collapse)
  next
    case cancelled
    then show ?thesis using Sink_Cancel_result [OF sinks] by blast
  qed
  then obtain j where o: "only {j @ tmpSuffix} fs fs' \<and> sinks_ok fs'" by blast
  have inv: "snap_inv J fs'" "snaps J fs' = snaps J fs" using tmp_snap_inv [OF assms o] by blast+
  then have ok': "store_ok J fs'" by (simp add: snap_inv_def)
  have "List_snapshots J fs' = List_snapshots J fs"
    using o by (simp add: List_snaps [OF ok] List_snaps [OF ok'] inv(2) only_def)
  moreover have "Open_snapshot J crc fs' n = Open_snapshot J crc fs n" if "\<not> HasSuffix n tmpSuffix" for n
    using Open_cong [OF tmp_readMeta(1) [OF conjunct1 [OF o] that]] o by (simp add: only_def)
  ultimately show "snap_inv J fs' \<and> List_snapshots J fs' = List_snapshots J fs \<and>
    (\<forall>n. \<not> HasSuffix n tmpSuffix \<longrightarrow> Open_snapshot J crc fs' n = Open_snapshot J crc fs n)" using inv(1) by blast
qed

section \<open>An example\<close>

text \<open>A notation for the metadata that can be read back: strings with every character marked, numbers in decimal.\<close>

fun enc_str :: "string \<Rightarrow> string" where
  "enc_str [] = ''.''"
| "enc_str (c # s) = CHR ''x'' # c # enc_str s"

fun dec_str :: "string \<Rightarrow> (string \<times> string) option" where
  "dec_str (a # c # r) = (if a = CHR ''x'' then (case dec_str r of Some (s, q) \<Rightarrow> Some (c # s, q) | None \<Rightarrow> None) else Some ([], c # r))"
| "dec_str [a] = Some ([], [])"
| "dec_str [] = None"

lemma dec_enc_str [simp]: "dec_str (enc_str s @ r) = Some (s, r)"
proof (induction s)
  case Nil
  then show ?case by (cases r) simp_all
qed simp

definition dec_int :: "string \<Rightarrow> int" where
  "dec_int s = (case s of [] \<Rightarrow> 0 | c # r \<Rightarrow> if c = CHR ''-'' then - int (dec_val r) else int (dec_val s))"

lemma dec_int_Itoa [simp]: "dec_int (Itoa n) = n"
proof (cases "n < 0")
  case False
  obtain c r where cr: "digits10 (nat n) = c # r" using digits10_not_Nil by (metis neq_Nil_conv)
  then have "c \<noteq> CHR ''-''" using is_digits_digits10 [of "nat n"] by auto
  then show ?thesis using False cr dec_val_digits10 [of "nat n"] by (simp add: dec_int_def Itoa_def)
qed (simp add: dec_int_def Itoa_def)

definition sample_json :: json_meta where
  "sample_json = \<lparr>
     jm_enc = (\<lambda>m. let s = fm_meta m in enc_str (sm_ID s) @ enc_str (digits10 (unat (sm_Index s))) @ enc_str (digits10 (unat (sm_Term s))) @
       enc_str (sm_Peers s) @ enc_str (Itoa (sm_Size s)) @ (case fm_CRC m of None \<Rightarrow> [] | Some c \<Rightarrow> enc_str c)),
     jm_dec = (\<lambda>b. case dec_str b of None \<Rightarrow> None | Some (i, b1) \<Rightarrow> (case dec_str b1 of None \<Rightarrow> None | Some (x, b2) \<Rightarrow>
       (case dec_str b2 of None \<Rightarrow> None | Some (t, b3) \<Rightarrow> (case dec_str b3 of None \<Rightarrow> None | Some (p, b4) \<Rightarrow>
       (case dec_str b4 of None \<Rightarrow> None | Some (z, b5) \<Rightarrow>
         Some \<lparr>fm_meta = \<lparr>sm_ID = i, sm_Index = of_nat (dec_val x), sm_Term = of_nat (dec_val t), sm_Peers = p, sm_Size = dec_int z\<rparr>,
           fm_CRC = map_option fst (dec_str b5)\<rparr>)))))\<rparr>"

lemma sample_json_roundtrip: "jm_dec sample_json (jm_enc sample_json m) = Some m"
proof (cases "fm_CRC m")
  case None
  then show ?thesis using dec_enc_str [of "Itoa (sm_Size (fm_meta m))" "[]"] by (simp add: sample_json_def Let_def)
next
  case (Some c)
  then show ?thesis using dec_enc_str [of c "[]"] by (simp add: sample_json_def Let_def)
qed

lemma sample_json_ok: "json_ok sample_json"
  by (simp add: json_ok_def sample_json_roundtrip)

text \<open>A disk with one snapshot, on which syncing the snapshot directory after the move fails.\<close>

definition sample_disk :: FileSnapshotStore where
  "sample_disk = \<lparr>fs_dirs = [(''1-3-5'', \<lparr>sd_meta = Some (jm_enc sample_json
       \<lparr>fm_meta = \<lparr>sm_ID = ''1-3-5'', sm_Index = 3, sm_Term = 1, sm_Peers = ''P'', sm_Size = 2\<rparr>, fm_CRC = Some ''ab''\<rparr>), sd_state = Some ''ab''\<rparr>)],
     fs_sinks = [], fs_retain = 2, fs_now = 7000000, fs_calls = 0, fs_faults = (\<lambda>n. if n = 14 then Fails 0 False False else Works),
     fs_unreadable = (\<lambda>_. False)\<rparr>"

definition sample_calm :: FileSnapshotStore where
  "sample_calm = sample_disk\<lparr>fs_faults := \<lambda>_. Works\<rparr>"

definition sample_created :: FileSnapshotStore where
  "sample_created = fst (Create sample_json sample_disk 4 1 ''P'')"

definition sample_written :: FileSnapshotStore where
  "sample_written = fst (write_all sample_created ''1-4-7'' [''ab'', ''c''])"

definition sample_closed :: FileSnapshotStore where
  "sample_closed = fst (Sink_Close sample_json rev sample_written ''1-4-7'')"

lemmas sample_defs = sample_disk_def sample_created_def sample_written_def sample_closed_def

lemma sample_inv: "snap_inv sample_json sample_disk" "snap_inv sample_json sample_calm"
  by (auto simp: snap_inv_def store_ok_def sinks_ok_def meta_at_def sample_disk_def sample_calm_def sample_json_roundtrip split: if_splits)

lemma sample_results:
  "snd (Create sample_json sample_disk 4 1 ''P'') = Inr ''1-4-7''"
  "snd (write_all sample_created ''1-4-7'' [''ab'', ''c'']) = None"
  "snd (Sink_Close sample_json rev sample_written ''1-4-7'') = Some (ErrOther ''sync parent'')"
  "List_snapshots sample_json sample_closed = Inr
    [\<lparr>sm_ID = ''1-4-7'', sm_Index = 4, sm_Term = 1, sm_Peers = ''P'', sm_Size = 3\<rparr>,
     \<lparr>sm_ID = ''1-3-5'', sm_Index = 3, sm_Term = 1, sm_Peers = ''P'', sm_Size = 2\<rparr>]"
  "List_snapshots sample_json sample_written = Inr [\<lparr>sm_ID = ''1-3-5'', sm_Index = 3, sm_Term = 1, sm_Peers = ''P'', sm_Size = 2\<rparr>]"
  by code_simp+

lemma sample_steps:
  "Create sample_json sample_disk 4 1 ''P'' = (sample_created, Inr ''1-4-7'')"
  "write_all sample_created ''1-4-7'' [''ab'', ''c''] = (sample_written, None)"
  "Sink_Close sample_json rev sample_written ''1-4-7'' = (sample_closed, Some (ErrOther ''sync parent''))"
  using sample_results(1-3) by (auto simp: sample_created_def sample_written_def sample_closed_def intro: prod_eqI)

theorem listed_snapshot_is_complete_witness:
  "Open_snapshot sample_json rev sample_closed ''1-4-7'' =
     Inr (\<lparr>sm_ID = ''1-4-7'', sm_Index = 4, sm_Term = 1, sm_Peers = ''P'', sm_Size = 3\<rparr>, ''abc'')"
  using listed_snapshot_is_complete [OF sample_inv(1) sample_json_ok sample_steps(1) _ sample_steps(2,3) sample_results(4) list.set_intros(1)]
  by (simp add: sample_disk_def)

lemma sample_written_inv: "snap_inv sample_json sample_written"
proof -
  have "only {''1-4-7'' @ tmpSuffix} sample_disk sample_created \<and> sinks_ok sample_created"
    using Create_result [OF sample_steps(1)] sample_inv(1) by (auto simp: snap_inv_def sample_disk_def dest: sym)
  then have "snap_inv sample_json sample_created" using tmp_snap_inv [OF sample_inv(1)] by blast
  then show ?thesis using write_all_result [OF sample_steps(2)] by blast
qed

theorem Close_keeps_other_snapshots_witness:
  "Open_snapshot sample_json rev sample_closed ''1-3-5'' = Open_snapshot sample_json rev sample_written ''1-3-5''"
  using Close_keeps_other_snapshots [OF sample_written_inv sample_json_ok sample_steps(3) sample_results(5)] by (simp add: sample_results(4))

lemma sample_calm_list: "List_snapshots sample_json sample_calm = Inr [\<lparr>sm_ID = ''1-3-5'', sm_Index = 3, sm_Term = 1, sm_Peers = ''P'', sm_Size = 2\<rparr>]"
  by code_simp

lemma sample_name: "snapshotName 1 4 (fs_now sample_calm) = ''1-4-7''"
  by code_simp

theorem snapshot_is_taken_witness:
  "\<exists>i fs1 fs2 fs3. Create sample_json sample_calm 4 1 ''P'' = (fs1, Inr i) \<and> write_all fs1 i [''ab'', ''c''] = (fs2, None) \<and>
    Sink_Close sample_json rev fs2 i = (fs3, None) \<and> List_snapshots sample_json fs3 = Inr
      [\<lparr>sm_ID = i, sm_Index = 4, sm_Term = 1, sm_Peers = ''P'', sm_Size = 3\<rparr>,
       \<lparr>sm_ID = ''1-3-5'', sm_Index = 3, sm_Term = 1, sm_Peers = ''P'', sm_Size = 2\<rparr>]"
  using snapshot_is_taken [OF sample_inv(2) sample_json_ok _ _ sample_calm_list, of 1 4 "''P''" "[''ab'', ''c'']" rev] unfolding sample_name
  by (simp add: sample_calm_def sample_disk_def faultless_def)

theorem unfinished_snapshots_are_invisible_witness:
  "List_snapshots sample_json (fst (Create sample_json sample_disk 4 1 ''P'')) = List_snapshots sample_json sample_disk"
  using unfinished_snapshots_are_invisible [OF sample_inv(1)] by blast

section \<open>Installing a leader's snapshot on the files\<close>

lemma file_snapshots_sel:
  "sn_Create (file_snapshots J crc) = Create J" "sn_Write (file_snapshots J crc) = Sink_Write" "sn_Close (file_snapshots J crc) = Sink_Close J crc"
  "sn_Cancel (file_snapshots J crc) = Sink_Cancel crc" "sn_List (file_snapshots J crc) = List_snapshots J"
  "sn_Open (file_snapshots J crc) = Open_snapshot J crc"
  by (simp_all add: file_snapshots_def)

lemma tmp_view:
  assumes "snap_inv J fs" and "only {i @ tmpSuffix} fs fs' \<and> sinks_ok fs'"
  shows "snap_inv J fs' \<and> snap_view (file_snapshots J crc) fs' = snap_view (file_snapshots J crc) fs"
proof -
  have ok: "store_ok J fs" using assms(1) by (simp add: snap_inv_def)
  have inv: "snap_inv J fs'" "snaps J fs' = snaps J fs" using tmp_snap_inv [OF assms] by blast+
  then have ok': "store_ok J fs'" by (simp add: snap_inv_def)
  have l: "List_snapshots J fs' = List_snapshots J fs" using assms(2) by (simp add: List_snaps [OF ok] List_snaps [OF ok'] inv(2) only_def)
  have "Open_snapshot J crc fs' (sm_ID m) = Open_snapshot J crc fs (sm_ID m)" if "List_snapshots J fs = Inr ms" "m \<in> set ms" for ms m
  proof -
    note given = that
    obtain x where "x \<in> set (snaps J fs)" "m = fm_meta x" using given(2) listed_snaps [OF assms(1) given(1)] by (auto dest: in_set_takeD)
    then have "\<not> HasSuffix (sm_ID m) tmpSuffix" using in_snaps [OF ok] by blast
    then show ?thesis using Open_cong [OF tmp_readMeta(1) [OF conjunct1 [OF assms(2)]]] assms(2) by (simp add: only_def)
  qed
  then show ?thesis using inv(1) l by (auto simp: snap_view_def file_snapshots_sel split: sum.splits)
qed

text \<open>The files implement the interface; the law for \<open>Close\<close> is the only one that needs the metadata to be read back.\<close>

definition good_files :: "json_meta \<Rightarrow> FileSnapshotStore \<Rightarrow> bool" where
  "good_files J fs \<longleftrightarrow> snap_inv J fs \<and> json_ok J"

interpretation files: snapshot_store "file_snapshots J crc" "good_files J" for J crc
proof unfold_locales
  fix sn index trm peers i b
  assume ok: "good_files J sn"
  then have inv: "snap_inv J sn" and J: "json_ok J" and sinks: "sinks_ok sn" by (simp_all add: good_files_def snap_inv_def)
  have seen: "good_files J sn' \<and> snap_view (file_snapshots J crc) sn' = snap_view (file_snapshots J crc) sn"
    if "only {j @ tmpSuffix} sn sn' \<and> sinks_ok sn'" for j sn'
    using tmp_view [OF inv that] J unfolding good_files_def by blast
  show "good_files J (fst (sn_Create (file_snapshots J crc) sn index trm peers)) \<and>
      snap_view (file_snapshots J crc) (fst (sn_Create (file_snapshots J crc) sn index trm peers)) = snap_view (file_snapshots J crc) sn"
    unfolding file_snapshots_sel
    by (rule seen) (use Create_result [where J = J and index = index and trm = trm and peers = peers, OF prod.collapse [symmetric] sinks] in blast)
  show "good_files J (fst (sn_Write (file_snapshots J crc) sn i b)) \<and>
      snap_view (file_snapshots J crc) (fst (sn_Write (file_snapshots J crc) sn i b)) = snap_view (file_snapshots J crc) sn"
    unfolding file_snapshots_sel by (rule seen, rule Sink_Write_result [OF prod.collapse [symmetric] sinks])
  show "good_files J (sn_Cancel (file_snapshots J crc) sn i) \<and>
      snap_view (file_snapshots J crc) (sn_Cancel (file_snapshots J crc) sn i) = snap_view (file_snapshots J crc) sn"
    unfolding file_snapshots_sel by (rule seen, rule Sink_Cancel_result [OF sinks])
  show "good_files J (fst (sn_Close (file_snapshots J crc) sn i))"
    unfolding file_snapshots_sel good_files_def using Sink_Close_exchanged [OF inv J prod.collapse [symmetric]] J by blast
qed

text \<open>
  C39: A transfer of a leader's snapshot that breaks off, or that has another size than announced, is not seen. When a node whose snapshots
  are files handles \<open>InstallSnapshot\<close> and the reader fails or gives the wrong number of bytes, the answer is no success, the state
  machine is as before, the snapshots that are listed and what they contain are as before, and the store is consistent, also when
  system calls fail on the way.
\<close>

theorem failed_install_is_unseen:
  assumes "e_snaps E = file_snapshots J crc" and "good_files J (r_snapshots r)"
    and "installSnapshot E F now req data rd_err r t = Ret (r', t', resp, err)" and "rd_err \<noteq> None \<or> int (length data) \<noteq> is_Size req"
  shows "\<not> isr_Success resp \<and> t' = t \<and> good_files J (r_snapshots r') \<and>
    snap_view (file_snapshots J crc) (r_snapshots r') = snap_view (file_snapshots J crc) (r_snapshots r)"
  by (rule files.installSnapshot_unseen [OF assms])

definition sample_env :: "(bunt, bunt, FileSnapshotStore, string list) env" where
  "sample_env = bunt_env (file_snapshots sample_json rev) demo_peerStore demo_wire"

definition sample_node :: "(bunt, bunt, FileSnapshotStore, string list) Raft" where
  "sample_node = \<lparr>r_currentTerm = 1, r_commitIndex = 0, r_lastApplied = 0, r_lastSnapshotIndex = 0,
     r_lastSnapshotTerm = 0, r_lastLogIndex = 0, r_lastLogTerm = 0, r_state = Follower,
     r_conf = DefaultConfig, r_fsmCommitCh = [], r_lastContact = 0, r_leader = [], r_leaderState = None,
     r_localAddr = ''a'', r_logs = demo_bunt, r_peers = [''b'', ''c''], r_peerStore = [''a'', ''b'', ''c''],
     r_shutdown = False, r_snapshots = sample_disk, r_stable = demo_bunt, r_verifies = [], r_verifyCh = [],
     r_answers = [], r_observed = [], r_stopping = [], r_sched = []\<rparr>"

definition sample_fsm :: "(nat, unit, FileSnapshotStore) FSM" where
  "sample_fsm = \<lparr>fsm_Apply = (\<lambda>n l. (n + 1, [])), fsm_Snapshot = (\<lambda>n. Inr ()), fsm_Restore = (\<lambda>n b. (length b, None)),
     fsm_Persist = (\<lambda>p s i. (s, None))\<rparr>"

definition sample_install :: InstallSnapshotRequest where
  "sample_install = \<lparr>is_Term = 1, is_Leader = ''b'', is_LastLogIndex = 4, is_LastLogTerm = 1, is_Peers = ''P'', is_Size = 3\<rparr>"

lemma sample_short: "(case installSnapshot sample_env sample_fsm 0 sample_install ''ab'' None sample_node \<lparr>ft_fsm = 0, ft_lastIndex = 0, ft_lastTerm = 0, ft_responses = []\<rparr> of
    Ret (r', t', resp, err) \<Rightarrow> err = Some (ErrOther ''short read'') | _ \<Rightarrow> False)"
  by code_simp

theorem failed_install_is_unseen_witness:
  "case installSnapshot sample_env sample_fsm 0 sample_install ''ab'' None sample_node \<lparr>ft_fsm = 0, ft_lastIndex = 0, ft_lastTerm = 0, ft_responses = []\<rparr> of
     Ret (r', t', resp, err) \<Rightarrow> \<not> isr_Success resp \<and> err \<noteq> None \<and>
       snap_view (file_snapshots sample_json rev) (r_snapshots r') = snap_view (file_snapshots sample_json rev) sample_disk
   | _ \<Rightarrow> False"
proof -
  obtain r' t' resp err where run: "installSnapshot sample_env sample_fsm 0 sample_install ''ab'' None sample_node \<lparr>ft_fsm = 0, ft_lastIndex = 0, ft_lastTerm = 0, ft_responses = []\<rparr> =
      Ret (r', t', resp, err)" "err = Some (ErrOther ''short read'')"
    using sample_short by (auto split: outcome.splits)
  then show ?thesis using failed_install_is_unseen [OF _ _ run(1), of sample_json rev] sample_inv(1) sample_json_ok
    by (simp add: sample_env_def sample_node_def sample_install_def good_files_def)
qed

end
