(* ===== verification/Request_Context.thy ===== *)
theory Request_Context
  imports Mapping_Module
begin

text \<open>
  The context of a request (\<open>context.go\<close>): what the functions of the application see and change, the chain of
  functions with its index, the signature in the session, and the checks of arguments, sign-ins and entities that a route asks
  for. The session store, the databases and the functions of the application are arguments.
\<close>

section \<open>Contexts\<close>

datatype mod_kind = planMode | eventMode | queueMode | socketMode

text \<open>
  The functions that can be in a chain: one of the application, by its number, or a method of the module of the context.
\<close>

datatype Funcing = User nat | m_request | m_execute | m_body | m_foundDefault | m_errorDefault | m_failedDefault | m_deniedDefault

datatype body = noBody | finishBody | delayBody int | otherBody nat

text \<open>
  The fields that code outside the framework's package can change, directly or through a method, with the state of the
  world around; \<open>nil\<close> for \<open>Config\<close> and \<open>Item\<close> is \<open>None\<close>. Charset, zone and local values
  play no part here; \<open>Param\<close> and \<open>Query\<close> stay nil outside of the web module.
\<close>

record 'w ctx_data =
  cx_Id :: string
  cx_Name :: string
  cx_Config :: "Map option"
  cx_Lang :: string
  cx_Session :: Map
  cx_Value :: Map
  cx_Args :: Map
  cx_Auth :: Map
  cx_Item :: "Map option"
  cx_Param :: Map
  cx_Query :: Map
  cx_Body :: body
  cx_lastError :: "Error option"
  cx_databases :: "string list"
  cx_world :: 'w

datatype response = Finish | Delay int

text \<open>What an observer can see of a request: the checks of a route begin on some data, the actions of the route begin, the answer to the driver, the databases that are closed.\<close>

datatype 'w ctx_event = Checking "'w ctx_data" | Executing | Sent response | Closed "string list"

record 'w Context =
  cx_nexts :: "Funcing list"
  cx_index :: nat
  cx_mode :: mod_kind
  cx_data :: "'w ctx_data"
  cx_trace :: "'w ctx_event list"

definition clear :: "'w Context \<Rightarrow> 'w Context" where
  "clear ctx = ctx\<lparr>cx_index := 0, cx_nexts := []\<rparr>"

definition add_next :: "Funcing list \<Rightarrow> 'w Context \<Rightarrow> 'w Context" where
  "add_next fs ctx = ctx\<lparr>cx_nexts := cx_nexts ctx @ fs\<rparr>"

text \<open>Reading a key of the configuration, which may be nil.\<close>

definition config_get :: "'w ctx_data \<Rightarrow> string \<Rightarrow> Any" where
  "config_get d key = (case cx_Config d of Some config \<Rightarrow> map_get config key | None \<Rightarrow> VNil)"

definition funcing :: "string \<Rightarrow> 'w ctx_data \<Rightarrow> Funcing list" where
  "funcing key d = map User (funcs_of (config_get d key))"

definition sessional :: "'w ctx_data \<Rightarrow> bool" where
  "sessional d = (if (case cx_Config d of Some config \<Rightarrow> map_of config ''auth'' \<noteq> None | None \<Rightarrow> False) then True
     else (case config_get d ''session'' of VBool b \<Rightarrow> b | _ \<Rightarrow> False))"

section \<open>The signature\<close>

definition signKey :: "string \<Rightarrow> string" where
  "signKey key = ''$.sign.'' @ key"

definition Signed :: "string \<Rightarrow> 'w ctx_data \<Rightarrow> bool" where
  "Signed key d \<longleftrightarrow> map_of (cx_Session d) (signKey key) \<noteq> None"

definition Signin :: "(Any \<Rightarrow> string) \<Rightarrow> string \<Rightarrow> Any \<Rightarrow> Any \<Rightarrow> 'w ctx_data \<Rightarrow> 'w ctx_data" where
  "Signin show key i name d = d\<lparr>cx_Session := AList.update (signKey key)
     (VMap [(''id'', VStr (sprint show i)), (''name'', VStr (sprint show name))]) (cx_Session d)\<rparr>"

definition Signout :: "string \<Rightarrow> 'w ctx_data \<Rightarrow> 'w ctx_data" where
  "Signout key d = d\<lparr>cx_Session := AList.delete (signKey key) (cx_Session d)\<rparr>"

definition sign_field :: "string \<Rightarrow> string \<Rightarrow> 'w ctx_data \<Rightarrow> string" where
  "sign_field field key d = (case map_get (cx_Session d) (signKey key) of
      VMap m \<Rightarrow> (case map_get m field of VStr s \<Rightarrow> s | _ \<Rightarrow> [])
    | _ \<Rightarrow> [])"

definition Signal :: "string \<Rightarrow> 'w ctx_data \<Rightarrow> string" where
  "Signal key d = sign_field ''id'' key d"

definition Signer :: "string \<Rightarrow> 'w ctx_data \<Rightarrow> string" where
  "Signer key d = sign_field ''name'' key d"

section \<open>The application around a request\<close>

text \<open>The calls with which a function of the application goes on in the chain.\<close>

datatype ctx_call = CNext | CFound | CError "Error option" | CFailed "Error option" | CDenied "Error option"

text \<open>
  The registered configuration; which function values are nil; the code of a function, which at each of its points changes the
  data and either returns or makes a call and goes on at another point; the session store, the entities of the databases, which
  databases are connected, and the numbers for requests without an id.
\<close>

record 'w app =
  a_kernel :: coreKernel
  a_mapping :: mapping_env
  a_nil :: "nat \<Rightarrow> bool"
  a_code :: "nat \<Rightarrow> nat \<Rightarrow> 'w ctx_data \<Rightarrow> 'w ctx_data \<times> (ctx_call \<times> nat) option"
  a_Read :: "'w \<Rightarrow> string \<Rightarrow> Error + Map"
  a_Write :: "'w \<Rightarrow> string \<Rightarrow> Map \<Rightarrow> 'w"
  a_Entity :: "'w \<Rightarrow> string \<Rightarrow> string \<Rightarrow> Any \<Rightarrow> Map option"
  a_connected :: "string \<Rightarrow> bool"
  a_Unique :: "'w \<Rightarrow> string \<times> 'w"

definition Erred :: "'w ctx_data \<Rightarrow> Error option \<times> 'w ctx_data" where
  "Erred d = (map_option (\<lambda>e. e\<lparr>er_lang := cx_Lang d\<rparr>) (cx_lastError d), d\<lparr>cx_lastError := None\<rparr>)"

text \<open>\<open>dataBase\<close> with a name: a context opens a database once.\<close>

definition dataBase :: "'w app \<Rightarrow> string \<Rightarrow> 'w ctx_data \<Rightarrow> 'w ctx_data outcome" where
  "dataBase A base d =
     (if base \<in> set (cx_databases d) then Ret d
      else if a_connected A base then Ret (d\<lparr>cx_databases := cx_databases d @ [base]\<rparr>)
      else Panic ''invalid database connection'')"

section \<open>Checks\<close>

text \<open>\<open>strings.Replace(s, old, new, 1)\<close>\<close>

fun replace_first :: "string \<Rightarrow> string \<Rightarrow> string \<Rightarrow> string" where
  "replace_first old new [] = (if old = [] then new else [])"
| "replace_first old new (c # s) = (if HasPrefix (c # s) old then new @ drop (length old) (c # s) else c # replace_first old new s)"

definition argsHandler :: "'w app \<Rightarrow> 'w ctx_data \<Rightarrow> (Error option \<times> 'w ctx_data) outcome" where
  "argsHandler A d =
     (let argn = (case config_get d ''argn'' of VBool b \<Rightarrow> b | _ \<Rightarrow> False)
      in case config_get d ''args'' of
           VMap argsConfig \<Rightarrow> obind (Mapping_Parse (a_mapping A) (a_kernel A) argsConfig (cx_Value d) [] argn False []) (\<lambda>(err, argsValue).
             Ret (case err of
                 Some e \<Rightarrow> (Some (e\<lparr>er_status := replace_first ''.mapping.'' ''.args.'' (er_status e)\<rparr>), d)
               | None \<Rightarrow> (None, d\<lparr>cx_Args := fold (\<lambda>(k, v). AList.update k v) argsValue (cx_Args d)\<rparr>)))
         | _ \<Rightarrow> Ret (None, d))"

text \<open>The database and table of a configuration: \<open>data\<close> with a dot, or \<open>base\<close> and \<open>table\<close>.\<close>

definition text_or_empty :: "Any \<Rightarrow> string" where
  "text_or_empty v = (case v of VStr s \<Rightarrow> s | _ \<Rightarrow> [])"

definition data_table :: "Map \<Rightarrow> (string \<times> string) outcome" where
  "data_table config =
     (if map_get config ''data'' \<noteq> VNil
      then (case map_get config ''data'' of
          VStr vv \<Rightarrow> (case index_char (CHR ''.'') vv of Some i \<Rightarrow> Ret (take i vv, drop (i + 1) vv) | None \<Rightarrow> Panic ''slice bounds out of range'')
        | _ \<Rightarrow> Ret ([], []))
      else if map_get config ''base'' \<noteq> VNil \<and> map_get config ''table'' \<noteq> VNil
      then Ret (text_or_empty (map_get config ''base''), text_or_empty (map_get config ''table''))
      else Ret ([], []))"

definition check_error :: "string \<Rightarrow> string \<Rightarrow> string \<Rightarrow> Map \<Rightarrow> Error" where
  "check_error key status name config = (case map_get config key of
      VError e \<Rightarrow> e
    | VStr s \<Rightarrow> newError s [name]
    | _ \<Rightarrow> newError status [name])"

text \<open>One sign-in that a route names: an error, or the entity to save if there is one.\<close>

definition auth_one :: "'w app \<Rightarrow> string \<Rightarrow> Map \<Rightarrow> 'w ctx_data \<Rightarrow> ((Error + Any option) \<times> 'w ctx_data) outcome" where
  "auth_one A authKey authConfig d =
     (let authMust = (map_get authConfig ''must'' = VBool True)
      in case map_get authConfig ''sign'' of
           VStr (c # s) \<Rightarrow>
             if Signed (c # s) d
             then obind (data_table authConfig) (\<lambda>(base, table).
                 if base \<noteq> [] \<and> table \<noteq> []
                 then obind (dataBase A base d) (\<lambda>d1. Ret (case a_Entity A (cx_world d1) base table (VStr (Signal (c # s) d1)) of
                     Some item \<Rightarrow> (Inr (Some (VMap item)), d1)
                   | None \<Rightarrow> if authMust then (Inl (check_error ''error'' ''.auth.error'' authKey authConfig), d1) else (Inr None, d1)))
                 else Ret (Inr None, d))
             else Ret (if authMust then (Inl (check_error ''empty'' ''.auth.empty'' authKey authConfig), d) else (Inr None, d))
         | _ \<Rightarrow> Ret (Inr None, d))"

fun auth_loop :: "'w app \<Rightarrow> Map \<Rightarrow> Map \<Rightarrow> 'w ctx_data \<Rightarrow> ((Error + Map) \<times> 'w ctx_data) outcome" where
  "auth_loop A [] saved d = Ret (Inr saved, d)"
| "auth_loop A ((authKey, VMap authConfig) # auths) saved d = obind (auth_one A authKey authConfig d) (\<lambda>(r, d1). case r of
      Inl e \<Rightarrow> Ret (Inl e, d1)
    | Inr None \<Rightarrow> auth_loop A auths saved d1
    | Inr (Some item) \<Rightarrow> auth_loop A auths (AList.update authKey item saved) d1)"
| "auth_loop A ((authKey, v) # auths) saved d = auth_loop A auths saved d"

definition authHandler :: "'w app \<Rightarrow> 'w ctx_data \<Rightarrow> (Error option \<times> 'w ctx_data) outcome" where
  "authHandler A d = (case config_get d ''auth'' of
      VMap auths \<Rightarrow> obind (auth_loop A auths [] d) (\<lambda>(r, d1). Ret (case r of
          Inl e \<Rightarrow> (Some e, d1)
        | Inr saved \<Rightarrow> (None, d1\<lparr>cx_Auth := fold (\<lambda>(k, v). AList.update k v) saved (cx_Auth d1)\<rparr>)))
    | _ \<Rightarrow> Ret (None, d))"

text \<open>The value that selects an entity: the first of these keys that the configuration has as a text.\<close>

definition item_value :: "Map \<Rightarrow> 'w ctx_data \<Rightarrow> Any" where
  "item_value config d =
     (case as_string (map_get config ''args'') of Some k \<Rightarrow> map_get (cx_Args d) k | None \<Rightarrow>
     (case as_string (map_get config ''param'') of Some k \<Rightarrow> map_get (cx_Param d) k | None \<Rightarrow>
     (case as_string (map_get config ''query'') of Some k \<Rightarrow> map_get (cx_Query d) k | None \<Rightarrow>
     (case as_string (map_get config ''value'') of Some k \<Rightarrow> map_get (cx_Value d) k | None \<Rightarrow>
     (case as_string (map_get config ''key'') of Some k \<Rightarrow> map_get (cx_Value d) k | None \<Rightarrow> VNil)))))"

definition item_one :: "'w app \<Rightarrow> string \<Rightarrow> Map \<Rightarrow> 'w ctx_data \<Rightarrow> ((Error + Any option) \<times> 'w ctx_data) outcome" where
  "item_one A itemKey config d =
     (let must = (map_get config ''must'' \<noteq> VBool False);
          itemName = (case map_get config ''name'' of VStr (c # s) \<Rightarrow> c # s | _ \<Rightarrow> itemKey);
          realVal = item_value config d
      in if realVal = VNil \<and> must then Ret (Inl (check_error ''empty'' ''.item.empty'' itemName config), d)
         else obind (data_table config) (\<lambda>(base, table).
           if base \<noteq> [] \<and> table \<noteq> []
           then obind (dataBase A base d) (\<lambda>d1.
             let item = a_Entity A (cx_world d1) base table realVal;
                 (erred, d2) = (if must then Erred d1 else (None, d1))
             in Ret (if must \<and> (erred \<noteq> None \<or> item = None)
                     then (Inl (check_error ''error'' ''.item.error'' itemName config), d2)
                     else (Inr (Some (VMap (case item of Some m \<Rightarrow> m | None \<Rightarrow> []))), d2)))
           else Ret (Inr None, d)))"

fun item_loop :: "'w app \<Rightarrow> Map \<Rightarrow> Map \<Rightarrow> 'w ctx_data \<Rightarrow> ((Error + Map) \<times> 'w ctx_data) outcome" where
  "item_loop A [] saved d = Ret (Inr saved, d)"
| "item_loop A ((itemKey, VMap config) # items) saved d = obind (item_one A itemKey config d) (\<lambda>(r, d1). case r of
      Inl e \<Rightarrow> Ret (Inl e, d1)
    | Inr None \<Rightarrow> item_loop A items saved d1
    | Inr (Some item) \<Rightarrow> item_loop A items (AList.update itemKey item saved) d1)"
| "item_loop A ((itemKey, v) # items) saved d = item_loop A items saved d"

text \<open>Writing an entity into a nil map panics.\<close>

definition itemHandler :: "'w app \<Rightarrow> 'w ctx_data \<Rightarrow> (Error option \<times> 'w ctx_data) outcome" where
  "itemHandler A d = (case config_get d ''item'' of
      VMap cfg \<Rightarrow> obind (item_loop A cfg [] d) (\<lambda>(r, d1). case r of
          Inl e \<Rightarrow> Ret (Some e, d1)
        | Inr saved \<Rightarrow>
            if saved = [] then Ret (None, d1)
            else (case cx_Item d1 of
                None \<Rightarrow> Panic ''assignment to entry in nil map''
              | Some items \<Rightarrow> Ret (None, d1\<lparr>cx_Item := Some (fold (\<lambda>(k, v). AList.update k v) saved items)\<rparr>)))
    | _ \<Rightarrow> Ret (None, d))"

section \<open>New contexts\<close>

text \<open>A request as a driver hands it over.\<close>

record request =
  rq_Id :: string
  rq_Name :: string
  rq_Value :: Map

definition new_data :: "request \<Rightarrow> Map option \<Rightarrow> 'w \<Rightarrow> 'w ctx_data" where
  "new_data req item w = \<lparr>cx_Id = rq_Id req, cx_Name = rq_Name req, cx_Config = None, cx_Lang = DEFAULT, cx_Session = [],
     cx_Value = rq_Value req, cx_Args = [], cx_Auth = [], cx_Item = item, cx_Param = [], cx_Query = [], cx_Body = noBody,
     cx_lastError = None, cx_databases = [], cx_world = w\<rparr>"

definition new_context :: "mod_kind \<Rightarrow> 'w ctx_data \<Rightarrow> 'w Context" where
  "new_context m d = \<lparr>cx_nexts = [], cx_index = 0, cx_mode = m, cx_data = d, cx_trace = []\<rparr>"

definition newPlanContext :: "request \<Rightarrow> 'w \<Rightarrow> 'w Context" where
  "newPlanContext req w = new_context planMode (new_data req (Some []) w)"

definition newEventContext :: "request \<Rightarrow> 'w \<Rightarrow> 'w Context" where
  "newEventContext req w = new_context eventMode (new_data req (Some []) w)"

definition newQueueContext :: "request \<Rightarrow> 'w \<Rightarrow> 'w Context" where
  "newQueueContext req w = new_context queueMode (new_data req (Some []) w)"

text \<open>
  A socket message is decoded by \<open>encoding/json\<close>, an argument with \<open>None\<close> for an error; \<open>type\<close> goes before \<open>name\<close>. The map
  \<open>Item\<close> is not made.
\<close>

definition newSocketContext :: "(string \<Rightarrow> Map option) \<Rightarrow> string \<Rightarrow> string \<Rightarrow> 'w \<Rightarrow> 'w Context" where
  "newSocketContext json i message w =
     (let mmm = (case json message of Some m \<Rightarrow> m | None \<Rightarrow> []);
          name = (case as_string (map_get mmm ''type'') of Some s \<Rightarrow> s | None \<Rightarrow> text_or_empty (map_get mmm ''name''));
          val = (case map_get mmm ''data'' of VMap m \<Rightarrow> m | _ \<Rightarrow> [])
      in new_context socketMode (new_data \<lparr>rq_Id = i, rq_Name = name, rq_Value = val\<rparr> None w))"

section \<open>The checks return or panic\<close>

named_theorems no_diverge

lemma obind_Diverge [no_diverge]: "obind m f = Diverge \<longleftrightarrow> m = Diverge \<or> (\<exists>x. m = Ret x \<and> f x = Diverge)"
  by (cases m) auto

lemma at_current_no_diverge [no_diverge]: "at_current b \<noteq> Diverge"
  by (simp add: at_current_def)

lemma kernel_chunk_no_diverge [no_diverge]: "kernel_chunk branch block k \<noteq> Diverge"
  by (simp add: kernel_chunk_def no_diverge split: option.splits)

lemma chunkdata_no_diverge [no_diverge]: "chunkdata branch block k \<noteq> Diverge"
  by (simp add: chunkdata_def no_diverge)

lemma block_chunk_no_diverge [no_diverge]: "block_chunk b \<noteq> Diverge"
  by (simp add: block_chunk_def no_diverge)

lemma chunks_loop_no_diverge [no_diverge]: "chunks_loop branch prefixs bs \<noteq> Diverge"
  by (induction bs) (simp_all add: Let_def no_diverge)

lemma funcings_loop_no_diverge [no_diverge]: "funcings_loop key cs \<noteq> Diverge"
  by (induction key cs rule: funcings_loop.induct) (simp_all add: no_diverge)

lemma funcings_no_diverge [no_diverge]: "funcings branch key prefixs k \<noteq> Diverge"
  by (simp add: funcings_def kernel_chunks_def no_diverge)

lemma match_any_no_diverge [no_diverge]: "match_any re v ss \<noteq> Diverge"
  by (induction ss) (simp_all split: option.splits bool.splits)

lemma checking_no_diverge [no_diverge]: "RegularMatch re v regular k \<noteq> Diverge" "registered_func branch key kind name k \<noteq> Diverge"
  by (simp_all add: RegularMatch_def RegularExpress_def registered_func_def no_diverge)

lemma mapping_no_diverge [no_diverge]: "typeValid name k \<noteq> Diverge" "typeValue name k \<noteq> Diverge" "cryptoEncode name k \<noteq> Diverge"
  "cryptoDecode name k \<noteq> Diverge"
  by (simp_all add: typeValid_def typeValue_def cryptoEncode_def cryptoDecode_def no_diverge)

lemma run_valid_no_diverge [no_diverge]: "run_valid env k f v config \<noteq> Diverge"
  by (simp add: run_valid_def typeDefaultValid_def no_diverge split: option.splits)

lemma field_parts_no_diverge [no_diverge]: "default_value env k c v \<noteq> Diverge" "encode_value env k c v d p \<noteq> Diverge"
  by (simp_all add: default_value_def encode_value_def no_diverge Let_def split: option.splits)

lemma decode_value_no_diverge [no_diverge]: "decode_value env k c v \<noteq> Diverge"
  by (simp add: decode_value_def no_diverge Let_def split: Any.split list.split)

lemma checked_value_no_diverge [no_diverge]: "checked_value env k zone pass name c v d \<noteq> Diverge"
  by (simp add: checked_value_def no_diverge split: Any.split list.split)

lemma field_value_no_diverge [no_diverge]: "field_value env k zone argn pass data name c \<noteq> Diverge"
  by (simp add: field_value_def Let_def no_diverge split: prod.split)

lemma Parse_loop_no_diverge:
  "Parse_loop env k zone argn pass data config value \<noteq> Diverge" and "parse_records env k argn pass c ds \<noteq> Diverge"
  by (induction env k zone argn pass data config "value" and env k argn pass c ds rule: Parse_loop_parse_records.induct)
    (auto simp: no_diverge split: option.splits field_result.splits sum.splits)

lemma argsHandler_no_diverge [no_diverge]: "argsHandler A d \<noteq> Diverge"
  by (simp add: argsHandler_def Let_def Mapping_Parse_def Parse_loop_no_diverge no_diverge split: Any.split prod.split)

lemma data_table_no_diverge [no_diverge]: "data_table config \<noteq> Diverge"
  by (simp add: data_table_def split: Any.split option.split)

lemma dataBase_no_diverge [no_diverge]: "dataBase A base d \<noteq> Diverge"
  by (simp add: dataBase_def)

lemma auth_one_no_diverge [no_diverge]: "auth_one A key config d \<noteq> Diverge"
  by (simp add: auth_one_def Let_def no_diverge split: Any.split list.split prod.split)

lemma auth_loop_no_diverge [no_diverge]: "auth_loop A auths saved d \<noteq> Diverge"
  by (induction A auths saved d rule: auth_loop.induct) (auto simp: no_diverge split: sum.splits option.splits)

lemma item_one_no_diverge [no_diverge]: "item_one A key config d \<noteq> Diverge"
  by (simp add: item_one_def Let_def no_diverge split: prod.split)

lemma item_loop_no_diverge [no_diverge]: "item_loop A items saved d \<noteq> Diverge"
  by (induction A items saved d rule: item_loop.induct) (auto simp: no_diverge split: sum.splits option.splits)

lemma authHandler_no_diverge [no_diverge]: "authHandler A d \<noteq> Diverge"
  by (simp add: authHandler_def no_diverge split: Any.split prod.split)

lemma itemHandler_no_diverge [no_diverge]: "itemHandler A d \<noteq> Diverge"
  by (simp add: itemHandler_def no_diverge split: Any.split prod.split sum.split option.split)

end
