(* ===== verification/Request_Pipeline.thy ===== *)
theory Request_Pipeline
  imports Request_Context Raft_Node
begin

text \<open>
  How the modules for plans, events, queues and sockets serve a request (\<open>plan.go\<close>, \<open>event.go\<close>, \<open>queue.go\<close>,
  \<open>socket.go\<close>): filters before the request, its checks, filters and actions, filters before the answer, and the handlers for
  routes that are missing, denied or failing, all in one chain that each function continues with \<open>Next\<close>. The functions of the
  application are arbitrary: they may continue the chain never, once or often, and may call for any of the handlers.
\<close>

section \<open>Preparing the chain\<close>

text \<open>The functions of the route, then the registered handlers, then the default of the module.\<close>

definition handler_chain :: "string \<Rightarrow> string \<Rightarrow> Funcing \<Rightarrow> 'w app \<Rightarrow> 'w Context \<Rightarrow> 'w Context outcome" where
  "handler_chain branch key dflt A ctx = obind (funcings branch key [] (a_kernel A)) (\<lambda>hs.
     Ret (add_next [dflt] (add_next (map User hs) (add_next (funcing key (cx_data ctx)) (clear ctx)))))"

definition trace_event :: "'w ctx_event \<Rightarrow> 'w Context \<Rightarrow> 'w Context" where
  "trace_event e ctx = ctx\<lparr>cx_trace := cx_trace ctx @ [e]\<rparr>"

definition execute_chain :: "string \<Rightarrow> 'w app \<Rightarrow> 'w Context \<Rightarrow> 'w Context outcome" where
  "execute_chain branch A ctx = obind (funcings branch ''execute'' [] (a_kernel A)) (\<lambda>fs.
     Ret (add_next (funcing ''action'' (cx_data ctx)) (add_next (map User fs) (clear (trace_event Executing ctx)))))"

text \<open>The start of a request: its id and its session.\<close>

definition open_request :: "'w app \<Rightarrow> 'w ctx_data \<Rightarrow> 'w ctx_data" where
  "open_request A d =
     (let d1 = (if cx_Id d = [] then (case a_Unique A (cx_world d) of (i, w) \<Rightarrow> d\<lparr>cx_Id := i, cx_world := w\<rparr>) else d)
      in if sessional d1
         then (case a_Read A (cx_world d1) (cx_Id d1) of
             Inr mmm \<Rightarrow> d1\<lparr>cx_Session := fold (\<lambda>(k, v). AList.update k v) mmm (cx_Session d1)\<rparr>
           | Inl eee \<Rightarrow> d1)
         else d1)"

text \<open>The end of a request: the session is written back, and the chain for the answer replaces what is left of the old one.\<close>

definition save_session :: "'w app \<Rightarrow> 'w ctx_data \<Rightarrow> 'w ctx_data" where
  "save_session A d = (if sessional d then d\<lparr>cx_world := a_Write A (cx_world d) (cx_Id d) (cx_Session d)\<rparr> else d)"

definition response_chain :: "string \<Rightarrow> 'w app \<Rightarrow> 'w Context \<Rightarrow> 'w Context outcome" where
  "response_chain branch A ctx = obind (funcings branch ''response'' [] (a_kernel A)) (\<lambda>fs.
     Ret (add_next [m_body] (add_next (map User fs) (clear (ctx\<lparr>cx_data := save_session A (cx_data ctx)\<rparr>)))))"

text \<open>What the checks of a request come to.\<close>

datatype verdict = Proceed | NotFound | Fail Error | Deny Error

definition missing :: "'w ctx_data \<Rightarrow> bool" where
  "missing d \<longleftrightarrow> cx_Name d = [] \<or> cx_Config d = None"

definition after_auth :: "'w app \<Rightarrow> 'w ctx_data \<Rightarrow> (verdict \<times> 'w ctx_data) outcome" where
  "after_auth A d = obind (authHandler A d) (\<lambda>(err, d1). case err of
      Some e \<Rightarrow> Ret (Deny e, d1)
    | None \<Rightarrow> obind (itemHandler A d1) (\<lambda>(err, d2). Ret (case err of Some e \<Rightarrow> (Fail e, d2) | None \<Rightarrow> (Proceed, d2))))"

definition args_and_auth :: "'w app \<Rightarrow> 'w ctx_data \<Rightarrow> (verdict \<times> 'w ctx_data) outcome" where
  "args_and_auth A d =
     (if missing d then Ret (NotFound, d)
      else obind (argsHandler A d) (\<lambda>(err, d1). case err of Some e \<Rightarrow> Ret (Fail e, d1) | None \<Rightarrow> after_auth A d1))"

definition auth_only :: "'w app \<Rightarrow> 'w ctx_data \<Rightarrow> (verdict \<times> 'w ctx_data) outcome" where
  "auth_only A d = (if missing d then Ret (NotFound, d) else after_auth A d)"

definition answer_of :: "body \<Rightarrow> response" where
  "answer_of b = (case b of delayBody t \<Rightarrow> Delay t | _ \<Rightarrow> Finish)"

text \<open>The databases of the context are closed; the caches and files that functions of the application open are not modelled.\<close>

definition final :: "'w Context \<Rightarrow> 'w Context" where
  "final ctx = trace_event (Closed (cx_databases (cx_data ctx))) ctx"

definition answer_and_close :: "'w Context \<Rightarrow> 'w Context" where
  "answer_and_close ctx = final (trace_event (Sent (answer_of (cx_Body (cx_data ctx)))) ctx)"

definition ctx_Finish :: "'w Context \<Rightarrow> 'w Context" where
  "ctx_Finish ctx = ctx\<lparr>cx_data := (cx_data ctx)\<lparr>cx_Body := finishBody\<rparr>\<rparr>"

section \<open>The modules\<close>

text \<open>\<open>plan.go\<close>\<close>

definition plan_found :: "'w app \<Rightarrow> 'w Context \<Rightarrow> 'w Context outcome" where
  "plan_found = handler_chain ''plan.handler'' ''found'' m_foundDefault"

definition plan_error :: "'w app \<Rightarrow> 'w Context \<Rightarrow> 'w Context outcome" where
  "plan_error = handler_chain ''plan.handler'' ''error'' m_errorDefault"

definition plan_failed :: "'w app \<Rightarrow> 'w Context \<Rightarrow> 'w Context outcome" where
  "plan_failed = handler_chain ''plan.handler'' ''failed'' m_failedDefault"

definition plan_denied :: "'w app \<Rightarrow> 'w Context \<Rightarrow> 'w Context outcome" where
  "plan_denied = handler_chain ''plan.handler'' ''denied'' m_deniedDefault"

definition plan_execute :: "'w app \<Rightarrow> 'w Context \<Rightarrow> 'w Context outcome" where
  "plan_execute = execute_chain ''plan.filter''"

definition plan_check :: "'w app \<Rightarrow> 'w ctx_data \<Rightarrow> (verdict \<times> 'w ctx_data) outcome" where
  "plan_check A d = args_and_auth A (open_request A d)"

definition plan_respond :: "'w app \<Rightarrow> 'w Context \<Rightarrow> 'w Context outcome" where
  "plan_respond = response_chain ''plan.filter''"

definition plan_body :: "'w Context \<Rightarrow> 'w Context" where
  "plan_body = answer_and_close"

text \<open>\<open>event.go\<close>\<close>

definition event_found :: "'w app \<Rightarrow> 'w Context \<Rightarrow> 'w Context outcome" where
  "event_found = handler_chain ''event.handler'' ''found'' m_foundDefault"

definition event_error :: "'w app \<Rightarrow> 'w Context \<Rightarrow> 'w Context outcome" where
  "event_error = handler_chain ''event.handler'' ''error'' m_errorDefault"

definition event_failed :: "'w app \<Rightarrow> 'w Context \<Rightarrow> 'w Context outcome" where
  "event_failed = handler_chain ''event.handler'' ''failed'' m_failedDefault"

definition event_denied :: "'w app \<Rightarrow> 'w Context \<Rightarrow> 'w Context outcome" where
  "event_denied = handler_chain ''event.handler'' ''denied'' m_deniedDefault"

definition event_execute :: "'w app \<Rightarrow> 'w Context \<Rightarrow> 'w Context outcome" where
  "event_execute = execute_chain ''event.filter''"

definition event_check :: "'w app \<Rightarrow> 'w ctx_data \<Rightarrow> (verdict \<times> 'w ctx_data) outcome" where
  "event_check A d = args_and_auth A (open_request A d)"

definition event_respond :: "'w app \<Rightarrow> 'w Context \<Rightarrow> 'w Context outcome" where
  "event_respond = response_chain ''event.filter''"

definition event_body :: "'w Context \<Rightarrow> 'w Context" where
  "event_body = answer_and_close"

text \<open>\<open>queue.go\<close>\<close>

definition queue_found :: "'w app \<Rightarrow> 'w Context \<Rightarrow> 'w Context outcome" where
  "queue_found = handler_chain ''queue.handler'' ''found'' m_foundDefault"

definition queue_error :: "'w app \<Rightarrow> 'w Context \<Rightarrow> 'w Context outcome" where
  "queue_error = handler_chain ''queue.handler'' ''error'' m_errorDefault"

definition queue_failed :: "'w app \<Rightarrow> 'w Context \<Rightarrow> 'w Context outcome" where
  "queue_failed = handler_chain ''queue.handler'' ''failed'' m_failedDefault"

definition queue_denied :: "'w app \<Rightarrow> 'w Context \<Rightarrow> 'w Context outcome" where
  "queue_denied = handler_chain ''queue.handler'' ''denied'' m_deniedDefault"

definition queue_execute :: "'w app \<Rightarrow> 'w Context \<Rightarrow> 'w Context outcome" where
  "queue_execute = execute_chain ''queue.filter''"

definition queue_check :: "'w app \<Rightarrow> 'w ctx_data \<Rightarrow> (verdict \<times> 'w ctx_data) outcome" where
  "queue_check A d = args_and_auth A (open_request A d)"

definition queue_respond :: "'w app \<Rightarrow> 'w Context \<Rightarrow> 'w Context outcome" where
  "queue_respond = response_chain ''queue.filter''"

definition queue_body :: "'w Context \<Rightarrow> 'w Context" where
  "queue_body = answer_and_close"

text \<open>\<open>socket.go\<close>\<close>

definition socket_found :: "'w app \<Rightarrow> 'w Context \<Rightarrow> 'w Context outcome" where
  "socket_found = handler_chain ''socket.handler'' ''found'' m_foundDefault"

definition socket_error :: "'w app \<Rightarrow> 'w Context \<Rightarrow> 'w Context outcome" where
  "socket_error = handler_chain ''socket.handler'' ''error'' m_errorDefault"

definition socket_failed :: "'w app \<Rightarrow> 'w Context \<Rightarrow> 'w Context outcome" where
  "socket_failed = handler_chain ''socket.handler'' ''failed'' m_failedDefault"

definition socket_denied :: "'w app \<Rightarrow> 'w Context \<Rightarrow> 'w Context outcome" where
  "socket_denied = handler_chain ''socket.handler'' ''denied'' m_deniedDefault"

definition socket_execute :: "'w app \<Rightarrow> 'w Context \<Rightarrow> 'w Context outcome" where
  "socket_execute = execute_chain ''socket.filter''"

definition socket_check :: "'w app \<Rightarrow> 'w ctx_data \<Rightarrow> (verdict \<times> 'w ctx_data) outcome" where
  "socket_check A d = auth_only A (open_request A d)"

definition socket_respond :: "'w app \<Rightarrow> 'w Context \<Rightarrow> 'w Context outcome" where
  "socket_respond = response_chain ''socket.filter''"

definition socket_body :: "'w Context \<Rightarrow> 'w Context" where
  "socket_body = answer_and_close"

section \<open>Dispatch on the mode\<close>

definition module_found :: "'w app \<Rightarrow> 'w Context \<Rightarrow> 'w Context outcome" where
  "module_found A ctx = (case cx_mode ctx of planMode \<Rightarrow> plan_found A ctx | eventMode \<Rightarrow> event_found A ctx | queueMode \<Rightarrow> queue_found A ctx | socketMode \<Rightarrow> socket_found A ctx)"

definition module_error :: "'w app \<Rightarrow> 'w Context \<Rightarrow> 'w Context outcome" where
  "module_error A ctx = (case cx_mode ctx of planMode \<Rightarrow> plan_error A ctx | eventMode \<Rightarrow> event_error A ctx | queueMode \<Rightarrow> queue_error A ctx | socketMode \<Rightarrow> socket_error A ctx)"

definition module_failed :: "'w app \<Rightarrow> 'w Context \<Rightarrow> 'w Context outcome" where
  "module_failed A ctx = (case cx_mode ctx of planMode \<Rightarrow> plan_failed A ctx | eventMode \<Rightarrow> event_failed A ctx | queueMode \<Rightarrow> queue_failed A ctx | socketMode \<Rightarrow> socket_failed A ctx)"

definition module_denied :: "'w app \<Rightarrow> 'w Context \<Rightarrow> 'w Context outcome" where
  "module_denied A ctx = (case cx_mode ctx of planMode \<Rightarrow> plan_denied A ctx | eventMode \<Rightarrow> event_denied A ctx | queueMode \<Rightarrow> queue_denied A ctx | socketMode \<Rightarrow> socket_denied A ctx)"

definition module_execute :: "'w app \<Rightarrow> 'w Context \<Rightarrow> 'w Context outcome" where
  "module_execute A ctx = (case cx_mode ctx of planMode \<Rightarrow> plan_execute A ctx | eventMode \<Rightarrow> event_execute A ctx | queueMode \<Rightarrow> queue_execute A ctx | socketMode \<Rightarrow> socket_execute A ctx)"

definition module_respond :: "'w app \<Rightarrow> 'w Context \<Rightarrow> 'w Context outcome" where
  "module_respond A ctx = (case cx_mode ctx of planMode \<Rightarrow> plan_respond A ctx | eventMode \<Rightarrow> event_respond A ctx | queueMode \<Rightarrow> queue_respond A ctx | socketMode \<Rightarrow> socket_respond A ctx)"

definition module_body :: "'w Context \<Rightarrow> 'w Context" where
  "module_body ctx = (case cx_mode ctx of planMode \<Rightarrow> plan_body ctx | eventMode \<Rightarrow> event_body ctx | queueMode \<Rightarrow> queue_body ctx | socketMode \<Rightarrow> socket_body ctx)"

definition mode_check :: "mod_kind \<Rightarrow> 'w app \<Rightarrow> 'w ctx_data \<Rightarrow> (verdict \<times> 'w ctx_data) outcome" where
  "mode_check m = (case m of planMode \<Rightarrow> plan_check | eventMode \<Rightarrow> event_check | queueMode \<Rightarrow> queue_check | socketMode \<Rightarrow> socket_check)"

definition module_check :: "'w app \<Rightarrow> 'w Context \<Rightarrow> (verdict \<times> 'w Context) outcome" where
  "module_check A ctx = obind (mode_check (cx_mode ctx) A (cx_data ctx)) (\<lambda>(v, d). Ret (v, trace_event (Checking (cx_data ctx)) (ctx\<lparr>cx_data := d\<rparr>)))"

definition set_error :: "Error option \<Rightarrow> 'w Context \<Rightarrow> 'w Context" where
  "set_error e ctx = ctx\<lparr>cx_data := (cx_data ctx)\<lparr>cx_lastError := e\<rparr>\<rparr>"

text \<open>The calls of a context for a handler: in a socket context they only keep the error.\<close>

definition ctx_Found :: "'w app \<Rightarrow> 'w Context \<Rightarrow> 'w Context option outcome" where
  "ctx_Found A ctx = (if cx_mode ctx = socketMode then Ret None else obind (module_found A ctx) (\<lambda>c. Ret (Some c)))"

definition ctx_Error :: "'w app \<Rightarrow> 'w Context \<Rightarrow> 'w Context option outcome" where
  "ctx_Error A ctx = (if cx_mode ctx = socketMode then Ret None else obind (module_error A ctx) (\<lambda>c. Ret (Some c)))"

definition ctx_Failed :: "'w app \<Rightarrow> 'w Context \<Rightarrow> 'w Context option outcome" where
  "ctx_Failed A ctx = (if cx_mode ctx = socketMode then Ret None else obind (module_failed A ctx) (\<lambda>c. Ret (Some c)))"

definition ctx_Denied :: "'w app \<Rightarrow> 'w Context \<Rightarrow> 'w Context option outcome" where
  "ctx_Denied A ctx = (if cx_mode ctx = socketMode then Ret None else obind (module_denied A ctx) (\<lambda>c. Ret (Some c)))"

section \<open>Running the chain\<close>

text \<open>
  The result of a run: \<open>None\<close> when it does not return, otherwise the context or the panic that ended it.
\<close>

type_synonym 'a result = "('a + string) option"

definition rbind :: "'a result \<Rightarrow> ('a \<Rightarrow> 'b result) \<Rightarrow> 'b result" where
  "rbind m f = (case m of None \<Rightarrow> None | Some (Inr p) \<Rightarrow> Some (Inr p) | Some (Inl x) \<Rightarrow> f x)"

definition of_outcome :: "'a outcome \<Rightarrow> 'a result" where
  "of_outcome r = (case r of Ret x \<Rightarrow> Some (Inl x) | Panic m \<Rightarrow> Some (Inr m) | Diverge \<Rightarrow> None)"

lemma rbind_simps [simp]: "rbind None f = None" "rbind (Some (Inr p)) f = Some (Inr p)" "rbind (Some (Inl x)) f = f x"
  by (simp_all add: rbind_def)

lemma rbind_alt: "rbind m f = Option.bind m (\<lambda>r. case r of Inl x \<Rightarrow> f x | Inr p \<Rightarrow> Some (Inr p))"
  by (cases m) (auto simp: rbind_def split: sum.splits)

lemma rbind_mono [partial_function_mono]:
  assumes "mono_option B" and "\<And>y. mono_option (\<lambda>f. C y f)"
  shows "mono_option (\<lambda>f. rbind (B f) (\<lambda>y. C y f))"
  unfolding rbind_alt using assms(1)
proof (rule bind_mono)
  fix y show "mono_option (\<lambda>f. case y of Inl x \<Rightarrow> C x f | Inr p \<Rightarrow> Some (Inr p))"
    by (cases y) (simp_all add: assms(2) option.const_mono)
qed

datatype task = RunNext | Run Funcing nat | RunVerdict verdict | RunCall ctx_call

definition is_nil :: "'w app \<Rightarrow> Funcing \<Rightarrow> bool" where
  "is_nil A f = (case f of User n \<Rightarrow> a_nil A n | _ \<Rightarrow> False)"

abbreviation go_on :: "('a \<Rightarrow> 'a result) \<Rightarrow> 'a \<Rightarrow> 'a option outcome \<Rightarrow> 'a result" where
  "go_on k ctx r \<equiv> rbind (of_outcome r) (\<lambda>c. case c of Some c1 \<Rightarrow> k c1 | None \<Rightarrow> Some (Inl ctx))"

partial_function (option) exec :: "'w app \<Rightarrow> task \<Rightarrow> 'w Context \<Rightarrow> 'w Context result" where
  "exec A t ctx = (case t of
      RunNext \<Rightarrow>
        if cx_index ctx < length (cx_nexts ctx)
        then let f = cx_nexts ctx ! cx_index ctx; ctx1 = ctx\<lparr>cx_index := cx_index ctx + 1\<rparr>
             in if is_nil A f then exec A RunNext ctx1 else exec A (Run f 0) ctx1
        else Some (Inl ctx)
    | Run f p \<Rightarrow> (case f of
        User n \<Rightarrow> (case a_code A n p (cx_data ctx) of (d, k) \<Rightarrow> (case k of
            None \<Rightarrow> Some (Inl (ctx\<lparr>cx_data := d\<rparr>))
          | Some (c, q) \<Rightarrow> rbind (exec A (RunCall c) (ctx\<lparr>cx_data := d\<rparr>)) (exec A (Run (User n) q))))
      | m_request \<Rightarrow> rbind (of_outcome (module_check A ctx)) (\<lambda>(v, ctx1). rbind (exec A (RunVerdict v) ctx1) (\<lambda>ctx2.
          rbind (of_outcome (module_respond A ctx2)) (exec A RunNext)))
      | m_execute \<Rightarrow> rbind (of_outcome (module_execute A ctx)) (exec A RunNext)
      | m_body \<Rightarrow> Some (Inl (module_body ctx))
      | _ \<Rightarrow> Some (Inl (ctx_Finish ctx)))
    | RunVerdict v \<Rightarrow> (case v of
        Proceed \<Rightarrow> exec A RunNext ctx
      | NotFound \<Rightarrow> rbind (of_outcome (module_found A ctx)) (exec A RunNext)
      | Fail e \<Rightarrow> rbind (of_outcome (module_failed A (set_error (Some e) ctx))) (exec A RunNext)
      | Deny e \<Rightarrow> rbind (of_outcome (module_denied A (set_error (Some e) ctx))) (exec A RunNext))
    | RunCall c \<Rightarrow> (case c of
        CNext \<Rightarrow> exec A RunNext ctx
      | CFound \<Rightarrow> go_on (exec A RunNext) ctx (ctx_Found A ctx)
      | CError e \<Rightarrow> go_on (exec A RunNext) (set_error e ctx) (ctx_Error A (set_error e ctx))
      | CFailed e \<Rightarrow> go_on (exec A RunNext) (set_error e ctx) (ctx_Failed A (set_error e ctx))
      | CDenied e \<Rightarrow> go_on (exec A RunNext) (set_error e ctx) (ctx_Denied A (set_error e ctx))))"

section \<open>Serving a request\<close>

text \<open>The route of a request, if it is registered, and the chain it starts with.\<close>

definition start_chain :: "string \<Rightarrow> string \<Rightarrow> 'w app \<Rightarrow> 'w Context \<Rightarrow> 'w Context outcome" where
  "start_chain router fltr A ctx = obind (chunkdata router (cx_Name (cx_data ctx)) (a_kernel A)) (\<lambda>v.
     let ctx1 = (case v of VMap config \<Rightarrow> ctx\<lparr>cx_data := (cx_data ctx)\<lparr>cx_Config := Some config\<rparr>\<rparr> | _ \<Rightarrow> ctx)
     in obind (funcings fltr ''request'' [] (a_kernel A)) (\<lambda>fs. Ret (add_next [m_request, m_execute] (add_next (map User fs) ctx1))))"

definition serve_with :: "string \<Rightarrow> string \<Rightarrow> 'w app \<Rightarrow> 'w Context \<Rightarrow> 'w Context result" where
  "serve_with router fltr A ctx = rbind (of_outcome (start_chain router fltr A ctx)) (exec A RunNext)"

definition event_serve :: "'w app \<Rightarrow> request \<Rightarrow> 'w \<Rightarrow> 'w Context result" where
  "event_serve A req w = serve_with ''event.router'' ''event.filter'' A (newEventContext req w)"

definition queue_serve :: "'w app \<Rightarrow> request \<Rightarrow> 'w \<Rightarrow> 'w Context result" where
  "queue_serve A req w = serve_with ''queue.router'' ''queue.filter'' A (newQueueContext req w)"

definition socket_serve :: "'w app \<Rightarrow> (string \<Rightarrow> Map option) \<Rightarrow> string \<Rightarrow> string \<Rightarrow> 'w \<Rightarrow> 'w Context result" where
  "socket_serve A json i message w = serve_with ''socket.router'' ''socket.filter'' A (newSocketContext json i message w)"

text \<open>
  A plan runs on the leader only, unless it is started by hand: a candidate asks for it again in five seconds, any other node
  counts it as done. The context of these two is the fresh one, which the code does not make.
\<close>

definition plan_serve :: "'w app \<Rightarrow> RaftState \<Rightarrow> bool \<Rightarrow> request \<Rightarrow> 'w \<Rightarrow> 'w Context result" where
  "plan_serve A state manual req w =
     (if \<not> manual \<and> state \<noteq> Leader
      then Some (Inl (trace_event (Sent (if state = Candidate then Delay (5 * 10 ^ 9) else Finish)) (newPlanContext req w)))
      else serve_with ''plan.router'' ''plan.filter'' A (newPlanContext req w))"

section \<open>What the preparations do\<close>

definition is_default :: "Funcing \<Rightarrow> bool" where
  "is_default f \<longleftrightarrow> f \<in> {m_foundDefault, m_errorDefault, m_failedDefault, m_deniedDefault}"

definition chained :: "Funcing list \<Rightarrow> 'w Context \<Rightarrow> 'w Context" where
  "chained fs ctx = ctx\<lparr>cx_index := 0, cx_nexts := fs\<rparr>"

lemma chained_sel [simp]: "cx_index (chained fs c) = 0" "cx_nexts (chained fs c) = fs" "cx_mode (chained fs c) = cx_mode c"
  "cx_data (chained fs c) = cx_data c" "cx_trace (chained fs c) = cx_trace c"
  by (simp_all add: chained_def)

lemma trace_event_sel [simp]: "cx_index (trace_event e c) = cx_index c" "cx_nexts (trace_event e c) = cx_nexts c"
  "cx_mode (trace_event e c) = cx_mode c" "cx_data (trace_event e c) = cx_data c" "cx_trace (trace_event e c) = cx_trace c @ [e]"
  by (simp_all add: trace_event_def)

lemma set_error_sel [simp]: "cx_index (set_error e c) = cx_index c" "cx_nexts (set_error e c) = cx_nexts c"
  "cx_mode (set_error e c) = cx_mode c" "cx_trace (set_error e c) = cx_trace c"
  by (simp_all add: set_error_def)

lemma ctx_Finish_sel [simp]: "cx_index (ctx_Finish c) = cx_index c" "cx_nexts (ctx_Finish c) = cx_nexts c"
  "cx_mode (ctx_Finish c) = cx_mode c" "cx_trace (ctx_Finish c) = cx_trace c"
  by (simp_all add: ctx_Finish_def)

lemma handler_chain_result:
  assumes "handler_chain branch key f A c = Ret c'"
  obtains us where "c' = chained (map User us @ [f]) c"
proof -
  obtain hs where "c' = add_next [f] (add_next (map User hs) (add_next (funcing key (cx_data c)) (clear c)))"
    using assms by (cases "funcings branch key [] (a_kernel A)") (auto simp: handler_chain_def)
  then have "c' = chained (map User (funcs_of (config_get (cx_data c) key) @ hs) @ [f]) c"
    by (simp add: add_next_def clear_def chained_def funcing_def)
  then show thesis by (rule that)
qed

lemmas module_handler_defs =
  module_found_def plan_found_def event_found_def queue_found_def socket_found_def
  module_error_def plan_error_def event_error_def queue_error_def socket_error_def
  module_failed_def plan_failed_def event_failed_def queue_failed_def socket_failed_def
  module_denied_def plan_denied_def event_denied_def queue_denied_def socket_denied_def

lemma module_handlers:
  assumes "module_found A c = Ret c' \<or> module_error A c = Ret c' \<or> module_failed A c = Ret c' \<or> module_denied A c = Ret c'"
  obtains us f where "is_default f" "c' = chained (map User us @ [f]) c"
proof -
  obtain branch key f where h: "handler_chain branch key f A c = Ret c'" "is_default f"
    using assms unfolding module_handler_defs is_default_def by (cases "cx_mode c") auto
  then show thesis using handler_chain_result [OF h(1)] that [OF h(2)] by metis
qed

lemma module_execute_result:
  assumes "module_execute A c = Ret c'"
  obtains us where "c' = chained (map User us) (trace_event Executing c)"
proof -
  obtain branch where "execute_chain branch A c = Ret c'"
    using assms by (cases "cx_mode c") (auto simp: module_execute_def plan_execute_def event_execute_def queue_execute_def socket_execute_def)
  then obtain fs where "c' = add_next (funcing ''action'' (cx_data c)) (add_next (map User fs) (clear (trace_event Executing c)))"
    by (cases "funcings branch ''execute'' [] (a_kernel A)") (auto simp: execute_chain_def)
  then have "c' = chained (map User (fs @ funcs_of (config_get (cx_data c) ''action''))) (trace_event Executing c)"
    by (simp add: add_next_def clear_def chained_def funcing_def)
  then show thesis by (rule that)
qed

definition filter_branch :: "mod_kind \<Rightarrow> string" where
  "filter_branch m = (case m of planMode \<Rightarrow> ''plan.filter'' | eventMode \<Rightarrow> ''event.filter'' | queueMode \<Rightarrow> ''queue.filter'' | socketMode \<Rightarrow> ''socket.filter'')"

lemma module_respond_result:
  assumes "module_respond A c = Ret c'"
  obtains us where "funcings (filter_branch (cx_mode c)) ''response'' [] (a_kernel A) = Ret us"
    "c' = chained (map User us @ [m_body]) (c\<lparr>cx_data := save_session A (cx_data c)\<rparr>)"
proof -
  have "response_chain (filter_branch (cx_mode c)) A c = Ret c'"
    using assms by (cases "cx_mode c") (simp_all add: module_respond_def plan_respond_def event_respond_def queue_respond_def socket_respond_def filter_branch_def)
  then show thesis using that
    by (cases "funcings (filter_branch (cx_mode c)) ''response'' [] (a_kernel A)") (simp_all add: response_chain_def add_next_def clear_def chained_def)
qed

lemma module_check_result:
  assumes "module_check A c = Ret (v, c')"
  obtains d where "mode_check (cx_mode c) A (cx_data c) = Ret (v, d)" "c' = trace_event (Checking (cx_data c)) (c\<lparr>cx_data := d\<rparr>)"
  using assms by (cases "mode_check (cx_mode c) A (cx_data c)") (auto simp: module_check_def)

lemma module_body_eq: "module_body c = final (trace_event (Sent (answer_of (cx_Body (cx_data c)))) c)"
  by (cases "cx_mode c") (simp_all add: module_body_def plan_body_def event_body_def queue_body_def socket_body_def answer_and_close_def)

lemma of_outcome_Some: "of_outcome r = Some (Inl x) \<longleftrightarrow> r = Ret x"
  by (cases r) (simp_all add: of_outcome_def)

lemma rbind_Inl: "rbind m f = Some (Inl y) \<longleftrightarrow> (\<exists>x. m = Some (Inl x) \<and> f x = Some (Inl y))"
  by (auto simp: rbind_def split: option.splits sum.splits)

section \<open>Safety for every application\<close>

definition is_sent :: "'w ctx_event \<Rightarrow> bool" where
  "is_sent e = (case e of Sent _ \<Rightarrow> True | _ \<Rightarrow> False)"

definition is_executing :: "'w ctx_event \<Rightarrow> bool" where
  "is_executing e = (case e of Executing \<Rightarrow> True | _ \<Rightarrow> False)"

lemma is_event_simps [simp]: "is_sent (Sent r)" "\<not> is_sent (Checking d)" "\<not> is_sent Executing" "\<not> is_sent (Closed bs)"
  "is_executing Executing" "\<not> is_executing (Checking d)" "\<not> is_executing (Sent r)" "\<not> is_executing (Closed bs)"
  by (simp_all add: is_sent_def is_executing_def)

abbreviation rest :: "'w Context \<Rightarrow> Funcing list" where
  "rest c \<equiv> drop (cx_index c) (cx_nexts c)"

text \<open>Answers given and still to come, and the same for the actions of the route.\<close>

definition answers_sent :: "'w Context \<Rightarrow> nat" where
  "answers_sent c = length (filter is_sent (cx_trace c)) + length (filter (\<lambda>f. f = m_request \<or> f = m_body) (rest c))"

definition executions :: "'w Context \<Rightarrow> nat" where
  "executions c = length (filter is_executing (cx_trace c)) + length (filter (\<lambda>f. f = m_execute) (rest c))"

definition w_answer :: "task \<Rightarrow> nat" where
  "w_answer t = (case t of Run f p \<Rightarrow> if f = m_request \<or> f = m_body then 1 else 0 | _ \<Rightarrow> 0)"

definition w_execute :: "task \<Rightarrow> nat" where
  "w_execute t = (case t of Run f p \<Rightarrow> if f = m_execute then 1 else 0 | _ \<Rightarrow> 0)"

definition passed :: "'w app \<Rightarrow> 'w Context \<Rightarrow> bool" where
  "passed A c \<longleftrightarrow> (\<exists>d d'. Checking d \<in> set (cx_trace c) \<and> mode_check (cx_mode c) A d = Ret (Proceed, d'))"

text \<open>The actions come after the request in the chain, or the checks have passed.\<close>

definition guarded :: "'w app \<Rightarrow> 'w Context \<Rightarrow> bool" where
  "guarded A c \<longleftrightarrow> passed A c \<or> m_execute \<notin> set (takeWhile (\<lambda>f. f \<noteq> m_request) (rest c))"

definition checked :: "'w app \<Rightarrow> 'w Context \<Rightarrow> bool" where
  "checked A c \<longleftrightarrow> (Executing \<in> set (cx_trace c) \<longrightarrow> passed A c)"

fun pre :: "'w app \<Rightarrow> task \<Rightarrow> 'w Context \<Rightarrow> bool" where
  "pre A RunNext c = guarded A c"
| "pre A (Run f p) c = (if f = m_request then True else if f = m_execute then passed A c else guarded A c)"
| "pre A (RunVerdict v) c = (v = Proceed \<longrightarrow> passed A c)"
| "pre A (RunCall k) c = guarded A c"

definition post :: "'w app \<Rightarrow> task \<Rightarrow> 'w Context \<Rightarrow> 'w Context \<Rightarrow> bool" where
  "post A t c c' \<longleftrightarrow> cx_mode c' = cx_mode c \<and> checked A c' \<and> guarded A c' \<and> answers_sent c' \<le> answers_sent c + w_answer t \<and>
     executions c' \<le> executions c + w_execute t"

lemma guarded_users: "rest c = map User us @ fs \<Longrightarrow> m_execute \<notin> set fs \<Longrightarrow> guarded A c"
  by (auto simp: guarded_def dest: set_takeWhileD)

lemma sound_cong:
  assumes "cx_trace c' = cx_trace c" and "cx_mode c' = cx_mode c"
  shows "passed A c' = passed A c" "checked A c' = checked A c"
  using assms by (simp_all add: passed_def checked_def)

lemma same_chain:
  assumes "cx_trace c' = cx_trace c" and "cx_mode c' = cx_mode c" and "cx_nexts c' = cx_nexts c" and "cx_index c' = cx_index c"
  shows "guarded A c' = guarded A c" "answers_sent c' = answers_sent c" "executions c' = executions c"
  using assms sound_cong [OF assms(1,2)] by (simp_all add: guarded_def answers_sent_def executions_def)

text \<open>A chain that only has functions of the application and perhaps the body, and so needs no guard.\<close>

lemma chained_counts:
  assumes "c' = chained (map User us @ fs) c" and "m_execute \<notin> set fs" and "m_request \<notin> set fs"
  shows "guarded A c'" "answers_sent c' = length (filter is_sent (cx_trace c)) + length (filter (\<lambda>f. f = m_body) fs)"
    "executions c' = length (filter is_executing (cx_trace c))"
proof -
  show "guarded A c'" using assms(1,2) by (intro guarded_users [where us = us and fs = fs]) simp_all
  have "filter (\<lambda>f. f = m_request \<or> f = m_body) fs = filter (\<lambda>f. f = m_body) fs" using assms(3) by (intro filter_cong) auto
  then show "answers_sent c' = length (filter is_sent (cx_trace c)) + length (filter (\<lambda>f. f = m_body) fs)"
    by (simp add: assms(1) answers_sent_def filter_map o_def)
  have "filter (\<lambda>f. f = m_execute) fs = []" using assms(2) by (auto simp: filter_empty_conv)
  then show "executions c' = length (filter is_executing (cx_trace c))" by (simp add: assms(1) executions_def filter_map o_def)
qed

lemma default_not: "is_default f \<Longrightarrow> f \<noteq> m_execute \<and> f \<noteq> m_request \<and> f \<noteq> m_body"
  by (auto simp: is_default_def)

text \<open>Handing over to a handler keeps all that the invariant says.\<close>

lemma handler_sound:
  assumes "module_found A c = Ret c' \<or> module_error A c = Ret c' \<or> module_failed A c = Ret c' \<or> module_denied A c = Ret c'" and "checked A c"
  shows "cx_mode c' = cx_mode c \<and> checked A c' \<and> guarded A c' \<and> answers_sent c' \<le> answers_sent c \<and> executions c' \<le> executions c"
proof -
  obtain us f where f: "is_default f" "c' = chained (map User us @ [f]) c" using module_handlers [OF assms(1)] by blast
  note d = default_not [OF f(1)]
  have "m_execute \<notin> set [f]" "m_request \<notin> set [f]" using d by auto
  note counts = chained_counts [OF f(2) this]
  show ?thesis using counts d f(2) assms(2) sound_cong(2) [of c' c A] by (simp add: answers_sent_def executions_def)
qed

text \<open>One more function taken from the chain.\<close>

lemma take_one:
  assumes "cx_index c < length (cx_nexts c)" and "f = cx_nexts c ! cx_index c" and "c1 = c\<lparr>cx_index := cx_index c + 1\<rparr>" and "guarded A c"
  shows "pre A (Run f 0) c1" "answers_sent c1 + w_answer (Run f 0) = answers_sent c" "executions c1 + w_execute (Run f 0) = executions c"
    "f \<noteq> m_request \<Longrightarrow> guarded A c1"
proof -
  have r: "rest c = f # rest c1" using assms(1-3) by (simp add: Cons_nth_drop_Suc)
  have p: "passed A c1 = passed A c" by (rule sound_cong) (simp_all add: assms(3))
  show g: "guarded A c1" if "f \<noteq> m_request" using assms(4) r p that by (auto simp: guarded_def)
  show "pre A (Run f 0) c1" using assms(4) r p g by (auto simp: guarded_def)
  show "answers_sent c1 + w_answer (Run f 0) = answers_sent c" using r by (simp add: answers_sent_def w_answer_def assms(3))
  show "executions c1 + w_execute (Run f 0) = executions c" using r by (simp add: executions_def w_execute_def assms(3))
qed

lemma post_trans:
  assumes "post A t c1 c'" and "cx_mode c1 = cx_mode c" and "answers_sent c1 + w_answer t \<le> answers_sent c + w_answer u"
    and "executions c1 + w_execute t \<le> executions c + w_execute u"
  shows "post A u c c'"
  using assms by (auto simp: post_def)

definition sound :: "'w app \<Rightarrow> task \<Rightarrow> 'w Context \<Rightarrow> 'w Context + string \<Rightarrow> bool" where
  "sound A t c y \<longleftrightarrow> (\<forall>c'. y = Inl c' \<longrightarrow> pre A t c \<longrightarrow> checked A c \<longrightarrow> post A t c c')"

lemma soundD: "sound A t c (Inl c') \<Longrightarrow> pre A t c \<Longrightarrow> checked A c \<Longrightarrow> post A t c c'"
  by (simp add: sound_def)

lemma post_parts: "post A t c c' \<Longrightarrow> cx_mode c' = cx_mode c \<and> checked A c' \<and> guarded A c'"
  by (simp add: post_def)

text \<open>The tasks that end by running the chain of a prepared context.\<close>

lemma next_after_handler:
  assumes "sound A RunNext c1 (Inl c')"
    and "module_found A c = Ret c1 \<or> module_error A c = Ret c1 \<or> module_failed A c = Ret c1 \<or> module_denied A c = Ret c1"
    and "checked A c" and "w_answer t = 0" and "w_execute t = 0"
  shows "post A t c c'"
proof -
  note h = handler_sound [OF assms(2,3)]
  have "post A RunNext c1 c'" by (rule soundD [OF assms(1)]) (use h in simp_all)
  then show ?thesis by (rule post_trans) (use h assms(4,5) in \<open>simp_all add: w_answer_def w_execute_def\<close>)
qed

lemma run_next_sound:
  assumes IH: "\<And>t c y. ex t c = Some y \<Longrightarrow> sound A t c y"
    and run: "(if cx_index c < length (cx_nexts c)
      then let f = cx_nexts c ! cx_index c; ctx1 = c\<lparr>cx_index := cx_index c + 1\<rparr> in if is_nil A f then ex RunNext ctx1 else ex (Run f 0) ctx1
      else Some (Inl c)) = Some (Inl c')" and "guarded A c" and "checked A c"
  shows "post A RunNext c c'"
proof (cases "cx_index c < length (cx_nexts c)")
  case False
  then show ?thesis using run assms(3,4) by (simp add: post_def)
next
  case True
  define f c1 where "f = cx_nexts c ! cx_index c" and "c1 = c\<lparr>cx_index := cx_index c + 1\<rparr>"
  note one = take_one [OF True f_def c1_def assms(3)]
  have ck: "checked A c1" "cx_mode c1 = cx_mode c" using assms(4) sound_cong(2) [of c1 c A] by (simp_all add: c1_def)
  have run': "(if is_nil A f then ex RunNext c1 else ex (Run f 0) c1) = Some (Inl c')" using run True by (simp add: f_def c1_def Let_def split: if_splits)
  show ?thesis
  proof (cases "is_nil A f")
    case True
    then have "f \<noteq> m_request" by (auto simp: is_nil_def)
    then have "post A RunNext c1 c'" using IH run' True one(4) ck(1) soundD by (metis pre.simps(1))
    then show ?thesis by (rule post_trans) (use one ck in \<open>simp_all add: w_answer_def w_execute_def\<close>)
  next
    case False
    then have "post A (Run f 0) c1 c'" using IH run' one(1) ck(1) soundD by metis
    then show ?thesis by (rule post_trans) (use one ck in \<open>simp_all add: w_answer_def w_execute_def\<close>)
  qed
qed

lemma run_request_sound:
  assumes IH: "\<And>t c y. ex t c = Some y \<Longrightarrow> sound A t c y"
    and run: "rbind (of_outcome (module_check A c)) (\<lambda>(v, ctx1). rbind (ex (RunVerdict v) ctx1) (\<lambda>ctx2.
      rbind (of_outcome (module_respond A ctx2)) (ex RunNext))) = Some (Inl c')" and "checked A c"
  shows "post A (Run m_request p) c c'"
proof -
  obtain v c1 c2 c3 where s: "module_check A c = Ret (v, c1)" "ex (RunVerdict v) c1 = Some (Inl c2)" "module_respond A c2 = Ret c3"
    "ex RunNext c3 = Some (Inl c')"
    using run by (auto simp: rbind_Inl of_outcome_Some)
  obtain d where d: "mode_check (cx_mode c) A (cx_data c) = Ret (v, d)" "c1 = trace_event (Checking (cx_data c)) (c\<lparr>cx_data := d\<rparr>)"
    using module_check_result [OF s(1)] by blast
  have c1: "cx_mode c1 = cx_mode c" "answers_sent c1 = answers_sent c" "executions c1 = executions c" by (simp_all add: d(2) answers_sent_def executions_def)
  have "passed A c \<Longrightarrow> passed A c1" by (auto simp: d(2) passed_def)
  then have ck1: "checked A c1" using assms(3) by (auto simp: checked_def d(2))
  have "pre A (RunVerdict v) c1" using d by (auto simp: passed_def)
  then have p2: "post A (RunVerdict v) c1 c2" using IH [OF s(2)] ck1 soundD by blast
  obtain us where c3: "c3 = chained (map User us @ [m_body]) (c2\<lparr>cx_data := save_session A (cx_data c2)\<rparr>)" using module_respond_result [OF s(3)] by blast
  have n: "m_execute \<notin> set [m_body]" "m_request \<notin> set [m_body]" by simp_all
  note k3 = chained_counts [OF c3 n]
  have "checked A c3" using post_parts [OF p2] sound_cong(2) [of c3 c2 A] by (simp add: c3)
  then have p3: "post A RunNext c3 c'" using IH [OF s(4)] k3(1) soundD by (metis pre.simps(1))
  show ?thesis
  proof (rule post_trans [OF p3])
    show "cx_mode c3 = cx_mode c" using post_parts [OF p2] c1(1) by (simp add: c3)
    have "answers_sent c3 \<le> answers_sent c2 + 1" "executions c3 \<le> executions c2" using k3(2,3) by (simp_all add: answers_sent_def executions_def)
    then show "answers_sent c3 + w_answer RunNext \<le> answers_sent c + w_answer (Run m_request p)" "executions c3 + w_execute RunNext \<le> executions c + w_execute (Run m_request p)"
      using p2 c1 by (simp_all add: post_def w_answer_def w_execute_def)
  qed
qed

lemma run_execute_sound:
  assumes IH: "\<And>t c y. ex t c = Some y \<Longrightarrow> sound A t c y"
    and run: "rbind (of_outcome (module_execute A c)) (ex RunNext) = Some (Inl c')" and "passed A c"
  shows "post A (Run m_execute p) c c'"
proof -
  obtain c1 where s: "module_execute A c = Ret c1" "ex RunNext c1 = Some (Inl c')" using run by (auto simp: rbind_Inl of_outcome_Some)
  obtain us where c1: "c1 = chained (map User us @ []) (trace_event Executing c)" using module_execute_result [OF s(1)] by auto
  note k = chained_counts [OF c1]
  have "passed A c1" using assms(3) by (auto simp: c1 passed_def)
  then have "checked A c1" by (simp add: checked_def)
  then have "post A RunNext c1 c'" using IH [OF s(2)] k(1) soundD by (metis pre.simps(1) empty_iff list.set(1))
  then show ?thesis by (rule post_trans) (use k(2,3) in \<open>simp_all add: c1 answers_sent_def executions_def w_answer_def w_execute_def\<close>)
qed

lemma run_user_sound:
  assumes IH: "\<And>t c y. ex t c = Some y \<Longrightarrow> sound A t c y"
    and run: "(case a_code A n p (cx_data c) of (d, k) \<Rightarrow> (case k of
        None \<Rightarrow> Some (Inl (c\<lparr>cx_data := d\<rparr>))
      | Some (call, q) \<Rightarrow> rbind (ex (RunCall call) (c\<lparr>cx_data := d\<rparr>)) (ex (Run (User n) q)))) = Some (Inl c')"
    and "guarded A c" and "checked A c"
  shows "post A (Run (User n) p) c c'"
proof -
  obtain d k where a: "a_code A n p (cx_data c) = (d, k)" by force
  define c1 where "c1 = c\<lparr>cx_data := d\<rparr>"
  have c1: "guarded A c1" "answers_sent c1 = answers_sent c" "executions c1 = executions c" "checked A c1" "cx_mode c1 = cx_mode c"
    using same_chain [of c1 c] sound_cong(2) [of c1 c A] assms(3,4) by (simp_all add: c1_def)
  show ?thesis
  proof (cases k)
    case None
    then show ?thesis using run a c1 by (simp add: c1_def post_def)
  next
    case (Some cq)
    obtain call q where cq: "k = Some (call, q)" using Some by (cases cq) simp
    obtain c2 where s: "ex (RunCall call) c1 = Some (Inl c2)" "ex (Run (User n) q) c2 = Some (Inl c')"
      using run a cq by (auto simp: rbind_Inl c1_def)
    have p2: "post A (RunCall call) c1 c2" using IH [OF s(1)] c1(1,4) soundD by (metis pre.simps(4))
    then have "pre A (Run (User n) q) c2" "checked A c2" by (simp_all add: post_def)
    then have "post A (Run (User n) q) c2 c'" using IH [OF s(2)] soundD by blast
    then show ?thesis by (rule post_trans) (use p2 c1 in \<open>simp_all add: post_def w_answer_def w_execute_def\<close>)
  qed
qed

lemma run_call_sound:
  assumes IH: "\<And>t c y. ex t c = Some y \<Longrightarrow> sound A t c y"
    and run: "go_on (ex RunNext) c (if cx_mode c = socketMode then Ret None else obind r (\<lambda>c. Ret (Some c))) = Some (Inl c')"
    and "r = module_found A c \<or> r = module_error A c \<or> r = module_failed A c \<or> r = module_denied A c" and "guarded A c" and "checked A c"
  shows "post A (RunCall call) c c'"
proof (cases "cx_mode c = socketMode")
  case True
  then show ?thesis using run assms(4,5) by (simp add: of_outcome_def post_def)
next
  case False
  then obtain c1 where s: "r = Ret c1" "ex RunNext c1 = Some (Inl c')" using run by (cases r) (auto simp: of_outcome_def)
  show ?thesis by (rule next_after_handler [OF IH [OF s(2)] _ assms(5)]) (use assms(3) s(1) in \<open>auto simp: w_answer_def w_execute_def\<close>)
qed

lemma post_set_error: "post A t (set_error e c) c' \<Longrightarrow> post A t c c'"
  using same_chain [of "set_error e c" c] by (simp add: post_def)

lemma exec_sound:
  assumes "exec A t c = Some y"
  shows "sound A t c y"
proof (rule exec.raw_induct [where P = sound, OF _ assms], goal_cases)
  case (1 ex A t c y)
  have IH: "ex A t c = Some y \<Longrightarrow> sound A t c y" for t c y by (rule 1(1))
  show ?case unfolding sound_def
  proof (intro allI impI)
    fix c' assume y: "y = Inl c'" and pr: "pre A t c" and ck: "checked A c"
    note run = 1(2) [unfolded y]
    have err: "guarded A (set_error e c) = guarded A c" "checked A (set_error e c)" for e
      using same_chain [of "set_error e c" c] sound_cong(2) [of "set_error e c" c A] ck by simp_all
    show "post A t c c'"
    proof (cases t)
      case RunNext
      then show ?thesis using run_next_sound [where ex = "ex A", OF IH _ _ ck] run pr by simp
    next
      case (Run f p)
      show ?thesis
      proof (cases f)
        case (User n)
        then show ?thesis using run_user_sound [where ex = "ex A" and n = n and p = p and c' = c', OF IH _ _ ck] run pr Run by simp
      next
        case m_request
        then show ?thesis using run_request_sound [where ex = "ex A", OF IH _ ck] run Run by simp
      next
        case m_execute
        then show ?thesis using run_execute_sound [where ex = "ex A", OF IH] run pr Run by simp
      next
        case m_body
        have "checked A (module_body c)" "guarded A (module_body c)"
          using ck pr Run m_body by (auto simp: module_body_eq final_def checked_def passed_def guarded_def)
        then show ?thesis using run Run m_body
          by (auto simp: post_def module_body_eq final_def answers_sent_def executions_def w_answer_def w_execute_def)
      qed (use run pr ck Run same_chain [of "ctx_Finish c" c] sound_cong(2) [of "ctx_Finish c" c A] in \<open>auto simp: post_def\<close>)
    next
      case (RunVerdict v)
      show ?thesis
      proof (cases v)
        case Proceed
        then have "guarded A c" using pr RunVerdict by (simp add: guarded_def)
        then have "post A RunNext c c'" using IH [of RunNext c "Inl c'"] run RunVerdict Proceed ck soundD by fastforce
        then show ?thesis by (simp add: RunVerdict post_def w_answer_def w_execute_def)
      next
        case NotFound
        then obtain c1 where s: "module_found A c = Ret c1" "ex A RunNext c1 = Some (Inl c')"
          using run RunVerdict by (auto simp: rbind_Inl of_outcome_Some)
        show ?thesis by (rule next_after_handler [OF IH [OF s(2)] _ ck]) (use s RunVerdict in \<open>auto simp: w_answer_def w_execute_def\<close>)
      next
        case (Fail e)
        then obtain c1 where s: "module_failed A (set_error (Some e) c) = Ret c1" "ex A RunNext c1 = Some (Inl c')"
          using run RunVerdict by (auto simp: rbind_Inl of_outcome_Some)
        show ?thesis by (rule post_set_error, rule next_after_handler [OF IH [OF s(2)] _ err(2)]) (use s RunVerdict in \<open>auto simp: w_answer_def w_execute_def\<close>)
      next
        case (Deny e)
        then obtain c1 where s: "module_denied A (set_error (Some e) c) = Ret c1" "ex A RunNext c1 = Some (Inl c')"
          using run RunVerdict by (auto simp: rbind_Inl of_outcome_Some)
        show ?thesis by (rule post_set_error, rule next_after_handler [OF IH [OF s(2)] _ err(2)]) (use s RunVerdict in \<open>auto simp: w_answer_def w_execute_def\<close>)
      qed
    next
      case (RunCall call)
      have g: "guarded A c" using pr RunCall by simp
      show ?thesis
      proof (cases call)
        case CNext
        then have "post A RunNext c c'" using IH [of RunNext c "Inl c'"] run RunCall g ck soundD by fastforce
        then show ?thesis by (simp add: RunCall post_def w_answer_def w_execute_def)
      next
        case CFound
        then show ?thesis using run_call_sound [where ex = "ex A" and c' = c' and call = call, OF IH _ _ g ck] run RunCall by (auto simp: ctx_Found_def)
      next
        case (CError e)
        then have "post A (RunCall call) (set_error e c) c'"
          using run_call_sound [where ex = "ex A" and c = "set_error e c" and c' = c' and call = call, OF IH _ _ _ err(2)] run RunCall g err(1) [of e] by (simp add: ctx_Error_def)
        then show ?thesis using RunCall post_set_error by blast
      next
        case (CFailed e)
        then have "post A (RunCall call) (set_error e c) c'"
          using run_call_sound [where ex = "ex A" and c = "set_error e c" and c' = c' and call = call, OF IH _ _ _ err(2)] run RunCall g err(1) [of e] by (simp add: ctx_Failed_def)
        then show ?thesis using RunCall post_set_error by blast
      next
        case (CDenied e)
        then have "post A (RunCall call) (set_error e c) c'"
          using run_call_sound [where ex = "ex A" and c = "set_error e c" and c' = c' and call = call, OF IH _ _ _ err(2)] run RunCall g err(1) [of e] by (simp add: ctx_Denied_def)
        then show ?thesis using RunCall post_set_error by blast
      qed
    qed
  qed
qed

text \<open>A fresh context on its way through a module.\<close>

lemma start_result:
  assumes "start_chain router fltr A c = Ret c'" and "cx_nexts c = []" and "cx_index c = 0"
  obtains fs where "funcings fltr ''request'' [] (a_kernel A) = Ret fs" "cx_nexts c' = map User fs @ [m_request, m_execute]" "cx_index c' = 0"
    "cx_mode c' = cx_mode c" "cx_trace c' = cx_trace c"
proof -
  obtain v fs where "chunkdata router (cx_Name (cx_data c)) (a_kernel A) = Ret v" and fs: "funcings fltr ''request'' [] (a_kernel A) = Ret fs"
    using assms(1) by (cases "chunkdata router (cx_Name (cx_data c)) (a_kernel A)"; cases "funcings fltr ''request'' [] (a_kernel A)") (auto simp: start_chain_def Let_def)
  then have "c' = add_next [m_request, m_execute] (add_next (map User fs)
      (case v of VMap config \<Rightarrow> c\<lparr>cx_data := (cx_data c)\<lparr>cx_Config := Some config\<rparr>\<rparr> | _ \<Rightarrow> c))"
    using assms(1) by (simp add: start_chain_def Let_def)
  then show thesis using that [OF fs] assms(2,3) by (cases v) (simp_all add: add_next_def)
qed

lemma serve_with_sound:
  assumes "serve_with router fltr A (new_context m d) = Some (Inl c)"
  shows "cx_mode c = m \<and> length (filter is_sent (cx_trace c)) \<le> 1 \<and> length (filter is_executing (cx_trace c)) \<le> 1 \<and> checked A c"
proof -
  obtain c1 where s: "start_chain router fltr A (new_context m d) = Ret c1" "exec A RunNext c1 = Some (Inl c)"
    using assms by (auto simp: serve_with_def rbind_Inl of_outcome_Some)
  obtain fs where fs: "cx_nexts c1 = map User fs @ [m_request, m_execute]" "cx_index c1 = 0" "cx_mode c1 = m" "cx_trace c1 = []"
    using start_result [OF s(1)] by (auto simp: new_context_def)
  have g: "guarded A c1"
  proof -
    have "takeWhile (\<lambda>f. f \<noteq> m_request) (map User fs @ [m_request, m_execute]) = map User fs @ takeWhile (\<lambda>f. f \<noteq> m_request) [m_request, m_execute]"
      by (rule takeWhile_append2) auto
    then have "takeWhile (\<lambda>f. f \<noteq> m_request) (rest c1) = map User fs" using fs by simp
    then show ?thesis by (auto simp: guarded_def)
  qed
  have a: "answers_sent c1 = 1" "executions c1 = 1" using fs by (simp_all add: answers_sent_def executions_def filter_map o_def)
  have "post A RunNext c1 c" by (rule soundD [OF exec_sound [OF s(2)]]) (use g fs in \<open>simp_all add: checked_def\<close>)
  then show ?thesis using a fs(3) by (simp add: post_def answers_sent_def executions_def w_answer_def w_execute_def)
qed

text \<open>
  C11: Whatever the filters, actions and handlers of the application do, a request that returns is answered at most once, its actions
  begin at most once, and they begin only when the checks of the module passed: for plans, events and queues the arguments, the
  sign-ins and the entities of the route, for sockets the sign-ins and the entities. The functions of the application may continue the chain
  never, once or often, may call for the handlers at any time and may change every exported field of the context.
\<close>

theorem requests_are_checked:
  assumes "r \<in> {event_serve A req w, queue_serve A req w, socket_serve A json i message w, plan_serve A state manual req w}"
    and "r = Some (Inl c)"
  shows "length (filter is_sent (cx_trace c)) \<le> 1 \<and> length (filter is_executing (cx_trace c)) \<le> 1 \<and>
    (Executing \<in> set (cx_trace c) \<longrightarrow> (\<exists>d d'. Checking d \<in> set (cx_trace c) \<and> mode_check (cx_mode c) A d = Ret (Proceed, d')))"
proof -
  have "serve_with router fltr A (new_context m d) = Some (Inl c) \<Longrightarrow> ?thesis" for router fltr m d
    using serve_with_sound [of router fltr A m d c] unfolding checked_def passed_def by blast
  moreover have "\<not> manual \<and> state \<noteq> Leader \<Longrightarrow> plan_serve A state manual req w = Some (Inl c) \<Longrightarrow> ?thesis"
    by (auto simp: plan_serve_def trace_event_def newPlanContext_def new_context_def)
  ultimately show ?thesis using assms
    by (auto simp: event_serve_def queue_serve_def socket_serve_def plan_serve_def newEventContext_def newQueueContext_def newSocketContext_def
        newPlanContext_def Let_def split: if_splits)
qed

section \<open>Answers for well-behaved functions\<close>

text \<open>
  A function that calls \<open>Next\<close> at most once and then returns, and one that always calls it once. Such functions may
  still change all the data they see.
\<close>

definition gentle :: "'w app \<Rightarrow> nat \<Rightarrow> bool" where
  "gentle A n \<longleftrightarrow> (\<forall>d. snd (a_code A n 0 d) \<in> {None, Some (CNext, 1)} \<and> snd (a_code A n 1 d) = None)"

definition passes :: "'w app \<Rightarrow> nat \<Rightarrow> bool" where
  "passes A n \<longleftrightarrow> a_nil A n \<or> (\<forall>d. snd (a_code A n 0 d) = Some (CNext, 1) \<and> snd (a_code A n 1 d) = None)"

abbreviation step :: "'w Context \<Rightarrow> 'w Context" where
  "step c \<equiv> c\<lparr>cx_index := cx_index c + 1\<rparr>"

lemma exec_end: "rest c = [] \<Longrightarrow> exec A RunNext c = Some (Inl c)"
  by (subst exec.simps) simp

lemma rest_step: "rest c = f # fs \<Longrightarrow> rest (step c) = fs"
  by simp (metis drop_Suc list.sel(3) tl_drop)

lemma exec_next:
  assumes "rest c = f # fs"
  shows "exec A RunNext c = (if is_nil A f then exec A RunNext (step c) else exec A (Run f 0) (step c))"
proof -
  have "cx_index c < length (cx_nexts c)" using assms by (metis drop_eq_Nil list.distinct(1) not_le)
  moreover have "cx_nexts c ! cx_index c = f" using assms calculation by (metis hd_drop_conv_nth list.sel(1))
  ultimately show ?thesis by (subst exec.simps) (simp add: Let_def)
qed

lemma exec_user: "exec A (Run (User n) p) c = (case a_code A n p (cx_data c) of (d, k) \<Rightarrow> (case k of
    None \<Rightarrow> Some (Inl (c\<lparr>cx_data := d\<rparr>))
  | Some (call, q) \<Rightarrow> rbind (exec A (RunCall call) (c\<lparr>cx_data := d\<rparr>)) (exec A (Run (User n) q))))"
  by (subst exec.simps) simp

lemma exec_call_next: "exec A (RunCall CNext) c = exec A RunNext c"
  by (subst exec.simps) simp

lemma exec_default: "is_default f \<Longrightarrow> exec A (Run f p) c = Some (Inl (ctx_Finish c))"
  by (subst exec.simps) (auto simp: is_default_def)

definition finish_user :: "'w app \<Rightarrow> nat \<Rightarrow> 'w Context \<Rightarrow> 'w Context" where
  "finish_user A n c = c\<lparr>cx_data := fst (a_code A n 1 (cx_data c))\<rparr>"

lemma finish_user_sel [simp]: "cx_trace (finish_user A n c) = cx_trace c" "cx_mode (finish_user A n c) = cx_mode c"
  by (simp_all add: finish_user_def)

lemma exec_passing:
  assumes "snd (a_code A n 0 (cx_data c)) = Some (CNext, 1)" and "\<And>d. snd (a_code A n 1 d) = None"
  shows "exec A (Run (User n) 0) c = rbind (exec A RunNext (c\<lparr>cx_data := fst (a_code A n 0 (cx_data c))\<rparr>)) (\<lambda>c2. Some (Inl (finish_user A n c2)))"
proof -
  obtain d where d: "a_code A n 0 (cx_data c) = (d, Some (CNext, 1))" using assms(1) by (cases "a_code A n 0 (cx_data c)") simp
  have "exec A (Run (User n) 1) c2 = Some (Inl (finish_user A n c2))" for c2
    using assms(2) [of "cx_data c2"] by (cases "a_code A n 1 (cx_data c2)") (simp add: exec_user finish_user_def)
  then have "exec A (Run (User n) 1) = (\<lambda>c2. Some (Inl (finish_user A n c2)))" by (rule ext)
  then show ?thesis using d by (simp add: exec_user [of A n 0] exec_call_next)
qed

lemma quiet_chain:
  assumes "\<And>n. gentle A n" and "\<forall>f \<in> set (rest c). (\<exists>n. f = User n) \<or> is_default f"
  shows "\<exists>c'. exec A RunNext c = Some (Inl c') \<and> cx_trace c' = cx_trace c \<and> cx_mode c' = cx_mode c"
  using assms(2)
proof (induction "rest c" arbitrary: c)
  case Nil
  then show ?case using exec_end [of c A] by simp
next
  case (Cons f fs)
  have r: "rest c = f # fs" using Cons(2) by simp
  have IH: "\<exists>c'. exec A RunNext c1 = Some (Inl c') \<and> cx_trace c' = cx_trace c \<and> cx_mode c' = cx_mode c"
    if "rest c1 = fs" "cx_trace c1 = cx_trace c" "cx_mode c1 = cx_mode c" for c1
    using Cons(1) [of c1] Cons(3) that r by (metis list.set_intros(2))
  note st = rest_step [OF r]
  show ?case
  proof (cases "is_nil A f")
    case True
    then show ?thesis using exec_next [OF r, of A] IH [of "step c"] st by simp
  next
    case False
    then have e: "exec A RunNext c = exec A (Run f 0) (step c)" using exec_next [OF r] by simp
    show ?thesis
    proof (cases "is_default f")
      case True
      then show ?thesis using e exec_default [OF True, of A 0 "step c"] by simp
    next
      case False
      then obtain n where n: "f = User n" using Cons(3) r by auto
      obtain d k where dk: "a_code A n 0 (cx_data c) = (d, k)" by force
      have k: "k = None \<or> k = Some (CNext, 1)" "\<And>d. snd (a_code A n 1 d) = None" using assms(1) [of n] dk by (auto simp: gentle_def dest: spec [of _ "cx_data c"])
      show ?thesis
      proof (cases "k = None")
        case True
        then show ?thesis using e n dk by (simp add: exec_user)
      next
        case False
        then have kn: "k = Some (CNext, 1)" using k(1) by blast
        have "exec A (Run f 0) (step c) = rbind (exec A RunNext ((step c)\<lparr>cx_data := d\<rparr>)) (\<lambda>c2. Some (Inl (finish_user A n c2)))"
          using exec_passing [of A n "step c"] k(2) kn dk n by simp
        then show ?thesis using e IH [of "(step c)\<lparr>cx_data := d\<rparr>"] st by auto
      qed
    qed
  qed
qed

text \<open>Functions that pass hand the chain on to what comes after them.\<close>

lemma pass_through:
  assumes "rest c = map User fs @ gs" and "\<forall>n \<in> set fs. passes A n"
  shows "\<exists>c1 F. rest c1 = gs \<and> cx_trace c1 = cx_trace c \<and> cx_mode c1 = cx_mode c \<and>
    exec A RunNext c = rbind (exec A RunNext c1) (\<lambda>c2. Some (Inl (F c2))) \<and> (\<forall>c2. cx_trace (F c2) = cx_trace c2 \<and> cx_mode (F c2) = cx_mode c2)"
  using assms
proof (induction fs arbitrary: c)
  case Nil
  have "rbind m (\<lambda>c2. Some (Inl (id c2))) = m" for m :: "'a Context result" by (auto simp: rbind_def split: option.split sum.split)
  then show ?case using Nil by (metis append_Nil id_apply list.simps(8))
next
  case (Cons n fs)
  have r: "rest c = User n # (map User fs @ gs)" using Cons(2) by simp
  note st = rest_step [OF r]
  show ?case
  proof (cases "a_nil A n")
    case True
    then have "exec A RunNext c = exec A RunNext (step c)" using exec_next [OF r, of A] by (simp add: is_nil_def)
    then show ?thesis using Cons(1) [of "step c"] st Cons(3) by simp
  next
    case False
    define c1 where "c1 = (step c)\<lparr>cx_data := fst (a_code A n 0 (cx_data c))\<rparr>"
    have c1: "rest c1 = map User fs @ gs" "cx_trace c1 = cx_trace c" "cx_mode c1 = cx_mode c" using st by (simp_all add: c1_def)
    have "snd (a_code A n 0 (cx_data (step c))) = Some (CNext, 1)" "\<And>d. snd (a_code A n 1 d) = None" using Cons(3) False by (auto simp: passes_def)
    from exec_passing [OF this] have e: "exec A RunNext c = rbind (exec A RunNext c1) (\<lambda>c2. Some (Inl (finish_user A n c2)))"
      using exec_next [OF r, of A] False by (simp add: is_nil_def c1_def)
    obtain c2 F where F: "rest c2 = gs" "cx_trace c2 = cx_trace c1" "cx_mode c2 = cx_mode c1"
      "exec A RunNext c1 = rbind (exec A RunNext c2) (\<lambda>c2. Some (Inl (F c2)))" "\<forall>c2. cx_trace (F c2) = cx_trace c2 \<and> cx_mode (F c2) = cx_mode c2"
      using Cons(1) [OF c1(1)] Cons(3) by auto
    have "rbind (rbind m (\<lambda>c2. Some (Inl (F c2)))) (\<lambda>c2. Some (Inl (finish_user A n c2))) = rbind m (\<lambda>c2. Some (Inl (finish_user A n (F c2))))" for m
      by (auto simp: rbind_def split: option.split sum.split)
    then have "exec A RunNext c = rbind (exec A RunNext c2) (\<lambda>c2. Some (Inl (finish_user A n (F c2))))" using e F(4) by simp
    moreover have "\<forall>c2. cx_trace (finish_user A n (F c2)) = cx_trace c2 \<and> cx_mode (finish_user A n (F c2)) = cx_mode c2" using F(5) by simp
    ultimately show ?thesis using F(1-3) c1(2,3) by (intro exI [of _ c2] exI [of _ "\<lambda>c2. finish_user A n (F c2)"]) simp
  qed
qed

lemma mode_check_no_diverge [no_diverge]: "mode_check m A d \<noteq> Diverge"
  by (cases m) (simp_all add: mode_check_def plan_check_def event_check_def queue_check_def socket_check_def args_and_auth_def auth_only_def
      after_auth_def no_diverge split: prod.split option.split)

lemma module_check_no_diverge [no_diverge]: "module_check A c \<noteq> Diverge"
  by (simp add: module_check_def no_diverge split: prod.split)

lemma module_no_diverge [no_diverge]:
  "module_found A c \<noteq> Diverge" "module_failed A c \<noteq> Diverge" "module_denied A c \<noteq> Diverge" "module_execute A c \<noteq> Diverge" "module_respond A c \<noteq> Diverge"
  by (cases "cx_mode c"; simp add: module_handler_defs module_execute_def plan_execute_def event_execute_def queue_execute_def socket_execute_def
      module_respond_def plan_respond_def event_respond_def queue_respond_def socket_respond_def handler_chain_def execute_chain_def response_chain_def no_diverge)+

text \<open>A run that ends, and unless it panics adds events without an answer.\<close>

definition quiet :: "'w Context \<Rightarrow> 'w Context result \<Rightarrow> bool" where
  "quiet c r \<longleftrightarrow> (\<exists>p. r = Some (Inr p)) \<or> (\<exists>c' ev. r = Some (Inl c') \<and> cx_mode c' = cx_mode c \<and> cx_trace c' = cx_trace c @ ev \<and> filter is_sent ev = [])"

lemma quiet_prepared:
  assumes "m \<noteq> Diverge" and "\<And>c1. m = Ret c1 \<Longrightarrow> cx_mode c1 = cx_mode c \<and> (\<exists>ev. cx_trace c1 = cx_trace c @ ev \<and> filter is_sent ev = [])"
    and "\<And>c1. m = Ret c1 \<Longrightarrow> \<forall>f \<in> set (rest c1). (\<exists>n. f = User n) \<or> is_default f" and "\<And>n. gentle A n"
  shows "quiet c (rbind (of_outcome m) (exec A RunNext))"
proof (cases m)
  case (Ret c1)
  obtain c' where "exec A RunNext c1 = Some (Inl c')" "cx_trace c' = cx_trace c1" "cx_mode c' = cx_mode c1"
    using quiet_chain [OF assms(4) assms(3) [OF Ret]] by blast
  then show ?thesis using assms(2) [OF Ret] Ret by (auto simp: quiet_def of_outcome_def)
next
  case (Panic p)
  then show ?thesis by (simp add: quiet_def of_outcome_def)
next
  case Diverge
  then show ?thesis using assms(1) by simp
qed

lemma verdict_quiet:
  assumes "\<And>n. gentle A n" and "rest c = [m_execute]"
  shows "quiet c (exec A (RunVerdict v) c)"
proof -
  have handler: "quiet c (rbind (of_outcome m) (exec A RunNext))"
    if m: "m = module_found A c0 \<or> m = module_failed A c0 \<or> m = module_denied A c0" and c0: "cx_mode c0 = cx_mode c" "cx_trace c0 = cx_trace c" for m c0
  proof -
    have "m \<noteq> Diverge" using m no_diverge by metis
    then show ?thesis
    proof (rule quiet_prepared [OF _ _ _ assms(1)])
      fix c1 assume "m = Ret c1"
      then obtain us f where "is_default f" "c1 = chained (map User us @ [f]) c0" using module_handlers [of A c0 c1] m by metis
      then show "cx_mode c1 = cx_mode c \<and> (\<exists>ev. cx_trace c1 = cx_trace c @ ev \<and> filter is_sent ev = [])"
        "\<forall>f \<in> set (rest c1). (\<exists>n. f = User n) \<or> is_default f" using c0 by auto
    qed
  qed
  have execute: "quiet c (rbind (of_outcome (module_execute A (step c))) (exec A RunNext))"
  proof (rule quiet_prepared [OF _ _ _ assms(1)])
    show "module_execute A (step c) \<noteq> Diverge" by (rule no_diverge)
    fix c1 assume "module_execute A (step c) = Ret c1"
    then obtain us where "c1 = chained (map User us) (trace_event Executing (step c))" using module_execute_result by blast
    then show "cx_mode c1 = cx_mode c \<and> (\<exists>ev. cx_trace c1 = cx_trace c @ ev \<and> filter is_sent ev = [])"
      "\<forall>f \<in> set (rest c1). (\<exists>n. f = User n) \<or> is_default f" by auto
  qed
  have run: "exec A RunNext c = rbind (of_outcome (module_execute A (step c))) (exec A RunNext)"
    using exec_next [OF assms(2), of A] by (simp add: is_nil_def exec.simps [of A "Run m_execute 0"])
  show ?thesis
  proof (cases v)
    case Proceed
    then show ?thesis using execute run by (subst exec.simps) simp
  next
    case NotFound
    then show ?thesis using handler [of "module_found A c" c] by (subst exec.simps) simp
  next
    case (Fail e)
    then show ?thesis using handler [of "module_failed A (set_error (Some e) c)" "set_error (Some e) c"] by (subst exec.simps) simp
  next
    case (Deny e)
    then show ?thesis using handler [of "module_denied A (set_error (Some e) c)" "set_error (Some e) c"] by (subst exec.simps) simp
  qed
qed

definition passing :: "'w app \<Rightarrow> mod_kind \<Rightarrow> string \<Rightarrow> bool" where
  "passing A m key \<longleftrightarrow> (\<forall>fs. funcings (filter_branch m) key [] (a_kernel A) = Ret fs \<longrightarrow> (\<forall>n \<in> set fs. passes A n))"

definition answered :: "'w Context \<Rightarrow> bool" where
  "answered c \<longleftrightarrow> (\<exists>ev r ds. cx_trace c = ev @ [Sent r, Closed ds] \<and> filter is_sent ev = [])"

lemma respond_answers:
  assumes "filter is_sent (cx_trace c) = []" and "passing A (cx_mode c) ''response''"
  shows "\<exists>y. rbind (of_outcome (module_respond A c)) (exec A RunNext) = Some y \<and> (\<forall>c'. y = Inl c' \<longrightarrow> answered c')"
proof (cases "module_respond A c")
  case (Ret c1)
  obtain us where us: "funcings (filter_branch (cx_mode c)) ''response'' [] (a_kernel A) = Ret us"
    "c1 = chained (map User us @ [m_body]) (c\<lparr>cx_data := save_session A (cx_data c)\<rparr>)" using module_respond_result [OF Ret] by blast
  have "rest c1 = map User us @ [m_body]" "\<forall>n \<in> set us. passes A n" using us assms(2) by (auto simp: passing_def)
  from pass_through [OF this] obtain c2 F where F: "rest c2 = [m_body]" "cx_trace c2 = cx_trace c" 
    "exec A RunNext c1 = rbind (exec A RunNext c2) (\<lambda>c2. Some (Inl (F c2)))" "\<And>c2. cx_trace (F c2) = cx_trace c2"
    using us(2) by auto
  have "exec A RunNext c2 = Some (Inl (module_body (step c2)))" using exec_next [OF F(1), of A] by (simp add: is_nil_def exec.simps [of A "Run m_body 0"])
  then have "exec A RunNext c1 = Some (Inl (F (module_body (step c2))))" using F(3) by simp
  moreover have "answered (F (module_body (step c2)))" using F(2,4) assms(1) by (auto simp: answered_def module_body_eq final_def)
  ultimately show ?thesis using Ret by (simp add: of_outcome_def)
qed (simp_all add: of_outcome_def no_diverge)

lemma request_answers:
  assumes "\<And>n. gentle A n" and "passing A (cx_mode c) ''response''" and "rest c = [m_execute]" and "filter is_sent (cx_trace c) = []"
  shows "\<exists>y. exec A (Run m_request 0) c = Some y \<and> (\<forall>c'. y = Inl c' \<longrightarrow> answered c')"
proof -
  have e: "exec A (Run m_request 0) c = rbind (of_outcome (module_check A c)) (\<lambda>(v, ctx1). rbind (exec A (RunVerdict v) ctx1) (\<lambda>ctx2.
      rbind (of_outcome (module_respond A ctx2)) (exec A RunNext)))" by (subst exec.simps) simp
  show ?thesis
  proof (cases "module_check A c")
    case (Ret vc)
    obtain v c1 where vc: "module_check A c = Ret (v, c1)" using Ret by (cases vc) simp
    obtain d where c1: "c1 = trace_event (Checking (cx_data c)) (c\<lparr>cx_data := d\<rparr>)" using module_check_result [OF vc] by blast
    have "quiet c1 (exec A (RunVerdict v) c1)" by (rule verdict_quiet [OF assms(1)]) (use assms(3) in \<open>simp add: c1\<close>)
    then consider (panic) p where "exec A (RunVerdict v) c1 = Some (Inr p)"
      | (ok) c2 ev where "exec A (RunVerdict v) c1 = Some (Inl c2)" "cx_mode c2 = cx_mode c1" "cx_trace c2 = cx_trace c1 @ ev" "filter is_sent ev = []"
      unfolding quiet_def by blast
    then show ?thesis
    proof cases
      case panic
      then show ?thesis by (simp add: e vc of_outcome_def)
    next
      case ok
      have "filter is_sent (cx_trace c2) = []" "cx_mode c2 = cx_mode c" using ok assms(4) by (simp_all add: c1)
      then show ?thesis using respond_answers [of c2 A] assms(2) ok(1) by (simp add: e vc of_outcome_def [of "Ret _"])
    qed
  qed (simp_all add: e of_outcome_def no_diverge)
qed

lemma serve_with_answers:
  assumes "\<And>n. gentle A n" and "passing A m ''request''" and "passing A m ''response''"
  shows "\<exists>y. serve_with router (filter_branch m) A (new_context m d) = Some y \<and> (\<forall>c. y = Inl c \<longrightarrow> answered c)"
proof (cases "start_chain router (filter_branch m) A (new_context m d)")
  case (Ret c1)
  obtain fs where fs: "funcings (filter_branch m) ''request'' [] (a_kernel A) = Ret fs" "cx_nexts c1 = map User fs @ [m_request, m_execute]"
    "cx_index c1 = 0" "cx_mode c1 = m" "cx_trace c1 = []"
    using start_result [OF Ret] by (auto simp: new_context_def)
  have "rest c1 = map User fs @ [m_request, m_execute]" "\<forall>n \<in> set fs. passes A n" using fs assms(2) by (auto simp: passing_def)
  from pass_through [OF this] obtain c2 F where F: "rest c2 = [m_request, m_execute]" "cx_trace c2 = []" "cx_mode c2 = m"
    "exec A RunNext c1 = rbind (exec A RunNext c2) (\<lambda>c2. Some (Inl (F c2)))" "\<And>c2. cx_trace (F c2) = cx_trace c2"
    using fs(4,5) by auto
  have "exec A RunNext c2 = exec A (Run m_request 0) (step c2)" using exec_next [OF F(1), of A] by (simp add: is_nil_def)
  then obtain y where y: "exec A RunNext c2 = Some y" "\<forall>c'. y = Inl c' \<longrightarrow> answered c'"
    using request_answers [OF assms(1), of "step c2"] rest_step [OF F(1)] F(2,3) assms(3) by auto
  have "answered (F c') = answered c'" for c' using F(5) by (simp add: answered_def)
  then show ?thesis using y F(4) Ret by (cases y) (auto simp: serve_with_def of_outcome_def)
next
  case (Panic p)
  then show ?thesis by (simp add: serve_with_def of_outcome_def)
next
  case Diverge
  then show ?thesis by (simp add: start_chain_def Let_def no_diverge)
qed

text \<open>
  C12: With well-behaved functions every request is answered. When each function of the application calls \<open>Next\<close> at most once and calls
  for no handler, and the filters before the request and before the answer do call it, then serving an event, a queue message, a socket
  message or a plan on the leader returns, and unless one of the checks panics exactly one answer has been sent, whatever the actions
  and handlers did to the context and whether or not they continued the chain; after the answer the databases are closed.
\<close>

theorem requests_are_answered:
  assumes "\<forall>n. gentle A n" and "\<forall>m. passing A m ''request'' \<and> passing A m ''response''" and "manual \<or> state = Leader"
    and "r \<in> {event_serve A req w, queue_serve A req w, socket_serve A json i message w, plan_serve A state manual req w}"
  shows "\<exists>y. r = Some y \<and> (\<forall>c. y = Inl c \<longrightarrow> answered c)"
proof -
  have s: "\<exists>y. serve_with router (filter_branch m) A (new_context m d) = Some y \<and> (\<forall>c. y = Inl c \<longrightarrow> answered c)" for router m d
    by (rule serve_with_answers) (use assms(1,2) in blast)+
  have b: "filter_branch planMode = ''plan.filter''" "filter_branch eventMode = ''event.filter''" "filter_branch queueMode = ''queue.filter''"
    "filter_branch socketMode = ''socket.filter''" by (simp_all add: filter_branch_def)
  consider "r = event_serve A req w" | "r = queue_serve A req w" | "r = socket_serve A json i message w" | "r = plan_serve A state manual req w"
    using assms(4) by blast
  then show ?thesis
  proof cases
    case 1
    then show ?thesis using s [of "''event.router''" eventMode] by (simp add: b event_serve_def newEventContext_def)
  next
    case 2
    then show ?thesis using s [of "''queue.router''" queueMode] by (simp add: b queue_serve_def newQueueContext_def)
  next
    case 3
    then show ?thesis using s [of "''socket.router''" socketMode] by (simp add: b socket_serve_def newSocketContext_def Let_def)
  next
    case 4
    then show ?thesis using s [of "''plan.router''" planMode] assms(3) by (auto simp: b plan_serve_def newPlanContext_def)
  qed
qed

section \<open>An example\<close>

declare exec.simps [code]

text \<open>
  An application with an event route \<open>job\<close>, whose action asks for the event again, a filter around every event, and a socket
  route with an entity. Function 0 is the action, function 1 the filter; function 2 is a filter that calls for the handler of failures.
\<close>

definition sample_code :: "nat \<Rightarrow> nat \<Rightarrow> unit ctx_data \<Rightarrow> unit ctx_data \<times> (ctx_call \<times> nat) option" where
  "sample_code n p d =
     (if n = 0 then (d\<lparr>cx_Body := delayBody 3\<rparr>, None)
      else if n = 1 then (d, if p = 0 then Some (CNext, 1) else None)
      else (d, if n = 2 \<and> p = 0 then Some (CFailed None, 1) else None))"

definition sample_kernel :: "nat \<Rightarrow> coreKernel" where
  "sample_kernel response =
     chunking False 0 ''event.router'' ''job'' (VMap [(''action'', VFunc FFuncing 0)])
      (chunking False 0 ''event.filter'' ''log'' (VMap [(''request'', VFunc FFuncing 1), (''response'', VFunc FFuncing response)])
      (chunking False 0 ''socket.router'' ''see'' (VMap [(''action'', VFunc FFuncing 0),
         (''item'', VMap [(''user'', VMap [(''value'', VStr ''id''), (''data'', VStr ''db.user'')])])]) new_coreKernel))"

definition sample_mapping :: mapping_env where
  "sample_mapping = \<lparr>call_valid = \<lambda>_ _ _. True, call_value = \<lambda>_ v _. v, call_crypto = \<lambda>_ v. v, call_auto = \<lambda>_. VNil,
     show_v = \<lambda>_. [], show_s = \<lambda>_. [], regexp_match = \<lambda>_ _. Some True\<rparr>"

definition sample_app :: "nat \<Rightarrow> unit app" where
  "sample_app response = \<lparr>a_kernel = sample_kernel response, a_mapping = sample_mapping, a_nil = \<lambda>_. False, a_code = sample_code,
     a_Read = \<lambda>_ _. Inr [], a_Write = \<lambda>w _ _. w, a_Entity = \<lambda>_ _ _ _. Some [(''id'', VStr ''7'')], a_connected = \<lambda>_. True,
     a_Unique = \<lambda>w. (''u1'', w)\<rparr>"

definition sample_req :: request where
  "sample_req = \<lparr>rq_Id = ''5'', rq_Name = ''job'', rq_Value = []\<rparr>"

definition events :: "'w Context result \<Rightarrow> response list option" where
  "events r = (case r of Some (Inl c) \<Rightarrow> Some (List.map_filter (\<lambda>e. case e of Sent a \<Rightarrow> Some a | _ \<Rightarrow> None) (cx_trace c)) | _ \<Rightarrow> None)"

lemma sample_event: "(case event_serve (sample_app 1) sample_req () of Some (Inl c) \<Rightarrow>
    cx_mode c = eventMode \<and> length (filter is_executing (cx_trace c)) = 1 | _ \<Rightarrow> False)"
  by code_simp

theorem requests_are_checked_witness:
  "case event_serve (sample_app 1) sample_req () of
     Some (Inl c) \<Rightarrow> \<exists>d d'. Checking d \<in> set (cx_trace c) \<and> event_check (sample_app 1) d = Ret (Proceed, d')
   | _ \<Rightarrow> False"
proof -
  obtain c where c: "event_serve (sample_app 1) sample_req () = Some (Inl c)" "cx_mode c = eventMode" "length (filter is_executing (cx_trace c)) = 1"
    using sample_event by (auto split: option.splits sum.splits)
  have "\<exists>e \<in> set (cx_trace c). is_executing e" using c(3) by (metis filter_empty_conv length_0_conv zero_neq_one)
  then have "Executing \<in> set (cx_trace c)" by (metis ctx_event.exhaust is_event_simps(6-8))
  then show ?thesis using requests_are_checked [OF insertI1 c(1)] c(1,2) by (auto simp: mode_check_def)
qed

definition calm_app :: "unit app" where
  "calm_app = (sample_app 1)\<lparr>a_code := \<lambda>n. sample_code (if n = 2 then 1 else n)\<rparr>"

lemma calm_kernel: "a_kernel calm_app = sample_kernel 1"
  by (simp add: calm_app_def sample_app_def)

lemma sample_funcings:
  "\<forall>m \<in> set [planMode, eventMode, queueMode, socketMode]. \<forall>key \<in> set [''request'', ''response''].
     funcings (filter_branch m) key [] (sample_kernel 1) = Ret (if m = eventMode then [1] else [])"
  by code_simp

lemma calm_funcings:
  "funcings (filter_branch m) ''request'' [] (a_kernel calm_app) = Ret (if m = eventMode then [1] else [])"
  "funcings (filter_branch m) ''response'' [] (a_kernel calm_app) = Ret (if m = eventMode then [1] else [])"
  using sample_funcings by (cases m; simp add: calm_kernel)+

lemma calm_passing: "passing calm_app m ''request'' \<and> passing calm_app m ''response''"
  by (auto simp: passing_def calm_funcings passes_def) (simp_all add: calm_app_def sample_code_def)

lemma calm_gentle: "gentle calm_app n"
  by (simp add: gentle_def calm_app_def sample_code_def)

lemma calm_sent: "events (event_serve calm_app sample_req ()) = Some [Delay 3]"
  by code_simp

theorem requests_are_answered_witness:
  "\<exists>y. event_serve calm_app sample_req () = Some y \<and> (\<forall>c. y = Inl c \<longrightarrow> answered c) \<and> events (Some y) = Some [Delay 3]"
  using requests_are_answered [OF _ _ _ insertI1, of calm_app True Leader sample_req "()"] calm_gentle calm_passing calm_sent by metis

text \<open>
  When a filter before the answer calls for a handler, as it may after \<open>Next\<close> in any other place, the handler clears the chain, the
  body of the module with it: the driver gets no answer and the databases stay open. The event is lost, although it was checked and its action ran.
\<close>

theorem failing_response_filter_loses_answer:
  "(case event_serve (sample_app 2) sample_req () of Some (Inl c) \<Rightarrow>
      length (filter is_executing (cx_trace c)) = 1 \<and> filter is_sent (cx_trace c) = [] \<and> (\<forall>e \<in> set (cx_trace c). case e of Closed _ \<Rightarrow> False | _ \<Rightarrow> True)
    | _ \<Rightarrow> False)"
  by code_simp

text \<open>
  A socket context is made without a map of entities: a message for a route with an entity that exists panics.
\<close>

theorem socket_entity_panics:
  "socket_serve (sample_app 1) (\<lambda>s. Some [(''name'', VStr ''see''), (''data'', VMap [(''id'', VStr ''7'')])]) ''5'' ''{}'' () =
     Some (Inr ''assignment to entry in nil map'')"
  by code_simp

end
