(* ===== verification/Hashring.thy ===== *)
theory Hashring
  imports Go_Strings "HOL-Library.AList" "HOL-Library.Multiset"
begin

unbundle bit_operations_syntax

text \<open>
  The ring that spreads names over the connections of a module by weight (\<open>hashring/hashring.go\<close>): each connection
  has spots on the ring in proportion to its weight, and a name belongs to the first spot at or after its own value. SHA-1, the share of
  a connection, which the code computes in floating point, and the order \<open>sort.Sort\<close> gives to nodes with the same spot are
  left open: they are the fields of \<open>ring_env\<close>. The mutex makes each operation atomic.
\<close>

record node =
  n_nodeKey :: string
  n_spotValue :: uint32

record HashRing =
  hr_spots :: int
  hr_nodes :: "node list"
  hr_weights :: "(string \<times> int) list"

text \<open>\<open>e_share w totalW totalVirtualSpots\<close> is
  \<open>int(math.Floor(float64(w) / float64(totalW) * float64(totalVirtualSpots)))\<close>.\<close>

record ring_env =
  e_sha1 :: "bytes \<Rightarrow> bytes"
  e_share :: "int \<Rightarrow> int \<Rightarrow> int \<Rightarrow> int"
  e_sort :: "node list \<Rightarrow> node list"

text \<open>What \<open>sort.Sort\<close> promises: the same nodes, ordered by \<open>Less\<close>.\<close>

definition sorts :: "(node list \<Rightarrow> node list) \<Rightarrow> bool" where
  "sorts srt \<longleftrightarrow> (\<forall>ns. mset (srt ns) = mset ns \<and> sorted (map n_spotValue (srt ns)))"

definition genValue :: "bytes \<Rightarrow> uint32" where
  "genValue bs =
     (if length bs < 4 then 0
      else push_bit 24 (of_char (bs ! 3)) OR push_bit 16 (of_char (bs ! 2)) OR push_bit 8 (of_char (bs ! 1)) OR of_char (bs ! 0))"

definition spot_of :: "ring_env \<Rightarrow> string \<Rightarrow> uint32" where
  "spot_of e s = genValue (take 4 (drop 6 (e_sha1 e s)))"

definition node_spots :: "ring_env \<Rightarrow> string \<Rightarrow> int \<Rightarrow> node list" where
  "node_spots e nodeKey spots =
     map (\<lambda>i. \<lparr>n_nodeKey = nodeKey, n_spotValue = spot_of e (nodeKey @ '':'' @ Itoa (int i))\<rparr>) [1..<nat spots + 1]"

definition totalW :: "(string \<times> int) list \<Rightarrow> int" where
  "totalW ws = i64 (sum_list (map snd ws))"

definition generate :: "ring_env \<Rightarrow> HashRing \<Rightarrow> HashRing" where
  "generate e h =
     (let total = totalW (hr_weights h); totalVirtualSpots = i64 (hr_spots h * int (length (hr_weights h)))
      in h\<lparr>hr_nodes := e_sort e (concat (map (\<lambda>(nodeKey, w). node_spots e nodeKey (e_share e w total totalVirtualSpots)) (hr_weights h)))\<rparr>)"

definition New_ring :: "ring_env \<Rightarrow> (string \<times> int) list \<Rightarrow> int list \<Rightarrow> HashRing" where
  "New_ring e weights spotsArgs =
     generate e \<lparr>hr_spots = (case spotsArgs of s # _ \<Rightarrow> if s > 0 then s else 10 | [] \<Rightarrow> 10), hr_nodes = [], hr_weights = weights\<rparr>"

definition Append :: "ring_env \<Rightarrow> string \<Rightarrow> int \<Rightarrow> HashRing \<Rightarrow> HashRing" where
  "Append e nodeKey weight h = generate e (h\<lparr>hr_weights := AList.update nodeKey weight (hr_weights h)\<rparr>)"

definition Remove :: "ring_env \<Rightarrow> string \<Rightarrow> HashRing \<Rightarrow> HashRing" where
  "Remove e nodeKey h = generate e (h\<lparr>hr_weights := AList.delete nodeKey (hr_weights h)\<rparr>)"

definition Update :: "ring_env \<Rightarrow> string \<Rightarrow> int \<Rightarrow> HashRing \<Rightarrow> HashRing" where
  "Update e nodeKey weight h = generate e (h\<lparr>hr_weights := AList.update nodeKey weight (hr_weights h)\<rparr>)"

text \<open>\<open>sort.Search\<close>\<close>

function search_loop :: "(nat \<Rightarrow> bool) \<Rightarrow> nat \<Rightarrow> nat \<Rightarrow> nat" where
  "search_loop f i j = (if i < j then let h = (i + j) div 2 in if \<not> f h then search_loop f (h + 1) j else search_loop f i h else i)"
  by pat_completeness auto
termination
  by (relation "measure (\<lambda>(f, i, j). j - i)") (auto simp: Let_def)

definition sort_Search :: "nat \<Rightarrow> (nat \<Rightarrow> bool) \<Rightarrow> nat" where
  "sort_Search n f = search_loop f 0 n"

definition Locate :: "ring_env \<Rightarrow> HashRing \<Rightarrow> string \<Rightarrow> string" where
  "Locate e h s =
     (if hr_nodes h = [] then []
      else let v = spot_of e s;
               i = sort_Search (length (hr_nodes h)) (\<lambda>i. n_spotValue (hr_nodes h ! i) \<ge> v)
           in n_nodeKey (hr_nodes h ! (if i = length (hr_nodes h) then 0 else i)))"

section \<open>Binary search\<close>

declare search_loop.simps [simp del]

lemma search_loop_correct:
  assumes mono: "\<And>a b. a \<le> b \<Longrightarrow> b < n \<Longrightarrow> f a \<Longrightarrow> f b"
    and "i \<le> j" and "\<And>k. k < i \<Longrightarrow> \<not> f k" and "\<And>k. j \<le> k \<Longrightarrow> k < n \<Longrightarrow> f k" and "j \<le> n"
  shows "search_loop f i j \<le> n \<and> (\<forall>k < search_loop f i j. \<not> f k) \<and> (\<forall>k. search_loop f i j \<le> k \<and> k < n \<longrightarrow> f k)"
  using assms(2-5)
proof (induction "j - i" arbitrary: i j rule: less_induct)
  case less
  let ?h = "(i + j) div 2"
  show ?case
  proof (cases "i < j")
    case False
    then have "search_loop f i j = i" by (subst search_loop.simps) simp
    then show ?thesis using less(2-5) False by simp
  next
    case True
    then have h: "i \<le> ?h" "?h < j" by auto
    show ?thesis
    proof (cases "f ?h")
      case True
      have e: "search_loop f i j = search_loop f i ?h" using \<open>i < j\<close> True by (subst search_loop.simps) (simp add: Let_def)
      show ?thesis unfolding e
      proof (rule less(1))
        show "?h - i < j - i" "i \<le> ?h" "?h \<le> n" using h less(5) by linarith+
        show "\<not> f k" if "k < i" for k using less(3) that by blast
        show "f k" if "?h \<le> k" "k < n" for k using mono that True by blast
      qed
    next
      case False
      have e: "search_loop f i j = search_loop f (?h + 1) j" using \<open>i < j\<close> False by (subst search_loop.simps) (simp add: Let_def)
      show ?thesis unfolding e
      proof (rule less(1))
        show "j - (?h + 1) < j - i" "?h + 1 \<le> j" "j \<le> n" using h less(5) by linarith+
        show "\<not> f k" if "k < ?h + 1" for k
        proof -
          have "k \<le> ?h" "?h < n" using that h less(5) by linarith+
          then show ?thesis using mono False by blast
        qed
        show "f k" if "j \<le> k" "k < n" for k using less(4) that by blast
      qed
    qed
  qed
qed

text \<open>On a predicate that stays true, \<open>sort.Search\<close> finds the first index where it is true, or the length.\<close>

lemma sort_Search_first:
  assumes "\<And>a b. a \<le> b \<Longrightarrow> b < n \<Longrightarrow> f a \<Longrightarrow> f b"
  shows "sort_Search n f \<le> n" "k < sort_Search n f \<Longrightarrow> \<not> f k" "sort_Search n f < n \<Longrightarrow> f (sort_Search n f)"
  using search_loop_correct [of n f 0 n] assms by (auto simp: sort_Search_def)

section \<open>Where a name belongs\<close>

text \<open>The first spot at or after the value of the name, or the first of all when there is none.\<close>

definition owner :: "node list \<Rightarrow> uint32 \<Rightarrow> string" where
  "owner ns v = (case filter (\<lambda>n. v \<le> n_spotValue n) ns of
      n # _ \<Rightarrow> n_nodeKey n
    | [] \<Rightarrow> (case ns of n # _ \<Rightarrow> n_nodeKey n | [] \<Rightarrow> []))"

lemma filter_first:
  assumes "i < length xs" and "P (xs ! i)" and "\<And>k. k < i \<Longrightarrow> \<not> P (xs ! k)"
  shows "\<exists>ys. filter P xs = xs ! i # ys"
proof -
  have "filter P (take i xs) = []" using assms(1,3) by (auto simp: filter_empty_conv in_set_conv_nth)
  moreover have "xs = take i xs @ xs ! i # drop (Suc i) xs" using assms(1) by (rule id_take_nth_drop)
  ultimately show ?thesis using assms(2) by (metis append_Nil filter.simps(2) filter_append)
qed

lemma Locate_owner:
  assumes "sorted (map n_spotValue (hr_nodes h))"
  shows "Locate e h s = owner (hr_nodes h) (spot_of e s)"
proof (cases "hr_nodes h")
  case Nil
  then show ?thesis by (simp add: Locate_def owner_def)
next
  case (Cons n0 ns0)
  let ?ns = "hr_nodes h" and ?v = "spot_of e s"
  let ?f = "\<lambda>i. ?v \<le> n_spotValue (?ns ! i)" and ?i = "sort_Search (length (hr_nodes h)) (\<lambda>i. spot_of e s \<le> n_spotValue (hr_nodes h ! i))"
  have mono: "?f b" if le: "a \<le> b" and b: "b < length ?ns" and fa: "?f a" for a b
  proof -
    have "n_spotValue (?ns ! a) \<le> n_spotValue (?ns ! b)" using sorted_nth_mono [OF assms le] le b by simp
    with fa show ?thesis by (rule order_trans)
  qed
  have first: "?i \<le> length ?ns" "\<And>k. k < ?i \<Longrightarrow> \<not> ?f k" "?i < length ?ns \<Longrightarrow> ?f ?i"
    using sort_Search_first [of "length ?ns" ?f] mono by blast+
  show ?thesis
  proof (cases "?i < length ?ns")
    case True
    then obtain ys where "filter (\<lambda>n. ?v \<le> n_spotValue n) ?ns = ?ns ! ?i # ys"
      using filter_first [of ?i ?ns "\<lambda>n. ?v \<le> n_spotValue n"] first by blast
    then show ?thesis using True Cons by (simp add: Locate_def owner_def Let_def)
  next
    case False
    then have i: "?i = length ?ns" using first(1) by simp
    have "filter (\<lambda>n. ?v \<le> n_spotValue n) ?ns = []" using first(2) i by (auto simp: filter_empty_conv in_set_conv_nth)
    then show ?thesis using i Cons by (simp add: Locate_def owner_def Let_def)
  qed
qed

text \<open>Taking away the spots of a connection keeps the names of the others where they are.\<close>

lemma owner_filter:
  assumes "owner ns v \<noteq> k" and "ns \<noteq> []"
  shows "owner (filter (\<lambda>n. n_nodeKey n \<noteq> k) ns) v = owner ns v"
proof (cases "filter (\<lambda>n. v \<le> n_spotValue n) ns")
  case Nil
  obtain n ms where ns: "ns = n # ms" using assms(2) by (cases ns) simp
  then have "n_nodeKey n \<noteq> k" using assms(1) Nil by (simp add: owner_def)
  moreover have "filter (\<lambda>n. v \<le> n_spotValue n) (filter (\<lambda>n. n_nodeKey n \<noteq> k) ns) = []" using Nil by (auto simp: filter_empty_conv)
  ultimately show ?thesis using Nil ns by (simp add: owner_def)
next
  case (Cons n ms)
  then have "n_nodeKey n \<noteq> k" using assms(1) by (simp add: owner_def)
  moreover have "filter (\<lambda>n. v \<le> n_spotValue n) (filter (\<lambda>n. n_nodeKey n \<noteq> k) ns) = filter (\<lambda>n. n_nodeKey n \<noteq> k) (filter (\<lambda>n. v \<le> n_spotValue n) ns)"
    by (simp add: conj_commute)
  ultimately show ?thesis using Cons by (simp add: owner_def)
qed

section \<open>Rings the operations build\<close>

text \<open>The nodes are always those of the weights: every operation ends in \<open>generate\<close>.\<close>

definition generated :: "ring_env \<Rightarrow> HashRing \<Rightarrow> bool" where
  "generated e h \<longleftrightarrow> generate e h = h"

lemma generated_ops:
  "generated e (New_ring e ws args)" "generated e (Append e k w h)" "generated e (Remove e k h)" "generated e (Update e k w h)"
  by (simp_all add: generated_def New_ring_def Append_def Remove_def Update_def generate_def Let_def)

definition share_of :: "ring_env \<Rightarrow> HashRing \<Rightarrow> int \<Rightarrow> int" where
  "share_of e h w = e_share e w (totalW (hr_weights h)) (i64 (hr_spots h * int (length (hr_weights h))))"

definition ring_nodes :: "ring_env \<Rightarrow> HashRing \<Rightarrow> node list" where
  "ring_nodes e h = concat (map (\<lambda>(k, w). node_spots e k (share_of e h w)) (hr_weights h))"

lemma generate_nodes: "generate e h = h\<lparr>hr_nodes := e_sort e (ring_nodes e h)\<rparr>"
  by (simp add: generate_def ring_nodes_def share_of_def Let_def)

lemma generated_nodes:
  assumes "generated e h"
  shows "hr_nodes h = e_sort e (ring_nodes e h)"
proof -
  have "hr_nodes (generate e h) = e_sort e (ring_nodes e h)" by (simp add: generate_nodes)
  then show ?thesis using assms by (simp add: generated_def)
qed

lemma generated_sorted:
  assumes "generated e h" and "sorts (e_sort e)"
  shows "sorted (map n_spotValue (hr_nodes h))" "mset (hr_nodes h) = mset (ring_nodes e h)"
  using generated_nodes [OF assms(1)] assms(2) by (simp_all add: sorts_def)

lemma sort_unique:
  assumes "sorts srt" and "distinct (map n_spotValue ns)"
  shows "srt ns = sort_key n_spotValue ns"
  using assms sort_key_inj_key_eq [of ns "srt ns" n_spotValue] by (simp add: sorts_def distinct_map)

lemma node_spots_key: "n \<in> set (node_spots e k c) \<Longrightarrow> n_nodeKey n = k"
  by (auto simp: node_spots_def)

lemma filter_node_spots: "filter (\<lambda>n. n_nodeKey n \<noteq> k) (node_spots e k' c) = (if k' = k then [] else node_spots e k' c)"
  by (auto simp: filter_empty_conv filter_id_conv dest: node_spots_key)

lemma ring_nodes_Remove:
  assumes "\<And>k' w. (k', w) \<in> set (hr_weights h) \<Longrightarrow> k' \<noteq> k \<Longrightarrow> share_of e (Remove e k h) w = share_of e h w"
  shows "ring_nodes e (Remove e k h) = filter (\<lambda>n. n_nodeKey n \<noteq> k) (ring_nodes e h)"
proof -
  have "concat (map (\<lambda>(k, w). node_spots e k (share_of e h' w)) (AList.delete k ws)) =
      filter (\<lambda>n. n_nodeKey n \<noteq> k) (concat (map (\<lambda>(k, w). node_spots e k (share_of e h w)) ws))"
    if "\<And>k' w. (k', w) \<in> set ws \<Longrightarrow> k' \<noteq> k \<Longrightarrow> share_of e h' w = share_of e h w" for ws h'
    using that
  proof (induction ws)
    case (Cons kw ws)
    obtain k' w where kw: "kw = (k', w)" by (cases kw)
    have "concat (map (\<lambda>(k, w). node_spots e k (share_of e h' w)) (AList.delete k ws)) =
        filter (\<lambda>n. n_nodeKey n \<noteq> k) (concat (map (\<lambda>(k, w). node_spots e k (share_of e h w)) ws))"
      by (rule Cons.IH) (rule Cons.prems, rule list.set_intros(2))
    then show ?case using Cons.prems [of k' w] by (auto simp: kw filter_node_spots)
  qed simp
  from this [of "hr_weights h" "Remove e k h"] assms show ?thesis
    by (simp add: ring_nodes_def Remove_def generate_nodes)
qed

lemma nodes_Remove:
  assumes g: "generated e h" and srt: "sorts (e_sort e)" and d: "distinct (map n_spotValue (hr_nodes h))"
    and share: "\<And>k' w. (k', w) \<in> set (hr_weights h) \<Longrightarrow> k' \<noteq> k \<Longrightarrow> share_of e (Remove e k h) w = share_of e h w"
  shows "hr_nodes (Remove e k h) = filter (\<lambda>n. n_nodeKey n \<noteq> k) (hr_nodes h)"
proof -
  let ?P = "\<lambda>n. n_nodeKey n \<noteq> k"
  have "mset (map n_spotValue (hr_nodes h)) = mset (map n_spotValue (ring_nodes e h))"
    using generated_sorted(2) [OF g srt] by simp
  then have dr: "distinct (map n_spotValue (ring_nodes e h))" using d mset_eq_imp_distinct_iff by blast
  then have df: "distinct (map n_spotValue (filter ?P (ring_nodes e h)))" by (rule distinct_map_filter)
  have "hr_nodes (Remove e k h) = e_sort e (filter ?P (ring_nodes e h))"
    using generated_nodes [OF generated_ops(3)] ring_nodes_Remove [of h k e] share by simp
  also have "\<dots> = sort_key n_spotValue (filter ?P (ring_nodes e h))" using sort_unique [OF srt df] .
  also have "\<dots> = filter ?P (sort_key n_spotValue (ring_nodes e h))" by (simp only: filter_sort)
  also have "\<dots> = filter ?P (hr_nodes h)" using generated_nodes [OF g] sort_unique [OF srt dr] by simp
  finally show ?thesis .
qed

text \<open>C40: (Consistent hashing.) Removing a connection moves only the names that belonged to it: when the spots on the ring differ and
  the number of spots of the other connections stays the same (so it is with equal weights and an exact quotient), a name that belongs to another
  connection still does.\<close>

theorem Remove_moves_only_its_names:
  assumes "generated e h" and "sorts (e_sort e)" and "distinct (map n_spotValue (hr_nodes h))"
    and "\<And>k' w. (k', w) \<in> set (hr_weights h) \<Longrightarrow> k' \<noteq> k \<Longrightarrow> share_of e (Remove e k h) w = share_of e h w"
    and other: "Locate e h s \<noteq> k"
  shows "Locate e (Remove e k h) s = Locate e h s"
proof -
  have r: "hr_nodes (Remove e k h) = filter (\<lambda>n. n_nodeKey n \<noteq> k) (hr_nodes h)" using nodes_Remove assms(1-4) by blast
  have o1: "Locate e h s = owner (hr_nodes h) (spot_of e s)" by (rule Locate_owner, rule generated_sorted(1) [OF assms(1,2)])
  have o2: "Locate e (Remove e k h) s = owner (hr_nodes (Remove e k h)) (spot_of e s)"
    by (rule Locate_owner, rule generated_sorted(1) [OF generated_ops(3) assms(2)])
  show ?thesis
  proof (cases "hr_nodes h = []")
    case True
    then show ?thesis by (simp add: Locate_def r)
  next
    case False
    then show ?thesis using owner_filter [of "hr_nodes h" "spot_of e s" k] other by (simp add: o1 o2 r)
  qed
qed

text \<open>A ring of three connections of the same weight, with the quotient taken exactly.\<close>

definition ring_demo :: ring_env where
  "ring_demo = \<lparr>e_sha1 = (\<lambda>s. replicate 6 (CHR 0x00) @ rev (replicate 4 (CHR 0x00) @ s) @ replicate 20 (CHR 0x00)),
     e_share = (\<lambda>w total spots. if total = 0 then 0 else w * spots div total), e_sort = sort_key n_spotValue\<rparr>"

definition ring_abc :: HashRing where
  "ring_abc = New_ring ring_demo [(''a'', 5), (''b'', 5), (''c'', 5)] [2]"

theorem Remove_moves_only_its_names_witness:
  "Locate ring_demo ring_abc ''x'' = ''a'' \<and> Locate ring_demo (Remove ring_demo ''b'' ring_abc) ''x'' = ''a'' \<and>
   hr_nodes (Remove ring_demo ''b'' ring_abc) \<noteq> hr_nodes ring_abc"
proof -
  have l: "Locate ring_demo ring_abc ''x'' = ''a''" by code_simp
  have "Locate ring_demo (Remove ring_demo ''b'' ring_abc) ''x'' = Locate ring_demo ring_abc ''x''"
  proof (rule Remove_moves_only_its_names)
    show "generated ring_demo ring_abc" unfolding ring_abc_def by (rule generated_ops)
    show "sorts (e_sort ring_demo)" by (simp add: sorts_def ring_demo_def)
    show "distinct (map n_spotValue (hr_nodes ring_abc))" by code_simp
    show "share_of ring_demo (Remove ring_demo ''b'' ring_abc) w = share_of ring_demo ring_abc w"
      if "(k', w) \<in> set (hr_weights ring_abc)" "k' \<noteq> ''b''" for k' w
      using that by (auto simp: ring_abc_def New_ring_def Remove_def generate_nodes share_of_def totalW_def ring_demo_def)
    show "Locate ring_demo ring_abc ''x'' \<noteq> ''b''" unfolding l by simp
  qed
  moreover have "hr_nodes (Remove ring_demo ''b'' ring_abc) \<noteq> hr_nodes ring_abc" by code_simp
  ultimately show ?thesis using l by simp
qed

end
