(* ===== verification/Spec2Isabelle.thy ===== *)
theory Spec2Isabelle
  imports Raft_Election Raft_Replication Cron_Runner Kv_Store Fastid Query_Parser App_Codes Raft_File_Snapshot Request_Pipeline Hashring
begin

text \<open>
  \<^bold>\<open>A verification library of the bigger framework.\<close>

  The repository is a Go application framework (root package \<open>bigger\<close>) with its own libraries:
  a Raft consensus implementation (\<open>raft/\<close>), a cron scheduler (\<open>cron/\<close>), short ids
  (\<open>hashid/\<close>), unique numbers (\<open>fastid/\<close>) and a hash ring (\<open>hashring/\<close>). The root package builds a
  replicated key-value store on the Raft library (\<open>raft.go\<close>), which its configuration, mutexes and sessions can use, keeps
  everything an application registers in one registry (\<open>core.go\<close>), checks input against configurations
  (\<open>mapping.go\<close>), and serves plans, events, queues and sockets through contexts with chains of functions
  (\<open>context.go\<close>). The library follows the code from the bottom up; each theory names the files it translates
  in its first block.

  \<^bold>\<open>Theories and the code they model.\<close>

  \<^item> \<open>Go_Prelude\<close>, \<open>Go_Strings\<close>, \<open>Go_Values\<close>: Go itself. Machine integers (\<open>uint64\<close> is a 64-bit
    word, \<open>int64\<close> an \<open>int\<close> with the wrap-around \<open>i64\<close> where it can matter), the outcome
    of a call (\<open>Ret\<close> a value, \<open>Panic\<close>, \<open>Diverge\<close>), the counting loop over
    \<open>uint64\<close> with its rules, decimal numbers, the string functions the sources use, and the dynamic
    values \<open>Any\<close> and \<open>Map\<close> with function values as numbers.

  \<^item> \<open>Raft_Log\<close>: log entries, messages, errors, peer lists and their codec, back-off
    (\<open>raft/log.go\<close>, \<open>commands.go\<close>, \<open>util.go\<close>).

  \<^item> \<open>Raft_Inflight\<close>: the tracker of entries that wait for their quorum and the answers of
    futures (\<open>raft/inflight.go\<close>, \<open>future.go\<close>): the window of consecutive indexes is an
    invariant, entries are released in log order and only with a quorum, and \<open>Cancel\<close> answers all.

  \<^item> \<open>Bunt_Db\<close>, \<open>Raft_Store\<close>: the write transactions of the embedded database \<open>buntdb\<close> with their rollback, the durable store
    \<open>BuntStore\<close> over them, the byte codec of entries and the ring buffer \<open>LogCache\<close> (\<open>raft/store.go\<close>,
    \<open>log_cache.go\<close>, \<open>stable.go\<close>). The interfaces \<open>LogStore\<close> and \<open>StableStore\<close>
    are locales, interpreted on \<open>BuntStore\<close>; a store operation either does what it promises or
    reports an error and has been rolled back, which the results of the coming writes decide.

  \<^item> \<open>Raft_Node\<close>: the state of a node, its configuration and the handlers \<open>appendEntries\<close>
    and \<open>requestVote\<close>, the application of entries and \<open>electSelf\<close> (\<open>raft/raft.go\<close>,
    \<open>state.go\<close>, \<open>config.go\<close>, \<open>peer.go\<close>). The environment of a node is a record of the
    operations it calls; the locale \<open>raft_env\<close> states the laws it relies on.

  \<^item> \<open>Raft_Leader\<close>: dispatch of client entries, changes of the peer set, lease and leadership
    verification, entering and leaving leadership.

  \<^item> \<open>Raft_Snapshot\<close>: the goroutine of the state machine, taking and installing snapshots,
    trimming the log, building a node from its stores (\<open>NewRaft\<close>).

  \<^item> \<open>Raft_Server\<close>: the main goroutine as one step per event (\<open>run\<close>, \<open>runFollower\<close>,
    \<open>runCandidate\<close>, \<open>leaderLoop\<close>, \<open>processRPC\<close>, \<open>processHeartbeat\<close>), with the
    contract of a step for terms and votes.

  \<^item> \<open>Raft_Election\<close>: a cluster of nodes whose steps interleave with the delivery and loss of
    messages, heartbeats on the fast path, failures of the stores and crashes. Election safety holds in every state that is reached
    without one race, which the state records: a heartbeat on the fast path that raises the term of a waiting candidate. What the
    code does after this race is shown too.

  \<^item> \<open>Raft_Replication\<close>: replication to a peer, the heartbeat and the pipeline
    (\<open>raft/replication.go\<close>, the decoder of \<open>net_transport.go\<close>). The answers of the peer are
    a list of turns; an empty list means that the code waits for the next answer.

  \<^item> \<open>Raft_File_Snapshot\<close>: snapshots on a disk on which every system call can fail
    (\<open>raft/file_snapshot.go\<close>); it provides the interface \<open>snapshot_store\<close> that installing a snapshot relies on.

  \<^item> \<open>Raft_Client\<close>, \<open>Kv_Store\<close>: the calls of a client on a node, and the replicated
    key-value store of the root package: its state machine, snapshots, client calls and the
    forwarding of writes to the leader.

  \<^item> \<open>Cron_Schedule\<close>, \<open>Cron_Parser\<close>, \<open>Cron_Runner\<close>: activation times, the parser of cron expressions and
    the goroutines that run the jobs (\<open>cron/\<close>). The five field loops of \<open>Next\<close> are
    five instances of one locale; the runner is a step relation over entries, queue, pool of ids and goroutines.

  \<^item> \<open>Hashid\<close>, \<open>Fastid\<close>, \<open>Hashring\<close>: encoding numbers as short ids and decoding them (\<open>hashid/hashids.go\<close>),
    unique numbers under racing goroutines (\<open>fastid/fastid.go\<close>), and the ring that spreads names over connections by weight
    (\<open>hashring/hashring.go\<close>).

  \<^item> \<open>Core_Registry\<close>, \<open>Const_Module\<close>, \<open>App_Codes\<close>: the registry with its branches, blocks and chunks (\<open>core.go\<close>), the
    constants kept in it (\<open>const.go\<close>, \<open>error.go\<close>), and the codes of texts and numbers with the built-in codecs
    (\<open>bigger.go\<close>, \<open>builtin.go\<close>, \<open>index.go\<close>).

  \<^item> \<open>Mapping_Module\<close>, \<open>Query_Parser\<close>: checking and converting input against a configuration (\<open>mapping.go\<close>), and the
    conditions of a query as SQL with parameters (\<open>Parse\<close> of \<open>data.go\<close>).

  \<^item> \<open>Request_Context\<close>, \<open>Request_Pipeline\<close>: contexts with their chain of functions, sign-ins and checks (\<open>context.go\<close>), and how
    the modules \<open>plan.go\<close>, \<open>event.go\<close>, \<open>queue.go\<close> and \<open>socket.go\<close> serve a request. The
    functions of the application are arbitrary programs over the data of the context.

  \<^bold>\<open>What is shown.\<close> Safety of votes, elections, commits and log replication of the Raft node;
  what the stores promise, and that a failed write is rolled back; that a listed snapshot is complete whatever failed; that the
  replicated store is the map its log of commands describes; that \<open>Next\<close> terminates with the first matching time; that the bit sets of
  the parser are the sets they stand for and stay in bounds; that entries of the runner have one owner; that ids decode to the
  numbers they encode and unique numbers do not repeat; that removing a connection from the ring moves only its names;
  that the registry behaves as the history of its registrations; what a successful \<open>Parse\<close> has checked; that a query has as many
  placeholders as parameters; that a request is answered at most once and acts only after its checks, and, with functions that
  behave, is answered exactly once.

  Where the code does not do what it means to, a theorem shows what it does instead:
  rejections read as acceptances through a reused response, a heartbeat that makes a second leader,
  entries removed by a delayed request, a cache that answers with an entry that was not stored, a
  refused write reported as done, a cron step of 0 and a short alphabet that never return, a restarted entry that two goroutines
  serve, a removed entry that stays, ids repeated after the clock stepped back, a codec that loses texts, required records that
  may be missing, answers lost when a filter fails, a socket route that panics.

  \<^bold>\<open>Bounds and fuel.\<close> No definition has artificial fuel. Loops are structural recursion,
  \<open>function\<close> with a measure, the counting loop with its own termination proof (which diverges at
  the largest \<open>uint64\<close>, as the code does), \<open>while_option\<close> for the search of \<open>Next\<close> with a
  proof that it ends, and \<open>partial_function\<close> where the code can loop for ever (also in the chain of a request, whose
  functions may call \<open>Next\<close> without end). Failures of the
  environment and choices of \<open>select\<close> are lists of results in the state or arguments.

  \<^bold>\<open>Not modelled.\<close> Connections and key files (\<open>raft/net_transport.go\<close> but for its decoder,
  \<open>ssh_transport.go\<close>, \<open>tcp_transport.go\<close>) are input and output; random timeouts only decide when events come.
  The handlers of one Raft node run one at a time: data races inside a handler are not modelled, and what a failed
  write leaves in the file of the database is not. \<open>encoding/gob\<close>, \<open>encoding/json\<close>, regular expressions, SHA-1, checksums, the time zone
  database and \<open>time.ParseDuration\<close> are arguments of the definitions that use them. Schedules have a location with a fixed offset.
  Text is ASCII where the code changes case. Floating point is used only where the quotient is exact, and is an
  argument in the hash ring. Of the root package, the web module (\<open>http.go\<close>, the web part of \<open>context.go\<close>,
  \<open>view.go\<close>) parses and writes HTTP; \<open>data.go\<close> beside the query language, \<open>file.go\<close>, \<open>session.go\<close>, \<open>cache.go\<close>,
  \<open>mutex.go\<close>, \<open>logger.go\<close>, \<open>service.go\<close> and the sending side of \<open>plan.go\<close>, \<open>event.go\<close>,
  \<open>queue.go\<close> and \<open>socket.go\<close> hand values to drivers that are outside the repository; start, stop, plugins and configuration
  files (\<open>bigger.go\<close>, \<open>index.go\<close>, \<open>config.go\<close>) are input and output; \<open>toml/\<close> is a copy of a third-party parser, \<open>log/\<close> writes
  to files and consoles.
\<close>

end
